(* ===== verification/Prelude.thy ===== *)
theory Prelude
  imports Main "HOL-Library.Word"
begin

text \<open>
  Shared vocabulary of the development: the machine integer types of
  \<^verbatim>\<open>include/common.h\<close>, the fault values that stand for a kernel \<open>panic\<close>, a busy
  loop that nothing can leave and C undefined behaviour, the sequencing operator for
  fallible kernel code, bounded \<open>for\<close> loops, and little-endian loads and stores on
  byte arrays (the C structures that the kernel overlays on disk blocks and pages).
\<close>

unbundle bit_operations_syntax

named_theorems kdefs \<open>definitions of kernel operations, unfolded together\<close>
named_theorems layout \<open>constants of the memory and disk layout\<close>

section \<open>Machine integers\<close>

text \<open>The typedefs of \<^verbatim>\<open>include/common.h\<close>. A C \<open>int\<close> is an \<^typ>\<open>int\<close> where the code keeps
  it inside its range, and a word where its width matters.\<close>

type_synonym uint8 = "8 word"
type_synonym uint16 = "16 word"
type_synonym uint32 = "32 word"
type_synonym uint64 = "64 word"

section \<open>Faults and sequencing\<close>

text \<open>
  A kernel function that calls \<^verbatim>\<open>panic\<close> (\<^verbatim>\<open>kernel/lib/printf.c\<close>) prints the message and never
  returns: \<open>Panic msg\<close>. \<open>Spin\<close> marks a loop whose exit condition cannot become true,
  \<open>Undef\<close> an access the C standard leaves undefined.
\<close>

datatype kfault = Panic string | Spin string | Undef string

type_synonym 'a kres = "kfault + 'a"

definition kbind :: "'a kres \<Rightarrow> ('a \<Rightarrow> 'b kres) \<Rightarrow> 'b kres" where
  "kbind m f = (case m of Inl e \<Rightarrow> Inl e | Inr x \<Rightarrow> f x)"

definition kguard :: "bool \<Rightarrow> kfault \<Rightarrow> 'a kres \<Rightarrow> 'a kres" where
  "kguard c e m = (if c then m else Inl e)"

lemma kbind_simps [simp]:
  "kbind (Inr x) f = f x"
  "kbind (Inl e) f = Inl e"
  by (simp_all add: kbind_def)

lemma kbind_cong [fundef_cong]:
  "\<lbrakk>m = m'; \<And>x. m' = Inr x \<Longrightarrow> f x = g x\<rbrakk> \<Longrightarrow> kbind m f = kbind m' g"
  by (auto simp: kbind_def split: sum.splits)

lemma kbind_Inr_iff: "kbind m f = Inr y \<longleftrightarrow> (\<exists>x. m = Inr x \<and> f x = Inr y)"
  by (auto simp: kbind_def split: sum.splits)

lemma kbind_InrE:
  assumes "kbind m f = Inr y"
  obtains x where "m = Inr x" and "f x = Inr y"
  using assms by (auto simp: kbind_Inr_iff)

lemma kbind_Inl_iff:
  "kbind m f = Inl e \<longleftrightarrow> m = Inl e \<or> (\<exists>x. m = Inr x \<and> f x = Inl e)"
  by (auto simp: kbind_def split: sum.splits)

lemma kbind_assoc: "kbind (kbind m f) g = kbind m (\<lambda>x. kbind (f x) g)"
  by (auto simp: kbind_def split: sum.splits)

lemma kbind_Inr_right [simp]: "kbind m Inr = m"
  by (auto simp: kbind_def split: sum.splits)

lemma kguard_simps [simp]:
  "kguard True e m = m"
  "kguard False e m = Inl e"
  by (simp_all add: kguard_def)

lemma kguard_Inr_iff: "kguard c e m = Inr y \<longleftrightarrow> c \<and> m = Inr y"
  by (auto simp: kguard_def)

lemma kguard_true: "c \<Longrightarrow> kguard c e m = m"
  by simp

section \<open>Bounded loops\<close>

text \<open>\<open>kfold f xs s\<close> runs the loop body \<open>f\<close> for each index of \<open>xs\<close>, in order, and stops
  at the first fault.\<close>

fun kfold :: "('i \<Rightarrow> 's \<Rightarrow> 's kres) \<Rightarrow> 'i list \<Rightarrow> 's \<Rightarrow> 's kres" where
  "kfold f [] s = Inr s"
| "kfold f (x # xs) s = kbind (f x s) (kfold f xs)"

lemma kfold_append: "kfold f (xs @ ys) s = kbind (kfold f xs s) (kfold f ys)"
  by (induction xs arbitrary: s) (simp_all add: kbind_assoc cong: kbind_cong)

text \<open>The invariant rule of a total loop: every iteration that starts in the invariant
  succeeds and re-establishes it for the next index.\<close>

lemma kfold_total:
  assumes "P 0 s" and "n \<le> m"
    and "\<And>i s. \<lbrakk>i < n; P i s\<rbrakk> \<Longrightarrow> \<exists>s'. f i s = Inr s' \<and> P (Suc i) s'"
  shows "\<exists>s'. kfold f [0..<n] s = Inr s' \<and> P n s'"
proof -
  have "k \<le> n \<Longrightarrow> \<exists>s'. kfold f [0..<k] s = Inr s' \<and> P k s'" for k
  proof (induction k)
    case 0
    then show ?case using assms(1) by simp
  next
    case (Suc k)
    then obtain t where "kfold f [0..<k] s = Inr t" "P k t" by auto
    moreover from this Suc.prems obtain u where "f k t = Inr u" "P (Suc k) u"
      using assms(3) [of k t] by auto
    ultimately show ?case by (simp add: kfold_append)
  qed
  then show ?thesis by simp
qed

text \<open>The partial rule: a property kept by every successful iteration holds at the end.\<close>

lemma kfold_inv:
  assumes "kfold f xs s = Inr s'" and "I s"
    and "\<And>x s s'. \<lbrakk>x \<in> set xs; f x s = Inr s'; I s\<rbrakk> \<Longrightarrow> I s'"
  shows "I s'"
  using assms
proof (induction xs arbitrary: s)
  case Nil
  then show ?case by simp
next
  case (Cons x xs)
  from Cons.prems(1) obtain t where t: "f x s = Inr t" "kfold f xs t = Inr s'"
    by (auto elim: kbind_InrE)
  have "I t" using Cons.prems(2,3) t(1) by auto
  then show ?case using Cons.IH [OF t(2)] Cons.prems(3) by auto
qed

section \<open>Little-endian fields of byte arrays\<close>

text \<open>A byte array is a function from offsets to bytes. \<open>le_load n d k\<close> reads the \<open>n\<close>-byte
  little-endian integer at offset \<open>k\<close>, \<open>le_store n d k v\<close> writes one.\<close>

type_synonym bytes = "nat \<Rightarrow> uint8"

fun le_load :: "nat \<Rightarrow> bytes \<Rightarrow> nat \<Rightarrow> 'a::len word" where
  "le_load 0 d k = 0"
| "le_load (Suc n) d k = ucast (d k) OR push_bit 8 (le_load n d (Suc k))"

definition le_store :: "nat \<Rightarrow> bytes \<Rightarrow> nat \<Rightarrow> 'a::len word \<Rightarrow> bytes" where
  "le_store n d k v =
     (\<lambda>x. if k \<le> x \<and> x < k + n then ucast (drop_bit (8 * (x - k)) v) else d x)"

definition copy_bytes :: "bytes \<Rightarrow> nat \<Rightarrow> bytes \<Rightarrow> nat \<Rightarrow> nat \<Rightarrow> bytes" where
  "copy_bytes dst k src j n =
     (\<lambda>x. if k \<le> x \<and> x < k + n then src (j + (x - k)) else dst x)"

lemma bit_le_load:
  "bit (le_load n d k :: 'a::len word) j \<longleftrightarrow>
     j < LENGTH('a) \<and> j div 8 < n \<and> bit (d (k + j div 8)) (j mod 8)"
proof (induction n arbitrary: k j)
  case 0
  then show ?case by simp
next
  case (Suc n)
  show ?case
  proof (cases "j < 8")
    case True
    then show ?thesis by (auto simp: bit_simps)
  next
    case False
    then have d: "j div 8 = Suc ((j - 8) div 8)" and m: "(j - 8) mod 8 = j mod 8"
      by (simp_all add: le_div_geq le_mod_geq)
    have "bit (ucast (d k) :: 'a word) j = False"
      using False by (auto simp: bit_simps dest: bit_imp_le_length)
    then show ?thesis
      using False Suc.IH [of "Suc k" "j - 8"] d m by (auto simp: bit_simps)
  qed
qed

lemma le_load_cong:
  "(\<And>i. i < n \<Longrightarrow> d (k + i) = d' (k' + i)) \<Longrightarrow> le_load n d k = le_load n d' k'"
  by (rule bit_eqI) (auto simp: bit_le_load)

lemma le_load_store_same:
  fixes v :: "'a::len word"
  assumes "LENGTH('a) = 8 * n"
  shows "(le_load n (le_store n d k v) k :: 'a word) = v"
proof (rule bit_word_eqI)
  fix j assume "j < LENGTH('a)"
  then have "j div 8 < n" "8 * (j div 8) + j mod 8 = j" using assms by auto
  then show "bit (le_load n (le_store n d k v) k :: 'a word) j \<longleftrightarrow> bit v j"
    using \<open>j < LENGTH('a)\<close> by (auto simp: bit_le_load le_store_def bit_simps)
qed

lemma le_load_store_other:
  "k + n \<le> j \<or> j + m \<le> k \<Longrightarrow> le_load m (le_store n d k v) j = le_load m d j"
  by (rule le_load_cong) (auto simp: le_store_def)

lemma le_store_apply:
  "le_store n d k v x = (if k \<le> x \<and> x < k + n then ucast (drop_bit (8 * (x - k)) v) else d x)"
  by (simp add: le_store_def)

lemma le_load_copy:
  "k \<le> i \<Longrightarrow> i + m \<le> k + n \<Longrightarrow>
     le_load m (copy_bytes dst k src j n) i = le_load m src (j + (i - k))"
  by (rule le_load_cong) (auto simp: copy_bytes_def intro!: arg_cong [where f = src])

section \<open>Word facts\<close>

lemma unat_of_nat_small:
  "n < 2 ^ LENGTH('a) \<Longrightarrow> unat (of_nat n :: 'a::len word) = n"
  by (simp add: unat_of_nat take_bit_nat_eq_self)

lemma word_less_1_iff [simp]: "(x :: 'a::len word) < 1 \<longleftrightarrow> x = 0"
  by (simp add: word_less_nat_alt unat_eq_zero)

lemma unat_add_of_nat:
  "unat s + e < 2 ^ LENGTH('a) \<Longrightarrow> unat (s + of_nat e) = unat s + e"
  for s :: "'a::len word"
  by (simp add: unat_word_ariths(1) unat_of_nat take_bit_nat_eq_self)

lemma unat_diff_iff:
  "k < 2 ^ LENGTH('a) \<Longrightarrow> unat (a - d) = k \<longleftrightarrow> a = d + of_nat k"
  for a d :: "'a::len word"
proof
  assume "unat (a - d) = k"
  then have "of_nat (unat (a - d)) = (of_nat k :: 'a word)" by simp
  then show "a = d + of_nat k" by (simp add: algebra_simps)
next
  assume "k < 2 ^ LENGTH('a)" and "a = d + of_nat k"
  then show "unat (a - d) = k" by (simp add: unat_of_nat take_bit_nat_eq_self)
qed

text \<open>The conversion of an unsigned value to a C \<open>int\<close> keeps the low 32 bits.\<close>

definition to_int :: "'a::len word \<Rightarrow> int" where
  "to_int w = sint (ucast w :: uint32)"

lemma to_int_small: "unat w < 2 ^ 31 \<Longrightarrow> to_int w = int (unat w)"
proof -
  assume a: "unat w < 2 ^ 31"
  then have "unat (ucast w :: uint32) = unat w"
    by (simp add: unsigned_ucast_eq take_bit_nat_eq_self)
  from arg_cong [OF this, of int] have u: "uint (ucast w :: uint32) = int (unat w)" by simp
  have "sint (ucast w :: uint32) = signed_take_bit 31 (uint (ucast w :: uint32))"
    by (simp add: sint_uint)
  also have "\<dots> = int (unat w)" unfolding u
  proof (rule signed_take_bit_int_eq_self)
    have "int (unat w) < int (2 ^ 31)" using a by (simp only: of_nat_less_iff)
    then show "int (unat w) < 2 ^ 31" by simp
    show "- (2 ^ 31) \<le> int (unat w)" by (rule order_trans [of _ 0]) simp_all
  qed
  finally show ?thesis by (simp add: to_int_def)
qed

lemma word_of_int_to_int:
  fixes w :: uint64
  assumes "unat w < 2 ^ 31"
  shows "(word_of_int (to_int w) :: uint64) = w"
  using assms by (simp add: to_int_small)

lemma unat_word_of_int_small:
  assumes "0 \<le> x" and "x < 2 ^ LENGTH('a)"
  shows "unat (word_of_int x :: 'a::len word) = nat x"
proof -
  have "uint (word_of_int x :: 'a word) = x"
    using assms by (simp add: uint_word_of_int_eq take_bit_int_eq_self)
  then show ?thesis by (metis nat_uint_eq)
qed

lemma sint_word_of_int_small:
  assumes "- (2 ^ 31) \<le> x" and "x < 2 ^ 31"
  shows "sint (word_of_int x :: uint32) = x"
  using assms by (simp add: sint_sbintrunc' signed_take_bit_int_eq_self)

end
