(* ===== verification/Str.thy ===== *)
theory Str
  imports Prelude
begin

text \<open>
  \<^verbatim>\<open>kernel/lib/str.c\<close>: the memory and string routines of the kernel. \<^verbatim>\<open>memset\<close> and
  \<^verbatim>\<open>memmove\<close> work on the flat physical memory, where source and destination may overlap;
  the comparison and string routines only look through their pointers, so a pointer is the
  array of bytes it points to. On RISC-V a plain \<^verbatim>\<open>char\<close> is unsigned.
\<close>

section \<open>Memory\<close>

type_synonym mem = "uint64 \<Rightarrow> uint8"

text \<open>The bytes a pointer sees.\<close>

definition view :: "mem \<Rightarrow> uint64 \<Rightarrow> bytes" where
  "view m a = (\<lambda>i. m (a + of_nat i))"

fun memset_loop :: "nat \<Rightarrow> nat \<Rightarrow> uint64 \<Rightarrow> uint8 \<Rightarrow> mem \<Rightarrow> mem" where
  "memset_loop 0 i dst c m = m"
| "memset_loop (Suc k) i dst c m = memset_loop k (Suc i) dst c (m(dst + of_nat i := c))"

definition memset :: "mem \<Rightarrow> uint64 \<Rightarrow> int \<Rightarrow> uint32 \<Rightarrow> mem" where
  "memset m dst c n = memset_loop (unat n) 0 dst (word_of_int c) m"

fun memcmp_loop :: "nat \<Rightarrow> bytes \<Rightarrow> bytes \<Rightarrow> nat \<Rightarrow> int" where
  "memcmp_loop 0 s1 s2 i = 0"
| "memcmp_loop (Suc k) s1 s2 i =
     (if s1 i \<noteq> s2 i then uint (s1 i) - uint (s2 i) else memcmp_loop k s1 s2 (Suc i))"

definition memcmp :: "bytes \<Rightarrow> bytes \<Rightarrow> uint32 \<Rightarrow> int" where
  "memcmp v1 v2 n = memcmp_loop (unat n) v1 v2 0"

text \<open>The two loops of \<^verbatim>\<open>memmove\<close>: \<^verbatim>\<open>*--d = *--s\<close> from the end, \<^verbatim>\<open>*d++ = *s++\<close> from the start.\<close>

fun memmove_bwd :: "nat \<Rightarrow> uint64 \<Rightarrow> uint64 \<Rightarrow> mem \<Rightarrow> mem" where
  "memmove_bwd 0 d s m = m"
| "memmove_bwd (Suc k) d s m = memmove_bwd k (d - 1) (s - 1) (m(d - 1 := m (s - 1)))"

fun memmove_fwd :: "nat \<Rightarrow> uint64 \<Rightarrow> uint64 \<Rightarrow> mem \<Rightarrow> mem" where
  "memmove_fwd 0 d s m = m"
| "memmove_fwd (Suc k) d s m = memmove_fwd k (d + 1) (s + 1) (m(d := m s))"

definition memmove :: "mem \<Rightarrow> uint64 \<Rightarrow> uint64 \<Rightarrow> uint32 \<Rightarrow> mem" where
  "memmove m dst src n =
     (if n = 0 then m
      else if src < dst \<and> src + ucast n > dst
      then memmove_bwd (unat n) (dst + ucast n) (src + ucast n) m
      else memmove_fwd (unat n) dst src m)"

definition memcpy :: "mem \<Rightarrow> uint64 \<Rightarrow> uint64 \<Rightarrow> uint32 \<Rightarrow> mem" where
  "memcpy m dst src n = memmove m dst src n"

section \<open>Strings\<close>

fun strncmp_loop :: "nat \<Rightarrow> bytes \<Rightarrow> bytes \<Rightarrow> nat \<Rightarrow> int" where
  "strncmp_loop 0 p q i = 0"
| "strncmp_loop (Suc k) p q i =
     (if p i \<noteq> 0 \<and> p i = q i then strncmp_loop k p q (Suc i) else uint (p i) - uint (q i))"

definition strncmp :: "bytes \<Rightarrow> bytes \<Rightarrow> uint32 \<Rightarrow> int" where
  "strncmp p q n = strncmp_loop (unat n) p q 0"

fun strncpy_pad :: "nat \<Rightarrow> bytes \<Rightarrow> nat \<Rightarrow> bytes" where
  "strncpy_pad 0 s i = s"
| "strncpy_pad (Suc k) s i = strncpy_pad k (s(i := 0)) (Suc i)"

fun strncpy_loop :: "nat \<Rightarrow> bytes \<Rightarrow> bytes \<Rightarrow> nat \<Rightarrow> bytes" where
  "strncpy_loop 0 s t i = s"
| "strncpy_loop (Suc k) s t i =
     (if t i \<noteq> 0 then strncpy_loop k (s(i := t i)) t (Suc i)
      else strncpy_pad k (s(i := t i)) (Suc i))"

definition strncpy :: "bytes \<Rightarrow> bytes \<Rightarrow> int \<Rightarrow> bytes" where
  "strncpy s t n = strncpy_loop (nat n) s t 0"

text \<open>\<^verbatim>\<open>while(--n > 0 && (*s++ = *t++) != 0); *s = 0;\<close> entered with \<open>k = n - 1\<close>.\<close>

fun safestrcpy_loop :: "nat \<Rightarrow> bytes \<Rightarrow> bytes \<Rightarrow> nat \<Rightarrow> bytes" where
  "safestrcpy_loop 0 s t i = s(i := 0)"
| "safestrcpy_loop (Suc k) s t i =
     (if t i \<noteq> 0 then safestrcpy_loop k (s(i := t i)) t (Suc i)
      else s(i := t i, Suc i := 0))"

definition safestrcpy :: "bytes \<Rightarrow> bytes \<Rightarrow> int \<Rightarrow> bytes" where
  "safestrcpy s t n = (if n \<le> 0 then s else safestrcpy_loop (nat (n - 1)) s t 0)"

text \<open>\<^verbatim>\<open>strlen\<close> does not return on an array without a NUL.\<close>

partial_function (option) strlen_loop :: "bytes \<Rightarrow> nat \<Rightarrow> nat option" where
  "strlen_loop s n = (if s n \<noteq> 0 then strlen_loop s (Suc n) else Some n)"

definition strlen :: "bytes \<Rightarrow> nat option" where
  "strlen s = strlen_loop s 0"

section \<open>Memory routines\<close>

lemma unat_minus_pred:
  fixes a d :: uint64
  assumes "a \<noteq> d"
  shows "unat (a - d) = Suc (unat (a - (d + 1)))"
proof -
  have "a - d \<noteq> 0" using assms by simp
  then have "unat (a - d - 1) = unat (a - d) - 1" and "0 < unat (a - d)"
    by (simp_all add: unat_minus_one unat_gt_0)
  then show ?thesis by (simp add: algebra_simps)
qed

text \<open>What \<^verbatim>\<open>memmove\<close> must compute, however the areas overlap: every destination byte is the
  source byte of the memory at the call.\<close>

definition moved :: "mem \<Rightarrow> uint64 \<Rightarrow> uint64 \<Rightarrow> nat \<Rightarrow> mem" where
  "moved m dst src n = (\<lambda>a. if unat (a - dst) < n then m (src + (a - dst)) else m a)"

lemma memmove_fwd_moved:
  assumes "\<And>e. 0 < e \<Longrightarrow> e < k \<Longrightarrow> d \<noteq> s + of_nat e"
  shows "memmove_fwd k d s m = moved m d s k"
  using assms
proof (induction k arbitrary: d s m)
  case 0
  then show ?case by (simp add: moved_def)
next
  case (Suc k)
  have "d + 1 \<noteq> (s + 1) + of_nat e" if "0 < e" "e < k" for e
    using Suc.prems [of e] that by (auto simp: algebra_simps)
  then have ih: "memmove_fwd k (d + 1) (s + 1) (m(d := m s)) =
      moved (m(d := m s)) (d + 1) (s + 1) k"
    by (rule Suc.IH)
  have "moved (m(d := m s)) (d + 1) (s + 1) k a = moved m d s (Suc k) a" for a
  proof (cases "a = d")
    case True
    then have "\<not> unat (a - (d + 1)) < k \<or> s + 1 + (a - (d + 1)) = s" by auto
    then show ?thesis using True by (auto simp: moved_def)
  next
    case False
    then have u: "unat (a - d) = Suc (unat (a - (d + 1)))" by (rule unat_minus_pred)
    have e: "s + 1 + (a - (d + 1)) = s + of_nat (unat (a - d))" by simp
    have "s + of_nat (unat (a - d)) \<noteq> d" if "unat (a - (d + 1)) < k"
      using Suc.prems [of "unat (a - d)"] that u by fastforce
    then show ?thesis using False u e by (auto simp: moved_def)
  qed
  then show ?case using ih by (simp add: fun_eq_iff)
qed

lemma memmove_bwd_moved:
  assumes "\<And>e. 0 < e \<Longrightarrow> e < k \<Longrightarrow> s \<noteq> d + of_nat e" and "k < 2 ^ 64"
  shows "memmove_bwd k (d + of_nat k) (s + of_nat k) m = moved m d s k"
  using assms
proof (induction k arbitrary: m)
  case 0
  then show ?case by (simp add: moved_def)
next
  case (Suc k)
  let ?m = "m(d + of_nat k := m (s + of_nat k))"
  have u: "unat (of_nat k :: uint64) = k" using Suc.prems(2) by (simp add: unat_of_nat_small)
  have "memmove_bwd k (d + of_nat k) (s + of_nat k) ?m = moved ?m d s k"
    using Suc.prems by (intro Suc.IH) auto
  moreover have "moved ?m d s k a = moved m d s (Suc k) a" for a
  proof (cases "a = d + of_nat k")
    case True
    then show ?thesis using u by (simp add: moved_def)
  next
    case False
    have "unat (a - d) \<noteq> k" using False Suc.prems(2) by (simp add: unat_diff_iff)
    moreover have "s + (a - d) \<noteq> d + of_nat k" if "unat (a - d) < k"
    proof
      assume "s + (a - d) = d + of_nat k"
      then have "s = d + of_nat (k - unat (a - d))"
        using that by (simp add: of_nat_diff algebra_simps)
      moreover have "0 < k - unat (a - d)" "k - unat (a - d) < Suc k" using that by simp_all
      ultimately show False using Suc.prems(1) by blast
    qed
    ultimately show ?thesis using False by (auto simp: moved_def less_Suc_eq)
  qed
  ultimately show ?case by (simp add: fun_eq_iff add.assoc [symmetric])
qed

lemma memmove_moved:
  assumes "unat src + unat n \<le> 2 ^ 64" and "unat dst + unat n \<le> 2 ^ 64"
  shows "memmove m dst src n = moved m dst src (unat n)"
proof -
  have n32: "unat n < 2 ^ 32" using unsigned_less [where w = n] by simp
  have shift: "unat d = unat s + e"
    if "s + of_nat e = d" "e < unat n" "unat s + unat n \<le> 2 ^ 64" for s d :: uint64 and e
    using that unat_add_of_nat [of s e] by simp
  show ?thesis
  proof (cases "n \<noteq> 0 \<and> src < dst \<and> src + ucast n > dst")
    case True
    have "src \<noteq> dst + of_nat e" if "0 < e" "e < unat n" for e
      using shift [of dst e src] that True assms by (auto simp: word_less_nat_alt)
    moreover have "unat n < 2 ^ 64" by (rule order.strict_trans [OF n32]) simp
    ultimately have "memmove_bwd (unat n) (dst + of_nat (unat n)) (src + of_nat (unat n)) m =
        moved m dst src (unat n)"
      using memmove_bwd_moved [of "unat n" src dst m] by blast
    then show ?thesis using True by (simp add: memmove_def)
  next
    case False
    have "dst \<noteq> src + of_nat e" if "0 < e" "e < unat n" for e
    proof
      assume eq: "dst = src + of_nat e"
      then have d: "unat dst = unat src + e" using shift [of src e dst] that assms by simp
      then have "src < dst" "n \<noteq> 0" using that by (auto simp: word_less_nat_alt)
      moreover have "dst < src + ucast n"
      proof (cases "unat src + unat n = 2 ^ 64")
        case True
        then show ?thesis using d that assms(2) by simp
      next
        case neq: False
        then have "unat (src + ucast n) = unat src + unat n"
          using assms(1) unat_add_of_nat [of src "unat n"] by simp
        then show ?thesis using d that by (simp add: word_less_nat_alt)
      qed
      ultimately show False using False by blast
    qed
    then have "memmove_fwd (unat n) dst src m = moved m dst src (unat n)"
      by (rule memmove_fwd_moved)
    then show ?thesis using False by (auto simp: memmove_def moved_def)
  qed
qed

lemma memset_loop_apply:
  assumes "i + k \<le> 2 ^ 64"
  shows "memset_loop k i dst c m a =
    (if i \<le> unat (a - dst) \<and> unat (a - dst) < i + k then c else m a)"
  using assms
proof (induction k arbitrary: i m)
  case 0
  then show ?case by auto
next
  case (Suc k)
  have "a = dst + of_nat i \<longleftrightarrow> unat (a - dst) = i" using Suc.prems by (simp add: unat_diff_iff)
  then show ?case using Suc by auto
qed

lemma memset_apply:
  "memset m dst c n a = (if unat (a - dst) < unat n then word_of_int c else m a)"
proof -
  have "unat n < 2 ^ 32" using unsigned_less [where w = n] by simp
  then show ?thesis by (simp add: memset_def memset_loop_apply)
qed

section \<open>String routines\<close>

text \<open>Two arrays hold the same string as far as \<open>n\<close> bytes tell: they agree up to and
  including the first NUL of the first, or on all \<open>n\<close> bytes.\<close>

definition same_str :: "nat \<Rightarrow> bytes \<Rightarrow> bytes \<Rightarrow> bool" where
  "same_str n p q \<longleftrightarrow> (\<forall>i < n. (\<forall>j < i. p j \<noteq> 0) \<longrightarrow> p i = q i)"

lemma strncmp_loop_zero_iff:
  "strncmp_loop k p q i = 0 \<longleftrightarrow>
     (\<forall>x. i \<le> x \<and> x < i + k \<longrightarrow> (\<forall>j. i \<le> j \<and> j < x \<longrightarrow> p j \<noteq> 0) \<longrightarrow> p x = q x)"
proof (induction k arbitrary: i)
  case 0
  then show ?case by auto
next
  case (Suc k)
  show ?case
  proof (cases "p i \<noteq> 0 \<and> p i = q i")
    case True
    have "(\<forall>x. i \<le> x \<and> x < i + Suc k \<longrightarrow> (\<forall>j. i \<le> j \<and> j < x \<longrightarrow> p j \<noteq> 0) \<longrightarrow> p x = q x) \<longleftrightarrow>
      (\<forall>x. Suc i \<le> x \<and> x < Suc i + k \<longrightarrow> (\<forall>j. Suc i \<le> j \<and> j < x \<longrightarrow> p j \<noteq> 0) \<longrightarrow> p x = q x)"
      using True by (metis Suc_leD Suc_leI add_Suc_shift le_neq_implies_less less_Suc_eq_le)
    moreover have "strncmp_loop (Suc k) p q i = strncmp_loop k p q (Suc i)" using True by auto
    ultimately show ?thesis by (simp only: Suc.IH [of "Suc i"])
  next
    case False
    let ?R = "\<forall>x. i \<le> x \<and> x < i + Suc k \<longrightarrow> (\<forall>j. i \<le> j \<and> j < x \<longrightarrow> p j \<noteq> 0) \<longrightarrow> p x = q x"
    have "strncmp_loop (Suc k) p q i = 0 \<longleftrightarrow> p i = q i"
      using False by (auto simp: word_uint_eq_iff)
    moreover have "p i = q i" if ?R using spec [OF that, of i] by auto
    moreover have ?R if "p i = q i"
    proof (intro allI impI)
      fix x assume "i \<le> x \<and> x < i + Suc k" and nz: "\<forall>j. i \<le> j \<and> j < x \<longrightarrow> p j \<noteq> 0"
      then have "x = i" using nz [rule_format, of i] False that by force
      then show "p x = q x" using that by simp
    qed
    ultimately show ?thesis by blast
  qed
qed

lemma strncmp_zero_iff: "strncmp p q n = 0 \<longleftrightarrow> same_str (unat n) p q"
  by (simp add: strncmp_def strncmp_loop_zero_iff same_str_def)

lemma strncpy_pad_apply:
  "strncpy_pad k s i x = (if i \<le> x \<and> x < i + k then 0 else s x)"
  by (induction k arbitrary: s i) auto

lemma strncpy_loop_apply:
  "strncpy_loop k s t i x =
     (if x < i \<or> i + k \<le> x then s x
      else if \<exists>j. i \<le> j \<and> j < x \<and> t j = 0 then 0 else t x)"
proof (induction k arbitrary: s i x)
  case 0
  then show ?case by (simp add: not_less)
next
  case (Suc k)
  show ?case
  proof (cases "t i = 0")
    case True
    then show ?thesis by (cases "x = i") (auto simp: strncpy_pad_apply)
  next
    case False
    then have "(\<exists>j. Suc i \<le> j \<and> j < x \<and> t j = 0) \<longleftrightarrow> (\<exists>j. i \<le> j \<and> j < x \<and> t j = 0)"
      by (metis Suc_leD Suc_leI le_neq_implies_less)
    then show ?thesis using False by (cases "x = i") (auto simp: Suc.IH)
  qed
qed

lemma strncpy_apply:
  "strncpy s t n x =
     (if x < nat n then if \<exists>j < x. t j = 0 then 0 else t x else s x)"
  by (simp add: strncpy_def strncpy_loop_apply)

lemma same_str_strncpy: "same_str k p (strncpy s t (int k)) \<longleftrightarrow> same_str k p t"
proof
  assume a: "same_str k p (strncpy s t (int k))"
  show "same_str k p t"
    unfolding same_str_def
  proof (intro allI impI)
    fix i assume i: "i < k" and nz: "\<forall>j < i. p j \<noteq> 0"
    have tnz: "t j \<noteq> 0" if "j < i" for j
      using that
    proof (induction j rule: less_induct)
      case (less j)
      then have "strncpy s t (int k) j = t j" using i by (auto simp: strncpy_apply)
      moreover have "p j = strncpy s t (int k) j" using a less.prems i nz by (simp add: same_str_def)
      ultimately show ?case using nz less.prems by metis
    qed
    then have "strncpy s t (int k) i = t i" using i by (auto simp: strncpy_apply)
    then show "p i = t i" using a i nz by (simp add: same_str_def)
  qed
next
  assume a: "same_str k p t"
  show "same_str k p (strncpy s t (int k))"
    unfolding same_str_def
  proof (intro allI impI)
    fix i assume i: "i < k" and nz: "\<forall>j < i. p j \<noteq> 0"
    have "p j = t j" if "j \<le> i" for j using a that i nz by (simp add: same_str_def)
    then show "p i = strncpy s t (int k) i" using i nz by (auto simp: strncpy_apply)
  qed
qed

lemma safestrcpy_loop_apply:
  "\<exists>e. i \<le> e \<and> e \<le> i + k \<and> safestrcpy_loop k s t i e = 0 \<and>
     (\<forall>j. i \<le> j \<and> j < e \<longrightarrow> safestrcpy_loop k s t i j = t j \<and> t j \<noteq> 0) \<and>
     (t e = 0 \<or> e = i + k) \<and>
     (\<forall>j. j < i \<or> i + k < j \<longrightarrow> safestrcpy_loop k s t i j = s j)"
proof (induction k arbitrary: s i)
  case 0
  show ?case by (rule exI [of _ i]) auto
next
  case (Suc k)
  show ?case
  proof (cases "t i = 0")
    case True
    show ?thesis by (rule exI [of _ i]) (auto simp: True)
  next
    case False
    from Suc.IH [of "Suc i" "s(i := t i)"] obtain e where
      e: "Suc i \<le> e" "e \<le> Suc i + k" "safestrcpy_loop k (s(i := t i)) t (Suc i) e = 0"
        "\<forall>j. Suc i \<le> j \<and> j < e \<longrightarrow>
          safestrcpy_loop k (s(i := t i)) t (Suc i) j = t j \<and> t j \<noteq> 0"
        "t e = 0 \<or> e = Suc i + k"
        "\<forall>j. j < Suc i \<or> Suc i + k < j \<longrightarrow>
          safestrcpy_loop k (s(i := t i)) t (Suc i) j = (s(i := t i)) j"
      by blast
    have "safestrcpy_loop k (s(i := t i)) t (Suc i) j = t j \<and> t j \<noteq> 0" if "i \<le> j" "j < e" for j
      using e(4,6) False that by (cases "j = i") auto
    then show ?thesis using e False by (intro exI [of _ e]) auto
  qed
qed

text \<open>\<^verbatim>\<open>strlen\<close> returns the index of the first NUL.\<close>

lemma strlen_loop_first:
  assumes "i \<le> k" and "s k = 0" and "\<And>j. i \<le> j \<Longrightarrow> j < k \<Longrightarrow> s j \<noteq> 0"
  shows "strlen_loop s i = Some k"
  using assms
proof (induction "k - i" arbitrary: i)
  case 0
  then show ?case by (simp add: strlen_loop.simps)
next
  case (Suc d)
  then have "s i \<noteq> 0" "strlen_loop s (Suc i) = Some k" by auto
  then show ?case by (simp add: strlen_loop.simps)
qed

section \<open>The properties of the routines\<close>

text \<open>\<^bold>\<open>C40\<close>: \<^verbatim>\<open>memmove\<close> copies correctly however the areas overlap: afterwards the \<open>i\<close>-th
  destination byte is the \<open>i\<close>-th source byte of the memory at the call, and every byte outside
  the destination is unchanged (the areas do not wrap around the end of memory).\<close>

theorem memmove_overlap:
  assumes "unat src + unat n \<le> 2 ^ 64" and "unat dst + unat n \<le> 2 ^ 64"
  shows "(\<forall>i < unat n. view (memmove m dst src n) dst i = view m src i) \<and>
    (\<forall>a. \<not> unat (a - dst) < unat n \<longrightarrow> memmove m dst src n a = m a)"
proof -
  have "unat n < 2 ^ 64" using unsigned_less [of n, where ?'a = nat] by simp
  then have "i < unat n \<Longrightarrow> unat (of_nat i :: uint64) = i" for i by (simp add: unat_of_nat_small)
  then show ?thesis using memmove_moved [OF assms, of m] by (auto simp: moved_def view_def)
qed

theorem memmove_overlap_witness:
  "memmove (\<lambda>a. ucast a) 11 10 3 13 = 12 \<and> memmove (\<lambda>a. ucast a) 11 10 3 14 = 14"
proof -
  let ?m = "memmove (\<lambda>a. ucast a) 11 10 3"
  have w: "(\<forall>i < 3. view ?m 11 i = view (\<lambda>a. ucast a) 10 i) \<and>
      (\<forall>a. \<not> unat (a - 11) < 3 \<longrightarrow> ?m a = ucast a)"
    using memmove_overlap [of 10 3 11 "\<lambda>a. ucast a"] by simp
  then have "view ?m 11 2 = view (\<lambda>a. ucast a) 10 2" "?m 14 = ucast (14 :: uint64)" by simp_all
  then show ?thesis by (simp add: view_def)
qed

text \<open>A name stored in a fixed-size field by \<^verbatim>\<open>strncpy\<close> is found again by
  \<^verbatim>\<open>strncmp\<close>: comparing any name with the field gives a match exactly when the name matches the
  one that was stored (this is how \<^verbatim>\<open>dirlink\<close> and \<^verbatim>\<open>dirlookup\<close> work together).\<close>

lemma strncmp_strncpy:
  "strncmp p (strncpy s t (int (unat n))) n = 0 \<longleftrightarrow> strncmp p t n = 0"
  unfolding strncmp_zero_iff by (rule same_str_strncpy)

text \<open>\<^verbatim>\<open>safestrcpy\<close> with \<open>n > 0\<close> leaves a terminated string in the first \<open>n\<close> bytes: its
  length is found by \<^verbatim>\<open>strlen\<close>, is below \<open>n\<close>, the string is the longest such prefix of the source,
  and nothing from byte \<open>n\<close> on is written.\<close>

lemma safestrcpy_terminates:
  assumes "0 < n"
  shows "\<exists>e < nat n. strlen (safestrcpy s t n) = Some e \<and>
    (\<forall>j < e. safestrcpy s t n j = t j \<and> t j \<noteq> 0) \<and> (t e = 0 \<or> e = nat n - 1) \<and>
    (\<forall>j \<ge> nat n. safestrcpy s t n j = s j)"
proof -
  let ?k = "nat (n - 1)"
  obtain e where e: "e \<le> ?k" "safestrcpy_loop ?k s t 0 e = 0"
    "\<forall>j < e. safestrcpy_loop ?k s t 0 j = t j \<and> t j \<noteq> 0" "t e = 0 \<or> e = ?k"
    "\<forall>j. ?k < j \<longrightarrow> safestrcpy_loop ?k s t 0 j = s j"
    using safestrcpy_loop_apply [of 0 ?k s t] by auto
  have "strlen_loop (safestrcpy_loop ?k s t 0) 0 = Some e"
    using e(2,3) by (intro strlen_loop_first) auto
  moreover have "e < nat n" "?k = nat n - 1" using e(1) assms by auto
  ultimately show ?thesis
    using e assms by (intro exI [of _ e]) (auto simp: safestrcpy_def strlen_def)
qed

end
