(* ===== verification/Spinlock.thy ===== *)
theory Spinlock
  imports Prelude
begin

text \<open>
  \<^verbatim>\<open>include/proc/cpu.h\<close>, \<^verbatim>\<open>kernel/proc/cpu.c\<close> and \<^verbatim>\<open>kernel/lib/spinlock.c\<close>: the per-CPU
  state, the nesting of interrupt disabling and the spin locks, over the supervisor status
  register and the thread pointer of one hart (\<^verbatim>\<open>NCPU\<close> is 1). The locale \<open>mutex\<close> is the contract every
  kernel component that protects its state with a spin lock relies on; it is interpreted on
  the kernel's own spin lock at the end.
\<close>

section \<open>Hart and CPU state\<close>

text \<open>\<^verbatim>\<open>context_t\<close>: the registers \<^verbatim>\<open>swtch\<close> saves.\<close>

record context_t =
  ctx_ra :: uint64
  ctx_sp :: uint64
  ctx_s :: "uint64 list"

definition zero_ctx :: context_t where
  "zero_ctx = \<lparr>ctx_ra = 0, ctx_sp = 0, ctx_s = replicate 12 0\<rparr>"

text \<open>\<^verbatim>\<open>cpu_t\<close>; a process pointer is an index into \<^verbatim>\<open>proc[]\<close>.\<close>

record cpu_t =
  noff :: int
  origin :: bool
  cpu_proc :: "nat option"
  cpu_ctx :: context_t

record hart =
  sstatus :: uint64
  tp :: uint64
  cpus :: "int \<Rightarrow> cpu_t"

record spinlock =
  locked :: bool
  lname :: string
  cpuid :: int

definition SSTATUS_SIE :: uint64 where [layout]: "SSTATUS_SIE = push_bit 1 1"

definition intr_on :: "hart \<Rightarrow> hart" where
  "intr_on h = h\<lparr>sstatus := sstatus h OR SSTATUS_SIE\<rparr>"

definition intr_off :: "hart \<Rightarrow> hart" where
  "intr_off h = h\<lparr>sstatus := sstatus h AND NOT SSTATUS_SIE\<rparr>"

definition intr_get :: "hart \<Rightarrow> bool" where
  "intr_get h \<longleftrightarrow> sstatus h AND SSTATUS_SIE \<noteq> 0"

definition mycpuid :: "hart \<Rightarrow> int" where
  "mycpuid h = sint (ucast (tp h) :: uint32)"

definition mycpu :: "hart \<Rightarrow> cpu_t" where
  "mycpu h = cpus h (mycpuid h)"

definition set_mycpu :: "cpu_t \<Rightarrow> hart \<Rightarrow> hart" where
  "set_mycpu c h = h\<lparr>cpus := (cpus h)(mycpuid h := c)\<rparr>"

section \<open>Interrupt nesting and spin locks\<close>

definition push_off :: "hart \<Rightarrow> hart" where
  "push_off h =
     (let old = intr_get h;
          h1 = intr_off h;
          h2 = (if noff (mycpu h1) = 0 then set_mycpu ((mycpu h1)\<lparr>origin := old\<rparr>) h1 else h1)
      in set_mycpu ((mycpu h2)\<lparr>noff := noff (mycpu h2) + 1\<rparr>) h2)"

definition pop_off :: "hart \<Rightarrow> hart kres" where
  "pop_off h =
     kguard (\<not> intr_get h) (Panic ''pop_off - interruptible'')
       (kguard (\<not> noff (mycpu h) < 1) (Panic ''pop_off'')
         (let h1 = set_mycpu ((mycpu h)\<lparr>noff := noff (mycpu h) - 1\<rparr>) h
          in Inr (if noff (mycpu h1) = 0 \<and> origin (mycpu h1) then intr_on h1 else h1)))"

definition myproc :: "hart \<Rightarrow> (nat option \<times> hart) kres" where
  "myproc h =
     (let h1 = push_off h; p = cpu_proc (mycpu h1)
      in kbind (pop_off h1) (\<lambda>h2. Inr (p, h2)))"

definition spinlock_holding :: "spinlock \<Rightarrow> hart \<Rightarrow> bool" where
  "spinlock_holding lk h \<longleftrightarrow> locked lk \<and> cpuid lk = mycpuid h"

definition spinlock_init :: "string \<Rightarrow> spinlock" where
  "spinlock_init name = \<lparr>locked = False, lname = name, cpuid = -1\<rparr>"

text \<open>The test-and-set loop leaves a lock that another hart holds to that hart; with one
  hart nobody can clear it.\<close>

definition spinlock_acquire :: "spinlock \<Rightarrow> hart \<Rightarrow> (spinlock \<times> hart) kres" where
  "spinlock_acquire lk h =
     (let h1 = push_off h
      in if spinlock_holding lk h1 then Inl (Panic ''spinlock: acquire\<newline>'')
         else if locked lk then Inl (Spin ''spinlock: acquire\<newline>'')
         else Inr (lk\<lparr>locked := True, cpuid := mycpuid h1\<rparr>, h1))"

definition spinlock_release :: "spinlock \<Rightarrow> hart \<Rightarrow> (spinlock \<times> hart) kres" where
  "spinlock_release lk h =
     (if \<not> spinlock_holding lk h then Inl (Panic ''spinlock: release\<newline>'')
      else kbind (pop_off h) (\<lambda>h1. Inr (lk\<lparr>cpuid := -1, locked := False\<rparr>, h1)))"

section \<open>Basic facts\<close>

lemma mycpu_set_mycpu [simp]: "mycpu (set_mycpu c h) = c"
  by (simp add: mycpu_def set_mycpu_def mycpuid_def)

lemma mycpuid_stable [simp]:
  "mycpuid (set_mycpu c h) = mycpuid h"
  "mycpuid (intr_on h) = mycpuid h"
  "mycpuid (intr_off h) = mycpuid h"
  by (simp_all add: mycpuid_def set_mycpu_def intr_on_def intr_off_def)

lemma mycpu_intr [simp]: "mycpu (intr_on h) = mycpu h" "mycpu (intr_off h) = mycpu h"
  by (simp_all add: mycpu_def intr_on_def intr_off_def mycpuid_def)

lemma bit_SIE: "bit SSTATUS_SIE n \<longleftrightarrow> n = 1"
  by (auto simp: SSTATUS_SIE_def bit_2_iff)

lemma intr_get_iff: "intr_get h \<longleftrightarrow> bit (sstatus h) 1"
proof -
  have "sstatus h AND SSTATUS_SIE = (if bit (sstatus h) 1 then SSTATUS_SIE else 0)"
    by (rule bit_word_eqI) (auto simp: bit_SIE bit_simps)
  then show ?thesis by (simp add: intr_get_def SSTATUS_SIE_def)
qed

lemma intr_get_simps [simp]:
  "intr_get (intr_on h)"
  "\<not> intr_get (intr_off h)"
  "intr_get (set_mycpu c h) = intr_get h"
  by (simp_all add: intr_get_iff intr_on_def intr_off_def set_mycpu_def bit_simps bit_SIE)

lemma intr_off_off: "\<not> intr_get h \<Longrightarrow> intr_off h = h"
proof -
  assume "\<not> intr_get h"
  then have "sstatus h AND NOT SSTATUS_SIE = sstatus h"
    by (intro bit_word_eqI) (auto simp: intr_get_iff bit_SIE bit_simps)
  then show ?thesis by (simp add: intr_off_def)
qed

lemma intr_on_off: "intr_get h \<Longrightarrow> intr_on (intr_off h) = h"
proof -
  assume "intr_get h"
  then have "(sstatus h AND NOT SSTATUS_SIE) OR SSTATUS_SIE = sstatus h"
    by (intro bit_word_eqI) (auto simp: intr_get_iff bit_SIE bit_simps)
  then show ?thesis by (simp add: intr_off_def intr_on_def)
qed

lemma noff_same: "noff c = k \<Longrightarrow> c\<lparr>origin := b, noff := k\<rparr> = c\<lparr>origin := b\<rparr>"
  by (cases c) simp

lemma set_mycpu_idem [simp]:
  "set_mycpu c (set_mycpu c' h) = set_mycpu c h"
  "set_mycpu (mycpu h) h = h"
  by (simp_all add: set_mycpu_def mycpu_def mycpuid_def)

lemma set_mycpu_intr:
  "set_mycpu c (intr_off h) = intr_off (set_mycpu c h)"
  "intr_on (set_mycpu c h) = set_mycpu c (intr_on h)"
  by (simp_all add: set_mycpu_def intr_off_def intr_on_def mycpuid_def)

section \<open>The nesting discipline\<close>

text \<open>Interrupts are off inside every nested section.\<close>

definition cpu_ok :: "hart \<Rightarrow> bool" where
  "cpu_ok h \<longleftrightarrow> 0 \<le> noff (mycpu h) \<and> (0 < noff (mycpu h) \<longrightarrow> \<not> intr_get h)"

text \<open>The state a balanced section leaves: only the recorded origin may change.\<close>

definition section_done :: "hart \<Rightarrow> hart" where
  "section_done h =
     (if noff (mycpu h) = 0 then set_mycpu ((mycpu h)\<lparr>origin := intr_get h\<rparr>) h else h)"

lemma push_off_facts:
  "noff (mycpu (push_off h)) = noff (mycpu h) + 1"
  "\<not> intr_get (push_off h)"
  "mycpuid (push_off h) = mycpuid h"
  "cpu_proc (mycpu (push_off h)) = cpu_proc (mycpu h)"
  by (simp_all add: push_off_def Let_def)

lemma cpu_ok_push_off: "cpu_ok h \<Longrightarrow> cpu_ok (push_off h)"
  by (simp add: cpu_ok_def push_off_facts)

lemma pop_push_off:
  assumes "cpu_ok h"
  shows "pop_off (push_off h) = Inr (section_done h)"
proof (cases "noff (mycpu h) = 0")
  case True
  then show ?thesis
    by (auto simp: pop_off_def push_off_def section_done_def Let_def set_mycpu_intr
        intr_on_off intr_off_off noff_same)
next
  case False
  then have "\<not> intr_get h" using assms by (simp add: cpu_ok_def)
  moreover have "(mycpu h)\<lparr>noff := noff (mycpu h)\<rparr> = mycpu h" by simp
  ultimately show ?thesis using False assms
    by (simp add: pop_off_def push_off_def section_done_def Let_def intr_off_off cpu_ok_def)
qed

lemma section_done_facts [simp]:
  "noff (mycpu (section_done h)) = noff (mycpu h)"
  "intr_get (section_done h) = intr_get h"
  "mycpuid (section_done h) = mycpuid h"
  "sstatus (section_done h) = sstatus h"
  "cpu_proc (mycpu (section_done h)) = cpu_proc (mycpu h)"
  by (simp_all add: section_done_def) (simp add: set_mycpu_def)

lemma section_done_idem [simp]: "section_done (section_done h) = section_done h"
  by (simp add: section_done_def)

lemma cpu_ok_section_done [simp]: "cpu_ok (section_done h) = cpu_ok h"
  by (simp add: cpu_ok_def)

lemma myproc_eq: "cpu_ok h \<Longrightarrow> myproc h = Inr (cpu_proc (mycpu h), section_done h)"
  by (simp add: myproc_def Let_def pop_push_off push_off_facts)

section \<open>The contract of a lock\<close>

text \<open>A client brackets straight-line code between \<open>acquire\<close> and \<open>release\<close>. The lock
  promises that acquiring a free lock and releasing it again succeeds, that the lock is then
  free again, and which state the hart is left in.\<close>

locale mutex =
  fixes acquire :: "'l \<Rightarrow> 'h \<Rightarrow> ('l \<times> 'h) kres"
    and release :: "'l \<Rightarrow> 'h \<Rightarrow> ('l \<times> 'h) kres"
    and is_free :: "'l \<Rightarrow> bool"
    and ok :: "'h \<Rightarrow> bool"
    and freed :: "'l \<Rightarrow> 'l"
    and finish :: "'h \<Rightarrow> 'h"
  assumes acquire_free: "is_free l \<Longrightarrow> ok h \<Longrightarrow> \<exists>l' h'. acquire l h = Inr (l', h')"
    and release_acquired: "is_free l \<Longrightarrow> ok h \<Longrightarrow> acquire l h = Inr (l', h') \<Longrightarrow>
      release l' h' = Inr (freed l, finish h)"
    and freed_free: "is_free (freed l)"
    and freed_idem: "is_free l \<Longrightarrow> freed (freed l) = freed l"
    and ok_finish: "ok h \<Longrightarrow> ok (finish h)"
    and finish_idem: "finish (finish h) = finish h"
begin

lemma critical_section:
  assumes "is_free l" and "ok h"
  shows "kbind (acquire l h) (\<lambda>(l1, h1). kbind (release l1 h1) k) = k (freed l, finish h)"
proof -
  obtain l' h' where a: "acquire l h = Inr (l', h')" using assms acquire_free by blast
  then show ?thesis using release_acquired [OF assms a] by simp
qed

text \<open>Two consecutive sections on one lock leave what one leaves.\<close>

lemma critical_section_twice:
  assumes "is_free l" and "ok h"
  shows "kbind (acquire l h) (\<lambda>(l1, h1). kbind (release l1 h1) (\<lambda>(l2, h2).
      kbind (acquire l2 h2) (\<lambda>(l3, h3). kbind (release l3 h3) k))) = k (freed l, finish h)"
proof -
  have "kbind (acquire l h) (\<lambda>(l1, h1). kbind (release l1 h1) (\<lambda>(l2, h2).
      kbind (acquire l2 h2) (\<lambda>(l3, h3). kbind (release l3 h3) k))) =
    kbind (acquire (freed l) (finish h)) (\<lambda>(l3, h3). kbind (release l3 h3) k)"
    by (subst critical_section [OF assms]) simp
  also have "\<dots> = k (freed (freed l), finish (finish h))"
    by (rule critical_section) (simp_all add: freed_free ok_finish assms)
  finally show ?thesis by (simp add: freed_idem assms finish_idem)
qed

end

definition unlocked :: "spinlock \<Rightarrow> spinlock" where
  "unlocked lk = lk\<lparr>cpuid := -1, locked := False\<rparr>"

lemma spinlock_acquire_free:
  "\<not> locked lk \<Longrightarrow>
     spinlock_acquire lk h = Inr (lk\<lparr>locked := True, cpuid := mycpuid h\<rparr>, push_off h)"
  by (simp add: spinlock_acquire_def Let_def spinlock_holding_def push_off_facts)

lemma spinlock_release_acquired:
  assumes "cpu_ok h"
  shows "spinlock_release (lk\<lparr>locked := True, cpuid := mycpuid h\<rparr>) (push_off h) =
    Inr (unlocked lk, section_done h)"
proof -
  have "spinlock_holding (lk\<lparr>locked := True, cpuid := mycpuid h\<rparr>) (push_off h)"
    by (simp add: spinlock_holding_def push_off_facts)
  then show ?thesis
    using assms by (simp add: spinlock_release_def pop_push_off unlocked_def)
qed

interpretation spin: mutex spinlock_acquire spinlock_release "\<lambda>lk. \<not> locked lk" cpu_ok
    unlocked section_done
  by unfold_locales
    (auto simp: spinlock_acquire_free spinlock_release_acquired unlocked_def)

lemma unlocked_simps [simp]:
  "locked (unlocked lk) = False"
  "unlocked (unlocked lk) = unlocked lk"
  by (simp_all add: unlocked_def)

section \<open>Nesting of interrupt disabling\<close>

datatype intr_op = PushOff | PopOff

fun run_ops :: "intr_op list \<Rightarrow> hart \<Rightarrow> hart kres" where
  "run_ops [] h = Inr h"
| "run_ops (PushOff # ops) h = run_ops ops (push_off h)"
| "run_ops (PopOff # ops) h = kbind (pop_off h) (run_ops ops)"

text \<open>The nesting depth after a sequence of operations; \<open>None\<close> if a pop has no push.\<close>

fun depth :: "nat \<Rightarrow> intr_op list \<Rightarrow> nat option" where
  "depth d [] = Some d"
| "depth d (PushOff # ops) = depth (Suc d) ops"
| "depth d (PopOff # ops) = (case d of 0 \<Rightarrow> None | Suc e \<Rightarrow> depth e ops)"

text \<open>The state at depth \<open>d\<close> of a hart whose interrupts were \<open>b\<close> outside all sections.\<close>

definition at_depth :: "nat \<Rightarrow> bool \<Rightarrow> hart \<Rightarrow> bool" where
  "at_depth d b h \<longleftrightarrow> noff (mycpu h) = int d \<and>
     (if d = 0 then intr_get h = b else \<not> intr_get h \<and> origin (mycpu h) = b)"

lemma at_depth_push: "at_depth d b h \<Longrightarrow> at_depth (Suc d) b (push_off h)"
  by (auto simp: at_depth_def push_off_def Let_def)

lemma at_depth_pop:
  "at_depth (Suc d) b h \<Longrightarrow> \<exists>h'. pop_off h = Inr h' \<and> at_depth d b h'"
  by (auto simp: at_depth_def pop_off_def Let_def)

lemma run_ops_at_depth:
  "depth d ops = Some e \<Longrightarrow> at_depth d b h \<Longrightarrow> \<exists>h'. run_ops ops h = Inr h' \<and> at_depth e b h'"
proof (induction d ops arbitrary: h rule: depth.induct)
  case (1 d)
  then show ?case by simp
next
  case (2 d ops)
  then show ?case by (simp add: at_depth_push)
next
  case (3 d ops)
  then obtain k where d: "d = Suc k" "depth k ops = Some e" by (auto split: nat.splits)
  then obtain h1 where "pop_off h = Inr h1" "at_depth k b h1" using at_depth_pop 3 by blast
  then show ?case using 3 d by auto
qed

text \<open>\<^bold>\<open>C31\<close>. Interrupt disabling nests: from a hart outside all sections, any sequence of
  \<^verbatim>\<open>push_off\<close>/\<^verbatim>\<open>pop_off\<close> calls in which no pop precedes its push runs without a panic; at the
  end \<^verbatim>\<open>noff\<close> is the nesting depth, and interrupts are enabled exactly when the depth is back at
  zero and they were enabled at the start.\<close>

theorem push_pop_nesting:
  assumes "noff (mycpu h) = 0" and "depth 0 ops = Some d"
  shows "\<exists>h'. run_ops ops h = Inr h' \<and> noff (mycpu h') = int d \<and>
    (intr_get h' \<longleftrightarrow> d = 0 \<and> intr_get h)"
proof -
  have "at_depth 0 (intr_get h) h" using assms by (simp add: at_depth_def)
  then obtain h' where "run_ops ops h = Inr h'" "at_depth d (intr_get h) h'"
    using run_ops_at_depth assms(2) by blast
  then show ?thesis by (auto simp: at_depth_def split: if_splits)
qed

definition hart0 :: hart where
  "hart0 = \<lparr>sstatus = 2, tp = 0,
     cpus = (\<lambda>_. \<lparr>noff = 0, origin = False, cpu_proc = None, cpu_ctx = zero_ctx\<rparr>)\<rparr>"

lemma hart0_facts [simp]:
  "noff (mycpu hart0) = 0" "cpu_ok hart0" "intr_get hart0" "mycpuid hart0 = 0"
  "cpu_proc (mycpu hart0) = None"
  by (simp_all add: hart0_def mycpu_def cpu_ok_def intr_get_def SSTATUS_SIE_def mycpuid_def)

theorem push_pop_nesting_witness:
  "depth 0 [PushOff, PushOff, PopOff, PopOff] = Some 0 \<and>
   (\<exists>h'. run_ops [PushOff, PushOff, PopOff, PopOff] hart0 = Inr h' \<and>
     noff (mycpu h') = 0 \<and> intr_get h')"
  using push_pop_nesting [of hart0 "[PushOff, PushOff, PopOff, PopOff]" 0] by simp

text \<open>\<^bold>\<open>C30\<close>. A spin lock is held by exactly one section: acquiring a free lock succeeds with
  interrupts off and the lock held by this CPU, acquiring it again panics, releasing a lock
  that is not held panics, and releasing it makes it free and restores the nesting depth and
  the interrupt state.\<close>

theorem spinlock_contract:
  assumes "\<not> locked lk" and "cpu_ok h"
  shows "\<exists>lk' h'. spinlock_acquire lk h = Inr (lk', h') \<and> spinlock_holding lk' h' \<and>
    \<not> intr_get h' \<and>
    spinlock_acquire lk' h' = Inl (Panic ''spinlock: acquire\<newline>'') \<and>
    spinlock_release lk h' = Inl (Panic ''spinlock: release\<newline>'') \<and>
    (\<exists>h''. spinlock_release lk' h' = Inr (unlocked lk, h'') \<and>
      noff (mycpu h'') = noff (mycpu h) \<and> sstatus h'' = sstatus h)"
  using assms
  by (auto simp: spinlock_acquire_free spinlock_release_acquired spinlock_release_def
      spinlock_acquire_def spinlock_holding_def push_off_facts Let_def pop_push_off unlocked_def)

theorem spinlock_contract_witness:
  "\<exists>lk' h'. spinlock_acquire (spinlock_init ''pid'') hart0 = Inr (lk', h') \<and>
    spinlock_holding lk' h'"
proof -
  have "\<not> locked (spinlock_init ''pid'')" by (simp add: spinlock_init_def)
  from spinlock_contract [OF this, of hart0] show ?thesis by auto
qed

end
