(* ===== verification/Console.thy ===== *)
theory Console
  imports Spinlock
begin

text \<open>
  \<^verbatim>\<open>kernel/dev/uart.c\<close>, \<^verbatim>\<open>kernel/lib/console.c\<close> and \<^verbatim>\<open>kernel/lib/printf.c\<close>: the serial port, the console and
  formatted output. The values that the registers of the port will return are lists in the state
  (\<open>lsr_reads\<close>, \<open>rhr_reads\<close>), consumed one by one; a poll after the last known value does not end. The
  writes to its registers are recorded in order, so that the text sent is a function of the state. A C
  string is the list of its bytes before the NUL.
\<close>

section \<open>The serial port\<close>

definition RHR :: nat where [layout]: "RHR = 0"
definition THR :: nat where [layout]: "THR = 0"
definition IER :: nat where [layout]: "IER = 1"
definition IER_TX_ENABLE :: uint8 where [layout]: "IER_TX_ENABLE = push_bit 0 1"
definition IER_RX_ENABLE :: uint8 where [layout]: "IER_RX_ENABLE = push_bit 1 1"
definition FCR :: nat where [layout]: "FCR = 2"
definition FCR_FIFO_ENABLE :: uint8 where [layout]: "FCR_FIFO_ENABLE = push_bit 0 1"
definition FCR_FIFO_CLEAR :: uint8 where [layout]: "FCR_FIFO_CLEAR = push_bit 1 3"
definition LCR :: nat where [layout]: "LCR = 3"
definition LCR_EIGHT_BITS :: uint8 where [layout]: "LCR_EIGHT_BITS = push_bit 0 3"
definition LCR_BAUD_LATCH :: uint8 where [layout]: "LCR_BAUD_LATCH = push_bit 7 1"
definition LSR :: nat where [layout]: "LSR = 5"
definition LSR_TX_IDLE :: uint8 where [layout]: "LSR_TX_IDLE = push_bit 5 1"

record con =
  chart :: hart
  lsr_reads :: "uint8 list"
  rhr_reads :: "uint8 list"
  uart_w :: "(nat \<times> uint8) list"
  print_lk :: spinlock
  pr_locking :: bool

definition WriteReg :: "nat \<Rightarrow> uint8 \<Rightarrow> con \<Rightarrow> con" where
  "WriteReg r v c = c\<lparr>uart_w := uart_w c @ [(r, v)]\<rparr>"

definition uart_init :: "con \<Rightarrow> con" where
  "uart_init c =
     WriteReg IER (IER_TX_ENABLE OR IER_RX_ENABLE)
     (WriteReg FCR (FCR_FIFO_ENABLE OR FCR_FIFO_CLEAR)
     (WriteReg LCR LCR_EIGHT_BITS
     (WriteReg 1 0
     (WriteReg 0 3
     (WriteReg LCR LCR_BAUD_LATCH
     (WriteReg IER 0 c))))))"

text \<open>The loop that waits for the transmitter: what is left of the reads of \<^verbatim>\<open>LSR\<close>.\<close>

fun tx_wait :: "uint8 list \<Rightarrow> uint8 list option" where
  "tx_wait [] = None"
| "tx_wait (v # vs) = (if v AND LSR_TX_IDLE = 0 then tx_wait vs else Some vs)"

definition uart_putc :: "uint8 \<Rightarrow> con \<Rightarrow> con kres" where
  "uart_putc ch c =
     (let c = c\<lparr>chart := push_off (chart c)\<rparr>
      in case tx_wait (lsr_reads c) of
           None \<Rightarrow> Inl (Spin ''uart_putc'')
         | Some vs \<Rightarrow>
             let c = WriteReg THR ch (c\<lparr>lsr_reads := vs\<rparr>)
             in kbind (pop_off (chart c)) (\<lambda>h. Inr (c\<lparr>chart := h\<rparr>)))"

definition uart_getc :: "con \<Rightarrow> (int \<times> con) kres" where
  "uart_getc c =
     (case lsr_reads c of
        [] \<Rightarrow> Inl (Spin ''uart_getc'')
      | v # vs \<Rightarrow>
          let c = c\<lparr>lsr_reads := vs\<rparr>
          in if v AND 1 \<noteq> 0 then
               (case rhr_reads c of
                  [] \<Rightarrow> Inl (Spin ''uart_getc'')
                | r # rs \<Rightarrow> Inr (int (unat r), c\<lparr>rhr_reads := rs\<rparr>))
             else Inr (-1, c))"

lemma tx_wait_length: "tx_wait vs = Some ws \<Longrightarrow> length ws < length vs"
  by (induction vs arbitrary: ws) (auto split: if_splits dest: less_SucI)

lemma uart_putc_length: "uart_putc ch c = Inr d \<Longrightarrow> length (lsr_reads d) < length (lsr_reads c)"
  by (auto simp: uart_putc_def Let_def kbind_Inr_iff WriteReg_def dest: tx_wait_length split: option.splits)

lemma uart_getc_length: "uart_getc c = Inr (r, d) \<Longrightarrow> length (lsr_reads d) < length (lsr_reads c)"
  by (auto simp: uart_getc_def Let_def split: list.splits if_splits)

function uart_intr :: "con \<Rightarrow> con kres" where
  "uart_intr c =
     kbind (uart_getc c) (\<lambda>(r, c).
     if r = -1 then Inr c else kbind (uart_putc (word_of_int r) c) uart_intr)"
  by pat_completeness auto
termination
  by (relation "measure (\<lambda>c. length (lsr_reads c))")
    (auto dest!: uart_getc_length uart_putc_length)

declare uart_intr.simps [simp del]

definition uart_puts :: "uint8 list \<Rightarrow> con \<Rightarrow> con kres" where
  "uart_puts str c = kfold uart_putc str c"

definition consputc :: "uint8 \<Rightarrow> con \<Rightarrow> con kres" where
  "consputc ch c = uart_putc ch c"

section \<open>Formatted output\<close>

definition cstr :: "string \<Rightarrow> uint8 list" where
  "cstr str = map of_char str"

definition print_init :: "con \<Rightarrow> con" where
  "print_init c = (uart_init c)\<lparr>print_lk := spinlock_init ''pr'', pr_locking := True\<rparr>"

definition hexdigits :: "uint8 list" where
  "hexdigits = cstr ''0123456789abcdef''"

text \<open>The \<^verbatim>\<open>do ... while\<close> of \<^verbatim>\<open>printint\<close>, on a buffer of 32 bytes.\<close>

function digit_loop :: "uint64 \<Rightarrow> uint64 \<Rightarrow> uint8 list \<Rightarrow> uint8 list kres" where
  "digit_loop base x buf =
     (if \<not> length buf < 32 then Inl (Undef ''printint'')
      else let buf' = buf @ [hexdigits ! unat (x mod base)]; x' = x div base
           in if x' \<noteq> 0 then digit_loop base x' buf' else Inr buf')"
  by pat_completeness auto
termination
  by (relation "measure (\<lambda>(_, _, buf). 32 - length buf)") auto

declare digit_loop.simps [simp del]

text \<open>\<^verbatim>\<open>xx\<close> is a \<^verbatim>\<open>long long\<close>; \<^verbatim>\<open>-xx\<close> is undefined for the smallest one.\<close>

definition printint :: "int \<Rightarrow> nat \<Rightarrow> bool \<Rightarrow> con \<Rightarrow> con kres" where
  "printint xx base sign c =
     kbind (if sign \<and> xx < 0 then kbind (consputc (of_char (CHR ''-'')) c) (\<lambda>c.
              kguard (xx \<noteq> - (2 ^ 63)) (Undef ''printint'') (Inr (word_of_int (- xx), c)))
            else Inr (word_of_int xx, c)) (\<lambda>(x, c).
     kbind (digit_loop (of_nat base) x []) (\<lambda>buf. kfold consputc (rev buf) c))"

fun ptr_loop :: "nat \<Rightarrow> uint64 \<Rightarrow> con \<Rightarrow> con kres" where
  "ptr_loop 0 x c = Inr c"
| "ptr_loop (Suc k) x c = kbind (consputc (hexdigits ! unat (drop_bit 60 x)) c) (ptr_loop k (push_bit 4 x))"

definition printptr :: "uint64 \<Rightarrow> con \<Rightarrow> con kres" where
  "printptr x c =
     kbind (consputc (of_char (CHR ''0'')) c) (\<lambda>c. kbind (consputc (of_char (CHR ''x'')) c) (ptr_loop 16 x))"

text \<open>The variable arguments; reading one at the wrong type, or one too many, is undefined.\<close>

datatype varg = VInt int | VPtr uint64 | VStr "uint8 list option"

fun va_int :: "varg list \<Rightarrow> (int \<times> varg list) kres" where
  "va_int (VInt n # as) = Inr (n, as)"
| "va_int _ = Inl (Undef ''va_arg'')"

fun va_ptr :: "varg list \<Rightarrow> (uint64 \<times> varg list) kres" where
  "va_ptr (VPtr n # as) = Inr (n, as)"
| "va_ptr _ = Inl (Undef ''va_arg'')"

fun va_str :: "varg list \<Rightarrow> (uint8 list option \<times> varg list) kres" where
  "va_str (VStr n # as) = Inr (n, as)"
| "va_str _ = Inl (Undef ''va_arg'')"

text \<open>One conversion, for the character after \<^verbatim>\<open>%\<close>.\<close>

definition print_conv :: "uint8 \<Rightarrow> varg list \<Rightarrow> con \<Rightarrow> (varg list \<times> con) kres" where
  "print_conv q args c =
     (if q = of_char (CHR ''d'') then
        kbind (va_int args) (\<lambda>(n, args). kbind (printint n 10 True c) (\<lambda>c. Inr (args, c)))
      else if q = of_char (CHR ''x'') then
        kbind (va_int args) (\<lambda>(n, args). kbind (printint n 16 False c) (\<lambda>c. Inr (args, c)))
      else if q = of_char (CHR ''p'') then
        kbind (va_ptr args) (\<lambda>(n, args). kbind (printptr n c) (\<lambda>c. Inr (args, c)))
      else if q = of_char (CHR ''s'') then
        kbind (va_str args) (\<lambda>(r, args).
        kbind (kfold consputc (case r of None \<Rightarrow> cstr ''(null)'' | Some str \<Rightarrow> str) c) (\<lambda>c. Inr (args, c)))
      else if q = of_char (CHR ''c'') then
        kbind (va_int args) (\<lambda>(n, args). kbind (consputc (word_of_int n) c) (\<lambda>c. Inr (args, c)))
      else if q = of_char (CHR ''%'') then
        kbind (consputc (of_char (CHR ''%'')) c) (\<lambda>c. Inr (args, c))
      else
        kbind (consputc (of_char (CHR ''%'')) c) (\<lambda>c. kbind (consputc q c) (\<lambda>c. Inr (args, c))))"

fun printf_loop :: "uint8 list \<Rightarrow> varg list \<Rightarrow> con \<Rightarrow> con kres" where
  "printf_loop [] args c = Inr c"
| "printf_loop [p] args c = (if p \<noteq> of_char (CHR ''%'') then consputc p c else Inr c)"
| "printf_loop (p # q # fmt) args c =
     (if p \<noteq> of_char (CHR ''%'') then kbind (consputc p c) (printf_loop (q # fmt) args)
      else kbind (print_conv q args c) (\<lambda>(args, c). printf_loop fmt args c))"

definition pr_acquire :: "con \<Rightarrow> con kres" where
  "pr_acquire c = kbind (spinlock_acquire (print_lk c) (chart c)) (\<lambda>(lk, h). Inr (c\<lparr>print_lk := lk, chart := h\<rparr>))"

definition pr_release :: "con \<Rightarrow> con kres" where
  "pr_release c = kbind (spinlock_release (print_lk c) (chart c)) (\<lambda>(lk, h). Inr (c\<lparr>print_lk := lk, chart := h\<rparr>))"

definition printf :: "uint8 list option \<Rightarrow> varg list \<Rightarrow> con \<Rightarrow> con kres" where
  "printf fmt args c =
     (let locking = pr_locking c
      in kbind (if locking then pr_acquire c else Inr c) (\<lambda>c.
         case fmt of
           None \<Rightarrow> Inr c
         | Some fmt \<Rightarrow> kbind (printf_loop fmt args c) (\<lambda>c. if locking then pr_release c else Inr c)))"

definition clear_screen :: "con \<Rightarrow> con kres" where
  "clear_screen c =
     kbind (uart_puts (27 # cstr ''[2J'') c) (\<lambda>c.
     kbind (uart_puts (27 # cstr ''[H'') c) (printf (Some (cstr ''Screen cleared!\<newline>'')) []))"

text \<open>\<^verbatim>\<open>panic\<close> prints the message as a format and never returns.\<close>

definition panic :: "string \<Rightarrow> con \<Rightarrow> 'r kres" where
  "panic warning c = kbind (printf (Some (cstr warning)) [] c) (\<lambda>_. Inl (Panic warning))"

definition assert :: "bool \<Rightarrow> string \<Rightarrow> con \<Rightarrow> con kres" where
  "assert condition warning c = (if \<not> condition then panic warning c else Inr c)"

section \<open>What is printed\<close>

text \<open>How many characters the port will take from the reads of its status that are known.\<close>

definition tx_room :: "con \<Rightarrow> nat" where
  "tx_room c = length (filter (\<lambda>v. v AND LSR_TX_IDLE \<noteq> 0) (lsr_reads c))"

text \<open>\<open>emits f text\<close>: with room for it, \<open>f\<close> returns and sends exactly \<open>text\<close>; it leaves the locks and the
  interrupt state as they were.\<close>

definition emits :: "(con \<Rightarrow> con kres) \<Rightarrow> uint8 list \<Rightarrow> bool" where
  "emits f text \<longleftrightarrow> (\<forall>c. cpu_ok (chart c) \<longrightarrow> length text \<le> tx_room c \<longrightarrow>
     (\<exists>d. f c = Inr d \<and> uart_w d = uart_w c @ map (Pair THR) text \<and> tx_room d = tx_room c - length text \<and>
        rhr_reads d = rhr_reads c \<and> print_lk d = print_lk c \<and> pr_locking d = pr_locking c \<and>
        (chart d = chart c \<or> chart d = section_done (chart c))))"

lemma tx_wait_room:
  "0 < length (filter (\<lambda>v. v AND LSR_TX_IDLE \<noteq> 0) vs) \<Longrightarrow>
     \<exists>ws. tx_wait vs = Some ws \<and> length (filter (\<lambda>v. v AND LSR_TX_IDLE \<noteq> 0) ws) = length (filter (\<lambda>v. v AND LSR_TX_IDLE \<noteq> 0) vs) - 1"
  by (induction vs) auto

lemma emits_putc: "emits (consputc ch) [ch]"
  unfolding emits_def
proof (intro allI impI)
  fix c assume c: "cpu_ok (chart c)" "length [ch] \<le> tx_room c"
  then obtain ws where "tx_wait (lsr_reads c) = Some ws" "length (filter (\<lambda>v. v AND LSR_TX_IDLE \<noteq> 0) ws) = tx_room c - 1"
    using tx_wait_room [of "lsr_reads c", folded tx_room_def] by auto
  then show "\<exists>d. consputc ch c = Inr d \<and> uart_w d = uart_w c @ map (Pair THR) [ch] \<and> tx_room d = tx_room c - length [ch] \<and>
      rhr_reads d = rhr_reads c \<and> print_lk d = print_lk c \<and> pr_locking d = pr_locking c \<and>
      (chart d = chart c \<or> chart d = section_done (chart c))"
    using pop_push_off [OF c(1)] by (simp add: consputc_def uart_putc_def Let_def WriteReg_def tx_room_def)
qed

lemma emits_nil: "emits Inr []"
  by (simp add: emits_def)

lemma emits_bind:
  assumes f: "emits f a" and g: "emits g b"
  shows "emits (\<lambda>c. kbind (f c) g) (a @ b)"
  unfolding emits_def
proof (intro allI impI)
  fix c assume c: "cpu_ok (chart c)" "length (a @ b) \<le> tx_room c"
  then obtain d where d: "f c = Inr d" "uart_w d = uart_w c @ map (Pair THR) a" "tx_room d = tx_room c - length a"
      "rhr_reads d = rhr_reads c" "print_lk d = print_lk c" "pr_locking d = pr_locking c"
      "chart d = chart c \<or> chart d = section_done (chart c)"
    using f unfolding emits_def by (metis (no_types, lifting) add_leD1 length_append)
  then have "cpu_ok (chart d)" "length b \<le> tx_room d" using c by auto
  then obtain e where e: "g d = Inr e" "uart_w e = uart_w d @ map (Pair THR) b" "tx_room e = tx_room d - length b"
      "rhr_reads e = rhr_reads d" "print_lk e = print_lk d" "pr_locking e = pr_locking d"
      "chart e = chart d \<or> chart e = section_done (chart d)"
    using g unfolding emits_def by blast
  have "chart e = chart c \<or> chart e = section_done (chart c)" using d(7) e(7) by auto
  then show "\<exists>d. kbind (f c) g = Inr d \<and> uart_w d = uart_w c @ map (Pair THR) (a @ b) \<and>
      tx_room d = tx_room c - length (a @ b) \<and> rhr_reads d = rhr_reads c \<and> print_lk d = print_lk c \<and>
      pr_locking d = pr_locking c \<and> (chart d = chart c \<or> chart d = section_done (chart c))"
    using d e by (intro exI [of _ e]) simp
qed

lemma emits_fold: "emits (kfold consputc out) out"
proof (induction out)
  case Nil
  then show ?case by (simp add: emits_def)
next
  case (Cons ch out)
  show ?case using emits_bind [OF emits_putc [of ch] Cons.IH] by simp
qed

section \<open>Numerals\<close>

text \<open>The numeral of a number in a base, most significant digit first, and its value.\<close>

function num_text :: "nat \<Rightarrow> nat \<Rightarrow> uint8 list" where
  "num_text b n = (if n < b \<or> b < 2 then [hexdigits ! n] else num_text b (n div b) @ [hexdigits ! (n mod b)])"
  by pat_completeness auto
termination
  by (relation "measure snd") (auto intro!: div_less_dividend)

declare num_text.simps [simp del]

definition digit_val :: "uint8 \<Rightarrow> nat" where
  "digit_val ch = (if ch < of_char (CHR '':'') then unat (ch - of_char (CHR ''0'')) else unat (ch - of_char (CHR ''a'')) + 10)"

definition num_val :: "nat \<Rightarrow> uint8 list \<Rightarrow> nat" where
  "num_val b text = foldl (\<lambda>v ch. v * b + digit_val ch) 0 text"

lemma digit_val_hex: "n < 16 \<Longrightarrow> digit_val (hexdigits ! n) = n"
proof -
  assume "n < 16"
  then have "n = 0 \<or> n = 1 \<or> n = 2 \<or> n = 3 \<or> n = 4 \<or> n = 5 \<or> n = 6 \<or> n = 7 \<or> n = 8 \<or> n = 9 \<or> n = 10 \<or> n = 11 \<or> n = 12 \<or>
      n = 13 \<or> n = 14 \<or> n = 15" by arith
  then show ?thesis by (elim disjE) (simp_all add: hexdigits_def cstr_def digit_val_def)
qed

lemma num_val_text:
  assumes "2 \<le> b" "b \<le> 16"
  shows "num_val b (num_text b n) = n"
  using assms
proof (induction b n rule: num_text.induct)
  case (1 b n)
  show ?case
  proof (cases "n < b")
    case True
    then show ?thesis using 1 by (simp add: num_text.simps [of b n] num_val_def digit_val_hex)
  next
    case False
    then have "num_val b (num_text b (n div b)) = n div b" using 1 by simp
    moreover have "n mod b < 16" using 1 mod_less_divisor [of b n] by linarith
    ultimately show ?thesis using False 1(2) by (simp add: num_text.simps [of b n] num_val_def digit_val_hex)
  qed
qed

lemma num_text_length:
  assumes "2 \<le> b" "n < b ^ k" "0 < k"
  shows "length (num_text b n) \<le> k"
  using assms
proof (induction b n arbitrary: k rule: num_text.induct)
  case (1 b n)
  show ?case
  proof (cases "n < b")
    case True
    then show ?thesis using 1(4) by (simp add: num_text.simps [of b n])
  next
    case False
    then obtain j where k: "k = Suc j" "0 < j" using 1(3,4) by (cases k; cases "k - 1") auto
    then have "n div b < b ^ j" using 1(3) by (simp add: less_mult_imp_div_less mult.commute)
    then have "length (num_text b (n div b)) \<le> j" using 1(1) [of j] False 1(2) k(2) by simp
    then show ?thesis using False 1(2) k(1) by (simp add: num_text.simps [of b n])
  qed
qed

lemma digit_loop_text:
  assumes "2 \<le> b" "b \<le> 16" and "length buf + length (num_text b (unat x)) \<le> 32"
  shows "digit_loop (of_nat b) x buf = Inr (buf @ rev (num_text b (unat x)))"
  using assms
proof (induction b "unat x" arbitrary: x buf rule: num_text.induct)
  case (1 b x buf)
  have u: "unat (of_nat b :: uint64) = b" using 1(3) by (intro unat_of_nat_small) simp
  have d: "unat (x div of_nat b) = unat x div b" "unat (x mod of_nat b) = unat x mod b" by (simp_all add: unat_div unat_mod u)
  show ?case
  proof (cases "unat x < b")
    case True
    then have "x div of_nat b = 0" using d(1) by (simp add: unat_eq_zero [symmetric] del: unat_eq_zero)
    then show ?thesis using True 1(2,4) d(2)
      by (simp add: digit_loop.simps [of "of_nat b"] num_text.simps [of b "unat x"])
  next
    case False
    then have n: "x div of_nat b \<noteq> 0" using d(1) 1(2) div_greater_zero_iff [of "unat x" b] by auto
    have t: "num_text b (unat x) = num_text b (unat x div b) @ [hexdigits ! (unat x mod b)]"
      using False 1(2) by (simp add: num_text.simps [of b "unat x"])
    have "digit_loop (of_nat b) (x div of_nat b) (buf @ [hexdigits ! (unat x mod b)]) =
        Inr ((buf @ [hexdigits ! (unat x mod b)]) @ rev (num_text b (unat x div b)))"
      using 1(1) [of "x div of_nat b" "buf @ [hexdigits ! (unat x mod b)]"] False 1(2-4) d t by simp
    then show ?thesis using n d t 1(4) by (simp add: digit_loop.simps [of "of_nat b" x])
  qed
qed

text \<open>The texts of the conversions.\<close>

definition int_text :: "int \<Rightarrow> uint8 list" where
  "int_text xx = (if xx < 0 then [of_char (CHR ''-'')] else []) @ num_text 10 (nat \<bar>xx\<bar>)"

definition hex_text :: "int \<Rightarrow> uint8 list" where
  "hex_text xx = num_text 16 (unat (word_of_int xx :: uint64))"

definition ptr_text :: "uint64 \<Rightarrow> uint8 list" where
  "ptr_text x = cstr ''0x'' @ map (\<lambda>i. hexdigits ! unat (take_bit 4 (drop_bit (60 - 4 * i) x))) [0..<16]"

lemma emits_digits:
  assumes "10 \<le> b" "b \<le> 16"
  shows "emits (\<lambda>c. kbind (digit_loop (of_nat b) x []) (\<lambda>buf. kfold consputc (rev buf) c)) (num_text b (unat x))"
proof -
  have "unat x < 2 ^ 64" using unsigned_less [of x, where ?'a = nat] by simp
  also have "(2 :: nat) ^ 64 \<le> 10 ^ 20" by simp
  also have "\<dots> \<le> b ^ 20" using assms(1) by (rule power_mono) simp
  finally have "length (num_text b (unat x)) \<le> 20" using assms(1) by (intro num_text_length) simp_all
  then show ?thesis using digit_loop_text [of b "[]" x] assms emits_fold [of "num_text b (unat x)"] by simp
qed

lemma emits_printint:
  assumes "- (2 ^ 63) < xx" "xx < 2 ^ 63"
  shows "emits (printint xx 10 True) (int_text xx)" "emits (printint xx 16 False) (hex_text xx)"
proof -
  show "emits (printint xx 16 False) (hex_text xx)"
    using emits_digits [of 16 "word_of_int xx"] by (simp add: printint_def [abs_def] hex_text_def)
  have u: "unat (word_of_int \<bar>xx\<bar> :: uint64) = nat \<bar>xx\<bar>" using assms by (intro unat_word_of_int_small) auto
  show "emits (printint xx 10 True) (int_text xx)"
  proof (cases "xx < 0")
    case True
    then have "emits (\<lambda>c. kbind (consputc (of_char (CHR ''-'')) c)
        (\<lambda>c. kbind (digit_loop (of_nat 10) (word_of_int (- xx)) []) (\<lambda>buf. kfold consputc (rev buf) c))) (int_text xx)"
      using emits_bind [OF emits_putc [of "of_char (CHR ''-'')"] emits_digits [of 10 "word_of_int \<bar>xx\<bar>"]] u
      by (simp add: int_text_def)
    then show ?thesis using True assms(1) by (simp add: printint_def [abs_def] kbind_assoc)
  next
    case False
    then show ?thesis using emits_digits [of 10 "word_of_int \<bar>xx\<bar>"] u by (simp add: int_text_def printint_def [abs_def])
  qed
qed

lemma emits_ptr_loop: "emits (ptr_loop k x) (map (\<lambda>i. hexdigits ! unat (drop_bit 60 (push_bit (4 * i) x))) [0..<k])"
proof (induction k arbitrary: x)
  case 0
  then show ?case using emits_nil by (simp add: emits_def)
next
  case (Suc k)
  have "map (\<lambda>i. hexdigits ! unat (drop_bit 60 (push_bit (4 * i) x))) [0..<Suc k] =
      (hexdigits ! unat (drop_bit 60 x)) # map (\<lambda>i. hexdigits ! unat (drop_bit 60 (push_bit (4 * i) (push_bit 4 x)))) [0..<k]"
    by (simp add: upt_conv_Cons map_Suc_upt [symmetric] add.commute del: upt_Suc)
  then show ?case using emits_bind [OF emits_putc Suc.IH [of "push_bit 4 x"]] by simp
qed

lemma top_nibble: "i < 16 \<Longrightarrow> drop_bit 60 (push_bit (4 * i) x) = take_bit 4 (drop_bit (60 - 4 * i) x)" for x :: uint64
  by (rule bit_word_eqI) (auto simp: bit_simps)

lemma emits_printptr: "emits (printptr x) (ptr_text x)"
proof -
  have "ptr_text x = [of_char (CHR ''0'')] @ [of_char (CHR ''x'')] @ map (\<lambda>i. hexdigits ! unat (drop_bit 60 (push_bit (4 * i) x))) [0..<16]"
    by (simp add: ptr_text_def cstr_def top_nibble cong: map_cong)
  then show ?thesis
    using emits_bind [OF emits_putc emits_bind [OF emits_putc emits_ptr_loop]] by (simp add: printptr_def [abs_def])
qed

section \<open>Formats\<close>

text \<open>The text of a format with its arguments; \<open>None\<close> if an argument is missing or has the wrong type.\<close>

fun int_arg :: "varg list \<Rightarrow> (int \<times> varg list) option" where
  "int_arg (VInt n # as) = (if - (2 ^ 31) \<le> n \<and> n < 2 ^ 31 then Some (n, as) else None)"
| "int_arg _ = None"

fun ptr_arg :: "varg list \<Rightarrow> (uint64 \<times> varg list) option" where
  "ptr_arg (VPtr x # as) = Some (x, as)"
| "ptr_arg _ = None"

fun str_arg :: "varg list \<Rightarrow> (uint8 list \<times> varg list) option" where
  "str_arg (VStr r # as) = Some (case r of None \<Rightarrow> cstr ''(null)'' | Some str \<Rightarrow> str, as)"
| "str_arg _ = None"

definition conv_text :: "uint8 \<Rightarrow> varg list \<Rightarrow> (uint8 list \<times> varg list) option" where
  "conv_text q args =
     (if q = of_char (CHR ''d'') then map_option (\<lambda>(n, as). (int_text n, as)) (int_arg args)
      else if q = of_char (CHR ''x'') then map_option (\<lambda>(n, as). (hex_text n, as)) (int_arg args)
      else if q = of_char (CHR ''p'') then map_option (\<lambda>(x, as). (ptr_text x, as)) (ptr_arg args)
      else if q = of_char (CHR ''s'') then str_arg args
      else if q = of_char (CHR ''c'') then map_option (\<lambda>(n, as). ([word_of_int n], as)) (int_arg args)
      else if q = of_char (CHR ''%'') then Some ([of_char (CHR ''%'')], args)
      else Some ([of_char (CHR ''%''), q], args))"

fun format :: "uint8 list \<Rightarrow> varg list \<Rightarrow> uint8 list option" where
  "format [] args = Some []"
| "format [p] args = Some (if p = of_char (CHR ''%'') then [] else [p])"
| "format (p # q # fmt) args =
     (if p \<noteq> of_char (CHR ''%'') then map_option (Cons p) (format (q # fmt) args)
      else case conv_text q args of None \<Rightarrow> None | Some (t, as) \<Rightarrow> map_option ((@) t) (format fmt as))"

lemma arg_Some:
  "int_arg args = Some (n, as) \<Longrightarrow> args = VInt n # as \<and> - (2 ^ 31) \<le> n \<and> n < 2 ^ 31"
  "ptr_arg args = Some (x, as) \<Longrightarrow> args = VPtr x # as"
  "str_arg args = Some (t, as) \<Longrightarrow> \<exists>r. args = VStr r # as \<and> t = (case r of None \<Rightarrow> cstr ''(null)'' | Some str \<Rightarrow> str)"
  by (induction args rule: int_arg.induct, simp_all split: if_splits)

lemma conv_emits:
  assumes "conv_text q args = Some (t, as)"
  shows "\<exists>f. emits f t \<and> (\<forall>c. print_conv q args c = kbind (f c) (\<lambda>c. Inr (as, c)))"
proof -
  consider (d) "q = of_char (CHR ''d'')" | (x) "q = of_char (CHR ''x'')" | (p) "q = of_char (CHR ''p'')"
    | (s) "q = of_char (CHR ''s'')" | (c) "q = of_char (CHR ''c'')" | (percent) "q = of_char (CHR ''%'')"
    | (other) "q \<noteq> of_char (CHR ''d'')" "q \<noteq> of_char (CHR ''x'')" "q \<noteq> of_char (CHR ''p'')" "q \<noteq> of_char (CHR ''s'')"
        "q \<noteq> of_char (CHR ''c'')" "q \<noteq> of_char (CHR ''%'')" by blast
  then show ?thesis
  proof cases
    case d
    then obtain n where "int_arg args = Some (n, as)" "t = int_text n" using assms by (auto simp: conv_text_def)
    with arg_Some(1) [OF this(1)] d show ?thesis
      using emits_printint(1) [of n] by (intro exI [of _ "printint n 10 True"]) (simp add: print_conv_def)
  next
    case x
    then obtain n where "int_arg args = Some (n, as)" "t = hex_text n" using assms by (auto simp: conv_text_def)
    with arg_Some(1) [OF this(1)] x show ?thesis
      using emits_printint(2) [of n] by (intro exI [of _ "printint n 16 False"]) (simp add: print_conv_def)
  next
    case p
    then obtain n where "ptr_arg args = Some (n, as)" "t = ptr_text n" using assms by (auto simp: conv_text_def)
    with arg_Some(2) [OF this(1)] p show ?thesis
      using emits_printptr by (intro exI [of _ "printptr n"]) (simp add: print_conv_def)
  next
    case s
    then have "str_arg args = Some (t, as)" using assms by (simp add: conv_text_def)
    from arg_Some(3) [OF this] show ?thesis
      using emits_fold s by (intro exI [of _ "kfold consputc t"]) (auto simp: print_conv_def)
  next
    case c
    then obtain n where "int_arg args = Some (n, as)" "t = [word_of_int n]" using assms by (auto simp: conv_text_def)
    with arg_Some(1) [OF this(1)] c show ?thesis
      using emits_putc by (intro exI [of _ "consputc (word_of_int n)"]) (simp add: print_conv_def)
  next
    case percent
    then show ?thesis using emits_putc assms by (intro exI [of _ "consputc q"]) (auto simp: print_conv_def conv_text_def)
  next
    case other
    then show ?thesis using emits_bind [OF emits_putc emits_putc, of "of_char (CHR ''%'')" q] assms
      by (intro exI [of _ "\<lambda>c. kbind (consputc (of_char (CHR ''%'')) c) (consputc q)"]) (simp add: print_conv_def conv_text_def kbind_assoc)
  qed
qed

lemma emits_printf_loop: "format fmt args = Some out \<Longrightarrow> emits (printf_loop fmt args) out"
proof (induction fmt args arbitrary: out rule: format.induct)
  case (1 args)
  then show ?case by (simp add: emits_def)
next
  case (2 p args)
  then show ?case using emits_putc [of p] emits_nil by (auto simp: emits_def)
next
  case (3 p q fmt args)
  show ?case
  proof (cases "p = of_char (CHR ''%'')")
    case False
    then obtain t where "format (q # fmt) args = Some t" "out = p # t" using 3(3) by auto
    then show ?thesis using emits_bind [OF emits_putc [of p] 3(1)] False by simp
  next
    case True
    then obtain t as u where t: "conv_text q args = Some (t, as)" "format fmt as = Some u" "out = t @ u"
      using 3(3) by (auto split: option.splits)
    then obtain f where "emits f t" "\<And>c. print_conv q args c = kbind (f c) (\<lambda>c. Inr (as, c))" using conv_emits by blast
    then show ?thesis using emits_bind [of f t "printf_loop fmt as" u] 3(2) [of "(t, as)"] True t by (simp add: kbind_assoc)
  qed
qed

lemma section_push: "cpu_ok h \<Longrightarrow> section_done (push_off h) = push_off h"
  by (simp add: section_done_def push_off_facts cpu_ok_def)

lemma printf_state:
  assumes f: "format fmt args = Some out" and c: "cpu_ok (chart c)" "\<not> locked (print_lk c)" "length out \<le> tx_room c"
  shows "\<exists>d. printf (Some fmt) args c = Inr d \<and> uart_w d = uart_w c @ map (Pair THR) out \<and> \<not> locked (print_lk d) \<and>
    (chart d = chart c \<or> chart d = section_done (chart c))"
proof (cases "pr_locking c")
  case False
  then show ?thesis using emits_printf_loop [OF f] c unfolding emits_def printf_def by fastforce
next
  case True
  let ?lk = "(print_lk c)\<lparr>locked := True, cpuid := mycpuid (chart c)\<rparr>"
  let ?a = "c\<lparr>print_lk := ?lk, chart := push_off (chart c)\<rparr>"
  have a: "pr_acquire c = Inr ?a" using c(2) by (simp add: pr_acquire_def spinlock_acquire_free)
  obtain d where d: "printf_loop fmt args ?a = Inr d" "uart_w d = uart_w c @ map (Pair THR) out" "print_lk d = ?lk"
      "chart d = push_off (chart c)"
    using emits_printf_loop [OF f] c(1,3) cpu_ok_push_off [OF c(1)] section_push [OF c(1)]
    unfolding emits_def tx_room_def by (fastforce dest: spec [of _ ?a])
  have "pr_release d = Inr (d\<lparr>print_lk := unlocked (print_lk c), chart := section_done (chart c)\<rparr>)"
    using d spinlock_release_acquired [OF c(1), of "print_lk c"] by (simp add: pr_release_def)
  then show ?thesis using True a d by (simp add: printf_def Let_def)
qed

text \<open>\<^bold>\<open>C22\<close>: formatted output is correct. If the arguments fit the format and the port takes enough characters,
  \<^verbatim>\<open>printf\<close> returns, sends exactly the text that the format denotes (\<open>%d\<close> in decimal with a sign, \<open>%x\<close> and \<open>%p\<close> in
  hexadecimal, \<open>%s\<close>, \<open>%c\<close>, \<open>%%\<close>, and unknown conversions as they stand), gives back the lock of the console and
  leaves the interrupt state and nesting as they were.\<close>

theorem printf_correct:
  assumes "format fmt args = Some out" and "cpu_ok (chart c)" "\<not> locked (print_lk c)" "length out \<le> tx_room c"
  shows "\<exists>d. printf (Some fmt) args c = Inr d \<and> uart_w d = uart_w c @ map (Pair THR) out \<and> \<not> locked (print_lk d) \<and>
    sstatus (chart d) = sstatus (chart c) \<and> noff (mycpu (chart d)) = noff (mycpu (chart c))"
proof -
  obtain d where "printf (Some fmt) args c = Inr d" "uart_w d = uart_w c @ map (Pair THR) out" "\<not> locked (print_lk d)"
    "chart d = chart c \<or> chart d = section_done (chart c)"
    using printf_state [OF assms] by blast
  then show ?thesis by (intro exI [of _ d]) auto
qed

theorem printf_correct_witness:
  "\<exists>d. printf (Some (cstr ''pid %d: %s%c'')) [VInt (-12), VStr (Some (cstr ''up'')), VInt 10]
      \<lparr>chart = hart0, lsr_reads = replicate 40 0x60, rhr_reads = [], uart_w = [], print_lk = spinlock_init ''pr'', pr_locking = True\<rparr> = Inr d \<and>
    uart_w d = map (Pair THR) (cstr ''pid -12: up\<newline>'')"
proof -
  let ?c = "\<lparr>chart = hart0, lsr_reads = replicate 40 0x60, rhr_reads = [], uart_w = [], print_lk = spinlock_init ''pr'', pr_locking = True\<rparr>"
  have f: "format (cstr ''pid %d: %s%c'') [VInt (-12), VStr (Some (cstr ''up'')), VInt 10] = Some (cstr ''pid -12: up\<newline>'')"
    by (simp add: cstr_def conv_text_def int_text_def num_text.simps [of 10] hexdigits_def)
  show ?thesis using printf_correct [OF f, of ?c] by (force simp: spinlock_init_def tx_room_def cstr_def LSR_TX_IDLE_def)
qed

text \<open>\<^bold>\<open>C39\<close>: a number can be read back from what is printed. For every \<^verbatim>\<open>long long\<close> but the smallest,
  \<^verbatim>\<open>printint\<close> stays inside its buffer and sends a sign exactly for negative numbers, followed by a numeral of at most 19
  digits with the absolute value. For the smallest one it leaves the defined behaviour of C, as its negation overflows.\<close>

theorem printint_value:
  assumes "- (2 ^ 63) \<le> xx" "xx < 2 ^ 63" and "cpu_ok (chart c)" "21 \<le> tx_room c"
  shows "if xx = - (2 ^ 63) then printint xx 10 True c = Inl (Undef ''printint'')
    else \<exists>d out. printint xx 10 True c = Inr d \<and>
      uart_w d = uart_w c @ map (Pair THR) ((if xx < 0 then [of_char (CHR ''-'')] else []) @ out) \<and>
      int (num_val 10 out) = \<bar>xx\<bar> \<and> length out \<le> 19"
proof (cases "xx = - (2 ^ 63)")
  case True
  obtain d where "consputc (of_char (CHR ''-'')) c = Inr d"
    using emits_putc [of "of_char (CHR ''-'')", unfolded emits_def, rule_format, OF assms(3)] assms(4) by auto
  then show ?thesis using True by (simp add: printint_def)
next
  case False
  have l: "length (num_text 10 (nat \<bar>xx\<bar>)) \<le> 19" using assms by (intro num_text_length) auto
  then have "length (int_text xx) \<le> tx_room c" using assms(4) by (cases "xx < 0") (simp_all add: int_text_def)
  then obtain d where "printint xx 10 True c = Inr d" "uart_w d = uart_w c @ map (Pair THR) (int_text xx)"
    using emits_printint(1) [OF _ assms(2), unfolded emits_def, rule_format, OF _ assms(3)] assms(1) False by (auto simp: order_less_le)
  then show ?thesis
    unfolding if_not_P [OF False] using l by (intro exI [of _ d] exI [of _ "num_text 10 (nat \<bar>xx\<bar>)"]) (simp add: int_text_def num_val_text)
qed

theorem printint_value_witness:
  "\<exists>d out. printint (1 - 2 ^ 63) 10 True
      \<lparr>chart = hart0, lsr_reads = replicate 40 0x60, rhr_reads = [], uart_w = [], print_lk = spinlock_init ''pr'', pr_locking = True\<rparr> = Inr d \<and>
    uart_w d = map (Pair THR) (of_char (CHR ''-'') # out) \<and> num_val 10 out = 2 ^ 63 - 1"
  using printint_value [of "1 - 2 ^ 63" "\<lparr>chart = hart0, lsr_reads = replicate 40 0x60, rhr_reads = [], uart_w = [],
    print_lk = spinlock_init ''pr'', pr_locking = True\<rparr>"]
  by (auto simp: tx_room_def LSR_TX_IDLE_def)

text \<open>A null format leaves the lock of the console taken, so that the next output panics.\<close>

lemma printf_null_keeps_lock:
  assumes "pr_locking c" "\<not> locked (print_lk c)"
  shows "\<exists>d. printf None [] c = Inr d \<and> printf (Some fmt) args d = Inl (Panic ''spinlock: acquire\<newline>'')"
  using assms
  by (simp add: printf_def pr_acquire_def spinlock_acquire_free spinlock_acquire_def spinlock_holding_def push_off_facts Let_def)

end
