(* ===== verification/Bio.thy ===== *)
theory Bio
  imports Prelude
begin

text \<open>
  \<^verbatim>\<open>kernel/fs/bio.c\<close>: the block cache, a ring of \<^verbatim>\<open>NBUF\<close> buffers in least-recently-used
  order. Buffer pointers are indices into \<^verbatim>\<open>bcache.buf\<close>, the list head is one more index, and
  the \<^verbatim>\<open>prev\<close>/\<^verbatim>\<open>next\<close> pointers are fields that the code relinks. \<open>ring\<close> relates the pointers to
  the list of buffers they thread; \<open>bcache_inv\<close> is the invariant of the cache. The locale
  \<open>block_cache\<close> states what the log and the file system rely on: what each operation does to
  the contents of the blocks (\<open>blk\<close>), their reference counts (\<open>refs\<close>) and the disk.
\<close>

section \<open>Buffers\<close>

definition BSIZE :: nat where [layout]: "BSIZE = 1024"
definition FSSIZE :: nat where [layout]: "FSSIZE = 1000"
definition NBUF :: nat where [layout]: "NBUF = 30"

text \<open>The index of \<^verbatim>\<open>bcache.head\<close>.\<close>

definition HEAD :: nat where [layout]: "HEAD = 30"

type_synonym block = bytes

record buf =
  valid :: bool
  bdisk :: bool
  bdev :: uint64
  blockno :: uint64
  refcnt :: uint64
  prev :: nat
  nxt :: nat
  bdata :: block

text \<open>The cache and the disk behind it. \<open>dwrites\<close> records the block writes the disk has
  performed, oldest first: a crash leaves the effect of a prefix of them.\<close>

record bio =
  bufs :: "nat \<Rightarrow> buf"
  dsk :: "uint64 \<Rightarrow> block"
  dwrites :: "(uint64 \<times> block) list"

definition upd_buf :: "nat \<Rightarrow> (buf \<Rightarrow> buf) \<Rightarrow> 'a bio_scheme \<Rightarrow> 'a bio_scheme" where
  "upd_buf b f s = s\<lparr>bufs := (bufs s)(b := f (bufs s b))\<rparr>"

text \<open>The effect of a completed request of the disk driver (\<^verbatim>\<open>kernel/dev/virtio_disk.c\<close>) on the
  buffer and on the disk.\<close>

definition disk_rw :: "nat \<Rightarrow> bool \<Rightarrow> 'a bio_scheme \<Rightarrow> 'a bio_scheme" where
  "disk_rw b write s =
     (if write then
        s\<lparr>dsk := (dsk s)(blockno (bufs s b) := bdata (bufs s b)),
          dwrites := dwrites s @ [(blockno (bufs s b), bdata (bufs s b))]\<rparr>
      else upd_buf b (\<lambda>c. c\<lparr>bdata := dsk s (blockno c)\<rparr>) s)"

section \<open>Operations\<close>

definition link_front :: "nat \<Rightarrow> (nat \<Rightarrow> buf) \<Rightarrow> (nat \<Rightarrow> buf)" where
  "link_front b bs =
     (let bs1 = bs(b := (bs b)\<lparr>nxt := nxt (bs HEAD)\<rparr>);
          bs2 = bs1(b := (bs1 b)\<lparr>prev := HEAD\<rparr>);
          q = nxt (bs2 HEAD);
          bs3 = bs2(q := (bs2 q)\<lparr>prev := b\<rparr>)
      in bs3(HEAD := (bs3 HEAD)\<lparr>nxt := b\<rparr>))"

definition unlink :: "nat \<Rightarrow> (nat \<Rightarrow> buf) \<Rightarrow> (nat \<Rightarrow> buf)" where
  "unlink b bs =
     (let q = nxt (bs b);
          bs1 = bs(q := (bs q)\<lparr>prev := prev (bs b)\<rparr>);
          p = prev (bs1 b)
      in bs1(p := (bs1 p)\<lparr>nxt := nxt (bs1 b)\<rparr>))"

text \<open>The ring that \<^verbatim>\<open>bio_init\<close> builds. Its last call, \<^verbatim>\<open>virtio_disk_init\<close>, works on the state of the driver; the whole function is
  \<open>bio_init_disk\<close> in the theory \<open>Virtio\<close>, and \<open>main\<close> in \<open>Boot\<close> makes both calls.\<close>

definition bio_init :: "'a bio_scheme \<Rightarrow> 'a bio_scheme" where
  "bio_init s =
     (let bs = bufs s;
          bs1 = bs(HEAD := (bs HEAD)\<lparr>prev := HEAD, nxt := HEAD\<rparr>)
      in s\<lparr>bufs := fold link_front [0..<NBUF] bs1\<rparr>)"

fun scan_next :: "nat \<Rightarrow> (nat \<Rightarrow> buf) \<Rightarrow> uint64 \<Rightarrow> uint64 \<Rightarrow> nat \<Rightarrow> nat option kres" where
  "scan_next 0 bs dev bn b = Inl (Spin ''bget'')"
| "scan_next (Suc fuel) bs dev bn b =
     (if b = HEAD then Inr None
      else if bdev (bs b) = dev \<and> blockno (bs b) = bn then Inr (Some b)
      else scan_next fuel bs dev bn (nxt (bs b)))"

fun scan_prev :: "nat \<Rightarrow> (nat \<Rightarrow> buf) \<Rightarrow> nat \<Rightarrow> nat option kres" where
  "scan_prev 0 bs b = Inl (Spin ''bget'')"
| "scan_prev (Suc fuel) bs b =
     (if b = HEAD then Inr None
      else if refcnt (bs b) = 0 then Inr (Some b)
      else scan_prev fuel bs (prev (bs b)))"

definition bget :: "uint64 \<Rightarrow> uint64 \<Rightarrow> 'a bio_scheme \<Rightarrow> (nat \<times> 'a bio_scheme) kres" where
  "bget dev bn s =
     kguard (\<not> unat bn \<ge> FSSIZE) (Panic ''bget: blockno out of range'')
      (kbind (scan_next (Suc NBUF) (bufs s) dev bn (nxt (bufs s HEAD))) (\<lambda>r.
        case r of
          Some b \<Rightarrow> Inr (b, upd_buf b (\<lambda>c. c\<lparr>refcnt := refcnt c + 1\<rparr>) s)
        | None \<Rightarrow>
            kbind (scan_prev (Suc NBUF) (bufs s) (prev (bufs s HEAD))) (\<lambda>r.
              case r of
                Some b \<Rightarrow>
                  Inr (b, upd_buf b (\<lambda>c. c\<lparr>bdev := dev, blockno := bn, valid := False, refcnt := 1\<rparr>) s)
              | None \<Rightarrow> Inl (Panic ''bget: no buffers''))))"

definition bread :: "uint64 \<Rightarrow> uint64 \<Rightarrow> 'a bio_scheme \<Rightarrow> (nat \<times> 'a bio_scheme) kres" where
  "bread dev bn s =
     kbind (bget dev bn s) (\<lambda>(b, s).
       if \<not> valid (bufs s b)
       then Inr (b, upd_buf b (\<lambda>c. c\<lparr>valid := True\<rparr>) (disk_rw b False s))
       else Inr (b, s))"

definition bwrite :: "nat \<Rightarrow> 'a bio_scheme \<Rightarrow> 'a bio_scheme kres" where
  "bwrite b s = kguard (\<not> refcnt (bufs s b) < 1) (Panic ''bwrite'') (Inr (disk_rw b True s))"

definition brelse :: "nat \<Rightarrow> 'a bio_scheme \<Rightarrow> 'a bio_scheme kres" where
  "brelse b s =
     kguard (\<not> refcnt (bufs s b) < 1) (Panic ''brelse'')
      (let s1 = upd_buf b (\<lambda>c. c\<lparr>refcnt := refcnt c - 1\<rparr>) s
       in if refcnt (bufs s1 b) = 0
          then Inr (s1\<lparr>bufs := link_front b (unlink b (bufs s1))\<rparr>)
          else Inr s1)"

definition bpin :: "nat \<Rightarrow> 'a bio_scheme \<Rightarrow> 'a bio_scheme" where
  "bpin b s = upd_buf b (\<lambda>c. c\<lparr>refcnt := refcnt c + 1\<rparr>) s"

definition bunpin :: "nat \<Rightarrow> 'a bio_scheme \<Rightarrow> 'a bio_scheme" where
  "bunpin b s = upd_buf b (\<lambda>c. c\<lparr>refcnt := refcnt c - 1\<rparr>) s"

text \<open>A write of the holder of a buffer through \<^verbatim>\<open>b->data\<close>.\<close>

definition set_data :: "nat \<Rightarrow> block \<Rightarrow> 'a bio_scheme \<Rightarrow> 'a bio_scheme" where
  "set_data b d s = upd_buf b (\<lambda>c. c\<lparr>bdata := d\<rparr>) s"

section \<open>The ring of buffers\<close>

text \<open>Following \<open>f\<close> from each element of the list gives the next one.\<close>

abbreviation chain :: "(nat \<Rightarrow> nat) \<Rightarrow> nat list \<Rightarrow> bool" where
  "chain f \<equiv> successively (\<lambda>a b. f a = b)"

definition ring :: "(nat \<Rightarrow> buf) \<Rightarrow> nat list \<Rightarrow> bool" where
  "ring bs xs \<longleftrightarrow> distinct (HEAD # xs) \<and>
     chain (\<lambda>i. nxt (bs i)) (HEAD # xs @ [HEAD]) \<and>
     chain (\<lambda>i. prev (bs i)) (HEAD # rev xs @ [HEAD])"

lemma chain_cong:
  "(\<And>a. a \<in> set (butlast xs) \<Longrightarrow> f a = g a) \<Longrightarrow> chain f xs = chain g xs"
  by (induction xs rule: induct_list012) auto

lemma chain_split:
  "chain f (xs @ ys) \<longleftrightarrow> chain f xs \<and> chain f ys \<and> (xs = [] \<or> ys = [] \<or> f (last xs) = hd ys)"
  by (rule successively_append_iff)

text \<open>Skipping the element \<open>b\<close> of a chain.\<close>

lemma chain_skip:
  assumes "chain f ((h # ys) @ b # (zs @ [h]))" and "distinct (h # ys @ b # zs)"
    and "g (last (h # ys)) = f b"
    and "\<And>a. a \<in> set (butlast (h # ys)) \<union> set zs \<Longrightarrow> g a = f a"
  shows "chain g ((h # ys) @ (zs @ [h]))"
proof -
  have c: "chain f (h # ys)" "chain f (zs @ [h])" "f b = hd (zs @ [h])"
    using assms(1) unfolding chain_split [of f "h # ys"]
    by (auto simp: successively_Cons)
  have "chain g (h # ys)" using c(1) assms(4) by (subst chain_cong [where g = f]) auto
  moreover have "chain g (zs @ [h])" using c(2) assms(4) by (subst chain_cong [where g = f]) auto
  ultimately show ?thesis using c(3) assms(3) unfolding chain_split [of g "h # ys"] by simp
qed

lemma chain_insert:
  assumes "chain f ((h # ys) @ [h])" and "b \<notin> set (h # ys)"
    and "g (last (h # ys)) = b" and "g b = h"
    and "\<And>a. a \<in> set (butlast (h # ys)) \<Longrightarrow> g a = f a"
  shows "chain g ((h # ys) @ [b, h])"
proof -
  have "chain f (h # ys)" using assms(1) unfolding chain_split [of f "h # ys"] by simp
  then have "chain g (h # ys)" using assms(5) by (subst chain_cong [where g = f]) auto
  then show ?thesis using assms(3,4) unfolding chain_split [of g "h # ys"] by simp
qed

lemma link_front_nxt:
  assumes "b \<noteq> HEAD"
  shows "nxt (link_front b bs i) = (if i = HEAD then b else if i = b then nxt (bs HEAD) else nxt (bs i))"
  using assms by (auto simp: link_front_def Let_def)

lemma link_front_prev:
  assumes "b \<noteq> HEAD" and "nxt (bs HEAD) \<noteq> b"
  shows "prev (link_front b bs i) =
    (if i = nxt (bs HEAD) then b else if i = b then HEAD else prev (bs i))"
  using assms by (auto simp: link_front_def Let_def)

lemma unlink_nxt:
  assumes "nxt (bs b) \<noteq> b" and "prev (bs b) \<noteq> b"
  shows "nxt (unlink b bs i) = (if i = prev (bs b) then nxt (bs b) else nxt (bs i))"
  using assms by (auto simp: unlink_def Let_def)

lemma unlink_prev:
  assumes "nxt (bs b) \<noteq> b" and "prev (bs b) \<noteq> b"
  shows "prev (unlink b bs i) = (if i = nxt (bs b) then prev (bs b) else prev (bs i))"
  using assms by (auto simp: unlink_def Let_def)

text \<open>The relinking keeps every other field.\<close>

definition payload :: "buf \<Rightarrow> bool \<times> bool \<times> uint64 \<times> uint64 \<times> uint64 \<times> block" where
  "payload c = (valid c, bdisk c, bdev c, blockno c, refcnt c, bdata c)"

lemma payload_eqD:
  assumes "payload c = payload d"
  shows "valid c = valid d" "bdev c = bdev d" "blockno c = blockno d" "refcnt c = refcnt d"
    "bdata c = bdata d"
  using assms by (simp_all add: payload_def)

lemma payload_link_front [simp]: "payload (link_front b bs i) = payload (bs i)"
  by (auto simp: link_front_def Let_def payload_def)

lemma payload_unlink [simp]: "payload (unlink b bs i) = payload (bs i)"
  by (auto simp: unlink_def Let_def payload_def)

lemma ring_heads:
  assumes "ring bs xs"
  shows "nxt (bs HEAD) = hd (xs @ [HEAD])" "prev (bs HEAD) = hd (rev xs @ [HEAD])"
proof -
  show "nxt (bs HEAD) = hd (xs @ [HEAD])"
    using assms by (cases xs) (auto simp: ring_def)
  show "prev (bs HEAD) = hd (rev xs @ [HEAD])"
    using assms by (cases xs rule: rev_cases) (auto simp: ring_def)
qed

lemma ring_cong:
  "(\<And>i. nxt (bs i) = nxt (bs' i) \<and> prev (bs i) = prev (bs' i)) \<Longrightarrow> ring bs xs = ring bs' xs"
  by (simp add: ring_def)

lemma ring_link_front:
  assumes r: "ring bs xs" and b: "b \<notin> set xs" "b \<noteq> HEAD"
  shows "ring (link_front b bs) (b # xs)"
proof -
  have h: "nxt (bs HEAD) = hd (xs @ [HEAD])" by (rule ring_heads(1) [OF r])
  then have nb: "nxt (bs HEAD) \<noteq> b" using b by (cases xs) auto
  have d: "distinct xs" "HEAD \<notin> set xs" using r by (auto simp: ring_def)
  let ?n = "\<lambda>i. nxt (link_front b bs i)" and ?p = "\<lambda>i. prev (link_front b bs i)"
  have "chain (\<lambda>i. nxt (bs i)) (xs @ [HEAD])"
    using r by (auto simp: ring_def successively_Cons)
  then have "chain ?n (xs @ [HEAD])"
    using b d by (subst chain_cong [where g = "\<lambda>i. nxt (bs i)"]) (auto simp: link_front_nxt)
  then have fwd: "chain ?n (HEAD # (b # xs) @ [HEAD])"
    using b h by (cases xs) (auto simp: link_front_nxt)
  have "last (HEAD # rev xs) = nxt (bs HEAD)" using h by (cases xs) auto
  moreover have "a \<noteq> nxt (bs HEAD)" if "a \<in> set (butlast (HEAD # rev xs))" for a
    using that h d by (cases xs) (auto simp: butlast_append split: if_splits)
  moreover have "a \<noteq> b" if "a \<in> set (butlast (HEAD # rev xs))" for a
    using in_set_butlastD [OF that] b by auto
  ultimately have "chain ?p ((HEAD # rev xs) @ [b, HEAD])"
    using r b nb
    by (intro chain_insert [where f = "\<lambda>i. prev (bs i)"]) (auto simp: ring_def link_front_prev)
  then show ?thesis using fwd d b by (simp add: ring_def)
qed

lemma ring_neighbours:
  assumes "ring bs (ys @ b # zs)"
  shows "nxt (bs b) = hd (zs @ [HEAD])" "prev (bs b) = last (HEAD # ys)"
    "nxt (bs b) \<noteq> b" "prev (bs b) \<noteq> b"
proof -
  have "chain (\<lambda>i. nxt (bs i)) ((HEAD # ys @ [b]) @ (zs @ [HEAD]))"
    using assms by (simp add: ring_def)
  then show n: "nxt (bs b) = hd (zs @ [HEAD])" by (subst (asm) chain_split) auto
  have "chain (\<lambda>i. prev (bs i)) ((HEAD # rev zs @ [b]) @ (rev ys @ [HEAD]))"
    using assms by (simp add: ring_def)
  then have "prev (bs b) = hd (rev ys @ [HEAD])" by (subst (asm) chain_split) auto
  then show p: "prev (bs b) = last (HEAD # ys)" by (simp add: hd_append hd_rev)
  show "nxt (bs b) \<noteq> b" using n assms by (cases zs) (auto simp: ring_def)
  show "prev (bs b) \<noteq> b" using p assms by (cases ys rule: rev_cases) (auto simp: ring_def)
qed

lemma ring_unlink:
  assumes r: "ring bs (ys @ b # zs)"
  shows "ring (unlink b bs) (ys @ zs)"
proof -
  note nb = ring_neighbours [OF r]
  have d: "distinct (HEAD # ys @ b # zs)" using r by (simp add: ring_def)
  have lastp: "a \<noteq> last (HEAD # us)" if "a \<in> set (butlast (HEAD # us)) \<union> set vs"
    "distinct (HEAD # us @ b # vs)" for a us vs
    using that by (cases us rule: rev_cases) (auto simp: butlast_append)
  have fwd: "chain (\<lambda>i. nxt (unlink b bs i)) ((HEAD # ys) @ (zs @ [HEAD]))"
    using r d nb lastp [of _ ys zs]
    by (intro chain_skip [where f = "\<lambda>i. nxt (bs i)" and b = b])
      (auto simp: ring_def unlink_nxt)
  have d': "distinct (HEAD # rev zs @ b # rev ys)" using d by auto
  have q: "nxt (bs b) = last (HEAD # rev zs)" using nb(1) by (cases zs) auto
  have "chain (\<lambda>i. prev (unlink b bs i)) ((HEAD # rev zs) @ (rev ys @ [HEAD]))"
    using r d' nb(3,4) q lastp [OF _ d']
    by (intro chain_skip [where f = "\<lambda>i. prev (bs i)" and b = b])
      (auto simp: ring_def unlink_prev)
  then show ?thesis using fwd d by (simp add: ring_def)
qed

section \<open>Searching the ring\<close>

lemma scan_next_find:
  assumes "chain (\<lambda>i. nxt (bs i)) (xs @ [HEAD])" and "HEAD \<notin> set xs" and "length xs < fuel"
  shows "scan_next fuel bs dev bn (hd (xs @ [HEAD])) =
    Inr (find (\<lambda>i. bdev (bs i) = dev \<and> blockno (bs i) = bn) xs)"
  using assms
proof (induction xs arbitrary: fuel)
  case Nil
  then show ?case by (cases fuel) auto
next
  case (Cons x xs)
  then obtain f where f: "fuel = Suc f" by (cases fuel) auto
  have n: "nxt (bs x) = hd (xs @ [HEAD])" using Cons.prems(1) by (cases xs) auto
  have "chain (\<lambda>i. nxt (bs i)) (xs @ [HEAD])"
    using Cons.prems(1) by (auto simp: successively_Cons)
  then show ?case using Cons f n by simp
qed

lemma scan_prev_find:
  assumes "chain (\<lambda>i. prev (bs i)) (xs @ [HEAD])" and "HEAD \<notin> set xs" and "length xs < fuel"
  shows "scan_prev fuel bs (hd (xs @ [HEAD])) = Inr (find (\<lambda>i. refcnt (bs i) = 0) xs)"
  using assms
proof (induction xs arbitrary: fuel)
  case Nil
  then show ?case by (cases fuel) auto
next
  case (Cons x xs)
  then obtain f where f: "fuel = Suc f" by (cases fuel) auto
  have n: "prev (bs x) = hd (xs @ [HEAD])" using Cons.prems(1) by (cases xs) auto
  have "chain (\<lambda>i. prev (bs i)) (xs @ [HEAD])"
    using Cons.prems(1) by (auto simp: successively_Cons)
  then show ?case using Cons f n by simp
qed

lemma ring_length: "ring bs xs \<Longrightarrow> set xs = {0..<NBUF} \<Longrightarrow> length xs = NBUF"
  using distinct_card [of xs] by (simp add: ring_def)

lemma bget_ring:
  assumes r: "ring (bufs s) xs" and all: "set xs = {0..<NBUF}" and bn: "unat bn < FSSIZE"
  shows "bget d bn s =
    (case find (\<lambda>i. bdev (bufs s i) = d \<and> blockno (bufs s i) = bn) xs of
       Some b \<Rightarrow> Inr (b, upd_buf b (\<lambda>c. c\<lparr>refcnt := refcnt c + 1\<rparr>) s)
     | None \<Rightarrow> (case find (\<lambda>i. refcnt (bufs s i) = 0) (rev xs) of
         Some b \<Rightarrow>
           Inr (b, upd_buf b (\<lambda>c. c\<lparr>bdev := d, blockno := bn, valid := False, refcnt := 1\<rparr>) s)
       | None \<Rightarrow> Inl (Panic ''bget: no buffers'')))"
proof -
  have l: "length xs = NBUF" by (rule ring_length [OF r all])
  have "chain (\<lambda>i. nxt (bufs s i)) (xs @ [HEAD])" "chain (\<lambda>i. prev (bufs s i)) (rev xs @ [HEAD])"
    "HEAD \<notin> set xs"
    using r by (auto simp: ring_def successively_Cons)
  then have "scan_next (Suc NBUF) (bufs s) d bn (nxt (bufs s HEAD)) =
      Inr (find (\<lambda>i. bdev (bufs s i) = d \<and> blockno (bufs s i) = bn) xs)"
    and "scan_prev (Suc NBUF) (bufs s) (prev (bufs s HEAD)) =
      Inr (find (\<lambda>i. refcnt (bufs s i) = 0) (rev xs))"
    unfolding ring_heads [OF r] by (intro scan_next_find scan_prev_find; simp add: l)+
  then show ?thesis using bn by (simp add: bget_def split: option.splits)
qed

section \<open>What the cache holds\<close>

text \<open>Buffer \<open>b\<close> caches block \<open>bn\<close> of device \<open>d\<close>.\<close>

definition handle :: "uint64 \<Rightarrow> 'a bio_scheme \<Rightarrow> nat \<Rightarrow> uint64 \<Rightarrow> bool" where
  "handle d s b bn \<longleftrightarrow> b < NBUF \<and> bdev (bufs s b) = d \<and> blockno (bufs s b) = bn"

definition cached :: "uint64 \<Rightarrow> 'a bio_scheme \<Rightarrow> uint64 \<Rightarrow> nat option" where
  "cached d s bn = find (\<lambda>i. bdev (bufs s i) = d \<and> blockno (bufs s i) = bn) [0..<NBUF]"

text \<open>The content of a block as \<^verbatim>\<open>bread\<close> shows it, and its reference count.\<close>

definition blk :: "uint64 \<Rightarrow> 'a bio_scheme \<Rightarrow> uint64 \<Rightarrow> block" where
  "blk d s bn = (case cached d s bn of Some b \<Rightarrow> bdata (bufs s b) | None \<Rightarrow> dsk s bn)"

definition refs :: "uint64 \<Rightarrow> 'a bio_scheme \<Rightarrow> uint64 \<Rightarrow> nat" where
  "refs d s bn = (case cached d s bn of Some b \<Rightarrow> unat (refcnt (bufs s b)) | None \<Rightarrow> 0)"

text \<open>The invariant: the pointers thread all buffers, buffers of other devices are unused, each
  block is cached at most once, and a buffer that nobody references agrees with the disk.\<close>

definition core_inv :: "uint64 \<Rightarrow> (nat \<Rightarrow> buf) \<Rightarrow> (uint64 \<Rightarrow> block) \<Rightarrow> bool" where
  "core_inv d bs dk \<longleftrightarrow>
     (\<forall>i < NBUF. bdev (bs i) \<noteq> d \<longrightarrow> refcnt (bs i) = 0) \<and>
     (\<forall>i < NBUF. bdev (bs i) = d \<longrightarrow> valid (bs i) \<and> unat (blockno (bs i)) < FSSIZE) \<and>
     (\<forall>i < NBUF. \<forall>j < NBUF. bdev (bs i) = d \<and> bdev (bs j) = d \<and> blockno (bs i) = blockno (bs j)
        \<longrightarrow> i = j) \<and>
     (\<forall>i < NBUF. bdev (bs i) = d \<and> refcnt (bs i) = 0 \<longrightarrow> bdata (bs i) = dk (blockno (bs i)))"

definition bcache_inv :: "uint64 \<Rightarrow> 'a bio_scheme \<Rightarrow> bool" where
  "bcache_inv d s \<longleftrightarrow>
     (\<exists>xs. ring (bufs s) xs \<and> set xs = {0..<NBUF}) \<and> core_inv d (bufs s) (dsk s)"

lemma handle_unique:
  "core_inv d (bufs s) dk \<Longrightarrow> handle d s b bn \<Longrightarrow> handle d s b' bn \<Longrightarrow> b = b'"
  by (auto simp: core_inv_def handle_def)

lemma cached_Some_iff:
  assumes "core_inv d (bufs s) dk"
  shows "cached d s bn = Some b \<longleftrightarrow> handle d s b bn"
proof
  assume "cached d s bn = Some b"
  then show "handle d s b bn" by (auto simp: cached_def find_Some_iff handle_def)
next
  assume h: "handle d s b bn"
  then have "cached d s bn \<noteq> None" by (auto simp: cached_def find_None_iff handle_def)
  then obtain b' where b': "cached d s bn = Some b'" by blast
  then have "handle d s b' bn" by (auto simp: cached_def find_Some_iff handle_def)
  then show "cached d s bn = Some b" using handle_unique [OF assms h] b' by simp
qed

lemma cached_None_iff: "cached d s bn = None \<longleftrightarrow> (\<forall>b. \<not> handle d s b bn)"
  by (auto simp: cached_def find_None_iff handle_def)

lemma handle_blk_refs:
  assumes "core_inv d (bufs s) dk" and "handle d s b bn"
  shows "blk d s bn = bdata (bufs s b)" "refs d s bn = unat (refcnt (bufs s b))"
  using assms by (simp_all add: blk_def refs_def cached_Some_iff [THEN iffD2])

lemma no_handle_blk_refs:
  assumes "\<forall>b. \<not> handle d s b bn"
  shows "blk d s bn = dsk s bn" "refs d s bn = 0"
proof -
  have "cached d s bn = None" using assms by (simp add: cached_None_iff)
  then show "blk d s bn = dsk s bn" "refs d s bn = 0" by (simp_all add: blk_def refs_def)
qed

lemma unreferenced_clean:
  assumes "core_inv d (bufs s) (dsk s)" and "refs d s bn = 0"
  shows "blk d s bn = dsk s bn"
proof (cases "\<exists>b. handle d s b bn")
  case True
  then obtain b where b: "handle d s b bn" by blast
  then show ?thesis using assms handle_blk_refs [OF assms(1) b]
    by (auto simp: core_inv_def handle_def unat_eq_zero)
qed (simp add: no_handle_blk_refs)

section \<open>The interface of the cache\<close>

text \<open>What a client sees of the cache: contents and reference counts of the blocks, the
  blocks on the disk and the writes the disk has performed.\<close>

record cview =
  vblk :: "uint64 \<Rightarrow> block"
  vref :: "uint64 \<Rightarrow> nat"
  vdsk :: "uint64 \<Rightarrow> block"
  vhist :: "(uint64 \<times> block) list"

definition a_ref :: "uint64 \<Rightarrow> cview \<Rightarrow> cview" where
  "a_ref bn v = v\<lparr>vref := (vref v)(bn := vref v bn + 1)\<rparr>"

definition a_unref :: "uint64 \<Rightarrow> cview \<Rightarrow> cview" where
  "a_unref bn v = v\<lparr>vref := (vref v)(bn := vref v bn - 1)\<rparr>"

definition a_write :: "uint64 \<Rightarrow> cview \<Rightarrow> cview" where
  "a_write bn v = v\<lparr>vdsk := (vdsk v)(bn := vblk v bn), vhist := vhist v @ [(bn, vblk v bn)]\<rparr>"

definition a_set :: "uint64 \<Rightarrow> block \<Rightarrow> cview \<Rightarrow> cview" where
  "a_set bn x v = v\<lparr>vblk := (vblk v)(bn := x)\<rparr>"

text \<open>The blocks in use, and whether \<open>k\<close> more blocks fit.\<close>

definition in_use :: "cview \<Rightarrow> uint64 set" where
  "in_use v = {x. 0 < vref v x}"

definition room :: "nat \<Rightarrow> cview \<Rightarrow> bool" where
  "room k v \<longleftrightarrow> card (in_use v) + k \<le> NBUF"

text \<open>A read of \<open>bn\<close> finds a buffer: the block exists, it is in use or another fits, and its
  reference count does not wrap around.\<close>

definition readable :: "uint64 \<Rightarrow> cview \<Rightarrow> bool" where
  "readable bn v \<longleftrightarrow> unat bn < FSSIZE \<and> (0 < vref v bn \<or> room 1 v) \<and> vref v bn + 1 < 2 ^ 64"

text \<open>Dropping a reference loses nothing: another one remains or the disk agrees.\<close>

definition droppable :: "uint64 \<Rightarrow> cview \<Rightarrow> bool" where
  "droppable bn v \<longleftrightarrow> 0 < vref v bn \<and> (vref v bn = 1 \<longrightarrow> vdsk v bn = vblk v bn)"

locale block_cache =
  fixes bread :: "uint64 \<Rightarrow> 's \<Rightarrow> (nat \<times> 's) kres"
    and bwrite :: "nat \<Rightarrow> 's \<Rightarrow> 's kres"
    and brelse :: "nat \<Rightarrow> 's \<Rightarrow> 's kres"
    and bpin :: "nat \<Rightarrow> 's \<Rightarrow> 's"
    and bunpin :: "nat \<Rightarrow> 's \<Rightarrow> 's"
    and get :: "'s \<Rightarrow> nat \<Rightarrow> block"
    and put :: "nat \<Rightarrow> block \<Rightarrow> 's \<Rightarrow> 's"
    and inv :: "'s \<Rightarrow> bool"
    and hdl :: "'s \<Rightarrow> nat \<Rightarrow> uint64 \<Rightarrow> bool"
    and view :: "'s \<Rightarrow> cview"
    and rest :: "'s \<Rightarrow> 'r"
  assumes finite_use: "inv s \<Longrightarrow> finite (in_use (view s))"
    and clean: "inv s \<Longrightarrow> vref (view s) bn = 0 \<Longrightarrow> vdsk (view s) bn = vblk (view s) bn"
    and bread_ok: "inv s \<Longrightarrow> readable bn (view s) \<Longrightarrow>
      \<exists>b s'. bread bn s = Inr (b, s') \<and> inv s' \<and> hdl s' b bn \<and> view s' = a_ref bn (view s) \<and>
        rest s' = rest s \<and> (\<forall>c x. hdl s c x \<longrightarrow> 0 < vref (view s) x \<longrightarrow> hdl s' c x)"
    and get_ok: "inv s \<Longrightarrow> hdl s b bn \<Longrightarrow> get s b = vblk (view s) bn"
    and put_ok: "inv s \<Longrightarrow> hdl s b bn \<Longrightarrow> 0 < vref (view s) bn \<Longrightarrow>
      inv (put b x s) \<and> view (put b x s) = a_set bn x (view s) \<and> rest (put b x s) = rest s \<and>
        (\<forall>c y. hdl s c y \<longrightarrow> hdl (put b x s) c y)"
    and bwrite_ok: "inv s \<Longrightarrow> hdl s b bn \<Longrightarrow> 0 < vref (view s) bn \<Longrightarrow>
      \<exists>s'. bwrite b s = Inr s' \<and> inv s' \<and> view s' = a_write bn (view s) \<and> rest s' = rest s \<and>
        (\<forall>c y. hdl s c y \<longrightarrow> hdl s' c y)"
    and brelse_ok: "inv s \<Longrightarrow> hdl s b bn \<Longrightarrow> droppable bn (view s) \<Longrightarrow>
      \<exists>s'. brelse b s = Inr s' \<and> inv s' \<and> view s' = a_unref bn (view s) \<and> rest s' = rest s \<and>
        (\<forall>c y. hdl s c y \<longrightarrow> hdl s' c y)"
    and bpin_ok: "inv s \<Longrightarrow> hdl s b bn \<Longrightarrow> vref (view s) bn + 1 < 2 ^ 64 \<Longrightarrow>
      inv (bpin b s) \<and> view (bpin b s) = a_ref bn (view s) \<and> rest (bpin b s) = rest s \<and>
        (\<forall>c y. hdl s c y \<longrightarrow> hdl (bpin b s) c y)"
    and bunpin_ok: "inv s \<Longrightarrow> hdl s b bn \<Longrightarrow> droppable bn (view s) \<Longrightarrow>
      inv (bunpin b s) \<and> view (bunpin b s) = a_unref bn (view s) \<and> rest (bunpin b s) = rest s \<and>
        (\<forall>c y. hdl s c y \<longrightarrow> hdl (bunpin b s) c y)"
begin

text \<open>Reading a block and releasing it at once changes nothing.\<close>

lemma read_release:
  assumes "inv s" and "readable bn (view s)"
  shows "\<exists>b s' s''. bread bn s = Inr (b, s') \<and> get s' b = vblk (view s) bn \<and>
    brelse b s' = Inr s'' \<and> inv s'' \<and> view s'' = view s \<and> rest s'' = rest s \<and> rest s' = rest s"
proof -
  obtain b s' where s': "bread bn s = Inr (b, s')" "inv s'" "hdl s' b bn"
    "view s' = a_ref bn (view s)" "rest s' = rest s" using bread_ok [OF assms] by blast
  have "droppable bn (view s')"
    using clean [OF assms(1), of bn] s'(4) by (auto simp: droppable_def a_ref_def)
  then obtain s'' where "brelse b s' = Inr s''" "inv s''" "view s'' = a_unref bn (view s')"
    "rest s'' = rest s'" using brelse_ok s' by blast
  moreover have "get s' b = vblk (view s) bn" using get_ok [OF s'(2,3)] s'(4) by (simp add: a_ref_def)
  ultimately show ?thesis using s' by (auto simp: a_unref_def a_ref_def)
qed

end

section \<open>Copying blocks\<close>

text \<open>The two idioms of the log: copy a referenced block into a log block and write that, and
  copy a log block home, write it and drop the pin (\<open>unpin\<close>) or not.\<close>

definition drop_pin :: "bool \<Rightarrow> uint64 \<Rightarrow> cview \<Rightarrow> cview" where
  "drop_pin unpin bn v = (if unpin then a_unref bn v else v)"

lemma room_ref:
  assumes "finite (in_use v)" and "room (Suc k) v"
  shows "room k (a_ref bn v)"
proof -
  have "in_use (a_ref bn v) \<subseteq> insert bn (in_use v)" by (auto simp: in_use_def a_ref_def)
  then have "card (in_use (a_ref bn v)) \<le> card (insert bn (in_use v))"
    using assms(1) by (intro card_mono) auto
  also have "\<dots> \<le> Suc (card (in_use v))" using assms(1) by (simp add: card_insert_if)
  finally have "card (in_use (a_ref bn v)) \<le> Suc (card (in_use v))" .
  then show ?thesis using assms(2) by (simp add: room_def)
qed

context block_cache
begin

lemma copy_to_log:
  assumes inv: "inv s" and ne: "t \<noteq> f" and rt: "readable t (view s)"
    and f: "unat f < FSSIZE" "0 < vref (view s) f" "vref (view s) f + 1 < 2 ^ 64"
  shows "\<exists>s'. kbind (bread t s) (\<lambda>(b, s). kbind (bread f s) (\<lambda>(c, s).
      kbind (bwrite b (put b (get s c) s)) (\<lambda>s. kbind (brelse c s) (brelse b)))) = Inr s' \<and>
    inv s' \<and> view s' = a_write t (a_set t (vblk (view s) f) (view s)) \<and> rest s' = rest s"
proof -
  obtain b s1 where s1: "bread t s = Inr (b, s1)" "inv s1" "hdl s1 b t" "view s1 = a_ref t (view s)"
    "rest s1 = rest s" using bread_ok [OF inv rt] by blast
  have "readable f (view s1)" using f ne s1(4) by (simp add: readable_def a_ref_def)
  then obtain c s2 where s2: "bread f s1 = Inr (c, s2)" "inv s2" "hdl s2 c f"
    "view s2 = a_ref f (view s1)" "rest s2 = rest s1"
    "\<forall>k x. hdl s1 k x \<longrightarrow> 0 < vref (view s1) x \<longrightarrow> hdl s2 k x" using bread_ok [OF s1(2)] by blast
  have hb: "hdl s2 b t" using s2(6) s1(3,4) by (simp add: a_ref_def)
  have g: "get s2 c = vblk (view s) f" using get_ok [OF s2(2,3)] s2(4) s1(4) by (simp add: a_ref_def)
  define s3 where "s3 = put b (get s2 c) s2"
  have s3: "inv s3" "view s3 = a_set t (vblk (view s) f) (view s2)" "rest s3 = rest s2"
    "hdl s3 b t" "hdl s3 c f"
    using put_ok [OF s2(2) hb, of "get s2 c"] s2(3,4) s1(4) hb g by (auto simp: s3_def a_ref_def)
  have "0 < vref (view s3) t" using s3(2) s2(4) s1(4) by (simp add: a_set_def a_ref_def)
  then obtain s4 where s4: "bwrite b s3 = Inr s4" "inv s4" "view s4 = a_write t (view s3)"
    "rest s4 = rest s3" "hdl s4 b t" "hdl s4 c f" using bwrite_ok [OF s3(1,4)] s3(4,5) by blast
  note v4 = s4(3) s3(2) s2(4) s1(4)
  have "droppable f (view s4)"
    unfolding v4 using ne f(2) by (simp add: droppable_def a_write_def a_set_def a_ref_def)
  then obtain s5 where s5: "brelse c s4 = Inr s5" "inv s5" "view s5 = a_unref f (view s4)"
    "rest s5 = rest s4" "hdl s5 b t" using brelse_ok [OF s4(2,6)] s4(5) by blast
  have "droppable t (view s5)"
    unfolding s5(3) v4 using ne
    by (simp add: droppable_def a_write_def a_set_def a_ref_def a_unref_def)
  then obtain s6 where s6: "brelse b s5 = Inr s6" "inv s6" "view s6 = a_unref t (view s5)"
    "rest s6 = rest s5" using brelse_ok [OF s5(2,5)] by blast
  have "view s6 = a_write t (a_set t (vblk (view s) f) (view s))"
    unfolding s6(3) s5(3) v4 using ne by (simp add: a_write_def a_set_def a_ref_def a_unref_def fun_upd_twist)
  then show ?thesis
    using s1(1,5) s2(1,5) s3(3) s4(1,4) s5(1,4) s6 by (simp add: s3_def)
qed

lemma copy_home:
  assumes inv: "inv s" and ne: "l \<noteq> h" and rl: "readable l (view s)"
    and h: "unat h < FSSIZE" "0 < vref (view s) h \<or> room 1 (a_ref l (view s))"
      "vref (view s) h + 1 < 2 ^ 64"
    and pin: "unpin \<Longrightarrow> 0 < vref (view s) h"
  shows "\<exists>s'. kbind (bread l s) (\<lambda>(b, s). kbind (bread h s) (\<lambda>(c, s).
      kbind (bwrite c (put c (get s b) s)) (\<lambda>s.
        kbind (brelse b (if unpin then bunpin c s else s)) (brelse c)))) = Inr s' \<and>
    inv s' \<and> view s' = drop_pin unpin h (a_write h (a_set h (vblk (view s) l) (view s))) \<and>
    rest s' = rest s"
proof -
  obtain b s1 where s1: "bread l s = Inr (b, s1)" "inv s1" "hdl s1 b l" "view s1 = a_ref l (view s)"
    "rest s1 = rest s" using bread_ok [OF inv rl] by blast
  have "readable h (view s1)" using h ne s1(4) by (auto simp: readable_def a_ref_def)
  then obtain c s2 where s2: "bread h s1 = Inr (c, s2)" "inv s2" "hdl s2 c h"
    "view s2 = a_ref h (view s1)" "rest s2 = rest s1"
    "\<forall>k x. hdl s1 k x \<longrightarrow> 0 < vref (view s1) x \<longrightarrow> hdl s2 k x" using bread_ok [OF s1(2)] by blast
  have hb: "hdl s2 b l" using s2(6) s1(3,4) by (simp add: a_ref_def)
  have g: "get s2 b = vblk (view s) l" using get_ok [OF s2(2) hb] s2(4) s1(4) by (simp add: a_ref_def)
  define s3 where "s3 = put c (get s2 b) s2"
  have s3: "inv s3" "view s3 = a_set h (vblk (view s) l) (view s2)" "rest s3 = rest s2"
    "hdl s3 b l" "hdl s3 c h"
    using put_ok [OF s2(2,3), of "get s2 b"] s2(3,4) s1(4) hb g by (auto simp: s3_def a_ref_def)
  have "0 < vref (view s3) h" using s3(2) s2(4) s1(4) by (simp add: a_set_def a_ref_def)
  then obtain s4 where s4: "bwrite c s3 = Inr s4" "inv s4" "view s4 = a_write h (view s3)"
    "rest s4 = rest s3" "hdl s4 b l" "hdl s4 c h" using bwrite_ok [OF s3(1,5)] s3(4,5) by blast
  note v4 = s4(3) s3(2) s2(4) s1(4)
  define s5 where "s5 = (if unpin then bunpin c s4 else s4)"
  have "droppable h (view s4)"
    unfolding v4 using ne by (simp add: droppable_def a_write_def a_set_def a_ref_def)
  then have s5: "inv s5" "view s5 = drop_pin unpin h (view s4)" "rest s5 = rest s4" "hdl s5 b l" "hdl s5 c h"
    using bunpin_ok [OF s4(2,6)] s4 by (auto simp: s5_def drop_pin_def)
  have "droppable l (view s5)"
    unfolding s5(2) v4 using ne clean [OF inv, of l]
    by (auto simp: droppable_def drop_pin_def a_write_def a_set_def a_ref_def a_unref_def)
  then obtain s6 where s6: "brelse b s5 = Inr s6" "inv s6" "view s6 = a_unref l (view s5)"
    "rest s6 = rest s5" "hdl s6 c h" using brelse_ok [OF s5(1,4)] s5(5) by blast
  have "droppable h (view s6)"
    unfolding s6(3) s5(2) v4 using ne pin
    by (auto simp: droppable_def drop_pin_def a_write_def a_set_def a_ref_def a_unref_def)
  then obtain s7 where s7: "brelse c s6 = Inr s7" "inv s7" "view s7 = a_unref h (view s6)"
    "rest s7 = rest s6" using brelse_ok [OF s6(2,5)] by blast
  have "view s7 = drop_pin unpin h (a_write h (a_set h (vblk (view s) l) (view s)))"
    unfolding s7(3) s6(3) s5(2) v4 using ne
    by (auto simp: drop_pin_def a_write_def a_set_def a_ref_def a_unref_def fun_upd_twist)
  then show ?thesis
    using s1(1,5) s2(1,5) s3(3) s4(1,4) s5(3) s6(1,4) s7 by (simp add: s3_def s5_def)
qed

text \<open>Rewriting one block: read it, store new data, write it through, release it.\<close>

lemma rewrite_block:
  assumes inv: "inv s" and rd: "readable bn (view s)"
  shows "\<exists>s'. kbind (bread bn s) (\<lambda>(b, s). kbind (bwrite b (put b (g (get s b)) s)) (brelse b)) =
      Inr s' \<and> inv s' \<and> view s' = a_write bn (a_set bn (g (vblk (view s) bn)) (view s)) \<and>
    rest s' = rest s"
proof -
  obtain b s1 where s1: "bread bn s = Inr (b, s1)" "inv s1" "hdl s1 b bn" "view s1 = a_ref bn (view s)"
    "rest s1 = rest s" using bread_ok [OF assms] by blast
  have g: "get s1 b = vblk (view s) bn" using get_ok [OF s1(2,3)] s1(4) by (simp add: a_ref_def)
  define s2 where "s2 = put b (g (get s1 b)) s1"
  have s2: "inv s2" "view s2 = a_set bn (g (vblk (view s) bn)) (view s1)" "rest s2 = rest s1" "hdl s2 b bn"
    using put_ok [OF s1(2,3), of "g (get s1 b)"] s1 g by (auto simp: s2_def a_ref_def)
  have "0 < vref (view s2) bn" using s2(2) s1(4) by (simp add: a_set_def a_ref_def)
  then obtain s3 where s3: "bwrite b s2 = Inr s3" "inv s3" "view s3 = a_write bn (view s2)"
    "rest s3 = rest s2" "hdl s3 b bn" using bwrite_ok [OF s2(1,4)] s2(4) by blast
  note v3 = s3(3) s2(2) s1(4)
  have "droppable bn (view s3)"
    unfolding v3 by (simp add: droppable_def a_write_def a_set_def a_ref_def)
  then obtain s4 where s4: "brelse b s3 = Inr s4" "inv s4" "view s4 = a_unref bn (view s3)"
    "rest s4 = rest s3" using brelse_ok [OF s3(2,5)] by blast
  have "view s4 = a_write bn (a_set bn (g (vblk (view s) bn)) (view s))"
    unfolding s4(3) v3 by (simp add: a_write_def a_set_def a_ref_def a_unref_def)
  then show ?thesis using s1(1,5) s2(3) s3(1,4) s4 by (simp add: s2_def)
qed

end

section \<open>The cache keeps its contract\<close>

definition bview :: "uint64 \<Rightarrow> 'a bio_scheme \<Rightarrow> cview" where
  "bview d s = \<lparr>vblk = blk d s, vref = refs d s, vdsk = dsk s, vhist = dwrites s\<rparr>"

lemma bview_simps [simp]:
  "vblk (bview d s) = blk d s" "vref (bview d s) = refs d s"
  "vdsk (bview d s) = dsk s" "vhist (bview d s) = dwrites s"
  by (simp_all add: bview_def)

lemma upd_buf_simps [simp]:
  "bufs (upd_buf b f s) = (bufs s)(b := f (bufs s b))"
  "dsk (upd_buf b f s) = dsk s" "dwrites (upd_buf b f s) = dwrites s"
  "bio.more (upd_buf b f s) = bio.more s"
  by (simp_all add: upd_buf_def)

text \<open>An update of one buffer that keeps its key and its links.\<close>

definition keeps_key :: "(buf \<Rightarrow> buf) \<Rightarrow> bool" where
  "keeps_key f \<longleftrightarrow> (\<forall>c. bdev (f c) = bdev c \<and> blockno (f c) = blockno c \<and> valid (f c) = valid c \<and>
     nxt (f c) = nxt c \<and> prev (f c) = prev c)"

lemma keeps_keyD:
  assumes "keeps_key f"
  shows "bdev (f c) = bdev c" "blockno (f c) = blockno c" "valid (f c) = valid c"
    "nxt (f c) = nxt c" "prev (f c) = prev c"
  using assms by (simp_all add: keeps_key_def)

lemma handle_upd: "keeps_key f \<Longrightarrow> handle d (upd_buf b f s) c x = handle d s c x"
  by (auto simp: handle_def keeps_keyD)

lemma cached_upd: "keeps_key f \<Longrightarrow> cached d (upd_buf b f s) x = cached d s x"
  by (simp add: cached_def keeps_keyD cong: if_cong) (rule arg_cong2 [where f = find], auto simp: keeps_keyD)

lemma upd_view:
  assumes "core_inv d (bufs s) dk" and "handle d s b bn" and "keeps_key f"
  shows "blk d (upd_buf b f s) = (blk d s)(bn := bdata (f (bufs s b)))"
    "refs d (upd_buf b f s) = (refs d s)(bn := unat (refcnt (f (bufs s b))))"
proof -
  have key: "c = b \<longleftrightarrow> x = bn" if "cached d s x = Some c" for c x
    using that assms(2) handle_unique [OF assms(1)]
    unfolding cached_Some_iff [OF assms(1)] by (auto simp: handle_def)
  have unk: "x \<noteq> bn" if "cached d s x = None" for x
    using that assms(2) by (auto simp: cached_None_iff)
  note c = cached_upd [OF assms(3), of d b s]
  have "blk d (upd_buf b f s) x = ((blk d s)(bn := bdata (f (bufs s b)))) x \<and>
    refs d (upd_buf b f s) x = ((refs d s)(bn := unat (refcnt (f (bufs s b))))) x" for x
  proof (cases "cached d s x")
    case None
    then show ?thesis using unk [OF None] by (simp add: blk_def refs_def c)
  next
    case (Some k)
    show ?thesis using key [OF Some] Some
      by (cases "k = b") (simp_all add: blk_def refs_def c)
  qed
  then show "blk d (upd_buf b f s) = (blk d s)(bn := bdata (f (bufs s b)))"
    "refs d (upd_buf b f s) = (refs d s)(bn := unat (refcnt (f (bufs s b))))"
    by (blast intro: ext)+
qed

lemma bcache_inv_upd:
  assumes "bcache_inv d s" and "keeps_key f" and "bdev (bufs s b) = d"
    and "refcnt (f (bufs s b)) = 0 \<Longrightarrow> bdata (f (bufs s b)) = dsk s (blockno (bufs s b))"
  shows "bcache_inv d (upd_buf b f s)"
proof -
  obtain xs where "ring (bufs s) xs" "set xs = {0..<NBUF}" using assms(1) by (auto simp: bcache_inv_def)
  moreover have "ring (bufs (upd_buf b f s)) xs = ring (bufs s) xs"
    using assms(2) by (intro ring_cong) (auto simp: keeps_keyD)
  moreover have "core_inv d (bufs (upd_buf b f s)) (dsk s)"
  proof -
    let ?bs = "bufs (upd_buf b f s)"
    have c: "core_inv d (bufs s) (dsk s)" using assms(1) by (simp add: bcache_inv_def)
    have k: "bdev (?bs i) = bdev (bufs s i)" "blockno (?bs i) = blockno (bufs s i)"
      "valid (?bs i) = valid (bufs s i)" for i
      using assms(2) by (simp_all add: keeps_keyD)
    have "refcnt (?bs i) = 0" if "i < NBUF" "bdev (?bs i) \<noteq> d" for i
      using c that assms(3) unfolding k by (cases "i = b") (auto simp: core_inv_def)
    moreover have "bdata (?bs i) = dsk s (blockno (?bs i))"
      if "i < NBUF" "bdev (?bs i) = d" "refcnt (?bs i) = 0" for i
      using c that assms(4) unfolding k by (cases "i = b") (auto simp: core_inv_def)
    ultimately show ?thesis using c unfolding core_inv_def k by blast
  qed
  ultimately show ?thesis by (auto simp: bcache_inv_def)
qed

lemma payload_view:
  assumes "\<And>i. payload (bs i) = payload (bufs s i)"
  shows "core_inv d bs dk = core_inv d (bufs s) dk"
    "handle d (s\<lparr>bufs := bs\<rparr>) b x = handle d s b x"
    "blk d (s\<lparr>bufs := bs\<rparr>) = blk d s" "refs d (s\<lparr>bufs := bs\<rparr>) = refs d s"
proof -
  note p = payload_eqD [OF assms]
  show "core_inv d bs dk = core_inv d (bufs s) dk" by (simp add: core_inv_def p)
  show "handle d (s\<lparr>bufs := bs\<rparr>) b x = handle d s b x" by (simp add: handle_def p)
  have "cached d (s\<lparr>bufs := bs\<rparr>) = cached d s" by (simp add: cached_def p fun_eq_iff)
  then show "blk d (s\<lparr>bufs := bs\<rparr>) = blk d s" "refs d (s\<lparr>bufs := bs\<rparr>) = refs d s"
    by (auto simp: blk_def refs_def fun_eq_iff p split: option.splits)
qed

lemma bcache_inv_core [dest]: "bcache_inv d s \<Longrightarrow> core_inv d (bufs s) (dsk s)"
  by (simp add: bcache_inv_def)

lemma in_use_subset:
  "core_inv d (bufs s) dk \<Longrightarrow> in_use (bview d s) \<subseteq> (\<lambda>i. blockno (bufs s i)) ` {0..<NBUF}"
proof
  fix x assume c: "core_inv d (bufs s) dk" and "x \<in> in_use (bview d s)"
  then have "\<exists>b. handle d s b x" using no_handle_blk_refs [of d s x] by (auto simp: in_use_def)
  then show "x \<in> (\<lambda>i. blockno (bufs s i)) ` {0..<NBUF}" by (auto simp: handle_def)
qed

lemma finite_in_use: "core_inv d (bufs s) dk \<Longrightarrow> finite (in_use (bview d s))"
  by (rule finite_subset [OF in_use_subset]) auto

lemma room_victim:
  assumes c: "core_inv d (bufs s) dk" and "room 1 (bview d s)"
  shows "\<exists>i < NBUF. refcnt (bufs s i) = 0"
proof (rule ccontr)
  assume "\<not> ?thesis"
  then have nz: "refcnt (bufs s i) \<noteq> 0" if "i < NBUF" for i using that by blast
  then have dev: "bdev (bufs s i) = d" if "i < NBUF" for i using that c by (auto simp: core_inv_def)
  have "inj_on (\<lambda>i. blockno (bufs s i)) {0..<NBUF}"
    using c dev by (auto simp: inj_on_def core_inv_def)
  then have "card ((\<lambda>i. blockno (bufs s i)) ` {0..<NBUF}) = NBUF" by (simp add: card_image)
  moreover have "(\<lambda>i. blockno (bufs s i)) ` {0..<NBUF} \<subseteq> in_use (bview d s)"
  proof
    fix x assume "x \<in> (\<lambda>i. blockno (bufs s i)) ` {0..<NBUF}"
    then obtain i where i: "i < NBUF" "x = blockno (bufs s i)" by auto
    then have "handle d s i x" using dev by (simp add: handle_def)
    then have "refs d s x = unat (refcnt (bufs s i))" by (rule handle_blk_refs(2) [OF c])
    then show "x \<in> in_use (bview d s)" using nz [OF i(1)] by (simp add: in_use_def unat_gt_0)
  qed
  ultimately have "NBUF \<le> card (in_use (bview d s))"
    using card_mono [OF finite_in_use [OF c]] by metis
  then show False using assms(2) by (simp add: room_def)
qed

text \<open>Reference counting, writing and data updates through a handle.\<close>

lemma upd_ok:
  assumes "bcache_inv d s" and "handle d s b bn" and "keeps_key f"
    and "refcnt (f (bufs s b)) = 0 \<Longrightarrow> bdata (f (bufs s b)) = dsk s bn"
  shows "bcache_inv d (upd_buf b f s)"
    "bview d (upd_buf b f s) = (bview d s)\<lparr>vblk := (blk d s)(bn := bdata (f (bufs s b))),
       vref := (refs d s)(bn := unat (refcnt (f (bufs s b))))\<rparr>"
    "handle d s c x \<Longrightarrow> handle d (upd_buf b f s) c x"
proof -
  have key: "bdev (bufs s b) = d" "blockno (bufs s b) = bn" using assms(2) by (simp_all add: handle_def)
  show "bcache_inv d (upd_buf b f s)"
    using assms key by (intro bcache_inv_upd) auto
  show "bview d (upd_buf b f s) = (bview d s)\<lparr>vblk := (blk d s)(bn := bdata (f (bufs s b))),
       vref := (refs d s)(bn := unat (refcnt (f (bufs s b))))\<rparr>"
    using upd_view [OF bcache_inv_core [OF assms(1)] assms(2,3)] by (simp add: bview_def)
  show "handle d s c x \<Longrightarrow> handle d (upd_buf b f s) c x"
    by (simp add: handle_upd [OF assms(3)])
qed

lemma handle_data:
  "bcache_inv d s \<Longrightarrow> handle d s b bn \<Longrightarrow> bdata (bufs s b) = blk d s bn"
  "bcache_inv d s \<Longrightarrow> handle d s b bn \<Longrightarrow> unat (refcnt (bufs s b)) = refs d s bn"
  using handle_blk_refs bcache_inv_core by metis+

lemma unat_inc: "unat (x :: uint64) + 1 < 2 ^ 64 \<Longrightarrow> unat (x + 1) = unat x + 1"
  using unat_add_of_nat [of x 1] by simp

lemma unat_dec: "0 < unat (x :: uint64) \<Longrightarrow> unat (x - 1) = unat x - 1"
  by (simp add: unat_minus_one unat_gt_0)

lemma inc_ok:
  assumes "bcache_inv d s" and "handle d s b bn" and "refs d s bn + 1 < 2 ^ 64"
  defines "s' \<equiv> upd_buf b (\<lambda>c. c\<lparr>refcnt := refcnt c + 1\<rparr>) s"
  shows "bcache_inv d s' \<and> bview d s' = a_ref bn (bview d s) \<and> (\<forall>c x. handle d s c x \<longrightarrow> handle d s' c x)"
proof -
  let ?f = "\<lambda>c. c\<lparr>refcnt := refcnt c + 1\<rparr> :: buf"
  note hd = handle_data [OF assms(1,2)]
  have k: "keeps_key ?f" by (simp add: keeps_key_def)
  have r: "unat (refcnt (bufs s b) + 1) = refs d s bn + 1"
    using assms(3) hd(2) unat_inc [of "refcnt (bufs s b)"] by simp
  then have nz: "refcnt (bufs s b) + 1 \<noteq> 0" by (metis Suc_eq_plus1 nat.distinct(1) unat_0)
  then have *: "refcnt (?f (bufs s b)) = 0 \<Longrightarrow> bdata (?f (bufs s b)) = dsk s bn" by simp
  show ?thesis
    using upd_ok [OF assms(1,2) k *] r hd(1) unfolding s'_def
    by (simp add: a_ref_def bview_def fun_upd_idem)
qed

lemma dec_ok:
  assumes "bcache_inv d s" and "handle d s b bn" and "droppable bn (bview d s)"
  defines "s' \<equiv> upd_buf b (\<lambda>c. c\<lparr>refcnt := refcnt c - 1\<rparr>) s"
  shows "bcache_inv d s' \<and> bview d s' = a_unref bn (bview d s) \<and> (\<forall>c x. handle d s c x \<longrightarrow> handle d s' c x)"
proof -
  let ?f = "\<lambda>c. c\<lparr>refcnt := refcnt c - 1\<rparr> :: buf"
  note hd = handle_data [OF assms(1,2)]
  have k: "keeps_key ?f" by (simp add: keeps_key_def)
  have r: "unat (refcnt (bufs s b) - 1) = refs d s bn - 1" and pos: "0 < refs d s bn"
    using assms(3) hd(2) unat_dec [of "refcnt (bufs s b)"] by (simp_all add: droppable_def)
  have *: "bdata (?f (bufs s b)) = dsk s bn" if "refcnt (?f (bufs s b)) = 0"
  proof -
    have "refs d s bn = 1" using that r pos by simp
    then show ?thesis using assms(3) hd(1) by (simp add: droppable_def)
  qed
  show ?thesis
    using upd_ok [OF assms(1,2) k *] r hd(1) unfolding s'_def
    by (simp add: a_unref_def bview_def fun_upd_idem)
qed

lemma put_ok:
  assumes "bcache_inv d s" and "handle d s b bn" and "0 < refs d s bn"
  shows "bcache_inv d (set_data b x s) \<and> bview d (set_data b x s) = a_set bn x (bview d s) \<and>
    bio.more (set_data b x s) = bio.more s \<and> (\<forall>c y. handle d s c y \<longrightarrow> handle d (set_data b x s) c y)"
proof -
  let ?f = "\<lambda>c. c\<lparr>bdata := x\<rparr> :: buf"
  note hd = handle_data [OF assms(1,2)]
  have k: "keeps_key ?f" by (simp add: keeps_key_def)
  have "refcnt (bufs s b) \<noteq> 0" using hd(2) assms(3) by auto
  then have *: "refcnt (?f (bufs s b)) = 0 \<Longrightarrow> bdata (?f (bufs s b)) = dsk s bn" by simp
  show ?thesis
    using upd_ok [OF assms(1,2) k *] hd unfolding set_data_def
    by (simp add: a_set_def bview_def fun_upd_idem)
qed

lemma bwrite_ok:
  assumes inv: "bcache_inv d s" and h: "handle d s b bn" and pos: "0 < refs d s bn"
  shows "\<exists>s'. bwrite b s = Inr s' \<and> bcache_inv d s' \<and> bview d s' = a_write bn (bview d s) \<and>
    bio.more s' = bio.more s \<and> (\<forall>c y. handle d s c y \<longrightarrow> handle d s' c y)"
proof -
  note hd = handle_data [OF inv h] and c = bcache_inv_core [OF inv]
  have nz: "refcnt (bufs s b) \<noteq> 0" using hd(2) pos by auto
  let ?s = "disk_rw b True s"
  have key: "bufs ?s = bufs s" "dsk ?s = (dsk s)(bn := blk d s bn)"
    "dwrites ?s = dwrites s @ [(bn, blk d s bn)]" "bio.more ?s = bio.more s"
    using h hd(1) by (simp_all add: disk_rw_def handle_def)
  have "core_inv d (bufs s) ((dsk s)(bn := blk d s bn))"
  proof -
    have "blockno (bufs s i) \<noteq> bn" if "i < NBUF" "bdev (bufs s i) = d" "refcnt (bufs s i) = 0" for i
      using handle_unique [OF c h, of i] that nz by (auto simp: handle_def)
    then show ?thesis using c unfolding core_inv_def by simp
  qed
  then have "bcache_inv d ?s" using inv key by (simp add: bcache_inv_def)
  moreover have "cached d ?s = cached d s" by (simp add: cached_def key(1) fun_eq_iff)
  moreover have "cached d s bn \<noteq> None" using h by (auto simp: cached_None_iff)
  ultimately have "bview d ?s = a_write bn (bview d s)"
    by (auto simp: bview_def a_write_def key blk_def refs_def fun_eq_iff split: option.splits)
  moreover have "handle d s x y \<longrightarrow> handle d ?s x y" for x y by (simp add: handle_def key(1))
  ultimately show ?thesis using \<open>bcache_inv d ?s\<close> nz key(4) by (simp add: bwrite_def)
qed

lemma relink_ring:
  assumes "ring bs xs" and "b \<in> set xs"
  shows "\<exists>ys. ring (link_front b (unlink b bs)) ys \<and> set ys = set xs"
proof -
  obtain us vs where xs: "xs = us @ b # vs" using assms(2) by (auto dest: split_list)
  have d: "distinct (HEAD # us @ b # vs)" using assms(1) xs by (simp add: ring_def)
  have "ring (unlink b bs) (us @ vs)" using assms(1) unfolding xs by (rule ring_unlink)
  then have "ring (link_front b (unlink b bs)) (b # us @ vs)"
    using d by (intro ring_link_front) auto
  then show ?thesis using xs by (intro exI [of _ "b # us @ vs"]) auto
qed

lemma brelse_ok:
  assumes inv: "bcache_inv d s" and h: "handle d s b bn" and dr: "droppable bn (bview d s)"
  shows "\<exists>s'. brelse b s = Inr s' \<and> bcache_inv d s' \<and> bview d s' = a_unref bn (bview d s) \<and>
    bio.more s' = bio.more s \<and> (\<forall>c y. handle d s c y \<longrightarrow> handle d s' c y)"
proof -
  let ?s = "upd_buf b (\<lambda>c. c\<lparr>refcnt := refcnt c - 1\<rparr>) s"
  let ?bs = "link_front b (unlink b (bufs ?s))"
  let ?t = "?s\<lparr>bufs := ?bs\<rparr>"
  have nz: "refcnt (bufs s b) \<noteq> 0" using handle_data(2) [OF inv h] dr by (auto simp: droppable_def)
  note s1 = dec_ok [OF inv h dr]
  obtain xs where xs: "ring (bufs ?s) xs" "set xs = {0..<NBUF}"
    using s1 by (auto simp: bcache_inv_def)
  have "b \<in> set xs" using h xs(2) by (simp add: handle_def)
  then have "\<exists>ys. ring ?bs ys \<and> set ys = {0..<NBUF}" using relink_ring [OF xs(1)] xs(2) by simp
  moreover have p: "payload (?bs i) = payload (bufs ?s i)" for i by simp
  note pv = payload_view [of ?bs ?s, OF p]
  have "core_inv d ?bs (dsk ?s)" using s1 pv(1) by blast
  ultimately have "bcache_inv d ?t" by (simp add: bcache_inv_def)
  moreover have "bview d ?t = bview d ?s"
    unfolding bview_def pv(3,4) by simp
  moreover have "handle d s c y \<longrightarrow> handle d ?t c y" for c y unfolding pv(2) using s1 by blast
  ultimately show ?thesis using nz s1
    by (cases "refcnt (bufs ?s b) = 0") (simp_all add: brelse_def Let_def)
qed

text \<open>A miss: the victim is recycled for the block and filled from the disk.\<close>

definition loaded :: "uint64 \<Rightarrow> uint64 \<Rightarrow> block \<Rightarrow> buf \<Rightarrow> buf" where
  "loaded d bn x c = c\<lparr>bdev := d, blockno := bn, refcnt := 1, bdata := x, valid := True\<rparr>"

lemma load_inv:
  assumes inv: "bcache_inv d s" and none: "\<And>b. \<not> handle d s b bn" and v: "v < NBUF"
    and bn: "unat bn < FSSIZE"
  shows "bcache_inv d (upd_buf v (loaded d bn (dsk s bn)) s)"
proof -
  let ?s = "upd_buf v (loaded d bn (dsk s bn)) s"
  note c = bcache_inv_core [OF inv]
  obtain xs where xs: "ring (bufs s) xs" "set xs = {0..<NBUF}" using inv by (auto simp: bcache_inv_def)
  have "ring (bufs ?s) xs = ring (bufs s) xs" by (rule ring_cong) (auto simp: loaded_def)
  moreover have "core_inv d (bufs ?s) (dsk s)"
  proof -
    have o: "bufs ?s i = bufs s i" if "i \<noteq> v" for i using that by simp
    have n: "bufs ?s v = loaded d bn (dsk s bn) (bufs s v)" by simp
    have "i = j" if "i < NBUF" "j < NBUF" "bdev (bufs ?s i) = d" "bdev (bufs ?s j) = d"
      "blockno (bufs ?s i) = blockno (bufs ?s j)" for i j
      using that c none [of i] none [of j] o n
      by (cases "i = v"; cases "j = v") (auto simp: core_inv_def handle_def loaded_def)
    moreover have "refcnt (bufs ?s i) = 0" if "i < NBUF" "bdev (bufs ?s i) \<noteq> d" for i
      using that c by (cases "i = v") (auto simp: core_inv_def loaded_def)
    moreover have "valid (bufs ?s i) \<and> unat (blockno (bufs ?s i)) < FSSIZE"
      if "i < NBUF" "bdev (bufs ?s i) = d" for i
      using that c bn by (cases "i = v") (auto simp: core_inv_def loaded_def)
    moreover have "bdata (bufs ?s i) = dsk s (blockno (bufs ?s i))"
      if "i < NBUF" "bdev (bufs ?s i) = d" "refcnt (bufs ?s i) = 0" for i
      using that c by (cases "i = v") (auto simp: core_inv_def loaded_def)
    ultimately show ?thesis unfolding core_inv_def by blast
  qed
  ultimately show ?thesis using xs by (auto simp: bcache_inv_def)
qed

lemma load_view:
  assumes inv: "bcache_inv d s" and none: "\<And>b. \<not> handle d s b bn" and v: "v < NBUF"
    and bn: "unat bn < FSSIZE" and free: "refcnt (bufs s v) = 0"
  shows "bview d (upd_buf v (loaded d bn (dsk s bn)) s) = a_ref bn (bview d s)"
proof -
  let ?s = "upd_buf v (loaded d bn (dsk s bn)) s"
  note c = bcache_inv_core [OF inv]
  have c': "core_inv d (bufs ?s) (dsk ?s)" using load_inv [OF inv none v bn] by blast
  have hv: "handle d ?s v bn" using v by (simp add: handle_def loaded_def)
  have "blk d ?s x = blk d s x \<and> refs d ?s x = (if x = bn then refs d s x + 1 else refs d s x)" for x
  proof (cases "x = bn")
    case True
    have "refs d s bn = 0" "blk d s bn = dsk s bn"
      using no_handle_blk_refs [of d s bn] none by auto
    then show ?thesis using True handle_blk_refs [OF c' hv] by (simp add: loaded_def)
  next
    case False
    show ?thesis
    proof (cases "\<exists>i. i \<noteq> v \<and> handle d s i x")
      case True
      then obtain i where i: "i \<noteq> v" "handle d s i x" by blast
      then have i': "handle d ?s i x" by (simp add: handle_def)
      show ?thesis using handle_blk_refs [OF c' i'] handle_blk_refs [OF c i(2)] i(1) False by simp
    next
      case none': False
      have "\<not> handle d ?s i x" for i
        using none' False by (cases "i = v") (auto simp: handle_def loaded_def)
      then have "blk d ?s x = dsk s x" "refs d ?s x = 0" using no_handle_blk_refs [of d ?s x] by auto
      moreover have "refs d s x = 0"
      proof (cases "handle d s v x")
        case True
        then show ?thesis using handle_blk_refs(2) [OF c True] free by simp
      next
        case False
        then have "\<forall>b. \<not> handle d s b x" using none' by metis
        then show ?thesis by (rule no_handle_blk_refs(2))
      qed
      ultimately show ?thesis using unreferenced_clean [OF c] False by simp
    qed
  qed
  then have "blk d ?s = blk d s" "refs d ?s = (refs d s)(bn := refs d s bn + 1)"
    by (auto simp: fun_eq_iff)
  then show ?thesis by (simp add: bview_def a_ref_def)
qed

lemma find_unique_handle:
  assumes "bcache_inv d s" and "set xs = {0..<NBUF}"
  shows "find (\<lambda>i. bdev (bufs s i) = d \<and> blockno (bufs s i) = bn) xs = cached d s bn"
proof (cases "find (\<lambda>i. bdev (bufs s i) = d \<and> blockno (bufs s i) = bn) xs")
  case None
  then have "\<forall>b. \<not> handle d s b bn" using assms(2) by (auto simp: find_None_iff handle_def)
  then show ?thesis using None by (simp add: cached_None_iff [THEN iffD2])
next
  case (Some b)
  then have "handle d s b bn" using assms(2) nth_mem by (fastforce simp: find_Some_iff handle_def)
  then have "cached d s bn = Some b" by (simp add: cached_Some_iff [OF bcache_inv_core [OF assms(1)]])
  then show ?thesis using Some by simp
qed

lemma bread_ok:
  assumes inv: "bcache_inv d s" and rd: "readable bn (bview d s)"
  shows "\<exists>b s'. bread d bn s = Inr (b, s') \<and> bcache_inv d s' \<and> handle d s' b bn \<and>
    bview d s' = a_ref bn (bview d s) \<and> bio.more s' = bio.more s \<and>
    (\<forall>c x. handle d s c x \<longrightarrow> 0 < refs d s x \<longrightarrow> handle d s' c x)"
proof -
  note c = bcache_inv_core [OF inv]
  have bn: "unat bn < FSSIZE" using rd by (simp add: readable_def)
  obtain xs where xs: "ring (bufs s) xs" "set xs = {0..<NBUF}" using inv by (auto simp: bcache_inv_def)
  note bg = bget_ring [OF xs bn, of d, unfolded find_unique_handle [OF inv xs(2)]]
  show ?thesis
  proof (cases "cached d s bn")
    case (Some b)
    then have h: "handle d s b bn" using cached_Some_iff [OF c] by simp
    then have "valid (bufs s b)" using c by (auto simp: core_inv_def handle_def)
    then have "bread d bn s = Inr (b, upd_buf b (\<lambda>c. c\<lparr>refcnt := refcnt c + 1\<rparr>) s)"
      using bg Some by (simp add: bread_def)
    moreover have "refs d s bn + 1 < 2 ^ 64" using rd by (simp add: readable_def)
    note inc_ok [OF inv h this]
    ultimately show ?thesis using h by auto
  next
    case None
    then have none: "\<And>b. \<not> handle d s b bn" by (simp add: cached_None_iff)
    have "room 1 (bview d s)"
      using rd no_handle_blk_refs(2) [of d s bn] none by (auto simp: readable_def)
    then obtain i where "i < NBUF" "refcnt (bufs s i) = 0" using room_victim [OF c] by blast
    then have "find (\<lambda>i. refcnt (bufs s i) = 0) (rev xs) \<noteq> None"
      using xs(2) by (auto simp: find_None_iff)
    then obtain v where v: "find (\<lambda>i. refcnt (bufs s i) = 0) (rev xs) = Some v" by blast
    then have "v \<in> set (rev xs)" "refcnt (bufs s v) = 0"
      by (auto simp: find_Some_iff simp del: set_rev)
    then have vv: "v < NBUF" "refcnt (bufs s v) = 0" using xs(2) by auto
    let ?s = "upd_buf v (loaded d bn (dsk s bn)) s"
    have "bread d bn s = Inr (v, ?s)"
      using bg None v by (simp add: bread_def disk_rw_def upd_buf_def loaded_def)
    moreover have "handle d ?s v bn" using vv by (simp add: handle_def loaded_def)
    moreover have "handle d ?s k x" if "handle d s k x" "0 < refs d s x" for k x
    proof -
      have "k \<noteq> v" using handle_blk_refs(2) [OF c that(1)] that(2) vv by auto
      then show ?thesis using that(1) by (simp add: handle_def)
    qed
    ultimately show ?thesis
      using load_inv [OF inv none vv(1) bn] load_view [OF inv none vv(1) bn vv(2)] by auto
  qed
qed

interpretation bcache: block_cache "bread d" bwrite brelse bpin bunpin "\<lambda>s b. bdata (bufs s b)"
    set_data "bcache_inv d" "handle d" "bview d" "bio.more" for d
proof unfold_locales
  fix s :: "'a bio_scheme" and b bn
  show "bcache_inv d s \<Longrightarrow> finite (in_use (bview d s))" by (blast intro: finite_in_use)
  show "bcache_inv d s \<Longrightarrow> vref (bview d s) bn = 0 \<Longrightarrow> vdsk (bview d s) bn = vblk (bview d s) bn"
    using unreferenced_clean [of d s bn] by (auto dest: bcache_inv_core)
  show "bcache_inv d s \<Longrightarrow> handle d s b bn \<Longrightarrow> bdata (bufs s b) = vblk (bview d s) bn"
    by (simp add: handle_data)
  show "bcache_inv d s \<Longrightarrow> handle d s b bn \<Longrightarrow> vref (bview d s) bn + 1 < 2 ^ 64 \<Longrightarrow>
      bcache_inv d (bpin b s) \<and> bview d (bpin b s) = a_ref bn (bview d s) \<and>
      bio.more (bpin b s) = bio.more s \<and> (\<forall>c y. handle d s c y \<longrightarrow> handle d (bpin b s) c y)"
    using inc_ok [of d s b bn] by (simp add: bpin_def)
  show "bcache_inv d s \<Longrightarrow> handle d s b bn \<Longrightarrow> droppable bn (bview d s) \<Longrightarrow>
      bcache_inv d (bunpin b s) \<and> bview d (bunpin b s) = a_unref bn (bview d s) \<and>
      bio.more (bunpin b s) = bio.more s \<and> (\<forall>c y. handle d s c y \<longrightarrow> handle d (bunpin b s) c y)"
    using dec_ok [of d s b bn] by (simp add: bunpin_def)
qed (simp_all add: bread_ok put_ok bwrite_ok brelse_ok)

section \<open>The properties of the cache\<close>

lemma ring_fold_link_front:
  "ring bs xs \<Longrightarrow> distinct ys \<Longrightarrow> set ys \<inter> set xs = {} \<Longrightarrow> HEAD \<notin> set ys \<Longrightarrow>
     ring (fold link_front ys bs) (rev ys @ xs)"
proof (induction ys arbitrary: bs xs)
  case (Cons y ys)
  then have "ring (link_front y bs) (y # xs)" by (intro ring_link_front) auto
  then show ?case using Cons.IH [of "link_front y bs" "y # xs"] Cons.prems by auto
qed simp

lemma payload_fold_link_front: "payload (fold link_front ys bs i) = payload (bs i)"
  by (induction ys arbitrary: bs) simp_all

lemma bio_init_ring: "ring (bufs (bio_init s)) (rev [0..<NBUF])"
proof -
  have "ring ((bufs s)(HEAD := (bufs s HEAD)\<lparr>prev := HEAD, nxt := HEAD\<rparr>)) []"
    by (simp add: ring_def)
  from ring_fold_link_front [OF this, of "[0..<NBUF]"] show ?thesis
    by (simp add: bio_init_def Let_def layout)
qed

lemma payload_bio_init: "i \<noteq> HEAD \<Longrightarrow> payload (bufs (bio_init s) i) = payload (bufs s i)"
  by (simp add: bio_init_def Let_def payload_fold_link_front)

definition fresh :: "uint64 \<Rightarrow> 'a bio_scheme \<Rightarrow> bool" where
  "fresh d s \<longleftrightarrow> (\<forall>i < NBUF. bdev (bufs s i) \<noteq> d \<and> refcnt (bufs s i) = 0)"

lemma bio_init_fresh:
  assumes "fresh d s"
  shows "bcache_inv d (bio_init s) \<and> blk d (bio_init s) = dsk s \<and>
    (\<forall>bn. refs d (bio_init s) bn = 0) \<and> dwrites (bio_init s) = dwrites s"
proof -
  have p: "bdev (bufs (bio_init s) i) \<noteq> d \<and> refcnt (bufs (bio_init s) i) = 0" if "i < NBUF" for i
    using assms that payload_bio_init [of i s] by (auto simp: payload_def layout fresh_def)
  then have "bcache_inv d (bio_init s)"
    using bio_init_ring [of s] by (auto simp: bcache_inv_def core_inv_def intro!: exI [of _ "rev [0..<NBUF]"])
  moreover have n: "\<forall>b. \<not> handle d (bio_init s) b bn" for bn using p by (auto simp: handle_def)
  ultimately show ?thesis
    using no_handle_blk_refs [OF n] by (auto simp: bio_init_def Let_def)
qed

text \<open>A machine that has just started: all buffers zero, an empty disk.\<close>

definition zero_buf :: buf where
  "zero_buf = \<lparr>valid = False, bdisk = False, bdev = 0, blockno = 0, refcnt = 0, prev = 0, nxt = 0,
     bdata = (\<lambda>_. 0)\<rparr>"

definition boot_bio :: bio where
  "boot_bio = \<lparr>bufs = (\<lambda>_. zero_buf), dsk = (\<lambda>bn _. ucast bn), dwrites = []\<rparr>"

lemma find_rev_split:
  assumes "find P (rev xs) = Some b"
  shows "\<exists>ys zs. xs = ys @ b # zs \<and> P b \<and> (\<forall>c \<in> set zs. \<not> P c)"
  using assms
proof (induction xs rule: rev_induct)
  case (snoc x xs)
  show ?case
  proof (cases "P x")
    case True
    then show ?thesis using snoc.prems by (intro exI [of _ xs] exI [of _ "[]"]) auto
  next
    case False
    then obtain ys zs where "xs = ys @ b # zs" "P b" "\<forall>c \<in> set zs. \<not> P c" using snoc by auto
    then show ?thesis using False by (intro exI [of _ ys] exI [of _ "zs @ [x]"]) auto
  qed
qed simp

text \<open>\<^bold>\<open>C33\<close>: a miss in the cache recycles the least recently used buffer, the last
  unreferenced one in ring order, and hands it out with one reference and nothing loaded; the
  kernel panics exactly when every buffer is referenced.\<close>

theorem bget_evicts_lru:
  assumes r: "ring (bufs s) xs" and all: "set xs = {0..<NBUF}" and bn: "unat bn < FSSIZE"
    and miss: "cached d s bn = None"
  shows "if \<forall>i \<in> set xs. refcnt (bufs s i) \<noteq> 0 then bget d bn s = Inl (Panic ''bget: no buffers'')
    else \<exists>ys b zs. xs = ys @ b # zs \<and> refcnt (bufs s b) = 0 \<and> (\<forall>c \<in> set zs. refcnt (bufs s c) \<noteq> 0) \<and>
      bget d bn s =
        Inr (b, upd_buf b (\<lambda>c. c\<lparr>bdev := d, blockno := bn, valid := False, refcnt := 1\<rparr>) s)"
proof -
  have m: "find (\<lambda>i. bdev (bufs s i) = d \<and> blockno (bufs s i) = bn) xs = None"
    using miss all by (auto simp: cached_def find_None_iff)
  show ?thesis
  proof (cases "find (\<lambda>i. refcnt (bufs s i) = 0) (rev xs)")
    case None
    then have "\<forall>i \<in> set xs. refcnt (bufs s i) \<noteq> 0" by (auto simp: find_None_iff)
    then show ?thesis using None bget_ring [OF r all bn, of d] unfolding m by simp
  next
    case (Some b)
    then obtain ys zs where "xs = ys @ b # zs" "refcnt (bufs s b) = 0"
      "\<forall>c \<in> set zs. refcnt (bufs s c) \<noteq> 0" by (blast dest: find_rev_split)
    then show ?thesis using Some bget_ring [OF r all bn, of d] unfolding m by auto
  qed
qed

lemma boot_bufs:
  assumes "i < NBUF"
  shows "bdev (bufs (bio_init boot_bio) i) = 0" "refcnt (bufs (bio_init boot_bio) i) = 0"
  using payload_bio_init [of i boot_bio] assms
  by (auto simp: payload_def layout boot_bio_def zero_buf_def)

lemma boot_cached: "cached 1 (bio_init boot_bio) bn = None"
  by (auto simp: cached_None_iff handle_def boot_bufs)

theorem bget_evicts_lru_witness:
  "cached 1 (bio_init boot_bio) 7 = None \<and>
   (\<exists>b s. refcnt (bufs (bio_init boot_bio) b) = 0 \<and> bget 1 7 (bio_init boot_bio) = Inr (b, s))"
proof -
  have "\<not> (\<forall>i \<in> set (rev [0..<NBUF]). refcnt (bufs (bio_init boot_bio) i) \<noteq> 0)"
    using boot_bufs(2) [of 3] by (auto simp: layout)
  moreover have "set (rev [0..<NBUF]) = {0..<NBUF}" "unat (7 :: uint64) < FSSIZE"
    by (simp_all add: layout)
  ultimately show ?thesis
    using bget_evicts_lru [OF bio_init_ring [of boot_bio] _ _ boot_cached, of 7] boot_cached [of 7]
    by (metis (lifting))
qed

text \<open>\<^bold>\<open>C34\<close>: the cache keeps its blocks in least-recently-used order. Dropping the last
  reference moves the buffer to the front of the ring and leaves the order of the others;
  dropping another one leaves the ring as it was; a buffer without references is never
  released.\<close>

theorem brelse_lru_order:
  assumes r: "ring (bufs s) (ys @ b # zs)"
  shows "if refcnt (bufs s b) = 0 then brelse b s = Inl (Panic ''brelse'')
    else \<exists>s'. brelse b s = Inr s' \<and> refcnt (bufs s' b) = refcnt (bufs s b) - 1 \<and>
      ring (bufs s') (if refcnt (bufs s b) = 1 then b # ys @ zs else ys @ b # zs)"
proof -
  let ?s = "upd_buf b (\<lambda>c. c\<lparr>refcnt := refcnt c - 1\<rparr>) s"
  have r1: "ring (bufs ?s) (ys @ b # zs)"
    using r by (subst ring_cong [where bs' = "bufs s"]) auto
  have "ring (link_front b (unlink b (bufs ?s))) (b # ys @ zs)"
    using ring_unlink [OF r1] r by (intro ring_link_front) (auto simp: ring_def)
  moreover have "payload (link_front b (unlink b (bufs ?s)) b) = payload (bufs ?s b)" by simp
  ultimately show ?thesis using r1 by (auto simp: brelse_def Let_def payload_def)
qed

theorem brelse_lru_order_witness:
  "\<exists>s1 s2. bread 1 7 (bio_init boot_bio) = Inr (0, s1) \<and> brelse 0 s1 = Inr s2 \<and>
     ring (bufs s2) (0 # rev [1..<NBUF])"
proof -
  let ?s = "bio_init boot_bio"
  have z: "rev [0..<NBUF] = rev [1..<NBUF] @ [0]" by (simp add: layout upt_conv_Cons)
  have f: "find (\<lambda>i. refcnt (bufs ?s i) = 0) (rev (rev [0..<NBUF])) = Some 0"
    using boot_bufs(2) [of 0] by (simp add: layout upt_conv_Cons)
  have g: "find (\<lambda>i. bdev (bufs ?s i) = 1 \<and> blockno (bufs ?s i) = 7) (rev [0..<NBUF]) = None"
    using boot_bufs(1) by (auto simp: find_None_iff)
  have "bget 1 7 ?s = Inr (0, upd_buf 0 (\<lambda>c. c\<lparr>bdev := 1, blockno := 7, valid := False, refcnt := 1\<rparr>) ?s)"
    using bget_ring [OF bio_init_ring [of boot_bio], of 7 1] unfolding f g by (simp add: layout)
  then obtain s1 where s1: "bread 1 7 ?s = Inr (0, s1)" "refcnt (bufs s1 0) = 1"
    "\<And>i. nxt (bufs s1 i) = nxt (bufs ?s i) \<and> prev (bufs s1 i) = prev (bufs ?s i)"
    by (simp add: bread_def disk_rw_def)
  then have "ring (bufs s1) (rev [1..<NBUF] @ 0 # [])"
    using bio_init_ring [of boot_bio] ring_cong [of "bufs s1" "bufs ?s"] unfolding z by blast
  from brelse_lru_order [OF this] s1 show ?thesis by auto
qed

end
