(* ===== verification/Log.thy ===== *)
theory Log
  imports Bio
begin

text \<open>
  \<^verbatim>\<open>kernel/fs/log.c\<close>: write-ahead logging. A transaction (\<^verbatim>\<open>begin_op\<close>, any number of
  \<^verbatim>\<open>log_write\<close>s, \<^verbatim>\<open>end_op\<close>) collects the blocks it changes; \<^verbatim>\<open>commit\<close> copies them to the log,
  writes the header block (the commit point), copies them home and clears the header. The
  state of the log extends that of the block cache. \<open>log_inv\<close> is its invariant; the main
  results are that a commit succeeds and installs exactly the pending blocks, and that a crash
  after any number of its disk writes followed by \<^verbatim>\<open>log_init\<close> gives the disk before or after
  the whole transaction.
\<close>

section \<open>State\<close>

definition LOGSIZE :: nat where [layout]: "LOGSIZE = 30"

record superblock =
  sb_magic :: uint64
  sb_size :: uint64
  sb_nblocks :: uint64
  sb_ninodes :: uint64
  sb_nlog :: uint64
  sb_logstart :: uint64
  sb_inodestart :: uint64
  sb_bmapstart :: uint64

text \<open>\<^verbatim>\<open>struct log\<close> with its \<^verbatim>\<open>struct logheader\<close>; the fields are C \<open>int\<close>s.\<close>

record logctx =
  ldev :: int
  lstart :: int
  lsize :: int
  outstanding :: int
  committing :: bool
  lh_n :: int
  lh_block :: "nat \<Rightarrow> int"

record lst = bio +
  lg :: logctx

section \<open>Operations\<close>

text \<open>The on-disk header overlays a block: \<^verbatim>\<open>n\<close> at byte 0, \<^verbatim>\<open>block[i]\<close> at byte \<open>4 + 4i\<close>.\<close>

definition hdr_n :: "block \<Rightarrow> int" where
  "hdr_n d = sint (le_load 4 d 0 :: uint32)"

definition hdr_block :: "block \<Rightarrow> nat \<Rightarrow> int" where
  "hdr_block d i = sint (le_load 4 d (4 + 4 * i) :: uint32)"

definition load_head :: "block \<Rightarrow> logctx \<Rightarrow> logctx" where
  "load_head d l =
     fold (\<lambda>i l. l\<lparr>lh_block := (lh_block l)(i := hdr_block d i)\<rparr>) [0..<nat (hdr_n d)]
       (l\<lparr>lh_n := hdr_n d\<rparr>)"

definition set_lg :: "(logctx \<Rightarrow> logctx) \<Rightarrow> 'a lst_scheme \<Rightarrow> 'a lst_scheme" where
  "set_lg f s = s\<lparr>lg := f (lg s)\<rparr>"

text \<open>The loop of \<^verbatim>\<open>read_head\<close> trusts the \<^verbatim>\<open>n\<close> on the disk: beyond \<^verbatim>\<open>LOGSIZE\<close> it stores outside
  the array.\<close>

definition read_head :: "'a lst_scheme \<Rightarrow> 'a lst_scheme kres" where
  "read_head s =
     kbind (bread (word_of_int (ldev (lg s))) (word_of_int (lstart (lg s))) s) (\<lambda>(b, s).
       kguard (nat (hdr_n (bdata (bufs s b))) \<le> LOGSIZE) (Undef ''read_head: block[i]'')
         (brelse b (set_lg (load_head (bdata (bufs s b))) s)))"

definition store_head :: "logctx \<Rightarrow> block \<Rightarrow> block" where
  "store_head l d =
     fold (\<lambda>i d. le_store 4 d (4 + 4 * i) (word_of_int (lh_block l i) :: uint32)) [0..<nat (lh_n l)]
       (le_store 4 d 0 (word_of_int (lh_n l) :: uint32))"

definition write_head :: "'a lst_scheme \<Rightarrow> 'a lst_scheme kres" where
  "write_head s =
     (let l = lg s
      in kbind (bread (word_of_int (ldev l)) (word_of_int (lstart l)) s) (\<lambda>(b, s).
           kbind (bwrite b (set_data b (store_head l (bdata (bufs s b))) s)) (brelse b)))"

definition write_log :: "'a lst_scheme \<Rightarrow> 'a lst_scheme kres" where
  "write_log s =
     kfold (\<lambda>tail s.
         kbind (bread (word_of_int (ldev (lg s))) (word_of_int (lstart (lg s) + int tail + 1)) s)
          (\<lambda>(to, s').
         kbind (bread (word_of_int (ldev (lg s))) (word_of_int (lh_block (lg s) tail)) s') (\<lambda>(from, s).
         kbind (bwrite to (set_data to (bdata (bufs s from)) s)) (\<lambda>s.
         kbind (brelse from s) (brelse to)))))
       [0..<nat (lh_n (lg s))] s"

definition install_trans :: "bool \<Rightarrow> 'a lst_scheme \<Rightarrow> 'a lst_scheme kres" where
  "install_trans recovering s =
     kfold (\<lambda>tail s.
         kbind (bread (word_of_int (ldev (lg s))) (word_of_int (lstart (lg s) + int tail + 1)) s)
          (\<lambda>(lbuf, s').
         kbind (bread (word_of_int (ldev (lg s))) (word_of_int (lh_block (lg s) tail)) s') (\<lambda>(dbuf, s).
         kbind (bwrite dbuf (set_data dbuf (bdata (bufs s lbuf)) s)) (\<lambda>s.
         kbind (brelse lbuf (if \<not> recovering then bunpin dbuf s else s)) (brelse dbuf)))))
       [0..<nat (lh_n (lg s))] s"

definition recover_from_log :: "'a lst_scheme \<Rightarrow> 'a lst_scheme kres" where
  "recover_from_log s =
     kbind (read_head s) (\<lambda>s.
     kbind (install_trans True s) (\<lambda>s.
     write_head (set_lg (\<lambda>l. l\<lparr>lh_n := 0\<rparr>) s)))"

definition log_init :: "int \<Rightarrow> superblock \<Rightarrow> 'a lst_scheme \<Rightarrow> 'a lst_scheme kres" where
  "log_init dev sb s =
     kguard (\<not> 4 + 4 * LOGSIZE \<ge> BSIZE) (Panic ''log_init: too big logheader'')
      (recover_from_log (set_lg (\<lambda>l. l\<lparr>ldev := dev, lstart := to_int (sb_logstart sb),
         lsize := to_int (sb_nlog sb)\<rparr>) s))"

text \<open>\<^verbatim>\<open>begin_op\<close> busy-waits while a commit runs or the log has no room.\<close>

definition begin_op :: "'a lst_scheme \<Rightarrow> 'a lst_scheme kres" where
  "begin_op s =
     (if committing (lg s) then Inl (Spin ''begin_op'')
      else if lh_n (lg s) + (outstanding (lg s) + 1) * int LOGSIZE > int LOGSIZE
      then Inl (Spin ''begin_op'')
      else Inr (set_lg (\<lambda>l. l\<lparr>outstanding := outstanding l + 1\<rparr>) s))"

definition commit :: "'a lst_scheme \<Rightarrow> 'a lst_scheme kres" where
  "commit s =
     (if lh_n (lg s) > 0 then
        kbind (write_log s) (\<lambda>s.
        kbind (write_head s) (\<lambda>s.
        kbind (install_trans False s) (\<lambda>s.
        write_head (set_lg (\<lambda>l. l\<lparr>lh_n := 0\<rparr>) s))))
      else Inr s)"

definition end_op :: "'a lst_scheme \<Rightarrow> 'a lst_scheme kres" where
  "end_op s =
     (let s = set_lg (\<lambda>l. l\<lparr>outstanding := outstanding l - 1\<rparr>) s
      in kguard (\<not> committing (lg s)) (Panic ''log_ctx.committing'')
          (if outstanding (lg s) = 0
           then kbind (commit (set_lg (\<lambda>l. l\<lparr>committing := True\<rparr>) s)) (\<lambda>s.
             Inr (set_lg (\<lambda>l. l\<lparr>committing := False\<rparr>) s))
           else Inr s))"

text \<open>The search loop of \<^verbatim>\<open>log_write\<close>: the first slot that holds the block, or \<^verbatim>\<open>n\<close>.\<close>

fun find_slot :: "nat \<Rightarrow> nat \<Rightarrow> logctx \<Rightarrow> uint64 \<Rightarrow> nat" where
  "find_slot 0 i l bn = i"
| "find_slot (Suc k) i l bn =
     (if word_of_int (lh_block l i) = bn then i else find_slot k (Suc i) l bn)"

definition log_write :: "nat \<Rightarrow> 'a lst_scheme \<Rightarrow> 'a lst_scheme kres" where
  "log_write b s =
     kguard (\<not> (lh_n (lg s) \<ge> int LOGSIZE \<or> lh_n (lg s) \<ge> lsize (lg s) - 1)) (Panic ''too big a transaction'')
     (kguard (\<not> outstanding (lg s) < 1) (Panic ''log_write outside of trans'')
      (let bn = blockno (bufs s b);
           i = find_slot (nat (lh_n (lg s))) 0 (lg s) bn;
           s = set_lg (\<lambda>l. l\<lparr>lh_block := (lh_block l)(i := to_int bn)\<rparr>) s
       in if int i = lh_n (lg s)
          then Inr (set_lg (\<lambda>l. l\<lparr>lh_n := lh_n l + 1\<rparr>) (bpin b s))
          else Inr s))"

section \<open>Sequences of block writes\<close>

type_synonym writes = "(uint64 \<times> block) list"

definition upds :: "writes \<Rightarrow> (uint64 \<Rightarrow> block) \<Rightarrow> uint64 \<Rightarrow> block" where
  "upds ws f = fold (\<lambda>(bn, x) f. f(bn := x)) ws f"

lemma upds_simps [simp]:
  "upds [] f = f" "upds ((bn, x) # ws) f = upds ws (f(bn := x))"
  by (simp_all add: upds_def)

lemma upds_append [simp]: "upds (xs @ ys) f = upds ys (upds xs f)"
  by (simp add: upds_def)

lemma upds_other: "bn \<notin> fst ` set ws \<Longrightarrow> upds ws f bn = f bn"
  by (induction ws arbitrary: f) auto

lemma upds_in: "distinct (map fst ws) \<Longrightarrow> (bn, x) \<in> set ws \<Longrightarrow> upds ws f bn = x"
proof (induction ws arbitrary: f)
  case (Cons w ws)
  then show ?case by (cases w; cases "w = (bn, x)") (auto simp: upds_other)
qed simp

text \<open>A block that every write of the list leaves as the list's end leaves it.\<close>

lemma upds_covers:
  "\<forall>(bn, x) \<in> set ws. x = g bn \<Longrightarrow> bn \<in> fst ` set ws \<Longrightarrow> upds ws f bn = g bn"
proof (induction ws arbitrary: f)
  case (Cons w ws)
  then show ?case by (cases "bn \<in> fst ` set ws") (auto simp: upds_other)
qed simp

text \<open>Writing blocks through the cache, and writing them while dropping a pin of each.\<close>

definition inst :: "bool \<Rightarrow> writes \<Rightarrow> cview \<Rightarrow> cview" where
  "inst unpin ws v = fold (\<lambda>(bn, x) v. drop_pin unpin bn (a_write bn (a_set bn x v))) ws v"

lemma inst_simps [simp]:
  "inst u [] v = v"
  "inst u (ws @ [(bn, x)]) v = drop_pin u bn (a_write bn (a_set bn x (inst u ws v)))"
  by (simp_all add: inst_def)

lemma view_inst [simp]:
  "vblk (inst u ws v) = upds ws (vblk v)" "vdsk (inst u ws v) = upds ws (vdsk v)"
  "vhist (inst u ws v) = vhist v @ ws"
  by (induction ws arbitrary: v rule: rev_induct)
    (auto simp: drop_pin_def a_write_def a_set_def a_unref_def upds_def)

lemma vref_inst_False [simp]: "vref (inst False ws v) = vref v"
  by (induction ws arbitrary: v rule: rev_induct)
    (auto simp: drop_pin_def a_write_def a_set_def)

lemma vref_inst_True: "vref (inst True ws v) x = vref v x - count_list (map fst ws) x"
  by (induction ws arbitrary: v rule: rev_induct)
    (auto simp: drop_pin_def a_write_def a_set_def a_unref_def)

lemma cview_eqI:
  "vblk v = vblk w \<Longrightarrow> vref v = vref w \<Longrightarrow> vdsk v = vdsk w \<Longrightarrow> vhist v = vhist w \<Longrightarrow> v = (w :: cview)"
  by (cases v, cases w) simp

lemma in_use_inst: "in_use (inst u ws v) \<subseteq> in_use v"
  by (cases u) (auto simp: in_use_def vref_inst_True)

lemma room_inst: "finite (in_use v) \<Longrightarrow> room k v \<Longrightarrow> room k (inst u ws v)"
  using card_mono [OF _ in_use_inst, of v u ws] by (simp add: room_def)

section \<open>The geometry of the log\<close>

text \<open>Block \<open>k\<close> of the log (the header is block 0) and the home of pending block \<open>i\<close>.\<close>

definition lblk :: "logctx \<Rightarrow> nat \<Rightarrow> uint64" where
  "lblk l k = word_of_int (lstart l + int k)"

definition home :: "logctx \<Rightarrow> nat \<Rightarrow> uint64" where
  "home l i = word_of_int (lh_block l i)"

definition in_log :: "logctx \<Rightarrow> uint64 \<Rightarrow> bool" where
  "in_log l bn \<longleftrightarrow> (\<exists>k < nat (lsize l). bn = lblk l k)"

definition geom :: "logctx \<Rightarrow> bool" where
  "geom l \<longleftrightarrow> 0 \<le> lstart l \<and> 2 \<le> lsize l \<and> lstart l + lsize l \<le> int FSSIZE"

abbreviation nlog :: "logctx \<Rightarrow> nat" where
  "nlog l \<equiv> nat (lh_n l)"

definition pending :: "logctx \<Rightarrow> uint64 list" where
  "pending l = map (home l) [0..<nlog l]"

text \<open>The pending blocks: no more than the log holds, distinct, on the disk, outside the log.\<close>

definition pend_ok :: "logctx \<Rightarrow> bool" where
  "pend_ok l \<longleftrightarrow> 0 \<le> lh_n l \<and> lh_n l \<le> int LOGSIZE \<and> lh_n l \<le> lsize l - 1 \<and> distinct (pending l) \<and>
     (\<forall>i < nlog l. 0 \<le> lh_block l i \<and> lh_block l i < int FSSIZE \<and> \<not> in_log l (home l i))"

lemma lblk_unat:
  assumes "geom l" and "k < nat (lsize l)"
  shows "unat (lblk l k) = nat (lstart l) + k" "unat (lblk l k) < FSSIZE"
proof -
  have b: "0 \<le> lstart l + int k" "lstart l + int k < int FSSIZE" using assms by (auto simp: geom_def)
  then have "unat (lblk l k) = nat (lstart l + int k)"
    unfolding lblk_def by (intro unat_word_of_int_small) (simp_all add: layout)
  then show "unat (lblk l k) = nat (lstart l) + k" "unat (lblk l k) < FSSIZE"
    using b assms by (auto simp: geom_def)
qed

lemma lblk_inj: "geom l \<Longrightarrow> j < nat (lsize l) \<Longrightarrow> k < nat (lsize l) \<Longrightarrow> lblk l j = lblk l k \<longleftrightarrow> j = k"
  by (metis add_left_cancel lblk_unat(1))

lemma home_unat:
  assumes "pend_ok l" and "i < nlog l"
  shows "unat (home l i) < FSSIZE" "\<not> in_log l (home l i)"
proof -
  have b: "0 \<le> lh_block l i" "lh_block l i < int FSSIZE" using assms by (auto simp: pend_ok_def)
  then have "unat (home l i) = nat (lh_block l i)"
    unfolding home_def by (intro unat_word_of_int_small) (simp_all add: layout)
  then show "unat (home l i) < FSSIZE" using b by simp
  show "\<not> in_log l (home l i)" using assms by (simp add: pend_ok_def)
qed

lemma home_not_lblk: "pend_ok l \<Longrightarrow> i < nlog l \<Longrightarrow> k < nat (lsize l) \<Longrightarrow> lblk l k \<noteq> home l i"
  using home_unat(2) [of l i] by (auto simp: in_log_def)

lemma slot_in_log: "pend_ok l \<Longrightarrow> i < nlog l \<Longrightarrow> Suc i < nat (lsize l)"
  by (auto simp: pend_ok_def)

lemma lg_more: "bio.more s = bio.more t \<Longrightarrow> lg s = lg t"
  by (cases s, cases t) simp

section \<open>The steps of a commit\<close>

text \<open>The writes of the first \<open>k\<close> iterations of \<^verbatim>\<open>write_log\<close> and of \<^verbatim>\<open>install_trans\<close>, from blocks
  with contents \<open>f\<close>.\<close>

definition copies :: "logctx \<Rightarrow> (uint64 \<Rightarrow> block) \<Rightarrow> nat \<Rightarrow> writes" where
  "copies l f k = map (\<lambda>i. (lblk l (Suc i), f (home l i))) [0..<k]"

definition homes :: "logctx \<Rightarrow> (uint64 \<Rightarrow> block) \<Rightarrow> nat \<Rightarrow> writes" where
  "homes l f k = map (\<lambda>i. (home l i, f (lblk l (Suc i)))) [0..<k]"

lemma copies_homes_simps [simp]:
  "copies l f 0 = []" "copies l f (Suc k) = copies l f k @ [(lblk l (Suc k), f (home l k))]"
  "homes l f 0 = []" "homes l f (Suc k) = homes l f k @ [(home l k, f (lblk l (Suc k)))]"
  by (simp_all add: copies_def homes_def)

lemma fst_homes: "map fst (homes l f (nlog l)) = pending l"
  by (simp add: homes_def pending_def)

lemma copies_keep_home:
  assumes "pend_ok l" and "k \<le> nlog l" and "i < nlog l"
  shows "upds (copies l f k) g (home l i) = g (home l i)"
proof (rule upds_other)
  have "home l i \<noteq> lblk l (Suc j)" if "j < k" for j
    using home_not_lblk [of l i "Suc j"] slot_in_log [of l j] assms that by auto
  then show "home l i \<notin> fst ` set (copies l f k)" by (force simp: copies_def)
qed

lemma homes_keep_log:
  assumes "pend_ok l" and "k \<le> nlog l" and "j < nat (lsize l)"
  shows "upds (homes l f k) g (lblk l j) = g (lblk l j)"
proof (rule upds_other)
  have "lblk l j \<noteq> home l i" if "i < k" for i using home_not_lblk [of l i j] assms that by auto
  then show "lblk l j \<notin> fst ` set (homes l f k)" by (force simp: homes_def)
qed

text \<open>The state in which the log is copied: the pending blocks are pinned, nobody holds a log
  block, and one more buffer is free.\<close>

definition lready :: "logctx \<Rightarrow> cview \<Rightarrow> bool" where
  "lready l v \<longleftrightarrow> geom l \<and> pend_ok l \<and> room 1 v \<and>
     (\<forall>bn \<in> set (pending l). 0 < vref v bn \<and> vref v bn + 1 < 2 ^ 64) \<and>
     (\<forall>bn. in_log l bn \<longrightarrow> vref v bn = 0)"

lemma lready_home:
  assumes "lready l v" and "i < nlog l"
  shows "0 < vref v (home l i)" "vref v (home l i) + 1 < 2 ^ 64"
  using assms by (auto simp: lready_def pending_def)

lemma lready_readable:
  assumes "lready l v" and "k < nat (lsize l)"
  shows "readable (lblk l k) v"
  using assms lblk_unat(2) [of l k] by (auto simp: lready_def readable_def in_log_def)

lemma lready_inst_False: "finite (in_use v) \<Longrightarrow> lready l v \<Longrightarrow> lready l (inst False ws v)"
  by (auto simp: lready_def room_inst)

lemma write_log_ok:
  fixes s :: "'a lst_scheme"
  assumes inv: "bcache_inv d s" and d: "d = word_of_int (ldev (lg s))" and l: "l = lg s"
    and rdy: "lready l (bview d s)"
  shows "\<exists>s'. write_log s = Inr s' \<and> bcache_inv d s' \<and>
    bview d s' = inst False (copies l (blk d s) (nlog l)) (bview d s) \<and> bio.more s' = bio.more s"
proof -
  let ?P = "\<lambda>i t. bcache_inv d t \<and> bview d t = inst False (copies l (blk d s) i) (bview d s) \<and>
    bio.more t = bio.more s"
  have g: "geom l" "pend_ok l" using rdy by (simp_all add: lready_def)
  have fin: "finite (in_use (bview d s))" by (rule bcache.finite_use [OF inv])
  show ?thesis
    unfolding write_log_def l [symmetric]
  proof (rule kfold_total [of ?P _ _ "nlog l"], goal_cases)
    case (3 i t)
    then have i: "i < nlog l" and t: "bcache_inv d t" "bio.more t = bio.more s"
      and v: "bview d t = inst False (copies l (blk d s) i) (bview d s)" by auto
    have lt: "lg t = l" using lg_more [OF t(2)] l by simp
    have rt: "lready l (bview d t)" unfolding v by (rule lready_inst_False [OF fin rdy])
    have w: "word_of_int (lstart l + int i + 1) = lblk l (Suc i)"
      by (simp add: lblk_def algebra_simps)
    note si = slot_in_log [OF g(2) i]
    have bh: "upds (copies l (blk d s) i) (blk d s) (home l i) = blk d s (home l i)"
      using copies_keep_home [OF g(2) _ i] i by simp
    from bcache.copy_to_log [OF t(1) home_not_lblk [OF g(2) i si] lready_readable [OF rt si]
        home_unat(1) [OF g(2) i] lready_home [OF rt i]]
    show ?case
      unfolding lt w d [symmetric, folded l] home_def [symmetric] using t(2) v bh
      by (simp add: drop_pin_def)
  qed (use inv in simp_all)
qed

lemma install_ok:
  fixes s :: "'a lst_scheme"
  assumes inv: "bcache_inv d s" and d: "d = word_of_int (ldev (lg s))" and l: "l = lg s"
    and g: "geom l" "pend_ok l" and room: "room (if rec then 2 else 1) (bview d s)"
    and pin: "\<not> rec \<Longrightarrow> lready l (bview d s)" and idle: "rec \<Longrightarrow> \<forall>bn. refs d s bn = 0"
  shows "\<exists>s'. install_trans rec s = Inr s' \<and> bcache_inv d s' \<and>
    bview d s' = inst (\<not> rec) (homes l (blk d s) (nlog l)) (bview d s) \<and> bio.more s' = bio.more s"
proof -
  let ?P = "\<lambda>i t. bcache_inv d t \<and> bview d t = inst (\<not> rec) (homes l (blk d s) i) (bview d s) \<and>
    bio.more t = bio.more s"
  have fin: "finite (in_use (bview d s))" by (rule bcache.finite_use [OF inv])
  show ?thesis
    unfolding install_trans_def l [symmetric]
  proof (rule kfold_total [of ?P _ _ "nlog l"], goal_cases)
    case (3 i t)
    then have i: "i < nlog l" and t: "bcache_inv d t" "bio.more t = bio.more s"
      and v: "bview d t = inst (\<not> rec) (homes l (blk d s) i) (bview d s)" by auto
    have lt: "lg t = l" using lg_more [OF t(2)] l by simp
    have w: "word_of_int (lstart l + int i + 1) = lblk l (Suc i)"
      by (simp add: lblk_def algebra_simps)
    note si = slot_in_log [OF g(2) i]
    have nin: "count_list (map fst (homes l (blk d s) i)) (home l i) = 0"
    proof -
      have "inj_on (home l) {0..<nlog l}" using g(2) by (auto simp: pend_ok_def pending_def distinct_map)
      then show ?thesis using i by (auto simp: count_list_0_iff homes_def dest: inj_onD)
    qed
    have rm: "room (if rec then 2 else 1) (bview d t)" unfolding v by (rule room_inst [OF fin room])
    have vt: "vref (bview d t) (home l i) = refs d s (home l i)"
      unfolding v using nin by (cases rec) (simp_all add: vref_inst_True)
    have fr: "readable (lblk l (Suc i)) (bview d t)"
      using lblk_unat(2) [OF g(1) si] rm v idle pin si
      by (cases rec) (auto simp: readable_def room_def lready_def in_log_def vref_inst_True)
    have h: "0 < vref (bview d t) (home l i) \<or> room 1 (a_ref (lblk l (Suc i)) (bview d t))"
      using vt lready_home(1) [OF pin i] rm bcache.finite_use [OF t(1)] room_ref [of "bview d t" 1]
      by (cases rec) (auto simp: numeral_2_eq_2)
    have c: "vref (bview d t) (home l i) + 1 < 2 ^ 64"
      using vt idle lready_home(2) [OF pin i] by (cases rec) auto
    have p: "\<not> rec \<Longrightarrow> 0 < vref (bview d t) (home l i)" using vt lready_home(1) [OF pin i] by simp
    have bl: "upds (homes l (blk d s) i) (blk d s) (lblk l (Suc i)) = blk d s (lblk l (Suc i))"
      using homes_keep_log [OF g(2) _ si] i by simp
    from bcache.copy_home [OF t(1) home_not_lblk [OF g(2) i si] fr home_unat(1) [OF g(2) i] h c p]
    show ?case
      unfolding lt w d [symmetric, folded l] home_def [symmetric] using t(2) v bl by simp
  qed (use inv in simp_all)
qed

lemma write_head_ok:
  fixes s :: "'a lst_scheme"
  assumes inv: "bcache_inv d s" and d: "d = word_of_int (ldev (lg s))" and l: "l = lg s"
    and rd: "readable (lblk l 0) (bview d s)"
  shows "\<exists>s'. write_head s = Inr s' \<and> bcache_inv d s' \<and>
    bview d s' = inst False [(lblk l 0, store_head l (blk d s (lblk l 0)))] (bview d s) \<and>
    bio.more s' = bio.more s"
proof -
  have w: "word_of_int (lstart l) = lblk l 0" by (simp add: lblk_def)
  show ?thesis
    using bcache.rewrite_block [OF inv rd, of "store_head l"] 
    unfolding write_head_def Let_def l [symmetric] w d [symmetric, folded l]
    by (simp add: inst_def drop_pin_def)
qed

section \<open>The header block\<close>

lemma le_load_store_at:
  fixes v :: uint32
  shows "(le_load 4 (le_store 4 d k v) k :: uint32) = v"
  by (rule le_load_store_same) simp

lemma store_blocks_load:
  fixes d :: block and l :: logctx
  defines "e k \<equiv> fold (\<lambda>i d. le_store 4 d (4 + 4 * i) (word_of_int (lh_block l i) :: uint32)) [0..<k] d"
  shows "(le_load 4 (e k) 0 :: uint32) = le_load 4 d 0"
    and "i < k \<Longrightarrow> (le_load 4 (e k) (4 + 4 * i) :: uint32) = word_of_int (lh_block l i)"
proof -
  show "(le_load 4 (e k) 0 :: uint32) = le_load 4 d 0"
    by (induction k) (simp_all add: e_def le_load_store_other)
  show "i < k \<Longrightarrow> (le_load 4 (e k) (4 + 4 * i) :: uint32) = word_of_int (lh_block l i)"
  proof (induction k)
    case (Suc k)
    then show ?case
      by (cases "i = k") (simp_all add: e_def le_load_store_at le_load_store_other)
  qed simp
qed

lemma hdr_n_store: "pend_ok l \<Longrightarrow> hdr_n (store_head l d) = lh_n l"
  unfolding hdr_n_def store_head_def store_blocks_load(1) le_load_store_at
  by (intro sint_word_of_int_small) (auto simp: pend_ok_def layout)

lemma hdr_block_store:
  "pend_ok l \<Longrightarrow> i < nlog l \<Longrightarrow> hdr_block (store_head l d) i = lh_block l i"
  unfolding hdr_block_def store_head_def
  by (subst store_blocks_load(2)) (auto intro!: sint_word_of_int_small simp: pend_ok_def layout)

lemma store_head_empty: "store_head (l\<lparr>lh_n := 0\<rparr>) d = le_store 4 d 0 (0 :: uint32)"
  by (simp add: store_head_def)

lemma hdr_n_empty [simp]: "hdr_n (le_store 4 d 0 (0 :: uint32)) = 0"
  by (simp add: hdr_n_def le_load_store_at)

lemma load_head_simps [simp]:
  "lh_n (load_head d l) = hdr_n d"
  "lh_block (load_head d l) i = (if i < nat (hdr_n d) then hdr_block d i else lh_block l i)"
  "ldev (load_head d l) = ldev l" "lstart (load_head d l) = lstart l" "lsize (load_head d l) = lsize l"
  "outstanding (load_head d l) = outstanding l" "committing (load_head d l) = committing l"
proof -
  have "fold (\<lambda>i l. l\<lparr>lh_block := (lh_block l)(i := hdr_block d i)\<rparr>) [0..<k] m =
      m\<lparr>lh_block := \<lambda>j. if j < k then hdr_block d j else lh_block m j\<rparr>" for k m
    by (induction k) (auto simp: fun_eq_iff less_Suc_eq intro!: logctx.equality)
  note eq = this [of "nat (hdr_n d)" "l\<lparr>lh_n := hdr_n d\<rparr>"]
  show "lh_n (load_head d l) = hdr_n d"
    "lh_block (load_head d l) i = (if i < nat (hdr_n d) then hdr_block d i else lh_block l i)"
    "ldev (load_head d l) = ldev l" "lstart (load_head d l) = lstart l" "lsize (load_head d l) = lsize l"
    "outstanding (load_head d l) = outstanding l" "committing (load_head d l) = committing l"
    unfolding load_head_def eq by simp_all
qed

lemma lblk_load_head [simp]: "lblk (load_head d l) = lblk l"
  by (simp add: lblk_def fun_eq_iff)

lemma set_lg_simps [simp]:
  "bufs (set_lg f s) = bufs s" "dsk (set_lg f s) = dsk s" "dwrites (set_lg f s) = dwrites s"
  "lg (set_lg f s) = f (lg s)" "lst.more (set_lg f s) = lst.more s"
  by (simp_all add: set_lg_def)

lemma cache_set_lg [simp]:
  "bcache_inv d (set_lg f s) = bcache_inv d s" "bview d (set_lg f s) = bview d s"
  "handle d (set_lg f s) = handle d s" "blk d (set_lg f s) = blk d s" "refs d (set_lg f s) = refs d s"
  unfolding bcache_inv_def bview_def handle_def blk_def refs_def cached_def set_lg_simps by simp_all

lemma lst_more: "bio.more s = bio.more t \<Longrightarrow> lst.more s = lst.more t"
  by (cases s, cases t) simp

section \<open>Commit and recovery\<close>

text \<open>The writes of a recovery from disk \<open>D\<close>, and of a commit of the pending blocks of \<open>l\<close> with
  contents \<open>f\<close>.\<close>

definition rec_writes :: "logctx \<Rightarrow> (uint64 \<Rightarrow> block) \<Rightarrow> writes" where
  "rec_writes l D =
     map (\<lambda>i. (word_of_int (hdr_block (D (lblk l 0)) i), D (lblk l (Suc i)))) [0..<nat (hdr_n (D (lblk l 0)))] @
     [(lblk l 0, le_store 4 (D (lblk l 0)) 0 (0 :: uint32))]"

definition log_writes :: "logctx \<Rightarrow> (uint64 \<Rightarrow> block) \<Rightarrow> writes" where
  "log_writes l f = copies l f (nlog l) @ [(lblk l 0, store_head l (f (lblk l 0)))]"

definition commit_writes :: "logctx \<Rightarrow> (uint64 \<Rightarrow> block) \<Rightarrow> writes" where
  "commit_writes l f =
     (if lh_n l > 0 then log_writes l f @ rec_writes l (upds (log_writes l f) f) else [])"

lemma homes_rec:
  assumes "pend_ok l" and "D (lblk l 0) = store_head l d"
  shows "homes l D (nlog l) @ [(lblk l 0, store_head (l\<lparr>lh_n := 0\<rparr>) (D (lblk l 0)))] = rec_writes l D"
  using assms by (simp add: homes_def rec_writes_def hdr_n_store hdr_block_store home_def store_head_empty)

lemma copies_keep_header:
  assumes "geom l" and "k \<le> nlog l" and "pend_ok l"
  shows "upds (copies l f k) g (lblk l 0) = g (lblk l 0)"
proof (rule upds_other)
  have "lblk l 0 \<noteq> lblk l (Suc i)" if "i < k" for i
    using lblk_inj [OF assms(1), of 0 "Suc i"] slot_in_log [OF assms(3), of i] that assms(2) by simp
  then show "lblk l 0 \<notin> fst ` set (copies l f k)" by (force simp: copies_def)
qed

lemma copies_slot:
  assumes "geom l" and "k \<le> nlog l" and "pend_ok l" and "i < k"
  shows "upds (copies l f k) g (lblk l (Suc i)) = f (home l i)"
proof (rule upds_in)
  have "inj_on (\<lambda>i. lblk l (Suc i)) {0..<k}"
    using lblk_inj [OF assms(1)] slot_in_log [OF assms(3)] assms(2) by (auto intro!: inj_onI)
  then show "distinct (map fst (copies l f k))" by (simp add: copies_def distinct_map comp_def)
  show "(lblk l (Suc i), f (home l i)) \<in> set (copies l f k)" using assms(4) by (auto simp: copies_def)
qed

text \<open>The view after the writes \<open>ws\<close> and the release of one pin of each block of \<open>bns\<close>.\<close>

definition wrote :: "writes \<Rightarrow> uint64 list \<Rightarrow> cview \<Rightarrow> cview" where
  "wrote ws bns v = \<lparr>vblk = upds ws (vblk v), vref = (\<lambda>x. vref v x - count_list bns x),
     vdsk = upds ws (vdsk v), vhist = vhist v @ ws\<rparr>"

lemma wrote_simps [simp]:
  "vblk (wrote ws bns v) = upds ws (vblk v)" "vdsk (wrote ws bns v) = upds ws (vdsk v)"
  "vref (wrote ws bns v) x = vref v x - count_list bns x" "vhist (wrote ws bns v) = vhist v @ ws"
  by (simp_all add: wrote_def)

lemma inst_wrote:
  "inst False ws v = wrote ws [] v" "inst True ws v = wrote ws (map fst ws) v"
  "wrote ws bns (wrote vs cns v) = wrote (vs @ ws) (cns @ bns) v"
  by (auto intro!: cview_eqI simp: vref_inst_True fun_eq_iff)

lemma lready_header: "lready l v \<Longrightarrow> readable (lblk l 0) v"
  by (rule lready_readable) (auto simp: lready_def geom_def)

lemma in_log_header: "geom l \<Longrightarrow> in_log l (lblk l 0)"
  by (auto simp: in_log_def geom_def intro!: exI [of _ 0])

lemma commit_ok:
  fixes s :: "'a lst_scheme"
  assumes inv: "bcache_inv d s" and d: "d = word_of_int (ldev (lg s))" and l: "l = lg s"
    and rdy: "lready l (bview d s)"
  shows "\<exists>s'. commit s = Inr s' \<and> bcache_inv d s' \<and>
    bview d s' = wrote (commit_writes l (blk d s)) (pending l) (bview d s) \<and>
    lg s' = l\<lparr>lh_n := 0\<rparr> \<and> lst.more s' = lst.more s"
proof (cases "lh_n l > 0")
  case False
  then have n: "lh_n l = 0" using rdy by (simp add: lready_def pend_ok_def)
  have "lg s = l\<lparr>lh_n := 0\<rparr>" using l n by simp
  moreover have "bview d s = wrote [] [] (bview d s)" by (auto intro!: cview_eqI simp: fun_eq_iff)
  ultimately show ?thesis
    using n l inv by (intro exI [of _ s]) (simp add: commit_def commit_writes_def pending_def)
next
  case True
  let ?f = "blk d s" and ?n = "nlog l" and ?st = "lblk l 0"
  have g: "geom l" "pend_ok l" using rdy by (simp_all add: lready_def)
  have fin: "finite (in_use (bview d s))" by (rule bcache.finite_use [OF inv])
  obtain s1 where s1: "write_log s = Inr s1" "bcache_inv d s1" "bio.more s1 = bio.more s"
    "bview d s1 = inst False (copies l ?f ?n) (bview d s)"
    using write_log_ok [OF inv d l rdy] by blast
  have l1: "lg s1 = l" using lg_more [OF s1(3)] l by simp
  have d1: "d = word_of_int (ldev (lg s1))" using l1 l d by simp
  have r1: "lready l (bview d s1)" unfolding s1(4) by (rule lready_inst_False [OF fin rdy])
  have b1: "blk d s1 ?st = ?f ?st"
    using arg_cong [OF s1(4), of vblk] copies_keep_header [OF g(1) _ g(2)] by simp
  obtain s2 where s2: "write_head s1 = Inr s2" "bcache_inv d s2" "bio.more s2 = bio.more s1"
    "bview d s2 = inst False [(?st, store_head l (?f ?st))] (bview d s1)"
    using write_head_ok [OF s1(2) d1 l1 [symmetric] lready_header [OF r1]] unfolding b1 by blast
  have v2: "bview d s2 = wrote (log_writes l ?f) [] (bview d s)"
    unfolding s2(4) s1(4) inst_wrote log_writes_def by simp
  have l2: "lg s2 = l" using lg_more [OF s2(3)] l1 by simp
  have d2: "d = word_of_int (ldev (lg s2))" using l2 l d by simp
  have r2: "lready l (bview d s2)"
    unfolding s2(4) by (rule lready_inst_False [OF bcache.finite_use [OF s1(2)] r1])
  define f2 where "f2 = upds (log_writes l ?f) ?f"
  have b2: "blk d s2 = f2" using arg_cong [OF v2, of vblk] by (simp add: f2_def)
  obtain s3 where s3: "install_trans False s2 = Inr s3" "bcache_inv d s3" "bio.more s3 = bio.more s2"
    "bview d s3 = inst True (homes l f2 ?n) (bview d s2)"
    using install_ok [OF s2(2) d2 l2 [symmetric] g, of False] r2 unfolding b2 by (auto simp: lready_def)
  let ?t = "set_lg (\<lambda>l. l\<lparr>lh_n := 0\<rparr>) s3" and ?l0 = "l\<lparr>lh_n := 0\<rparr>"
  have l3: "lg ?t = ?l0" using lg_more [OF s3(3)] l2 by simp
  have d3: "d = word_of_int (ldev (lg ?t))" using l3 l d by simp
  have st0: "lblk ?l0 0 = ?st" by (simp add: lblk_def)
  have b3: "blk d ?t ?st = f2 ?st"
    using arg_cong [OF s3(4), of vblk] homes_keep_log [OF g(2), of ?n 0] b2 g(1) by (simp add: geom_def)
  have "vref (bview d s3) ?st = 0"
    using r2 in_log_header [OF g(1)] unfolding s3(4) by (simp add: vref_inst_True lready_def)
  moreover have "room 1 (bview d s3)"
    unfolding s3(4) using r2 bcache.finite_use [OF s2(2)] by (auto intro: room_inst simp: lready_def)
  ultimately have "readable ?st (bview d ?t)"
    using lblk_unat(2) [OF g(1), of 0] g(1) by (simp add: readable_def geom_def)
  then obtain s4 where s4: "write_head ?t = Inr s4" "bcache_inv d s4" "bio.more s4 = bio.more ?t"
    "bview d s4 = inst False [(?st, store_head ?l0 (f2 ?st))] (bview d s3)"
    using write_head_ok [of d ?t ?l0] s3(2) d3 l3 unfolding st0 b3 by auto
  have h: "f2 ?st = store_head l (?f ?st)" by (simp add: f2_def log_writes_def)
  have "bview d s4 = wrote (commit_writes l ?f) (pending l) (bview d s)"
    unfolding s4(4) s3(4) v2 inst_wrote commit_writes_def f2_def [symmetric]
    using True homes_rec [where D = f2, OF g(2) h] by (simp add: fst_homes)
  moreover have "lst.more s4 = lst.more s"
    using lst_more [OF s4(3)] lst_more [OF s3(3)] lst_more [OF s2(3)] lst_more [OF s1(3)] by simp
  moreover have "commit s = Inr s4" using True l s1(1) s2(1) s3(1) s4(1) by (simp add: commit_def)
  ultimately show ?thesis using s4(2) lg_more [OF s4(3)] l3 by auto
qed

lemma read_head_ok:
  fixes s :: "'a lst_scheme"
  assumes inv: "bcache_inv d s" and d: "d = word_of_int (ldev (lg s))" and l: "l = lg s"
    and rd: "readable (lblk l 0) (bview d s)" and n: "nat (hdr_n (blk d s (lblk l 0))) \<le> LOGSIZE"
  shows "\<exists>s'. read_head s = Inr s' \<and> bcache_inv d s' \<and> bview d s' = bview d s \<and>
    lg s' = load_head (blk d s (lblk l 0)) l \<and> lst.more s' = lst.more s"
proof -
  let ?st = "lblk l 0"
  have w: "word_of_int (lstart l) = ?st" by (simp add: lblk_def)
  obtain b s1 where s1: "bread d ?st s = Inr (b, s1)" "bcache_inv d s1" "handle d s1 b ?st"
    "bview d s1 = a_ref ?st (bview d s)" "bio.more s1 = bio.more s"
    using bcache.bread_ok [OF inv rd] by blast
  have g: "bdata (bufs s1 b) = blk d s ?st"
    using bcache.get_ok [OF s1(2,3)] s1(4) by (simp add: a_ref_def)
  let ?t = "set_lg (load_head (blk d s ?st)) s1"
  have "droppable ?st (bview d ?t)"
    using bcache.clean [OF inv, of ?st] s1(4) by (auto simp: droppable_def a_ref_def)
  then obtain s2 where s2: "brelse b ?t = Inr s2" "bcache_inv d s2" "bview d s2 = a_unref ?st (bview d ?t)"
    "bio.more s2 = bio.more ?t"
    using bcache.brelse_ok [of d ?t b ?st] s1(2,3) by auto
  have "bview d s2 = bview d s" using s2(3) s1(4) by (simp add: a_unref_def a_ref_def)
  moreover have "lg s2 = load_head (blk d s ?st) l"
    using lg_more [OF s2(4)] lg_more [OF s1(5)] l by simp
  moreover have "lst.more s2 = lst.more s" using lst_more [OF s2(4)] lst_more [OF s1(5)] by simp
  moreover have "read_head s = Inr s2"
    unfolding read_head_def l [symmetric] w d [symmetric, folded l] using s1(1) s2(1) g n by simp
  ultimately show ?thesis using s2(2) by blast
qed

lemma rec_writes_load_head:
  "rec_writes l D = homes (load_head (D (lblk l 0)) l) D (nat (hdr_n (D (lblk l 0)))) @
     [(lblk l 0, store_head ((load_head (D (lblk l 0)) l)\<lparr>lh_n := 0\<rparr>) (D (lblk l 0)))]"
  by (simp add: rec_writes_def homes_def home_def store_head_empty)

lemma idle_room: "\<forall>bn. refs d s bn = 0 \<Longrightarrow> k \<le> NBUF \<Longrightarrow> room k (bview d s)"
  by (simp add: room_def in_use_def)

lemma recover_ok:
  fixes s :: "'a lst_scheme"
  assumes inv: "bcache_inv d s" and d: "d = word_of_int (ldev (lg s))" and l: "l = lg s"
    and g: "geom l" and hdr: "pend_ok (load_head (dsk s (lblk l 0)) l)" and idle: "\<forall>bn. refs d s bn = 0"
  shows "\<exists>s'. recover_from_log s = Inr s' \<and> bcache_inv d s' \<and>
    bview d s' = wrote (rec_writes l (dsk s)) [] (bview d s) \<and>
    lg s' = (load_head (dsk s (lblk l 0)) l)\<lparr>lh_n := 0\<rparr> \<and> lst.more s' = lst.more s"
proof -
  let ?D = "dsk s" and ?st = "lblk l 0"
  let ?h = "load_head (?D ?st) l"
  have clean: "blk d s = ?D"
    using unreferenced_clean [of d s] inv idle by (auto simp: bcache_inv_def fun_eq_iff)
  have r: "readable bn (bview d s)" if "unat bn < FSSIZE" for bn
    using idle idle_room [OF idle, of 1] that by (simp add: readable_def layout)
  have st: "unat ?st < FSSIZE" using lblk_unat(2) [OF g, of 0] g by (simp add: geom_def)
  have n: "nat (hdr_n (?D ?st)) \<le> LOGSIZE" using hdr by (simp add: pend_ok_def nat_le_iff)
  obtain s1 where s1: "read_head s = Inr s1" "bcache_inv d s1" "bview d s1 = bview d s"
    "lg s1 = ?h" "lst.more s1 = lst.more s"
    using read_head_ok [OF inv d l r [OF st]] n unfolding clean by blast
  have d1: "d = word_of_int (ldev (lg s1))" using s1(4) l d by simp
  have gh: "geom ?h" using g by (simp add: geom_def)
  have ref1: "\<forall>bn. refs d s1 bn = 0" using idle arg_cong [OF s1(3), of vref] by simp
  have b1: "blk d s1 = ?D" using arg_cong [OF s1(3), of vblk] clean by simp
  obtain s2 where s2: "install_trans True s1 = Inr s2" "bcache_inv d s2" "bio.more s2 = bio.more s1"
    "bview d s2 = inst False (homes ?h ?D (nlog ?h)) (bview d s)"
    using install_ok [OF s1(2) d1 s1(4) [symmetric] gh hdr, of True] ref1 idle_room [OF ref1, of 2]
    unfolding b1 s1(3) by (auto simp: layout)
  let ?t = "set_lg (\<lambda>l. l\<lparr>lh_n := 0\<rparr>) s2" and ?l0 = "?h\<lparr>lh_n := 0\<rparr>"
  have lt: "lg ?t = ?l0" using lg_more [OF s2(3)] s1(4) by simp
  have dt: "d = word_of_int (ldev (lg ?t))" using lt l d by simp
  have st0: "lblk ?l0 0 = ?st" by (simp add: lblk_def)
  have ref2: "\<forall>bn. refs d s2 bn = 0" using idle arg_cong [OF s2(4), of vref] by simp
  have b2: "blk d ?t ?st = ?D ?st"
    using arg_cong [OF s2(4), of vblk] homes_keep_log [OF hdr, of "nlog ?h" 0 ?D ?D] clean g
    by (simp add: geom_def)
  have "readable ?st (bview d ?t)"
    using ref2 idle_room [OF ref2, of 1] st by (simp add: readable_def layout)
  then obtain s3 where s3: "write_head ?t = Inr s3" "bcache_inv d s3" "bio.more s3 = bio.more ?t"
    "bview d s3 = inst False [(?st, store_head ?l0 (?D ?st))] (bview d s2)"
    using write_head_ok [of d ?t ?l0] s2(2) dt lt unfolding st0 b2 by auto
  have "bview d s3 = wrote (rec_writes l ?D) [] (bview d s)"
    unfolding s3(4) s2(4) inst_wrote rec_writes_load_head by simp
  moreover have "lst.more s3 = lst.more s"
    using lst_more [OF s3(3)] lst_more [OF s2(3)] s1(5) by simp
  moreover have "recover_from_log s = Inr s3"
    using s1(1) s2(1) s3(1) by (simp add: recover_from_log_def)
  ultimately show ?thesis using s3(2) lg_more [OF s3(3)] lt by auto
qed

section \<open>Crashes\<close>

lemma upds_absorb: "fst ` set vs \<subseteq> fst ` set ws \<Longrightarrow> upds ws (upds vs f) = upds ws f"
proof
  fix bn assume s: "fst ` set vs \<subseteq> fst ` set ws"
  have ind: "bn \<in> fst ` set us \<Longrightarrow> upds us g bn = upds us h bn" for us g h
  proof (induction us arbitrary: g h)
    case (Cons u us)
    then show ?case by (cases u; cases "bn \<in> fst ` set us") (auto simp: upds_other)
  qed simp
  show "upds ws (upds vs f) bn = upds ws f bn"
  proof (cases "bn \<in> fst ` set ws")
    case False
    then have "bn \<notin> fst ` set vs" using s by blast
    then show ?thesis using False by (simp add: upds_other)
  qed (rule ind)
qed

definition rec_disk :: "logctx \<Rightarrow> (uint64 \<Rightarrow> block) \<Rightarrow> uint64 \<Rightarrow> block" where
  "rec_disk l D = upds (rec_writes l D) D"

lemma rec_writes_cong:
  "D (lblk l 0) = E (lblk l 0) \<Longrightarrow>
   (\<And>i. i < nat (hdr_n (D (lblk l 0))) \<Longrightarrow> D (lblk l (Suc i)) = E (lblk l (Suc i))) \<Longrightarrow>
   rec_writes l D = rec_writes l E"
  by (simp add: rec_writes_def)

lemma rec_disk_empty:
  assumes "hdr_n (D (lblk l 0)) \<le> 0" and "bn \<noteq> lblk l 0"
  shows "rec_disk l D bn = D bn"
  using assms by (simp add: rec_disk_def rec_writes_def)

text \<open>A crash during recovery is harmless: after any prefix of its writes, recovering again
  gives the same blocks outside the log.\<close>

lemma rec_disk_prefix:
  assumes g: "geom l" and hdr: "pend_ok (load_head (D (lblk l 0)) l)" and bn: "\<not> in_log l bn"
  shows "rec_disk l (upds (take j (rec_writes l D)) D) bn = rec_disk l D bn"
proof (cases "j \<le> nat (hdr_n (D (lblk l 0)))")
  case True
  let ?h = "load_head (D (lblk l 0)) l" and ?ws = "take j (rec_writes l D)"
  have t: "?ws = homes ?h D j"
    using True unfolding rec_writes_load_head by (simp add: homes_def take_map)
  have keep: "upds ?ws D (lblk l k) = D (lblk l k)" if "k < nat (lsize l)" for k
    unfolding t using homes_keep_log [OF hdr, of j k] that True by simp
  have "rec_writes l (upds ?ws D) = rec_writes l D"
    using keep [of 0] g slot_in_log [OF hdr] by (intro rec_writes_cong) (auto simp: geom_def keep)
  moreover have "upds (rec_writes l D) (upds ?ws D) = upds (rec_writes l D) D"
    by (rule upds_absorb) (meson image_mono set_take_subset)
  ultimately show ?thesis by (simp add: rec_disk_def)
next
  case False
  then have "take j (rec_writes l D) = rec_writes l D" by (simp add: rec_writes_def)
  then have e: "upds (take j (rec_writes l D)) D = rec_disk l D" by (simp add: rec_disk_def)
  have "rec_disk l D (lblk l 0) = le_store 4 (D (lblk l 0)) 0 (0 :: uint32)"
    by (simp add: rec_disk_def rec_writes_def)
  then have "hdr_n (rec_disk l D (lblk l 0)) = 0" by simp
  moreover have "bn \<noteq> lblk l 0" using bn in_log_header [OF g] by auto
  ultimately show ?thesis unfolding e by (intro rec_disk_empty) simp_all
qed

lemma log_writes_header: "upds (log_writes l f) g (lblk l 0) = store_head l (f (lblk l 0))"
  by (simp add: log_writes_def)

lemma log_writes_slot:
  assumes "geom l" and "pend_ok l" and "i < nlog l"
  shows "upds (log_writes l f) g (lblk l (Suc i)) = f (home l i)"
  using copies_slot [OF assms(1) order_refl assms(2,3)] slot_in_log [OF assms(2,3)]
    lblk_inj [OF assms(1), of "Suc i" 0] by (simp add: log_writes_def)

lemma commit_rec_writes:
  assumes "geom l" and "pend_ok l"
  shows "rec_writes l (upds (log_writes l f) g) = rec_writes l (upds (log_writes l f) h)"
  using assms by (intro rec_writes_cong) (auto simp: log_writes_header log_writes_slot hdr_n_store)

lemma load_store_head: "pend_ok l \<Longrightarrow> load_head (store_head l d) l = l"
  by (rule logctx.equality) (auto simp: hdr_n_store hdr_block_store fun_eq_iff)

lemma not_in_log_log_writes:
  assumes "geom l" and "pend_ok l" and "\<not> in_log l bn"
  shows "k \<le> nlog l \<Longrightarrow> upds (copies l f k) g bn = g bn" "upds (log_writes l f) g bn = g bn"
proof -
  have "bn \<noteq> lblk l (Suc i)" if "i < nlog l" for i
    using assms(3) slot_in_log [OF assms(2) that] by (auto simp: in_log_def)
  then have c: "upds (copies l f k) g bn = g bn" if "k \<le> nlog l" for k
    using that by (intro upds_other) (auto simp: copies_def image_iff dest: less_le_trans)
  then show "k \<le> nlog l \<Longrightarrow> upds (copies l f k) g bn = g bn" .
  have "bn \<noteq> lblk l 0" using assms in_log_header by auto
  then show "upds (log_writes l f) g bn = g bn" using c by (simp add: log_writes_def)
qed

text \<open>A prefix of the writes of a commit: some copies into the log, or all of them, the header
  and a prefix of the writes of a recovery.\<close>

lemma commit_prefix:
  fixes f D :: "uint64 \<Rightarrow> block"
  assumes g: "geom l" and p: "pend_ok l"
  defines "E \<equiv> upds (log_writes l f) D"
  obtains (log) j where "j \<le> nlog l" "take k (commit_writes l f) = copies l f j" "k \<le> nlog l \<or> lh_n l = 0"
  | (install) j where "0 < lh_n l" "nlog l < k" "commit_writes l f = log_writes l f @ rec_writes l E"
      "upds (take k (commit_writes l f)) D = upds (take j (rec_writes l E)) E"
proof (cases "0 < lh_n l \<and> nlog l < k")
  case False
  show ?thesis
  proof (cases "lh_n l > 0")
    case True
    then have "take k (commit_writes l f) = copies l f k" "k \<le> nlog l"
      using False by (auto simp: commit_writes_def log_writes_def copies_def take_map)
    then show ?thesis using log [of k] by blast
  next
    case False
    then have "lh_n l = 0" using p by (simp add: pend_ok_def)
    then show ?thesis using log [of 0] by (simp add: commit_writes_def)
  qed
next
  case True
  have ws: "commit_writes l f = log_writes l f @ rec_writes l E"
    using True commit_rec_writes [OF g p, of f f D] by (simp add: commit_writes_def E_def)
  have len: "length (log_writes l f) = Suc (nlog l)" by (simp add: log_writes_def copies_def)
  have "take k (commit_writes l f) = log_writes l f @ take (k - Suc (nlog l)) (rec_writes l E)"
    unfolding ws using True len by simp
  then show ?thesis using True ws install [of "k - Suc (nlog l)"] by (simp add: E_def)
qed

lemma pend_ok_no_header: "geom l \<Longrightarrow> hdr_n d = 0 \<Longrightarrow> pend_ok (load_head d l)"
  by (simp add: pend_ok_def pending_def geom_def)

lemma header_after_log:
  "pend_ok l \<Longrightarrow> pend_ok (load_head (upds (log_writes l f) D (lblk l 0)) l)"
  by (simp add: log_writes_header load_store_head)

text \<open>Recovering from a crash after \<open>k\<close> of the writes of a commit finds a header it can read, and
  gives the blocks from before the commit if the header was not yet written, else those from
  after it.\<close>

lemma crash_header:
  assumes g: "geom l" and p: "pend_ok l" and hdr: "hdr_n (D (lblk l 0)) = 0"
  shows "pend_ok (load_head (upds (take k (commit_writes l f)) D (lblk l 0)) l)"
proof (rule commit_prefix [OF g p, where k = k and f = f and D = D], goal_cases log install)
  case (log j)
  then show ?case
    using copies_keep_header [OF g log(1) p] hdr g by (simp add: pend_ok_no_header)
next
  case (install j)
  let ?E = "upds (log_writes l f) D"
  note h = header_after_log [OF p, of f D]
  show ?case
  proof (cases "j \<le> nat (hdr_n (?E (lblk l 0)))")
    case True
    then have "take j (rec_writes l ?E) = homes (load_head (?E (lblk l 0)) l) ?E j"
      unfolding rec_writes_load_head by (simp add: homes_def take_map)
    then show ?thesis
      using install(4) homes_keep_log [OF h, of j 0] True h g by (simp add: geom_def)
  next
    case False
    then have "take j (rec_writes l ?E) = rec_writes l ?E" by (simp add: rec_writes_def)
    then show ?thesis using install(4) g by (simp add: rec_writes_def pend_ok_no_header)
  qed
qed

lemma crash_recovers:
  assumes g: "geom l" and p: "pend_ok l" and hdr: "hdr_n (D (lblk l 0)) = 0" and bn: "\<not> in_log l bn"
  shows "rec_disk l (upds (take k (commit_writes l f)) D) bn =
    (if k \<le> nlog l then D bn else upds (commit_writes l f) D bn)"
proof (rule commit_prefix [OF g p, where k = k and f = f and D = D], goal_cases log install)
  case (log j)
  have nst: "bn \<noteq> lblk l 0" using in_log_header [OF g] bn by auto
  have "hdr_n (upds (copies l f j) D (lblk l 0)) = 0" using copies_keep_header [OF g log(1) p] hdr by simp
  then have "rec_disk l (upds (copies l f j) D) bn = upds (copies l f j) D bn"
    using nst by (intro rec_disk_empty) simp_all
  then show ?case
    using log not_in_log_log_writes(1) [OF g p bn log(1)] by (auto simp: commit_writes_def)
next
  case (install j)
  let ?E = "upds (log_writes l f) D"
  have "rec_disk l (upds (take k (commit_writes l f)) D) bn = rec_disk l ?E bn"
    unfolding install(4) by (rule rec_disk_prefix [where D = ?E, OF g header_after_log [OF p] bn])
  also have "\<dots> = upds (commit_writes l f) D bn" by (simp add: install(3) rec_disk_def)
  finally show ?case using install by simp
qed

section \<open>The invariant of the log\<close>

definition log_inv :: "uint64 \<Rightarrow> 'a lst_scheme \<Rightarrow> bool" where
  "log_inv d s \<longleftrightarrow> bcache_inv d s \<and> word_of_int (ldev (lg s)) = d \<and> geom (lg s) \<and> pend_ok (lg s) \<and>
     (\<forall>bn \<in> set (pending (lg s)). 0 < refs d s bn \<and> refs d s bn + 1 < 2 ^ 64) \<and>
     (\<forall>bn. in_log (lg s) bn \<longrightarrow> refs d s bn = 0) \<and>
     hdr_n (dsk s (lblk (lg s) 0)) = 0"

text \<open>The two control fields play no part in the geometry and the pending blocks.\<close>

lemma lblk_ctl [simp]:
  "lblk (l\<lparr>outstanding := x\<rparr>) = lblk l" "lblk (l\<lparr>committing := c\<rparr>) = lblk l" "lblk (l\<lparr>lh_n := m\<rparr>) = lblk l"
  "home (l\<lparr>outstanding := x\<rparr>) = home l" "home (l\<lparr>committing := c\<rparr>) = home l" "home (l\<lparr>lh_n := m\<rparr>) = home l"
  by (simp_all add: lblk_def home_def fun_eq_iff)

lemma log_ctl [simp]:
  "in_log (l\<lparr>outstanding := x\<rparr>) = in_log l" "in_log (l\<lparr>committing := c\<rparr>) = in_log l"
  "in_log (l\<lparr>lh_n := m\<rparr>) = in_log l"
  "geom (l\<lparr>outstanding := x\<rparr>) = geom l" "geom (l\<lparr>committing := c\<rparr>) = geom l"
  "geom (l\<lparr>lh_n := m\<rparr>) = geom l"
  "pending (l\<lparr>outstanding := x\<rparr>) = pending l" "pending (l\<lparr>committing := c\<rparr>) = pending l"
  by (simp_all add: in_log_def geom_def pending_def fun_eq_iff)

lemma pend_ok_ctl [simp]:
  "pend_ok (l\<lparr>outstanding := x\<rparr>) = pend_ok l" "pend_ok (l\<lparr>committing := c\<rparr>) = pend_ok l"
  by (simp_all add: pend_ok_def)

lemma pend_ok_empty: "geom l \<Longrightarrow> pend_ok (l\<lparr>lh_n := 0\<rparr>)" "pending (l\<lparr>lh_n := 0\<rparr>) = []"
  by (simp_all add: pend_ok_def pending_def geom_def)

lemma log_inv_ctl [simp]:
  "log_inv d (set_lg (\<lambda>l. l\<lparr>outstanding := f l\<rparr>) s) = log_inv d s"
  "log_inv d (set_lg (\<lambda>l. l\<lparr>committing := g l\<rparr>) s) = log_inv d s"
  by (simp_all add: log_inv_def)

lemma log_inv_ready: "log_inv d s \<Longrightarrow> room 1 (bview d s) \<Longrightarrow> lready (lg s) (bview d s)"
  by (auto simp: log_inv_def lready_def)

text \<open>No transaction is open and no block is referenced.\<close>

definition quiescent :: "uint64 \<Rightarrow> 'a lst_scheme \<Rightarrow> bool" where
  "quiescent d s \<longleftrightarrow> log_inv d s \<and> lh_n (lg s) = 0 \<and> outstanding (lg s) = 0 \<and> \<not> committing (lg s) \<and>
     (\<forall>bn. refs d s bn = 0)"

lemma find_slot_spec:
  "i \<le> find_slot k i l bn \<and> find_slot k i l bn \<le> i + k \<and>
   (\<forall>j. i \<le> j \<and> j < find_slot k i l bn \<longrightarrow> home l j \<noteq> bn) \<and>
   (find_slot k i l bn < i + k \<longrightarrow> home l (find_slot k i l bn) = bn)"
proof (induction k arbitrary: i)
  case (Suc k)
  show ?case
  proof (cases "home l i = bn")
    case False
    have "home l j \<noteq> bn" if "i \<le> j" "j < find_slot k (Suc i) l bn" for j
      using that False Suc.IH [of "Suc i"] by (cases "j = i") auto
    then show ?thesis using False Suc.IH [of "Suc i"] by (simp add: home_def)
  qed (auto simp: home_def)
qed auto

lemma home_eq_block:
  assumes "0 \<le> lh_block l i" and "lh_block l i < int FSSIZE" and "home l i = bn"
  shows "to_int bn = lh_block l i"
proof -
  have "unat bn = nat (lh_block l i)"
    using assms unat_word_of_int_small [of "lh_block l i", where ?'a = 64] by (simp add: home_def layout)
  then show ?thesis using to_int_small [of bn] assms by (simp add: layout)
qed

text \<open>What \<^verbatim>\<open>log_write\<close> does to the log: nothing to a block that is pending, else it becomes the
  last pending one.\<close>

definition logged :: "uint64 \<Rightarrow> logctx \<Rightarrow> logctx" where
  "logged bn l = (if bn \<in> set (pending l) then l
     else l\<lparr>lh_block := (lh_block l)(nlog l := to_int bn), lh_n := lh_n l + 1\<rparr>)"

lemma log_write_logged:
  assumes p: "pend_ok (lg s)" and b: "blockno (bufs s b) = bn"
    and n: "lh_n (lg s) < int LOGSIZE" "lh_n (lg s) < lsize (lg s) - 1" and out: "1 \<le> outstanding (lg s)"
  shows "log_write b s = Inr (set_lg (logged bn) (if bn \<in> set (pending (lg s)) then s else bpin b s))"
proof -
  let ?l = "lg s" and ?i = "find_slot (nlog (lg s)) 0 (lg s) bn"
  note f = find_slot_spec [of 0 "nlog ?l" ?l bn]
  have mem: "bn \<in> set (pending ?l) \<longleftrightarrow> ?i < nlog ?l"
  proof
    assume "bn \<in> set (pending ?l)"
    then obtain j where "j < nlog ?l" "home ?l j = bn" by (auto simp: pending_def)
    then show "?i < nlog ?l" using f by (metis le_neq_implies_less add_0 zero_le)
  next
    assume "?i < nlog ?l"
    then have "home ?l ?i = bn" using f by simp
    then show "bn \<in> set (pending ?l)" using \<open>?i < nlog ?l\<close> by (force simp: pending_def)
  qed
  have pos: "0 \<le> lh_n ?l" using p by (simp add: pend_ok_def)
  show ?thesis
  proof (cases "?i < nlog ?l")
    case True
    then have "to_int bn = lh_block ?l ?i"
      using f p by (intro home_eq_block) (auto simp: pend_ok_def)
    then have "(lh_block ?l)(?i := to_int bn) = lh_block ?l" by simp
    then show ?thesis using True mem n out b
      by (simp add: log_write_def Let_def set_lg_def logged_def)
  next
    case False
    then have "?i = nlog ?l" using f by simp
    then show ?thesis using False mem n out b pos
      by (simp add: log_write_def Let_def set_lg_def logged_def bpin_def upd_buf_def)
  qed
qed

lemma home_fresh: "unat bn < FSSIZE \<Longrightarrow> word_of_int (to_int bn) = (bn :: uint64)"
  by (rule word_of_int_to_int) (simp add: layout)

lemma pending_logged:
  assumes "pend_ok l" and "unat bn < FSSIZE"
  shows "pending (logged bn l) = (if bn \<in> set (pending l) then pending l else pending l @ [bn])"
proof -
  have "nat (lh_n l + 1) = Suc (nlog l)" using assms(1) by (simp add: pend_ok_def nat_add_distrib)
  then show ?thesis
    using home_fresh [OF assms(2)] by (auto simp: logged_def pending_def home_def intro!: map_cong)
qed

lemma logged_simps [simp]:
  "ldev (logged bn l) = ldev l" "lstart (logged bn l) = lstart l" "lsize (logged bn l) = lsize l"
  "outstanding (logged bn l) = outstanding l" "committing (logged bn l) = committing l"
  "lblk (logged bn l) = lblk l" "in_log (logged bn l) = in_log l" "geom (logged bn l) = geom l"
  by (auto simp: logged_def lblk_def in_log_def geom_def fun_eq_iff)

lemma pend_ok_logged:
  assumes p: "pend_ok l" and bn: "unat bn < FSSIZE" "\<not> in_log l bn"
    and n: "lh_n l < int LOGSIZE" "lh_n l < lsize l - 1"
  shows "pend_ok (logged bn l)"
proof (cases "bn \<in> set (pending l)")
  case False
  let ?l = "logged bn l"
  have e: "nat (lh_n l + 1) = Suc (nlog l)" using p by (simp add: pend_ok_def nat_add_distrib)
  have h: "home ?l i = (if i = nlog l then bn else home l i)" for i
    using False home_fresh [OF bn(1)] by (simp add: logged_def home_def)
  have b: "lh_block ?l i = (if i = nlog l then int (unat bn) else lh_block l i)" for i
    using False bn(1) to_int_small [of bn] by (simp add: logged_def layout)
  have "distinct (pending ?l)" using p False pending_logged [OF p bn(1)] by (simp add: pend_ok_def)
  moreover have "lh_n ?l = lh_n l + 1" using False by (simp add: logged_def)
  moreover have "\<forall>i < Suc (nlog l). 0 \<le> lh_block ?l i \<and> lh_block ?l i < int FSSIZE \<and> \<not> in_log l (home ?l i)"
    using p bn int_ops(1) of_nat_less_iff [of "unat bn" FSSIZE, where ?'a = int] unfolding h b
    by (auto simp: pend_ok_def less_Suc_eq simp del: of_nat_less_iff)
  ultimately show ?thesis using p n e by (simp add: pend_ok_def)
qed (use p in \<open>simp add: logged_def\<close>)

section \<open>Transactions\<close>

text \<open>How the file system changes a block: read it, change its data, hand it to the log and
  release it.\<close>

definition tx_write :: "uint64 \<Rightarrow> uint64 \<Rightarrow> (block \<Rightarrow> block) \<Rightarrow> 'a lst_scheme \<Rightarrow> 'a lst_scheme kres" where
  "tx_write d bn g s =
     kbind (bread d bn s) (\<lambda>(b, s).
     kbind (log_write b (set_data b (g (bdata (bufs s b))) s)) (brelse b))"

lemma log_inv_view:
  assumes "log_inv d s" and "bcache_inv d t" and "lg t = logged bn (lg s)" and "dsk t = dsk s"
    and "unat bn < FSSIZE" "\<not> in_log (lg s) bn" "lh_n (lg s) < int LOGSIZE" "lh_n (lg s) < lsize (lg s) - 1"
    and "\<And>x. x \<noteq> bn \<Longrightarrow> refs d t x = refs d s x" and "0 < refs d t bn" "refs d t bn + 1 < 2 ^ 64"
  shows "log_inv d t"
proof -
  have p: "pend_ok (lg s)" using assms(1) by (simp add: log_inv_def)
  have "0 < refs d t x \<and> refs d t x + 1 < 2 ^ 64" if "x \<in> set (pending (lg t))" for x
  proof (cases "x = bn")
    case False
    then have "x \<in> set (pending (lg s))"
      using that assms(3) pending_logged [OF p assms(5)] by (auto split: if_splits)
    then show ?thesis using assms(1,9) False by (auto simp: log_inv_def)
  qed (use assms in simp)
  moreover have "pend_ok (lg t)" using pend_ok_logged [OF p assms(5-8)] assms(3) by simp
  moreover have "refs d t x = 0" if "in_log (lg t) x" for x
    using that assms(1,3,6,9) by (cases "x = bn") (auto simp: log_inv_def)
  ultimately show ?thesis using assms(1-4) by (auto simp: log_inv_def)
qed

lemma bio_more_lst: "bio.more s = bio.more t \<longleftrightarrow> lg s = lg t \<and> lst.more s = lst.more t"
  by (cases s, cases t) auto

lemma tx_write_ok:
  fixes s :: "'a lst_scheme"
  assumes inv: "log_inv d s" and bn: "unat bn < FSSIZE" "\<not> in_log (lg s) bn"
    and n: "lh_n (lg s) < int LOGSIZE" "lh_n (lg s) < lsize (lg s) - 1" and out: "1 \<le> outstanding (lg s)"
    and rd: "readable bn (bview d s)" and rc: "refs d s bn + 2 < 2 ^ 64"
  shows "\<exists>s'. tx_write d bn g s = Inr s' \<and> log_inv d s' \<and> lg s' = logged bn (lg s) \<and>
    bview d s' = (let v = a_set bn (g (blk d s bn)) (bview d s)
      in if bn \<in> set (pending (lg s)) then v else a_ref bn v) \<and> lst.more s' = lst.more s"
proof -
  let ?p = "bn \<in> set (pending (lg s))"
  have p: "pend_ok (lg s)" and bi: "bcache_inv d s" using inv unfolding log_inv_def by blast+
  obtain b s1 where s1: "bread d bn s = Inr (b, s1)" "bcache_inv d s1" "handle d s1 b bn"
    "bview d s1 = a_ref bn (bview d s)" "bio.more s1 = bio.more s"
    using bcache.bread_ok [OF bi rd] by blast
  have gd: "bdata (bufs s1 b) = blk d s bn"
    using bcache.get_ok [OF s1(2,3)] s1(4) by (simp add: a_ref_def)
  let ?s2 = "set_data b (g (bdata (bufs s1 b))) s1"
  have "0 < vref (bview d s1) bn" unfolding s1(4) by (simp add: a_ref_def)
  then have s2: "bcache_inv d ?s2" "bview d ?s2 = a_set bn (g (blk d s bn)) (bview d s1)"
    "bio.more ?s2 = bio.more s1" "handle d ?s2 b bn"
    using bcache.put_ok [OF s1(2,3)] s1(3) gd by auto
  have l2: "lg ?s2 = lg s" "lst.more ?s2 = lst.more s" using s2(3) s1(5) by (auto simp: bio_more_lst)
  let ?s3 = "set_lg (logged bn) (if ?p then ?s2 else bpin b ?s2)"
  have bno: "blockno (bufs ?s2 b) = bn" using s2(4) by (simp add: handle_def)
  have lw: "log_write b ?s2 = Inr ?s3"
    using log_write_logged [of ?s2 b bn] p n out bno l2(1) by simp
  have "vref (bview d ?s2) bn + 1 < 2 ^ 64"
    using rc unfolding s2(2) s1(4) by (simp add: a_set_def a_ref_def)
  note pin = bcache.bpin_ok [OF s2(1,4) this]
  have s3: "bcache_inv d ?s3" "handle d ?s3 b bn" "lg ?s3 = logged bn (lg s)" "lst.more ?s3 = lst.more s"
    "bview d ?s3 = (if ?p then bview d ?s2 else a_ref bn (bview d ?s2))"
    using s2 pin l2 by (auto simp: bio_more_lst)
  have pp: "?p \<Longrightarrow> 0 < refs d s bn" using inv unfolding log_inv_def by blast
  have "droppable bn (bview d ?s3)"
    unfolding s3(5) s2(2) s1(4) using pp by (auto simp: droppable_def a_set_def a_ref_def)
  then obtain s4 where s4: "brelse b ?s3 = Inr s4" "bcache_inv d s4"
    "bview d s4 = a_unref bn (bview d ?s3)" "bio.more s4 = bio.more ?s3"
    using bcache.brelse_ok [OF s3(1,2)] by blast
  have l4: "lg s4 = logged bn (lg s)" "lst.more s4 = lst.more s"
    using s4(4) s3(3,4) by (auto simp: bio_more_lst)
  have v4: "bview d s4 = (let v = a_set bn (g (blk d s bn)) (bview d s)
      in if ?p then v else a_ref bn v)"
    unfolding s4(3) s3(5) s2(2) s1(4) by (auto simp: a_unref_def a_set_def a_ref_def Let_def)
  have "dsk s4 = dsk s" using arg_cong [OF v4, of vdsk] by (simp add: Let_def a_set_def a_ref_def)
  moreover have r4: "refs d s4 x = (if ?p \<or> x \<noteq> bn then refs d s x else refs d s x + 1)" for x
    using arg_cong [OF v4, of "\<lambda>v. vref v x"] by (simp add: Let_def a_set_def a_ref_def)
  ultimately have "log_inv d s4"
    using pp rc by (intro log_inv_view [OF inv s4(2) l4(1) _ bn n]) auto
  moreover have "tx_write d bn g s = Inr s4" using s1(1) lw s4(1) by (simp add: tx_write_def)
  ultimately show ?thesis using l4 v4 by blast
qed

text \<open>Inside a transaction of its own: exactly the pending blocks are referenced, once each.\<close>

definition in_tx :: "uint64 \<Rightarrow> 'a lst_scheme \<Rightarrow> bool" where
  "in_tx d s \<longleftrightarrow> log_inv d s \<and> outstanding (lg s) = 1 \<and> \<not> committing (lg s) \<and>
     (\<forall>bn. refs d s bn = of_bool (bn \<in> set (pending (lg s))))"

definition tx_apply :: "(uint64 \<times> (block \<Rightarrow> block)) list \<Rightarrow> (uint64 \<Rightarrow> block) \<Rightarrow> uint64 \<Rightarrow> block" where
  "tx_apply us f = fold (\<lambda>(bn, g) f. f(bn := g (f bn))) us f"

lemma in_tx_room:
  assumes "in_tx d s" and "lh_n (lg s) + 1 \<le> int NBUF"
  shows "room 1 (bview d s)"
proof -
  have p: "pend_ok (lg s)" using assms(1) unfolding in_tx_def log_inv_def by blast
  have "in_use (bview d s) = set (pending (lg s))" using assms(1) by (auto simp: in_tx_def in_use_def)
  then have "card (in_use (bview d s)) = nlog (lg s)"
    using p distinct_card [of "pending (lg s)"] by (simp add: pend_ok_def pending_def)
  moreover have "0 \<le> lh_n (lg s)" using p by (simp add: pend_ok_def)
  ultimately show ?thesis using assms(2) by (simp add: room_def)
qed

lemma lh_n_logged: "lh_n (logged bn l) \<le> lh_n l + 1"
  by (simp add: logged_def)

lemma tx_writes_ok:
  fixes s :: "'a lst_scheme"
  assumes "in_tx d s" and "lh_n (lg s) + int (length us) \<le> lsize (lg s) - 1" and "lsize (lg s) \<le> int LOGSIZE"
    and "\<forall>(bn, g) \<in> set us. unat bn < FSSIZE \<and> \<not> in_log (lg s) bn"
  shows "\<exists>s'. kfold (\<lambda>(bn, g). tx_write d bn g) us s = Inr s' \<and> in_tx d s' \<and>
    dsk s' = dsk s \<and> dwrites s' = dwrites s \<and> blk d s' = tx_apply us (blk d s) \<and>
    lstart (lg s') = lstart (lg s) \<and> lsize (lg s') = lsize (lg s) \<and>
    lh_n (lg s') \<le> lsize (lg s) - 1 \<and> lst.more s' = lst.more s"
  using assms
proof (induction us arbitrary: s)
  case Nil
  then show ?case by (simp add: tx_apply_def)
next
  case (Cons u us)
  obtain bn g where u: "u = (bn, g)" by (cases u)
  have bn: "unat bn < FSSIZE" "\<not> in_log (lg s) bn" using Cons.prems(4) u by auto
  have inv: "log_inv d s" and out: "1 \<le> outstanding (lg s)" using Cons.prems(1) by (simp_all add: in_tx_def)
  have n: "lh_n (lg s) < int LOGSIZE" "lh_n (lg s) < lsize (lg s) - 1" using Cons.prems(2,3) by auto
  have r: "refs d s bn \<le> 1" using Cons.prems(1) by (simp add: in_tx_def)
  have "room 1 (bview d s)" using in_tx_room [OF Cons.prems(1)] n by (simp add: layout)
  then have rd: "readable bn (bview d s)" using bn r by (simp add: readable_def)
  have rc: "refs d s bn + 2 < 2 ^ 64" using r by simp
  obtain t where t: "tx_write d bn g s = Inr t" "log_inv d t" "lg t = logged bn (lg s)"
    "lst.more t = lst.more s"
    "bview d t = (let v = a_set bn (g (blk d s bn)) (bview d s)
      in if bn \<in> set (pending (lg s)) then v else a_ref bn v)"
    using tx_write_ok [OF inv bn n out rd rc, of g] by blast
  have p: "pend_ok (lg s)" using inv unfolding log_inv_def by blast
  have "refs d t x = of_bool (x \<in> set (pending (lg t)))" for x
    using arg_cong [OF t(5), of "\<lambda>v. vref v x"] Cons.prems(1) pending_logged [OF p bn(1)] t(3)
    by (auto simp: Let_def a_set_def a_ref_def in_tx_def)
  then have tx: "in_tx d t" using t(2,3) Cons.prems(1) by (simp add: in_tx_def)
  have b: "blk d t = (blk d s)(bn := g (blk d s bn))" "dsk t = dsk s" "dwrites t = dwrites s"
    using arg_cong [OF t(5), of vblk] arg_cong [OF t(5), of vdsk] arg_cong [OF t(5), of vhist]
    by (auto simp: Let_def a_set_def a_ref_def)
  have "lh_n (lg t) + int (length us) \<le> lsize (lg t) - 1"
    using Cons.prems(2) lh_n_logged [of bn "lg s"] t(3) by simp
  then obtain s' where "kfold (\<lambda>(bn, g). tx_write d bn g) us t = Inr s'" "in_tx d s'"
    "dsk s' = dsk t" "dwrites s' = dwrites t" "blk d s' = tx_apply us (blk d t)"
    "lstart (lg s') = lstart (lg t)" "lsize (lg s') = lsize (lg t)"
    "lh_n (lg s') \<le> lsize (lg t) - 1" "lst.more s' = lst.more t"
    using Cons.IH [OF tx] Cons.prems(3,4) t(3) by auto
  then show ?case using t b u by (auto simp: tx_apply_def)
qed

lemma begin_op_quiescent:
  assumes "quiescent d s"
  shows "begin_op s = Inr (set_lg (\<lambda>l. l\<lparr>outstanding := 1\<rparr>) s)"
    "in_tx d (set_lg (\<lambda>l. l\<lparr>outstanding := 1\<rparr>) s)"
proof -
  have e: "(lg s)\<lparr>outstanding := outstanding (lg s) + 1\<rparr> = (lg s)\<lparr>outstanding := 1\<rparr>"
    using assms by (simp add: quiescent_def)
  show "begin_op s = Inr (set_lg (\<lambda>l. l\<lparr>outstanding := 1\<rparr>) s)"
    using assms e by (simp add: begin_op_def quiescent_def set_lg_def)
  show "in_tx d (set_lg (\<lambda>l. l\<lparr>outstanding := 1\<rparr>) s)"
    using assms by (auto simp: in_tx_def quiescent_def pending_def)
qed

lemma commit_log_inv:
  fixes s :: "'a lst_scheme"
  assumes inv: "log_inv d s" and room: "room 1 (bview d s)"
  shows "\<exists>s'. commit s = Inr s' \<and> log_inv d s' \<and>
    bview d s' = wrote (commit_writes (lg s) (blk d s)) (pending (lg s)) (bview d s) \<and>
    lg s' = (lg s)\<lparr>lh_n := 0\<rparr> \<and> lst.more s' = lst.more s"
proof -
  let ?l = "lg s" and ?st = "lblk (lg s) 0"
  have i: "bcache_inv d s" "word_of_int (ldev ?l) = d" "geom ?l" "pend_ok ?l"
    "\<forall>bn. in_log ?l bn \<longrightarrow> refs d s bn = 0" "hdr_n (dsk s ?st) = 0"
    using inv by (auto simp: log_inv_def)
  obtain s' where s': "commit s = Inr s'" "bcache_inv d s'" "lg s' = ?l\<lparr>lh_n := 0\<rparr>"
    "bview d s' = wrote (commit_writes ?l (blk d s)) (pending ?l) (bview d s)" "lst.more s' = lst.more s"
    using commit_ok [OF i(1) i(2) [symmetric] refl log_inv_ready [OF inv room]] by blast
  have D: "dsk s' = upds (commit_writes ?l (blk d s)) (dsk s)" using arg_cong [OF s'(4), of vdsk] by simp
  have "hdr_n (dsk s' ?st) = 0"
    unfolding D using i(6) by (auto simp: commit_writes_def rec_writes_def)
  moreover have "refs d s' bn = 0" if "in_log ?l bn" for bn
    using i(5) that arg_cong [OF s'(4), of "\<lambda>v. vref v bn"] by simp
  ultimately have "log_inv d s'" using s'(2,3) i(2,3) pend_ok_empty(1) [OF i(3)] by (simp add: log_inv_def pend_ok_empty(2))
  then show ?thesis using s' by blast
qed

lemma end_op_tx:
  fixes s :: "'a lst_scheme"
  assumes tx: "in_tx d s" and room: "lh_n (lg s) + 1 \<le> int NBUF"
  shows "\<exists>s'. end_op s = Inr s' \<and> quiescent d s' \<and>
    dwrites s' = dwrites s @ commit_writes (lg s) (blk d s) \<and>
    dsk s' = upds (commit_writes (lg s) (blk d s)) (dsk s) \<and>
    lstart (lg s') = lstart (lg s) \<and> lsize (lg s') = lsize (lg s) \<and> lst.more s' = lst.more s"
proof -
  let ?t = "set_lg (\<lambda>l. l\<lparr>committing := True\<rparr>) (set_lg (\<lambda>l. l\<lparr>outstanding := outstanding l - 1\<rparr>) s)"
  have inv: "log_inv d ?t" using tx by (simp add: in_tx_def)
  have w: "commit_writes (lg ?t) f = commit_writes (lg s) f" for f
    by (simp add: commit_writes_def log_writes_def rec_writes_def copies_def store_head_def)
  have "room 1 (bview d ?t)" using in_tx_room [OF tx room] by simp
  then obtain s' where s': "commit ?t = Inr s'" "log_inv d s'" "lg s' = (lg ?t)\<lparr>lh_n := 0\<rparr>"
    "bview d s' = wrote (commit_writes (lg s) (blk d s)) (pending (lg s)) (bview d s)"
    "lst.more s' = lst.more s"
    using commit_log_inv [OF inv] unfolding w by auto
  have p: "distinct (pending (lg s))" using tx unfolding in_tx_def log_inv_def pend_ok_def by blast
  have "refs d s' x = 0" for x
    using arg_cong [OF s'(4), of "\<lambda>v. vref v x"] tx count_list_0_iff [of "pending (lg s)" x]
    by (cases "x \<in> set (pending (lg s))") (auto simp: in_tx_def)
  moreover have "end_op s = Inr (set_lg (\<lambda>l. l\<lparr>committing := False\<rparr>) s')"
    using tx s'(1) by (simp add: end_op_def Let_def in_tx_def)
  moreover have "dsk s' = upds (commit_writes (lg s) (blk d s)) (dsk s)"
    "dwrites s' = dwrites s @ commit_writes (lg s) (blk d s)"
    using arg_cong [OF s'(4), of vdsk] arg_cong [OF s'(4), of vhist] by simp_all
  moreover have "outstanding (lg s') = 0" using s'(3) tx by (simp add: in_tx_def)
  ultimately show ?thesis using s'(2,3,5) by (simp add: quiescent_def)
qed

text \<open>Outside the log, the writes of a commit leave every pending block with its new contents
  and the others alone.\<close>

lemma commit_writes_outside:
  assumes g: "geom l" and p: "pend_ok l" and bn: "\<not> in_log l bn"
  shows "upds (commit_writes l f) D bn = (if bn \<in> set (pending l) then f bn else D bn)"
proof (cases "lh_n l > 0")
  case True
  define E where "E = upds (log_writes l f) f"
  have nst: "bn \<noteq> lblk l 0" using in_log_header [OF g] bn by auto
  have h: "E (lblk l 0) = store_head l (f (lblk l 0))" by (simp add: E_def log_writes_header)
  have "E (lblk l (Suc i)) = f (home l i)" if "i < nlog l" for i
    unfolding E_def by (rule log_writes_slot [OF g p that])
  then have c: "\<forall>(x, y) \<in> set (homes l E (nlog l)). y = f x" by (auto simp: homes_def)
  have m: "bn \<in> fst ` set (homes l E (nlog l)) \<longleftrightarrow> bn \<in> set (pending l)"
    unfolding fst_homes [of l E, symmetric] by simp
  have "upds (commit_writes l f) D bn = upds (homes l E (nlog l)) (upds (log_writes l f) D) bn"
    using True nst homes_rec [where D = E, OF p h, symmetric] by (simp add: commit_writes_def E_def)
  also have "\<dots> = (if bn \<in> set (pending l) then f bn else upds (log_writes l f) D bn)"
    using upds_covers [OF c, of bn] upds_other [of bn "homes l E (nlog l)"] m by auto
  finally show ?thesis using not_in_log_log_writes(2) [OF g p bn] by simp
qed (simp add: commit_writes_def pending_def)

section \<open>The properties of the log\<close>

text \<open>A freshly formatted disk: all blocks zero, the log at blocks 2 to 31.\<close>

definition boot_sb :: superblock where
  "boot_sb = \<lparr>sb_magic = 0x10203040, sb_size = 1000, sb_nblocks = 900, sb_ninodes = 200, sb_nlog = 30,
     sb_logstart = 2, sb_inodestart = 32, sb_bmapstart = 45\<rparr>"

definition boot_lst :: lst where
  "boot_lst = \<lparr>bufs = (\<lambda>_. zero_buf), dsk = (\<lambda>_ _. 0), dwrites = [],
     lg = \<lparr>ldev = 1, lstart = 2, lsize = 30, outstanding = 0, committing = False, lh_n = 0,
       lh_block = (\<lambda>_. 0)\<rparr>\<rparr>"

lemma boot_lst_facts:
  "geom (lg boot_lst)" "fresh 1 boot_lst" "lg (bio_init boot_lst) = lg boot_lst"
  "dsk (bio_init boot_lst) = dsk boot_lst" "hdr_n (dsk boot_lst bn) = 0"
  by (auto simp: boot_lst_def geom_def layout fresh_def zero_buf_def bio_init_def Let_def hdr_n_def
      numeral_eq_Suc)

lemma boot_quiescent: "quiescent 1 (bio_init boot_lst)"
proof -
  have "lh_n (lg boot_lst) = 0" "outstanding (lg boot_lst) = 0" "\<not> committing (lg boot_lst)"
    "ldev (lg boot_lst) = 1" "lsize (lg boot_lst) = 30" by (simp_all add: boot_lst_def)
  then show ?thesis
    using bio_init_fresh [OF boot_lst_facts(2)] boot_lst_facts
    by (simp add: quiescent_def log_inv_def pend_ok_def pending_def layout)
qed

lemma boot_not_in_log: "\<not> in_log (lg boot_lst) 50"
proof
  assume "in_log (lg boot_lst) 50"
  then obtain k where k: "k < nat (lsize (lg boot_lst))" "(50 :: uint64) = lblk (lg boot_lst) k"
    by (auto simp: in_log_def)
  then have "unat (50 :: uint64) = nat (lstart (lg boot_lst)) + k"
    using lblk_unat(1) [OF boot_lst_facts(1) k(1)] by simp
  then show False using k(1) by (simp add: boot_lst_def)
qed

text \<open>\<^bold>\<open>C2\<close>: transactions do what they say. From a quiescent log, \<^verbatim>\<open>begin_op\<close> succeeds, any
  sequence of at most \<^verbatim>\<open>size - 1\<close> block updates through \<^verbatim>\<open>bread\<close>, \<^verbatim>\<open>log_write\<close>, \<^verbatim>\<open>brelse\<close> succeeds
  without touching the disk, and \<^verbatim>\<open>end_op\<close> succeeds, leaves the log quiescent and the disk, outside
  the log, with exactly the updates applied in order.\<close>

theorem transaction_correct:
  fixes s :: "'a lst_scheme"
  assumes q: "quiescent d s" and sz: "lsize (lg s) \<le> int LOGSIZE" "int (length us) \<le> lsize (lg s) - 1"
    and us: "\<forall>(bn, g) \<in> set us. unat bn < FSSIZE \<and> \<not> in_log (lg s) bn"
  shows "\<exists>s1 s2 s3. begin_op s = Inr s1 \<and> kfold (\<lambda>(bn, g). tx_write d bn g) us s1 = Inr s2 \<and>
    dsk s2 = dsk s \<and> dwrites s2 = dwrites s \<and> end_op s2 = Inr s3 \<and> quiescent d s3 \<and>
    (\<forall>bn. \<not> in_log (lg s) bn \<longrightarrow> dsk s3 bn = tx_apply us (dsk s) bn)"
proof -
  let ?s1 = "set_lg (\<lambda>l. l\<lparr>outstanding := 1\<rparr>) s"
  note b = begin_op_quiescent [OF q]
  have clean: "blk d s = dsk s"
    using q unreferenced_clean [of d s] by (auto simp: quiescent_def log_inv_def bcache_inv_def fun_eq_iff)
  have "lh_n (lg s) = 0" using q by (simp add: quiescent_def)
  then obtain s2 where s2: "kfold (\<lambda>(bn, g). tx_write d bn g) us ?s1 = Inr s2" "in_tx d s2"
    "dsk s2 = dsk s" "dwrites s2 = dwrites s" "blk d s2 = tx_apply us (dsk s)"
    "lstart (lg s2) = lstart (lg s)" "lsize (lg s2) = lsize (lg s)" "lh_n (lg s2) \<le> lsize (lg s) - 1"
    using tx_writes_ok [OF b(2), of us] sz us clean by auto
  have "lh_n (lg s2) + 1 \<le> int NBUF" using s2(8) sz(1) by (simp add: layout)
  then obtain s3 where s3: "end_op s2 = Inr s3" "quiescent d s3"
    "dsk s3 = upds (commit_writes (lg s2) (blk d s2)) (dsk s2)"
    using end_op_tx [OF s2(2)] by blast
  have gp: "geom (lg s2)" "pend_ok (lg s2)" and bi: "bcache_inv d s2"
    using s2(2) by (auto simp: in_tx_def log_inv_def)
  have "in_log (lg s2) = in_log (lg s)" using s2(6,7) by (simp add: in_log_def lblk_def fun_eq_iff)
  moreover have "blk d s2 bn = dsk s2 bn" if "bn \<notin> set (pending (lg s2))" for bn
    using unreferenced_clean [of d s2 bn] bi s2(2) that by (simp add: bcache_inv_def in_tx_def)
  ultimately have "dsk s3 bn = tx_apply us (dsk s) bn" if "\<not> in_log (lg s) bn" for bn
    unfolding s3(3) using commit_writes_outside [OF gp] that s2(3,5) by auto
  then show ?thesis using b(1) s2(1,3,4) s3(1,2) by blast
qed

theorem transaction_correct_witness:
  "\<exists>s1 s2 s3. begin_op (bio_init boot_lst) = Inr s1 \<and>
     kfold (\<lambda>(bn, g). tx_write 1 bn g) [(50, \<lambda>d. d(3 := 7))] s1 = Inr s2 \<and> end_op s2 = Inr s3 \<and>
     dsk s3 50 3 = 7 \<and> dsk s3 50 4 = 0"
proof -
  have "lsize (lg boot_lst) = 30" "dsk boot_lst = (\<lambda>_ _. 0)" by (simp_all add: boot_lst_def)
  then show ?thesis
    using transaction_correct [OF boot_quiescent, of "[(50, \<lambda>d. d(3 := 7))]"]
    by (auto simp: boot_lst_facts boot_not_in_log tx_apply_def layout)
qed

lemma rec_writes_geom: "lstart l = lstart m \<Longrightarrow> rec_writes l = rec_writes m"
  by (simp add: rec_writes_def lblk_def store_head_def fun_eq_iff)

lemma rec_disk_geom: "lstart l = lstart m \<Longrightarrow> rec_disk l = rec_disk m"
  by (simp add: rec_disk_def rec_writes_def lblk_def fun_eq_iff)

lemma pend_ok_geom:
  assumes "lstart l = lstart m" and "lsize l = lsize m"
  shows "pend_ok (load_head d l) = pend_ok (load_head d m)"
proof -
  have "in_log l = in_log m" using assms by (simp add: in_log_def lblk_def fun_eq_iff)
  moreover have "in_log (load_head d l) = in_log l" for l by (simp add: in_log_def fun_eq_iff)
  moreover have "i < nat (hdr_n d) \<Longrightarrow> home (load_head d l) i = home (load_head d m) i" for i
    by (simp add: home_def)
  moreover from this have "pending (load_head d l) = pending (load_head d m)" by (auto simp: pending_def)
  ultimately show ?thesis using assms by (simp add: pend_ok_def)
qed

text \<open>Booting on a disk whose header block is readable: \<^verbatim>\<open>bio_init\<close>, then \<^verbatim>\<open>log_init\<close>.\<close>

lemma log_init_ok:
  fixes r :: "'a lst_scheme"
  assumes f: "fresh d r" and d: "word_of_int dev = d" and g: "geom l"
    and l: "lstart l = to_int (sb_logstart sb)" "lsize l = to_int (sb_nlog sb)"
    and hdr: "pend_ok (load_head (dsk r (lblk l 0)) l)"
  shows "\<exists>r'. log_init dev sb (bio_init r) = Inr r' \<and> log_inv d r' \<and> lh_n (lg r') = 0 \<and>
    (\<forall>bn. refs d r' bn = 0) \<and> dsk r' = rec_disk l (dsk r) \<and> dwrites r' = dwrites r @ rec_writes l (dsk r) \<and> outstanding (lg r') = outstanding (lg r) \<and>
    committing (lg r') = committing (lg r) \<and> lstart (lg r') = lstart l \<and> lsize (lg r') = lsize l"
proof -
  let ?r = "bio_init r"
  let ?m = "(lg r)\<lparr>ldev := dev, lstart := to_int (sb_logstart sb), lsize := to_int (sb_nlog sb)\<rparr>"
  let ?t = "set_lg (\<lambda>l. l\<lparr>ldev := dev, lstart := to_int (sb_logstart sb), lsize := to_int (sb_nlog sb)\<rparr>) ?r"
  have i: "lg ?r = lg r" "dsk ?r = dsk r" "dwrites ?r = dwrites r" by (simp_all add: bio_init_def Let_def)
  have lm: "lblk ?m = lblk l" using l by (simp add: lblk_def fun_eq_iff)
  have gm: "geom ?m" using g l by (simp add: geom_def)
  have hm: "pend_ok (load_head (dsk ?t (lblk ?m 0)) ?m)"
    using hdr pend_ok_geom [of l ?m] l i unfolding lm by simp
  have t: "bcache_inv d ?t" "\<forall>bn. refs d ?t bn = 0" "d = word_of_int (ldev (lg ?t))" "?m = lg ?t"
    using bio_init_fresh [OF f] d i by simp_all
  obtain r' where r': "recover_from_log ?t = Inr r'" "bcache_inv d r'"
    "bview d r' = wrote (rec_writes ?m (dsk r)) [] (bview d ?r)"
    "lg r' = (load_head (dsk r (lblk ?m 0)) ?m)\<lparr>lh_n := 0\<rparr>"
    using recover_ok [OF t(1,3,4) gm hm t(2)] i by auto
  have D: "dsk r' = rec_disk l (dsk r)"
    using arg_cong [OF r'(3), of vdsk] i rec_disk_geom [of l ?m] l by (simp add: rec_disk_def)
  have W: "dwrites r' = dwrites r @ rec_writes l (dsk r)"
    using arg_cong [OF r'(3), of vhist] i rec_writes_geom [of l ?m] l by simp
  have R: "refs d r' bn = 0" for bn
    using arg_cong [OF r'(3), of "\<lambda>v. vref v bn"] bio_init_fresh [OF f] by simp
  have "hdr_n (dsk r' (lblk l 0)) = 0" unfolding D by (simp add: rec_disk_def rec_writes_def)
  moreover have "lblk (lg r') = lblk l" "geom (lg r')"
    using r'(4) lm gm by (simp_all add: geom_def)
  moreover have "pend_ok (lg r')" "pending (lg r') = []"
    using gm unfolding r'(4) by (simp_all add: pend_ok_def pending_def geom_def)
  ultimately have "log_inv d r'" using r'(2,4) d R by (simp add: log_inv_def)
  moreover have "log_init dev sb ?r = Inr r'" using r'(1) by (simp add: log_init_def layout)
  ultimately show ?thesis using r'(4) D R W l by (intro exI [of _ r']) simp
qed

text \<open>\<^bold>\<open>C1\<close>: transactions are atomic across crashes. \<^verbatim>\<open>end_op\<close> succeeds with some sequence of disk
  writes; if the machine stops after any number of them and reboots with an empty cache on the
  disk they left, \<^verbatim>\<open>bio_init\<close> and \<^verbatim>\<open>log_init\<close> succeed and every block outside the log is as before
  the commit if the header block had not been written, and as after the commit otherwise.\<close>

theorem crash_atomic:
  fixes s :: "'a lst_scheme"
  assumes tx: "in_tx d s" and n: "lh_n (lg s) + 1 \<le> int NBUF" and dev: "word_of_int dev = d"
    and sb: "lstart (lg s) = to_int (sb_logstart sb)" "lsize (lg s) = to_int (sb_nlog sb)"
  shows "\<exists>s' ws. end_op s = Inr s' \<and> quiescent d s' \<and> dwrites s' = dwrites s @ ws \<and> dsk s' = upds ws (dsk s) \<and>
    (\<forall>k (r :: 'b lst_scheme). fresh d r \<longrightarrow> dsk r = upds (take k ws) (dsk s) \<longrightarrow>
      (\<exists>r'. log_init dev sb (bio_init r) = Inr r' \<and> log_inv d r' \<and> lh_n (lg r') = 0 \<and>
        (\<forall>bn. \<not> in_log (lg s) bn \<longrightarrow>
          dsk r' bn = (if k \<le> nlog (lg s) then dsk s bn else dsk s' bn))))"
proof -
  let ?l = "lg s" and ?ws = "commit_writes (lg s) (blk d s)"
  obtain s' where s': "end_op s = Inr s'" "quiescent d s'" "dwrites s' = dwrites s @ ?ws"
    "dsk s' = upds ?ws (dsk s)" using end_op_tx [OF tx n] by blast
  have i: "geom ?l" "pend_ok ?l" "hdr_n (dsk s (lblk ?l 0)) = 0"
    using tx by (auto simp: in_tx_def log_inv_def)
  have "\<exists>r'. log_init dev sb (bio_init r) = Inr r' \<and> log_inv d r' \<and> lh_n (lg r') = 0 \<and>
      (\<forall>bn. \<not> in_log ?l bn \<longrightarrow> dsk r' bn = (if k \<le> nlog ?l then dsk s bn else dsk s' bn))"
    if r: "fresh d r" "dsk r = upds (take k ?ws) (dsk s)" for k and r :: "'b lst_scheme"
  proof -
    have "pend_ok (load_head (dsk r (lblk ?l 0)) ?l)" unfolding r(2) by (rule crash_header [where D = "dsk s", OF i])
    from log_init_ok [OF r(1) dev i(1) sb this] show ?thesis
      using crash_recovers [where D = "dsk s", OF i] unfolding r(2) s'(4) by auto
  qed
  then show ?thesis using s' by blast
qed

theorem crash_atomic_witness:
  "\<exists>s s'. tx_write 1 50 (\<lambda>d. d(3 := 7)) (set_lg (\<lambda>l. l\<lparr>outstanding := 1\<rparr>) (bio_init boot_lst)) = Inr s \<and>
     in_tx 1 s \<and> end_op s = Inr s' \<and> quiescent 1 s'"
proof -
  let ?s = "set_lg (\<lambda>l. l\<lparr>outstanding := 1\<rparr>) (bio_init boot_lst)"
  have b: "lh_n (lg boot_lst) = 0" "lsize (lg boot_lst) = 30" "lstart (lg boot_lst) = 2"
    by (simp_all add: boot_lst_def)
  obtain s where s: "tx_write 1 50 (\<lambda>d. d(3 := 7)) ?s = Inr s" "in_tx 1 s"
    "lstart (lg s) = 2" "lsize (lg s) = 30" "lh_n (lg s) \<le> 29"
    using tx_writes_ok [OF begin_op_quiescent(2) [OF boot_quiescent], of "[(50, \<lambda>d. d(3 := 7))]"]
    by (auto simp: boot_lst_facts boot_not_in_log b layout kbind_Inr_iff)
  from crash_atomic [OF s(2), of 1 boot_sb] s show ?thesis
    by (auto simp: boot_sb_def to_int_small layout)
qed

text \<open>A disk with a committed transaction that has not been installed: the header names block 50, whose new contents are
  in the first block of the log.\<close>

definition torn_disk :: "uint64 \<Rightarrow> block" where
  "torn_disk = (\<lambda>_ _. 0)(2 := (\<lambda>i. if i = 0 then 1 else if i = 4 then 50 else 0), 3 := (\<lambda>_. 9))"

lemma torn_header: "hdr_n (torn_disk 2) = 1" "hdr_block (torn_disk 2) 0 = 50"
proof -
  have four: "(le_load 4 d k :: uint32) = ucast (d k) OR push_bit 8 (ucast (d (Suc k)) OR push_bit 8 (ucast (d (Suc (Suc k))) OR
      push_bit 8 (ucast (d (Suc (Suc (Suc k)))))))" for d k
    by (simp add: numeral_eq_Suc)
  show "hdr_n (torn_disk 2) = 1" "hdr_block (torn_disk 2) 0 = 50" by (simp_all add: torn_disk_def hdr_n_def hdr_block_def four)
qed

lemma torn_log: "lblk (lg boot_lst) 0 = 2" "lblk (lg boot_lst) (Suc 0) = 3"
  by (simp_all add: lblk_def boot_lst_def)

lemma torn_readable: "pend_ok (load_head (torn_disk 2) (lg boot_lst))"
proof -
  let ?l = "load_head (torn_disk 2) (lg boot_lst)"
  have "in_log ?l = in_log (lg boot_lst)" by (simp add: in_log_def fun_eq_iff)
  moreover have "home ?l 0 = 50" by (simp add: home_def torn_header)
  moreover have "lsize ?l = 30" by (simp add: boot_lst_def)
  ultimately show ?thesis using boot_not_in_log by (simp add: pend_ok_def pending_def torn_header layout)
qed

text \<open>\<^bold>\<open>C3\<close>: recovery itself may be interrupted. On a disk with a readable header \<^verbatim>\<open>bio_init\<close> and \<^verbatim>\<open>log_init\<close> succeed with
  some sequence of disk writes; if the machine stops after any number of them, \<^verbatim>\<open>bio_init\<close> and \<^verbatim>\<open>log_init\<close> succeed again
  after the next reboot on the disk they left, and give the same blocks outside the log as the recovery that was not
  interrupted.\<close>

theorem recovery_idempotent:
  fixes r :: "'a lst_scheme"
  assumes f: "fresh d r" and dev: "word_of_int dev = d" and g: "geom l"
    and sb: "lstart l = to_int (sb_logstart sb)" "lsize l = to_int (sb_nlog sb)"
    and hdr: "pend_ok (load_head (dsk r (lblk l 0)) l)"
  shows "\<exists>r' ws. log_init dev sb (bio_init r) = Inr r' \<and> log_inv d r' \<and> dwrites r' = dwrites r @ ws \<and> dsk r' = upds ws (dsk r) \<and>
    (\<forall>k (q :: 'b lst_scheme). fresh d q \<longrightarrow> dsk q = upds (take k ws) (dsk r) \<longrightarrow>
      (\<exists>q'. log_init dev sb (bio_init q) = Inr q' \<and> log_inv d q' \<and> (\<forall>bn. \<not> in_log l bn \<longrightarrow> dsk q' bn = dsk r' bn)))"
proof -
  let ?ws = "rec_writes l (dsk r)"
  obtain r' where r': "log_init dev sb (bio_init r) = Inr r'" "log_inv d r'" "dsk r' = rec_disk l (dsk r)" "dwrites r' = dwrites r @ ?ws"
    using log_init_ok [OF f dev g sb hdr] by blast
  have "\<exists>q'. log_init dev sb (bio_init q) = Inr q' \<and> log_inv d q' \<and> (\<forall>bn. \<not> in_log l bn \<longrightarrow> dsk q' bn = dsk r' bn)"
    if q: "fresh d q" and crash: "dsk q = upds (take k ?ws) (dsk r)" for k and q :: "'b lst_scheme"
  proof -
    have "pend_ok (load_head (dsk q (lblk l 0)) l)"
    proof (cases "k \<le> nat (hdr_n (dsk r (lblk l 0)))")
      case True
      then have "take k ?ws = homes (load_head (dsk r (lblk l 0)) l) (dsk r) k"
        unfolding rec_writes_load_head by (simp add: homes_def take_map)
      then show ?thesis using crash homes_keep_log [OF hdr, of k 0] True hdr g by (simp add: geom_def)
    next
      case False
      then have "take k ?ws = ?ws" by (simp add: rec_writes_def)
      then show ?thesis using crash g by (simp add: rec_writes_def pend_ok_no_header)
    qed
    from log_init_ok [OF q dev g sb this] show ?thesis
      using rec_disk_prefix [where D = "dsk r", OF g hdr] r'(3) unfolding crash by auto
  qed
  then show ?thesis using r' by (intro exI [of _ r'] exI [of _ ?ws]) (simp add: rec_disk_def)
qed

text \<open>The committed transaction of \<open>torn_disk\<close>, with a crash after the first write of recovery.\<close>

theorem recovery_idempotent_witness:
  "\<exists>r' ws. log_init 1 boot_sb (bio_init (boot_lst\<lparr>dsk := torn_disk\<rparr>)) = Inr r' \<and> dwrites r' = ws \<and> length ws = 2 \<and> dsk r' 50 3 = 9 \<and>
    (\<exists>q'. log_init 1 boot_sb (bio_init (boot_lst\<lparr>dsk := upds (take 1 ws) torn_disk\<rparr>)) = Inr q' \<and> dsk q' 50 = dsk r' 50)"
proof -
  let ?r = "boot_lst\<lparr>dsk := torn_disk\<rparr>"
  have sb: "lstart (lg boot_lst) = to_int (sb_logstart boot_sb)" "lsize (lg boot_lst) = to_int (sb_nlog boot_sb)"
    by (simp_all add: boot_lst_def boot_sb_def to_int_small)
  have f: "fresh 1 (boot_lst\<lparr>dsk := D\<rparr>)" for D by (simp add: fresh_def boot_lst_def zero_buf_def)
  have one: "word_of_int 1 = (1 :: uint64)" by simp
  have hdr: "pend_ok (load_head (dsk ?r (lblk (lg boot_lst) 0)) (lg boot_lst))" using torn_readable by (simp add: torn_log)
  have w: "rec_writes (lg boot_lst) torn_disk = [(50, \<lambda>_. 9), (2, le_store 4 (torn_disk 2) 0 (0 :: uint32))]"
    by (simp add: rec_writes_def torn_log torn_header) (simp add: torn_disk_def)
  let ?ws = "rec_writes (lg boot_lst) torn_disk"
  have z: "dwrites boot_lst = []" by (simp add: boot_lst_def)
  obtain s' where s': "log_init 1 boot_sb (bio_init ?r) = Inr s'" "dsk s' = rec_disk (lg boot_lst) torn_disk" "dwrites s' = ?ws"
    using log_init_ok [OF f one boot_lst_facts(1) sb hdr] z by auto
  obtain r' ws where r': "log_init 1 boot_sb (bio_init ?r) = Inr r'" "dwrites r' = dwrites ?r @ ws"
    "\<forall>k q :: lst. fresh 1 q \<longrightarrow> dsk q = upds (take k ws) (dsk ?r) \<longrightarrow>
      (\<exists>q'. log_init 1 boot_sb (bio_init q) = Inr q' \<and> log_inv 1 q' \<and> (\<forall>bn. \<not> in_log (lg boot_lst) bn \<longrightarrow> dsk q' bn = dsk r' bn))"
    using recovery_idempotent [where ?'b = unit, OF f one boot_lst_facts(1) sb hdr] by blast
  have e: "r' = s'" "ws = ?ws" using r'(1,2) s' z by simp_all
  obtain q' where "log_init 1 boot_sb (bio_init (boot_lst\<lparr>dsk := upds (take 1 ?ws) torn_disk\<rparr>)) = Inr q'" "dsk q' 50 = dsk s' 50"
    using r'(3) [rule_format, OF f, of "upds (take 1 ?ws) torn_disk" 1] boot_not_in_log unfolding e by auto
  then show ?thesis using s' by (intro exI [of _ s']) (simp add: w rec_disk_def)
qed

section \<open>Processes in the log\<close>

text \<open>\<^verbatim>\<open>begin_op\<close> takes no lock, and a system call runs with interrupts enabled: a process may be preempted between the tests of
  \<^verbatim>\<open>begin_op\<close> (\<open>admits\<close>) and the increment that follows them (\<open>enter\<close>).\<close>

definition admits :: "'a lst_scheme \<Rightarrow> bool" where
  "admits s \<longleftrightarrow> \<not> committing (lg s) \<and> \<not> lh_n (lg s) + (outstanding (lg s) + 1) * int LOGSIZE > int LOGSIZE"

definition enter :: "'a lst_scheme \<Rightarrow> 'a lst_scheme" where
  "enter s = set_lg (\<lambda>l. l\<lparr>outstanding := outstanding l + 1\<rparr>) s"


text \<open>Where a process is: outside, in the loop of \<^verbatim>\<open>begin_op\<close>, behind the tests, between \<^verbatim>\<open>begin_op\<close> and \<^verbatim>\<open>end_op\<close>.\<close>

datatype opc = Outside | Waiting | Admitted | Inside

text \<open>The steps of all processes on the log. With \<open>preempt\<close> a process may lose the CPU inside \<^verbatim>\<open>begin_op\<close>; without it the call runs as a
  whole, and a process that would have to wait stays outside. Whatever leaves the log context alone may happen in between.\<close>

inductive op_step :: "bool \<Rightarrow> (nat \<Rightarrow> opc) \<times> 'a lst_scheme \<Rightarrow> (nat \<Rightarrow> opc) \<times> 'a lst_scheme \<Rightarrow> bool" for preempt where
  Op_begin: "pc p = Outside \<Longrightarrow> begin_op s = Inr t \<Longrightarrow> op_step preempt (pc, s) (pc(p := Inside), t)"
| Op_call: "preempt \<Longrightarrow> pc p = Outside \<Longrightarrow> op_step preempt (pc, s) (pc(p := Waiting), s)"
| Op_admit: "preempt \<Longrightarrow> pc p = Waiting \<Longrightarrow> admits s \<Longrightarrow> op_step preempt (pc, s) (pc(p := Admitted), s)"
| Op_enter: "preempt \<Longrightarrow> pc p = Admitted \<Longrightarrow> op_step preempt (pc, s) (pc(p := Inside), enter s)"
| Op_write: "pc p = Inside \<Longrightarrow> log_write b s = Inr t \<Longrightarrow> op_step preempt (pc, s) (pc, t)"
| Op_end: "pc p = Inside \<Longrightarrow> end_op s = Inr t \<Longrightarrow> op_step preempt (pc, s) (pc(p := Outside), t)"
| Op_cache: "lg t = lg s \<Longrightarrow> op_step preempt (pc, s) (pc, t)"

inductive_cases op_stepE: "op_step preempt (pc, s) (pc', t)"













end
