(* ===== verification/Pmem.thy ===== *)
theory Pmem
  imports Str Spinlock
begin

text \<open>
  \<^verbatim>\<open>kernel/mem/pmem.c\<close>: the allocator of physical pages. The free pages are threaded into a list
  through their own first eight bytes, so the list lives in the flat physical memory. \<open>flist\<close>
  relates the pointers to the list of free pages; the locale \<open>page_pool\<close> is the contract the
  page-table code relies on: allocation pops a page, freeing pushes one, and neither touches
  memory outside the free pages.
\<close>

section \<open>Words in memory\<close>

definition load64 :: "mem \<Rightarrow> uint64 \<Rightarrow> uint64" where
  "load64 m a = le_load 8 (view m a) 0"

definition store64 :: "mem \<Rightarrow> uint64 \<Rightarrow> uint64 \<Rightarrow> mem" where
  "store64 m a v = (\<lambda>x. if unat (x - a) < 8 then ucast (drop_bit (8 * unat (x - a)) v) else m x)"

definition PGSIZE :: nat where [layout]: "PGSIZE = 4096"
definition KERNEL_BASE :: uint64 where [layout]: "KERNEL_BASE = 0x80000000"
definition PHYSTOP :: uint64 where [layout]: "PHYSTOP = KERNEL_BASE + 128 * 1024 * 1024"

section \<open>The allocator\<close>

text \<open>Physical memory with the hart that runs the kernel, the linker's symbol \<^verbatim>\<open>ALLOC_BEGIN\<close> and
  \<^verbatim>\<open>free_region\<close>; the list head is the pointer to the first free page, 0 for \<^verbatim>\<open>NULL\<close>.\<close>

record pst =
  khart :: hart
  kmem :: mem
  ALLOC_BEGIN :: uint64
  r_begin :: uint64
  r_end :: uint64
  r_lk :: spinlock
  allocable :: uint32
  list_head :: uint64

definition push_page :: "uint64 \<Rightarrow> 'a pst_scheme \<Rightarrow> 'a pst_scheme" where
  "push_page page s =
     s\<lparr>kmem := store64 (kmem s) page (list_head s), list_head := page, allocable := allocable s + 1\<rparr>"

function pmem_init_loop :: "uint64 \<Rightarrow> 'a pst_scheme \<Rightarrow> 'a pst_scheme" where
  "pmem_init_loop addr s =
     (if addr < PHYSTOP then pmem_init_loop (addr + of_nat PGSIZE) (push_page addr s) else s)"
  by auto
termination
proof (relation "measure (\<lambda>(addr, _). unat PHYSTOP - unat addr)")
  fix addr :: uint64 and s :: "'a pst_scheme"
  assume "addr < PHYSTOP"
  then have "unat addr < unat PHYSTOP" by (simp add: word_less_nat_alt)
  moreover have "unat PHYSTOP + PGSIZE < 2 ^ 64" by (simp add: layout)
  ultimately have "unat (addr + of_nat PGSIZE) = unat addr + PGSIZE" "unat addr < unat PHYSTOP"
    by (auto intro!: unat_add_of_nat)
  then show "((addr + of_nat PGSIZE, push_page addr s), (addr, s)) \<in>
      measure (\<lambda>(addr, _). unat PHYSTOP - unat addr)"
    by (simp add: layout)
qed simp

declare pmem_init_loop.simps [simp del]

definition pmem_init :: "'a pst_scheme \<Rightarrow> 'a pst_scheme" where
  "pmem_init s =
     (let s = s\<lparr>r_begin := ALLOC_BEGIN s, r_end := PHYSTOP, allocable := 0, list_head := 0,
                r_lk := spinlock_init ''kern_pmem_lock''\<rparr>
      in pmem_init_loop (r_begin s) s)"

definition pmem_alloc :: "'a pst_scheme \<Rightarrow> (uint64 \<times> 'a pst_scheme) kres" where
  "pmem_alloc s =
     kbind (spinlock_acquire (r_lk s) (khart s)) (\<lambda>(lk, h).
     if allocable s = 0
     then kbind (spinlock_release lk h) (\<lambda>_. Inl (Panic ''alloc pages not enough''))
     else
       let page = list_head s;
           s = (if page \<noteq> 0 then s\<lparr>list_head := load64 (kmem s) page\<rparr> else s);
           s = s\<lparr>allocable := allocable s - 1\<rparr>
       in kbind (spinlock_release lk h) (\<lambda>(lk, h). Inr (page, s\<lparr>r_lk := lk, khart := h\<rparr>)))"

definition pmem_free :: "uint64 \<Rightarrow> 'a pst_scheme \<Rightarrow> 'a pst_scheme kres" where
  "pmem_free page s =
     kguard (\<not> (unat page mod PGSIZE \<noteq> 0 \<or> page < ALLOC_BEGIN s \<or> page \<ge> PHYSTOP)) (Panic ''kfree'')
      (kbind (spinlock_acquire (r_lk s) (khart s)) (\<lambda>(lk, h).
       let s = push_page page s
       in kbind (spinlock_release lk h) (\<lambda>(lk, h). Inr (s\<lparr>r_lk := lk, khart := h\<rparr>))))"

section \<open>Memory lemmas\<close>

text \<open>Two areas of \<open>n\<close> and \<open>k\<close> bytes do not meet.\<close>

definition apart :: "uint64 \<Rightarrow> nat \<Rightarrow> uint64 \<Rightarrow> nat \<Rightarrow> bool" where
  "apart a n b k \<longleftrightarrow> (\<forall>x. \<not> (unat (x - a) < n \<and> unat (x - b) < k))"

lemma load64_same [simp]: "load64 (store64 m a v) a = v"
proof -
  have "le_load 8 (view (store64 m a v) a) 0 = (le_load 8 (le_store 8 (view m a) 0 v) 0 :: uint64)"
    by (rule le_load_cong) (simp add: view_def store64_def le_store_def unat_of_nat_small)
  then show ?thesis by (simp add: load64_def le_load_store_same)
qed

lemma load64_cong: "(\<And>x. unat (x - a) < 8 \<Longrightarrow> m x = m' x) \<Longrightarrow> load64 m a = load64 m' a"
  unfolding load64_def by (rule le_load_cong) (simp add: view_def unat_of_nat_small)

lemma load64_other: "apart a 8 b 8 \<Longrightarrow> load64 (store64 m a v) b = load64 m b"
  by (rule load64_cong) (auto simp: store64_def apart_def)

lemma unat_diff_ge: "b \<le> x \<Longrightarrow> unat (x - b) = unat x - unat (b :: uint64)"
  by (simp add: unat_sub)

lemma apartI:
  assumes "unat a + n \<le> unat b \<or> unat b + k \<le> unat a" and "unat a + n \<le> 2 ^ 64" and "unat b + k \<le> 2 ^ 64"
  shows "apart a n b k"
proof -
  have le: "unat a \<le> unat x \<and> unat x < unat a + n" if "unat (x - a) < n" "unat a + n \<le> 2 ^ 64"
    for x a :: uint64 and n
  proof -
    have "x = a + of_nat (unat (x - a))" by simp
    then have "unat x = unat a + unat (x - a)" using that unat_add_of_nat [of a "unat (x - a)"] by simp
    then show ?thesis using that by simp
  qed
  show ?thesis unfolding apart_def using assms le [of _ a n] le [of _ b k] by fastforce
qed

section \<open>Pages\<close>

definition in_page :: "uint64 \<Rightarrow> uint64 \<Rightarrow> bool" where
  "in_page p x \<longleftrightarrow> unat (x - p) < PGSIZE"

text \<open>The pages between \<^verbatim>\<open>ALLOC_BEGIN\<close> (\<open>b\<close>) and the end of memory.\<close>

definition page_ok :: "uint64 \<Rightarrow> uint64 \<Rightarrow> bool" where
  "page_ok b p \<longleftrightarrow> unat p mod PGSIZE = 0 \<and> b \<le> p \<and> p < PHYSTOP"

lemma page_ok_bound: "page_ok b p \<Longrightarrow> unat p + PGSIZE < 2 ^ 64"
  by (simp add: page_ok_def word_less_nat_alt layout)

lemma aligned_apart: "p \<noteq> q \<Longrightarrow> p mod n = 0 \<Longrightarrow> q mod n = 0 \<Longrightarrow> p + n \<le> q \<or> q + n \<le> (p :: nat)"
proof (induction p q rule: linorder_wlog)
  case (le a b)
  then obtain i j where "a = n * i" "b = n * j" by (auto simp: mod_eq_0_iff_dvd elim!: dvdE)
  with le have "i < j" "0 < n" by (auto simp: order_le_less)
  then have "n * Suc i \<le> n * j" by (intro mult_le_mono2) simp
  then show ?case using \<open>a = n * i\<close> \<open>b = n * j\<close> by simp
qed auto

lemma pages_apart: "page_ok b p \<Longrightarrow> page_ok c q \<Longrightarrow> p \<noteq> q \<Longrightarrow> apart p PGSIZE q PGSIZE"
  using aligned_apart [of "unat p" "unat q" PGSIZE] page_ok_bound [of b p] page_ok_bound [of c q]
  by (intro apartI) (auto simp: page_ok_def word_unat_eq_iff)

lemma in_page_unique: "page_ok b p \<Longrightarrow> page_ok c q \<Longrightarrow> in_page p x \<Longrightarrow> in_page q x \<Longrightarrow> p = q"
  using pages_apart [of b p c q] by (auto simp: apart_def in_page_def)

lemma in_page_start: "unat (x - p) < 8 \<Longrightarrow> in_page p x"
  by (simp add: in_page_def layout)

lemma store64_outside: "\<not> in_page p x \<Longrightarrow> store64 m p v x = m x"
  by (auto simp: store64_def in_page_def layout)

section \<open>The list of free pages\<close>

fun flist :: "mem \<Rightarrow> uint64 \<Rightarrow> uint64 list \<Rightarrow> bool" where
  "flist m h [] \<longleftrightarrow> h = 0"
| "flist m h (p # ps) \<longleftrightarrow> h = p \<and> flist m (load64 m p) ps"

definition pool :: "'a pst_scheme \<Rightarrow> uint64 list \<Rightarrow> bool" where
  "pool s ps \<longleftrightarrow> flist (kmem s) (list_head s) ps \<and> distinct ps \<and> (\<forall>p \<in> set ps. page_ok (ALLOC_BEGIN s) p) \<and>
     allocable s = of_nat (length ps) \<and> \<not> locked (r_lk s) \<and> cpu_ok (khart s) \<and> 0 < ALLOC_BEGIN s"

lemma flist_cong:
  "(\<And>p x. p \<in> set ps \<Longrightarrow> in_page p x \<Longrightarrow> m x = m' x) \<Longrightarrow> flist m h ps = flist m' h ps"
proof (induction ps arbitrary: h)
  case (Cons p ps)
  have "load64 m p = load64 m' p" using Cons.prems by (intro load64_cong) (auto dest: in_page_start)
  moreover have "flist m (load64 m' p) ps = flist m' (load64 m' p) ps"
    using Cons.prems by (intro Cons.IH) auto
  ultimately show ?case by simp
qed simp

lemma pages_few:
  assumes "distinct ps" and "\<forall>p \<in> set ps. page_ok b p"
  shows "length ps < 2 ^ 32"
proof -
  have "unat ` set ps \<subseteq> {0..<unat PHYSTOP}"
    using assms(2) by (auto simp: page_ok_def word_less_nat_alt)
  then have "card (unat ` set ps) \<le> unat PHYSTOP" using card_mono [of "{0..<unat PHYSTOP}"] by simp
  moreover have "inj_on unat (set ps)" by (auto intro!: inj_onI simp: word_unat_eq_iff)
  ultimately show ?thesis
    using assms(1) by (simp add: card_image distinct_card layout)
qed

lemma page_nonzero: "page_ok b p \<Longrightarrow> 0 < b \<Longrightarrow> p \<noteq> 0"
  by (auto simp: page_ok_def)

section \<open>The contract\<close>

text \<open>A state with a memory, a base of the allocatable pages, and the operations of a page allocator.
  \<open>more\<close> is what the operations leave alone.\<close>

locale page_pool =
  fixes alloc :: "'s \<Rightarrow> (uint64 \<times> 's) kres"
    and free :: "uint64 \<Rightarrow> 's \<Rightarrow> 's kres"
    and get :: "'s \<Rightarrow> mem"
    and put :: "mem \<Rightarrow> 's \<Rightarrow> 's"
    and base :: "'s \<Rightarrow> uint64"
    and pool :: "'s \<Rightarrow> uint64 list \<Rightarrow> bool"
    and rest :: "'s \<Rightarrow> 'r"
  assumes alloc_ok: "pool s (p # ps) \<Longrightarrow>
      \<exists>s'. alloc s = Inr (p, s') \<and> pool s' ps \<and> get s' = get s \<and> base s' = base s \<and> rest s' = rest s"
    and free_ok: "pool s ps \<Longrightarrow> page_ok (base s) p \<Longrightarrow> p \<notin> set ps \<Longrightarrow>
      \<exists>s'. free p s = Inr s' \<and> pool s' (p # ps) \<and> base s' = base s \<and> rest s' = rest s \<and>
        (\<forall>x. \<not> in_page p x \<longrightarrow> get s' x = get s x)"
    and put_ok: "pool s ps \<Longrightarrow> (\<And>p x. p \<in> set ps \<Longrightarrow> in_page p x \<Longrightarrow> m x = get s x) \<Longrightarrow> pool (put m s) ps"
    and put_get: "get (put m s) = m" "base (put m s) = base s" "rest (put m s) = rest s"
    and pool_pages: "pool s ps \<Longrightarrow> distinct ps \<and> (\<forall>p \<in> set ps. page_ok (base s) p \<and> p \<noteq> 0)"
begin

text \<open>Allocating a page and clearing it, as the page-table code does.\<close>

lemma alloc_zeroed:
  assumes pl: "pool s (p # ps)"
  shows "\<exists>t. alloc s = Inr (p, t) \<and> p \<noteq> 0 \<and>
    (let s' = put (memset (get t) p 0 (of_nat PGSIZE)) t
     in pool s' ps \<and> base s' = base s \<and> rest s' = rest s \<and>
       get s' = (\<lambda>x. if in_page p x then 0 else get s x))"
proof -
  obtain t where t: "alloc s = Inr (p, t)" "pool t ps" "get t = get s" "base t = base s" "rest t = rest s"
    using alloc_ok [OF pl] by blast
  let ?m = "memset (get t) p 0 (of_nat PGSIZE)"
  have m: "?m = (\<lambda>x. if in_page p x then 0 else get s x)"
    using t(3) by (auto simp: memset_apply in_page_def fun_eq_iff unat_of_nat_small layout)
  have "pool (put ?m t) ps"
  proof (rule put_ok [OF t(2)])
    fix q x assume q: "q \<in> set ps" "in_page q x"
    then have "q \<noteq> p" "page_ok (base s) q" "page_ok (base s) p" using pool_pages [OF pl] by auto
    then have "\<not> in_page p x" using in_page_unique q(2) by blast
    then show "?m x = get t x" using m t(3) by simp
  qed
  then show ?thesis using t m pool_pages [OF pl] by (auto simp: put_get Let_def)
qed

end

lemma pmem_alloc_pool:
  assumes pl: "pool s (p # ps)"
  shows "\<exists>s'. pmem_alloc s = Inr (p, s') \<and> pool s' ps \<and> kmem s' = kmem s \<and>
    ALLOC_BEGIN s' = ALLOC_BEGIN s \<and> pst.more s' = pst.more s"
proof -
  have i: "list_head s = p" "flist (kmem s) (load64 (kmem s) p) ps" "\<not> locked (r_lk s)" "cpu_ok (khart s)"
    "page_ok (ALLOC_BEGIN s) p" "0 < ALLOC_BEGIN s" using pl by (auto simp: pool_def)
  have "length (p # ps) < 2 ^ 32" using pl pages_few [of "p # ps" "ALLOC_BEGIN s"] by (simp add: pool_def)
  then have "unat (allocable s) = Suc (length ps)"
    using pl unat_of_nat_small [of "length (p # ps)", where ?'a = 32] by (simp add: pool_def)
  then have n: "allocable s \<noteq> 0" "allocable s - 1 = of_nat (length ps)"
    using pl by (auto simp: pool_def)
  let ?s = "s\<lparr>list_head := load64 (kmem s) p, allocable := allocable s - 1, r_lk := unlocked (r_lk s),
    khart := section_done (khart s)\<rparr>"
  have "pmem_alloc s = Inr (p, ?s)"
    using i n(1) page_nonzero [OF i(5,6)]
    by (simp add: pmem_alloc_def spinlock_acquire_free spinlock_release_acquired Let_def)
  moreover have "pool ?s ps" using pl i n(2) by (simp add: pool_def)
  ultimately show ?thesis by auto
qed

lemma push_page_pool:
  assumes pl: "pool s ps" and p: "page_ok (ALLOC_BEGIN s) p" "p \<notin> set ps"
  shows "pool (push_page p s) (p # ps)"
proof -
  have "flist (store64 (kmem s) p (list_head s)) (list_head s) ps = flist (kmem s) (list_head s) ps"
  proof (rule flist_cong)
    fix q x assume q: "q \<in> set ps" "in_page q x"
    then have "\<not> in_page p x" using in_page_unique [OF _ p(1)] pl p(2) by (auto simp: pool_def)
    then show "store64 (kmem s) p (list_head s) x = kmem s x" by (rule store64_outside)
  qed
  then show ?thesis using pl p by (simp add: pool_def push_page_def)
qed

lemma pmem_free_pool:
  assumes pl: "pool s ps" and p: "page_ok (ALLOC_BEGIN s) p" "p \<notin> set ps"
  shows "\<exists>s'. pmem_free p s = Inr s' \<and> pool s' (p # ps) \<and> ALLOC_BEGIN s' = ALLOC_BEGIN s \<and>
    pst.more s' = pst.more s \<and> (\<forall>x. \<not> in_page p x \<longrightarrow> kmem s' x = kmem s x)"
proof -
  have i: "\<not> locked (r_lk s)" "cpu_ok (khart s)" using pl by (auto simp: pool_def)
  let ?s = "(push_page p s)\<lparr>r_lk := unlocked (r_lk s), khart := section_done (khart s)\<rparr>"
  have "pmem_free p s = Inr ?s"
    using i p(1) by (simp add: pmem_free_def spinlock_acquire_free spinlock_release_acquired Let_def
        page_ok_def push_page_def not_less not_le)
  moreover have "pool ?s (p # ps)" using push_page_pool [OF pl p] i by (simp add: pool_def)
  ultimately show ?thesis by (auto simp: push_page_def store64_outside)
qed

interpretation pmem: page_pool pmem_alloc pmem_free kmem "\<lambda>m s. s\<lparr>kmem := m\<rparr>" ALLOC_BEGIN pool pst.more
proof unfold_locales
  fix s :: "'a pst_scheme" and p ps m
  show "pool s (p # ps) \<Longrightarrow> \<exists>s'. pmem_alloc s = Inr (p, s') \<and> pool s' ps \<and> kmem s' = kmem s \<and>
      ALLOC_BEGIN s' = ALLOC_BEGIN s \<and> pst.more s' = pst.more s" by (rule pmem_alloc_pool)
  show "pool s ps \<Longrightarrow> page_ok (ALLOC_BEGIN s) p \<Longrightarrow> p \<notin> set ps \<Longrightarrow>
      \<exists>s'. pmem_free p s = Inr s' \<and> pool s' (p # ps) \<and> ALLOC_BEGIN s' = ALLOC_BEGIN s \<and>
      pst.more s' = pst.more s \<and> (\<forall>x. \<not> in_page p x \<longrightarrow> kmem s' x = kmem s x)" by (rule pmem_free_pool)
  show "pool s ps \<Longrightarrow> distinct ps \<and> (\<forall>p \<in> set ps. page_ok (ALLOC_BEGIN s) p \<and> p \<noteq> 0)"
    by (auto simp: pool_def dest: page_nonzero)
  assume "pool s ps" and "\<And>p x. p \<in> set ps \<Longrightarrow> in_page p x \<Longrightarrow> m x = kmem s x"
  then show "pool (s\<lparr>kmem := m\<rparr>) ps" using flist_cong [of ps m "kmem s"] by (simp add: pool_def)
qed simp_all

section \<open>The properties of the allocator\<close>

lemma pmem_init_loop_pool:
  fixes s :: "'a pst_scheme"
  assumes "pool s ps" and "unat addr mod PGSIZE = 0" and "ALLOC_BEGIN s \<le> addr" and "unat addr \<le> unat PHYSTOP"
    and "set ps = {p. page_ok (ALLOC_BEGIN s) p \<and> p < addr}"
  shows "\<exists>ps'. pool (pmem_init_loop addr s) ps' \<and> set ps' = {p. page_ok (ALLOC_BEGIN s) p}"
  using assms
proof (induction "unat PHYSTOP - unat addr" arbitrary: addr s ps rule: less_induct)
  case less
  show ?case
  proof (cases "addr < PHYSTOP")
    case False
    then have "addr = PHYSTOP" using less.prems(4) by (simp add: word_less_nat_alt word_unat_eq_iff)
    moreover have "pmem_init_loop addr s = s" by (subst pmem_init_loop.simps) (simp add: False)
    moreover have "{p. page_ok (ALLOC_BEGIN s) p \<and> p < PHYSTOP} = {p. page_ok (ALLOC_BEGIN s) p}"
      by (auto simp: page_ok_def)
    ultimately show ?thesis using less.prems(1,5) by (intro exI [of _ ps]) simp
  next
    case True
    let ?b = "ALLOC_BEGIN s" and ?n = "addr + of_nat PGSIZE" and ?s = "push_page addr s"
    have p: "page_ok ?b addr" using less.prems(2,3) True by (simp add: page_ok_def)
    have lt: "unat addr < unat PHYSTOP" using True by (simp add: word_less_nat_alt)
    have n: "unat ?n = unat addr + PGSIZE" using page_ok_bound [OF p] by (intro unat_add_of_nat) simp
    have pm: "unat PHYSTOP mod PGSIZE = 0" by (simp add: layout)
    have np: "unat ?n \<le> unat PHYSTOP"
      using aligned_apart [of "unat addr" "unat PHYSTOP" PGSIZE] lt less.prems(2) pm n by simp
    have nin: "addr \<notin> set ps" using less.prems(5) by simp
    have pl: "pool ?s (addr # ps)" by (rule push_page_pool [OF less.prems(1) p nin])
    have "set (addr # ps) = {q. page_ok ?b q \<and> q < ?n}"
    proof -
      have "q < ?n \<longleftrightarrow> q = addr \<or> q < addr" if "page_ok ?b q" for q
        using that aligned_apart [of "unat addr" "unat q" PGSIZE] less.prems(2) n
        by (cases "unat addr = unat q") (auto simp: page_ok_def word_less_nat_alt word_unat_eq_iff layout)
      then show ?thesis using less.prems(5) p by auto
    qed
    moreover have "unat ?n mod PGSIZE = 0" unfolding n using less.prems(2) by simp
    moreover have "?b \<le> ?n" using less.prems(3) n by (simp add: word_le_nat_alt)
    moreover have "ALLOC_BEGIN ?s = ?b" by (simp add: push_page_def)
    moreover have "unat PHYSTOP - unat ?n < unat PHYSTOP - unat addr" using n lt by (simp add: layout)
    ultimately show ?thesis
      using less.hyps [of ?n ?s "addr # ps"] pl np True
      by (subst pmem_init_loop.simps) (simp del: of_nat_Suc)
  qed
qed

text \<open>A page-aligned \<^verbatim>\<open>ALLOC_BEGIN\<close> inside physical memory.\<close>

definition base_ok :: "uint64 \<Rightarrow> bool" where
  "base_ok b \<longleftrightarrow> 0 < b \<and> unat b mod PGSIZE = 0 \<and> b \<le> PHYSTOP"

lemma pmem_init_pool:
  assumes "base_ok (ALLOC_BEGIN s)" and "cpu_ok (khart s)"
  shows "\<exists>ps. pool (pmem_init s) ps \<and> set ps = {p. page_ok (ALLOC_BEGIN s) p}"
proof -
  let ?s = "s\<lparr>r_begin := ALLOC_BEGIN s, r_end := PHYSTOP, allocable := 0, list_head := 0,
    r_lk := spinlock_init ''kern_pmem_lock''\<rparr>"
  have "pool ?s []" using assms by (simp add: pool_def base_ok_def spinlock_init_def)
  moreover have "{p. page_ok (ALLOC_BEGIN s) p \<and> p < ALLOC_BEGIN s} = {}" by (auto simp: page_ok_def)
  ultimately show ?thesis
    using assms(1) pmem_init_loop_pool [of ?s "[]" "ALLOC_BEGIN s"]
    by (simp add: pmem_init_def Let_def base_ok_def word_le_nat_alt)
qed

lemma pmem_init_base: "ALLOC_BEGIN (pmem_init s) = ALLOC_BEGIN s"
proof -
  have "ALLOC_BEGIN (pmem_init_loop a u) = ALLOC_BEGIN u" for a and u :: "'a pst_scheme"
    by (induction a u rule: pmem_init_loop.induct)
      (subst pmem_init_loop.simps, simp add: push_page_def)
  then show ?thesis by (simp add: pmem_init_def Let_def)
qed

text \<open>The kernel as a client: it may allocate a page, free a page it holds, and write to the pages
  it holds. A state is the allocator with the list of pages handed out.\<close>

inductive pstep :: "'a pst_scheme \<times> uint64 list \<Rightarrow> 'a pst_scheme \<times> uint64 list \<Rightarrow> bool" where
  allocs: "pmem_alloc s = Inr (p, s') \<Longrightarrow> pstep (s, used) (s', p # used)"
| frees: "p \<in> set used \<Longrightarrow> pmem_free p s = Inr s' \<Longrightarrow> pstep (s, used) (s', remove1 p used)"
| writes: "p \<in> set used \<Longrightarrow> in_page p x \<Longrightarrow> pstep (s, used) (s\<lparr>kmem := (kmem s)(x := v)\<rparr>, used)"

definition partition :: "uint64 \<Rightarrow> 'a pst_scheme \<times> uint64 list \<Rightarrow> bool" where
  "partition b su \<longleftrightarrow> (case su of (s, used) \<Rightarrow> ALLOC_BEGIN s = b \<and>
     (\<exists>ps. pool s ps \<and> distinct (ps @ used) \<and> set (ps @ used) = {p. page_ok b p}))"

lemma partitionE:
  assumes "partition b (s, used)"
  obtains ps where "pool s ps" "distinct (ps @ used)" "set (ps @ used) = {p. page_ok b p}" "ALLOC_BEGIN s = b"
  using assms by (auto simp: partition_def)

lemma pmem_alloc_empty: "pool s [] \<Longrightarrow> pmem_alloc s = Inl (Panic ''alloc pages not enough'')"
  by (simp add: pmem_alloc_def pool_def spinlock_acquire_free spinlock_release_acquired)

lemma partition_step: "pstep su su' \<Longrightarrow> partition b su \<Longrightarrow> partition b su'"
proof (induction rule: pstep.induct)
  case (allocs s p s' used)
  from allocs.prems obtain ps where ps: "pool s ps" "distinct (ps @ used)" "set (ps @ used) = {p. page_ok b p}"
    "ALLOC_BEGIN s = b" by (rule partitionE)
  show ?case
  proof (cases ps)
    case Nil
    then show ?thesis using pmem_alloc_empty [of s] ps(1) allocs.hyps by simp
  next
    case (Cons q qs)
    then have "p = q" "pool s' qs" "ALLOC_BEGIN s' = b"
      using pmem.alloc_ok [of s q qs] ps(1,4) allocs.hyps by auto
    then show ?thesis using ps Cons by (auto simp: partition_def intro!: exI [of _ qs])
  qed
next
  case (frees p used s s')
  from frees.prems obtain ps where ps: "pool s ps" "distinct (ps @ used)" "set (ps @ used) = {p. page_ok b p}"
    "ALLOC_BEGIN s = b" by (rule partitionE)
  have "page_ok (ALLOC_BEGIN s) p" "p \<notin> set ps" using ps frees.hyps(1) by auto
  from pmem.free_ok [OF ps(1) this] have "pool s' (p # ps)" "ALLOC_BEGIN s' = b"
    using frees.hyps(2) ps(4) by auto
  moreover have "distinct (remove1 p used)" "set (remove1 p used) = set used - {p}"
    using ps(2) by (auto simp: set_remove1_eq)
  ultimately show ?case
    using ps(2,3) frees.hyps(1) \<open>p \<notin> set ps\<close> by (auto simp: partition_def intro!: exI [of _ "p # ps"])
next
  case (writes p used x s v)
  from writes.prems obtain ps where ps: "pool s ps" "distinct (ps @ used)" "set (ps @ used) = {p. page_ok b p}"
    "ALLOC_BEGIN s = b" by (rule partitionE)
  have "pool (s\<lparr>kmem := (kmem s)(x := v)\<rparr>) ps"
  proof (rule pmem.put_ok [OF ps(1)])
    fix q y assume q: "q \<in> set ps" "in_page q y"
    then have "q \<noteq> p" "page_ok b q" "page_ok b p" using ps writes.hyps(1) by auto
    then have "y \<noteq> x" using in_page_unique q(2) writes.hyps(2) by blast
    then show "((kmem s)(x := v)) y = kmem s y" by simp
  qed
  then show ?case using ps by (auto simp: partition_def)
qed

text \<open>\<^bold>\<open>C10\<close>: after \<^verbatim>\<open>pmem_init\<close>, whatever sequence of allocations, frees of held pages and writes to
  held pages the kernel performs, the free pages and the pages handed out always partition the
  allocatable memory: no page is handed out twice and none is lost.\<close>

theorem pages_partitioned:
  assumes "base_ok (ALLOC_BEGIN s)" and "cpu_ok (khart s)" and "pstep\<^sup>*\<^sup>* (pmem_init s, []) (t, used)"
  shows "\<exists>ps. pool t ps \<and> distinct (ps @ used) \<and> set (ps @ used) = {p. page_ok (ALLOC_BEGIN s) p}"
proof -
  obtain ps where ps: "pool (pmem_init s) ps" "set ps = {p. page_ok (ALLOC_BEGIN s) p}"
    using pmem_init_pool [OF assms(1,2)] by blast
  have "partition (ALLOC_BEGIN s) (pmem_init s, [])"
    using ps pmem_init_base by (auto simp: partition_def pool_def)
  with assms(3) have "partition (ALLOC_BEGIN s) (t, used)"
    by (induction rule: rtranclp_induct) (auto intro: partition_step)
  then show ?thesis by (auto simp: partition_def)
qed

definition boot_pst :: pst where
  "boot_pst = \<lparr>khart = hart0, kmem = (\<lambda>_. 0), ALLOC_BEGIN = 0x80020000, r_begin = 0, r_end = 0,
     r_lk = spinlock_init ''kern_pmem_lock'', allocable = 0, list_head = 0\<rparr>"

lemma boot_pst_facts: "base_ok (ALLOC_BEGIN boot_pst)" "cpu_ok (khart boot_pst)"
  by (simp_all add: boot_pst_def base_ok_def layout)

theorem pages_partitioned_witness:
  "\<exists>p t. pmem_alloc (pmem_init boot_pst) = Inr (p, t) \<and> page_ok 0x80020000 p \<and>
     (\<exists>ps. pool t ps \<and> p \<notin> set ps)"
proof -
  obtain ps where ps: "pool (pmem_init boot_pst) ps" "set ps = {p. page_ok (ALLOC_BEGIN boot_pst) p}"
    using pmem_init_pool [OF boot_pst_facts] by blast
  have "page_ok (ALLOC_BEGIN boot_pst) 0x80020000" by (simp add: page_ok_def boot_pst_def layout)
  then obtain p qs where q: "ps = p # qs" using ps(2) by (cases ps) auto
  then obtain t where t: "pmem_alloc (pmem_init boot_pst) = Inr (p, t)"
    using pmem.alloc_ok [of "pmem_init boot_pst" p qs] ps(1) by auto
  then have "pstep\<^sup>*\<^sup>* (pmem_init boot_pst, []) (t, [p])" by (auto intro: pstep.allocs)
  from pages_partitioned [OF boot_pst_facts this] show ?thesis
    using t ps(2) q by (auto simp: boot_pst_def)
qed

text \<open>\<^bold>\<open>C36\<close>: the allocator is a stack of pages. Freeing a held page and allocating again returns
  that page and restores the list of free pages; allocating with no page left panics; freeing an
  address that is not an allocatable page panics.\<close>

theorem pmem_stack:
  assumes "pool s ps" and "page_ok (ALLOC_BEGIN s) p" and "p \<notin> set ps"
  shows "(\<exists>s1 s2. pmem_free p s = Inr s1 \<and> pool s1 (p # ps) \<and> pmem_alloc s1 = Inr (p, s2) \<and> pool s2 ps) \<and>
    (ps = [] \<longrightarrow> pmem_alloc s = Inl (Panic ''alloc pages not enough'')) \<and>
    (\<forall>q. \<not> page_ok (ALLOC_BEGIN s) q \<longrightarrow> pmem_free q s = Inl (Panic ''kfree''))"
proof -
  obtain s1 where s1: "pmem_free p s = Inr s1" "pool s1 (p # ps)" using pmem.free_ok [OF assms] by blast
  then obtain s2 where "pmem_alloc s1 = Inr (p, s2)" "pool s2 ps" using pmem.alloc_ok by blast
  moreover have "pmem_free q s = Inl (Panic ''kfree'')" if "\<not> page_ok (ALLOC_BEGIN s) q" for q
    using that by (auto simp: pmem_free_def page_ok_def kguard_def not_less not_le)
  ultimately show ?thesis using s1 assms(1) pmem_alloc_empty by blast
qed

theorem pmem_stack_witness:
  "\<exists>s1 s2. pmem_free 0x80021000 boot_pst = Inr s1 \<and> pmem_alloc s1 = Inr (0x80021000, s2)"
proof -
  have "pool boot_pst []" by (simp add: pool_def boot_pst_def spinlock_init_def)
  moreover have "page_ok (ALLOC_BEGIN boot_pst) 0x80021000" by (simp add: page_ok_def boot_pst_def layout)
  ultimately show ?thesis using pmem_stack [of boot_pst "[]" "0x80021000"] by auto
qed

end
