(* ===== verification/Virtio.thy ===== *)
theory Virtio
  imports Bio Pmem
begin

text \<open>
  \<^verbatim>\<open>kernel/dev/virtio_disk.c\<close> and \<^verbatim>\<open>include/dev/virtio.h\<close>: the driver of the disk, over the structures it
  shares with the device (descriptor table, available and used ring) and its own bookkeeping. The
  device is not part of the kernel: its registers are reached through the functions of a record
  \<open>mmio\<close>, and what it does to the shared structures, to the buffers and to the disk between two polls
  of the driver is a function \<open>dev\<close>. \<open>virtio_device\<close> states what the VIRTIO specification asks of it.
  The main theorem is that a request of the driver has the effect \<open>disk_rw\<close> which the block cache uses.
\<close>

section \<open>Registers and shared structures\<close>

definition VIRTIO_MMIO_MAGIC_VALUE :: uint64 where [layout]: "VIRTIO_MMIO_MAGIC_VALUE = 0x000"
definition VIRTIO_MMIO_VERSION :: uint64 where [layout]: "VIRTIO_MMIO_VERSION = 0x004"
definition VIRTIO_MMIO_DEVICE_ID :: uint64 where [layout]: "VIRTIO_MMIO_DEVICE_ID = 0x008"
definition VIRTIO_MMIO_VENDOR_ID :: uint64 where [layout]: "VIRTIO_MMIO_VENDOR_ID = 0x00c"
definition VIRTIO_MMIO_DEVICE_FEATURES :: uint64 where [layout]: "VIRTIO_MMIO_DEVICE_FEATURES = 0x010"
definition VIRTIO_MMIO_DRIVER_FEATURES :: uint64 where [layout]: "VIRTIO_MMIO_DRIVER_FEATURES = 0x020"
definition VIRTIO_MMIO_GUEST_PAGE_SIZE :: uint64 where [layout]: "VIRTIO_MMIO_GUEST_PAGE_SIZE = 0x028"
definition VIRTIO_MMIO_QUEUE_SEL :: uint64 where [layout]: "VIRTIO_MMIO_QUEUE_SEL = 0x030"
definition VIRTIO_MMIO_QUEUE_NUM_MAX :: uint64 where [layout]: "VIRTIO_MMIO_QUEUE_NUM_MAX = 0x034"
definition VIRTIO_MMIO_QUEUE_NUM :: uint64 where [layout]: "VIRTIO_MMIO_QUEUE_NUM = 0x038"
definition VIRTIO_MMIO_QUEUE_ALIGN :: uint64 where [layout]: "VIRTIO_MMIO_QUEUE_ALIGN = 0x03c"
definition VIRTIO_MMIO_QUEUE_PFN :: uint64 where [layout]: "VIRTIO_MMIO_QUEUE_PFN = 0x040"
definition VIRTIO_MMIO_QUEUE_READY :: uint64 where [layout]: "VIRTIO_MMIO_QUEUE_READY = 0x044"
definition VIRTIO_MMIO_QUEUE_NOTIFY :: uint64 where [layout]: "VIRTIO_MMIO_QUEUE_NOTIFY = 0x050"
definition VIRTIO_MMIO_INTERRUPT_STATUS :: uint64 where [layout]: "VIRTIO_MMIO_INTERRUPT_STATUS = 0x060"
definition VIRTIO_MMIO_INTERRUPT_ACK :: uint64 where [layout]: "VIRTIO_MMIO_INTERRUPT_ACK = 0x064"
definition VIRTIO_MMIO_STATUS :: uint64 where [layout]: "VIRTIO_MMIO_STATUS = 0x070"

definition VIRTIO_CONFIG_S_ACKNOWLEDGE :: uint32 where [layout]: "VIRTIO_CONFIG_S_ACKNOWLEDGE = 1"
definition VIRTIO_CONFIG_S_DRIVER :: uint32 where [layout]: "VIRTIO_CONFIG_S_DRIVER = 2"
definition VIRTIO_CONFIG_S_DRIVER_OK :: uint32 where [layout]: "VIRTIO_CONFIG_S_DRIVER_OK = 4"
definition VIRTIO_CONFIG_S_FEATURES_OK :: uint32 where [layout]: "VIRTIO_CONFIG_S_FEATURES_OK = 8"

definition VIRTIO_BLK_F_RO :: nat where [layout]: "VIRTIO_BLK_F_RO = 5"
definition VIRTIO_BLK_F_SCSI :: nat where [layout]: "VIRTIO_BLK_F_SCSI = 7"
definition VIRTIO_BLK_F_CONFIG_WCE :: nat where [layout]: "VIRTIO_BLK_F_CONFIG_WCE = 11"
definition VIRTIO_BLK_F_MQ :: nat where [layout]: "VIRTIO_BLK_F_MQ = 12"
definition VIRTIO_F_ANY_LAYOUT :: nat where [layout]: "VIRTIO_F_ANY_LAYOUT = 27"
definition VIRTIO_RING_F_INDIRECT_DESC :: nat where [layout]: "VIRTIO_RING_F_INDIRECT_DESC = 28"
definition VIRTIO_RING_F_EVENT_IDX :: nat where [layout]: "VIRTIO_RING_F_EVENT_IDX = 29"

definition NUM :: nat where [layout]: "NUM = 8"
definition VRING_ALIGN :: uint64 where [layout]: "VRING_ALIGN = 16"
definition VRING_DESC_F_NEXT :: uint16 where [layout]: "VRING_DESC_F_NEXT = 1"
definition VRING_DESC_F_WRITE :: uint16 where [layout]: "VRING_DESC_F_WRITE = 2"
definition VIRTIO_BLK_T_IN :: uint32 where [layout]: "VIRTIO_BLK_T_IN = 0"
definition VIRTIO_BLK_T_OUT :: uint32 where [layout]: "VIRTIO_BLK_T_OUT = 1"

record virtq_desc =
  d_addr :: uint64
  d_len :: uint32
  d_flags :: uint16
  d_next :: uint16

record virtq_avail =
  av_flags :: uint16
  av_idx :: uint16
  av_ring :: "nat \<Rightarrow> uint16"

record virtq_used_elem =
  ue_id :: uint32
  ue_len :: uint32

record virtq_used =
  us_flags :: uint16
  us_idx :: uint16
  us_ring :: "nat \<Rightarrow> virtq_used_elem"

record virtio_blk_req =
  rq_type :: uint32
  rq_reserved :: uint32
  rq_sector :: uint64

definition zero_desc :: virtq_desc where
  "zero_desc = \<lparr>d_addr = 0, d_len = 0, d_flags = 0, d_next = 0\<rparr>"

text \<open>\<^verbatim>\<open>sizeof\<close> of the descriptor table and of the two rings.\<close>

definition SIZEOF_DESC :: uint64 where [layout]: "SIZEOF_DESC = 16"
definition SIZEOF_AVAIL :: uint64 where [layout]: "SIZEOF_AVAIL = 22"
definition SIZEOF_USED :: uint64 where [layout]: "SIZEOF_USED = 68"
definition SIZEOF_REQ :: uint32 where [layout]: "SIZEOF_REQ = 16"

text \<open>The driver with the buffers of the block cache and the disk behind the device. \<open>ops_addr k\<close>,
  \<open>status_addr k\<close> and \<open>data_addr b\<close> are the addresses of \<^verbatim>\<open>disk.ops[k]\<close>, \<^verbatim>\<open>disk.info[k].status\<close> and
  of the data of buffer \<open>b\<close>, which the linker assigns; \<open>vdev\<close> is the inner state of the device.\<close>

record 'd vst = bio +
  vdesc :: "nat \<Rightarrow> virtq_desc"
  vavail :: virtq_avail
  vused :: virtq_used
  vfree :: "nat \<Rightarrow> bool"
  vused_idx :: uint16
  info_b :: "nat \<Rightarrow> nat option"
  info_status :: "nat \<Rightarrow> uint8"
  vops :: "nat \<Rightarrow> virtio_blk_req"
  vqueue :: uint64
  vused_addr :: uint64
  ops_addr :: "nat \<Rightarrow> uint64"
  data_addr :: "nat \<Rightarrow> uint64"
  status_addr :: "nat \<Rightarrow> uint64"
  vdev :: 'd

text \<open>Access to the registers: what a read returns, and what a write makes of the inner state of the device, which may look
  at the shared structures as they are at that moment.\<close>

record 'd mmio =
  vread :: "uint64 \<Rightarrow> 'd \<Rightarrow> uint32"
  vwrite :: "uint64 \<Rightarrow> uint32 \<Rightarrow> 'd vst \<Rightarrow> 'd"

definition reg_w :: "'d mmio \<Rightarrow> uint64 \<Rightarrow> uint32 \<Rightarrow> 'd vst \<Rightarrow> 'd vst" where
  "reg_w io r v s = s\<lparr>vdev := vwrite io r v s\<rparr>"

definition reg_r :: "'d mmio \<Rightarrow> uint64 \<Rightarrow> 'd vst \<Rightarrow> uint32" where
  "reg_r io r s = vread io r (vdev s)"

section \<open>Initialisation\<close>

text \<open>The features the driver accepts of those the device offers.\<close>

definition driver_features :: "uint64 \<Rightarrow> uint64" where
  "driver_features features =
     fold (\<lambda>n f. f AND NOT (push_bit n 1))
       [VIRTIO_BLK_F_RO, VIRTIO_BLK_F_SCSI, VIRTIO_BLK_F_CONFIG_WCE, VIRTIO_BLK_F_MQ, VIRTIO_F_ANY_LAYOUT,
        VIRTIO_RING_F_EVENT_IDX, VIRTIO_RING_F_INDIRECT_DESC] features"

text \<open>Everything up to the allocation of the queue.\<close>

definition virtio_negotiate :: "'d mmio \<Rightarrow> 'd vst \<Rightarrow> (uint32 \<times> 'd vst) kres" where
  "virtio_negotiate io s =
     kguard (\<not> (reg_r io VIRTIO_MMIO_MAGIC_VALUE s \<noteq> 0x74726976 \<or>
        (reg_r io VIRTIO_MMIO_VERSION s \<noteq> 1 \<and> reg_r io VIRTIO_MMIO_VERSION s \<noteq> 2) \<or>
        reg_r io VIRTIO_MMIO_DEVICE_ID s \<noteq> 2 \<or> reg_r io VIRTIO_MMIO_VENDOR_ID s \<noteq> 0x554d4551))
       (Panic ''could not find virtio disk'')
     (let status = 0;
          s = reg_w io VIRTIO_MMIO_STATUS status s;
          status = status OR VIRTIO_CONFIG_S_ACKNOWLEDGE;
          s = reg_w io VIRTIO_MMIO_STATUS status s;
          status = status OR VIRTIO_CONFIG_S_DRIVER;
          s = reg_w io VIRTIO_MMIO_STATUS status s;
          features = driver_features (ucast (reg_r io VIRTIO_MMIO_DEVICE_FEATURES s));
          s = reg_w io VIRTIO_MMIO_DRIVER_FEATURES (ucast features) s;
          status = status OR VIRTIO_CONFIG_S_FEATURES_OK;
          s = reg_w io VIRTIO_MMIO_STATUS status s;
          status = reg_r io VIRTIO_MMIO_STATUS s
      in kguard (\<not> status AND VIRTIO_CONFIG_S_FEATURES_OK = 0) (Panic ''virtio disk FEATURES_OK unset'')
         (let s = reg_w io VIRTIO_MMIO_QUEUE_SEL 0 s
          in kguard (reg_r io VIRTIO_MMIO_QUEUE_READY s = 0) (Panic ''virtio disk should not be ready'')
             (let max = reg_r io VIRTIO_MMIO_QUEUE_NUM_MAX s
              in kguard (\<not> max = 0) (Panic ''virtio disk has no queue 0'')
                 (kguard (\<not> max < of_nat NUM) (Panic ''virtio disk max queue too short'') (Inr (status, s))))))"

text \<open>The whole of \<^verbatim>\<open>virtio_disk_init\<close>; clearing the page clears the table and the rings in it.\<close>

definition virtio_disk_init :: "'d mmio \<Rightarrow> 'a pst_scheme \<Rightarrow> 'd vst \<Rightarrow> ('a pst_scheme \<times> 'd vst) kres" where
  "virtio_disk_init io p s =
     kbind (virtio_negotiate io s) (\<lambda>(status, s).
     kbind (pmem_alloc p) (\<lambda>(queue_mem, p).
     kguard (\<not> queue_mem = 0) (Panic ''virtio disk pmem_alloc'')
     (let p = p\<lparr>kmem := memset (kmem p) queue_mem 0 (of_nat PGSIZE)\<rparr>;
          s = s\<lparr>vdesc := (\<lambda>_. zero_desc), vavail := \<lparr>av_flags = 0, av_idx = 0, av_ring = (\<lambda>_. 0)\<rparr>,
                vused := \<lparr>us_flags = 0, us_idx = 0, us_ring = (\<lambda>_. \<lparr>ue_id = 0, ue_len = 0\<rparr>)\<rparr>\<rparr>;
          avail_end = queue_mem + of_nat NUM * SIZEOF_DESC + SIZEOF_AVAIL;
          used_addr = (avail_end + VRING_ALIGN - 1) AND NOT (VRING_ALIGN - 1);
          s = s\<lparr>vqueue := queue_mem, vused_addr := used_addr\<rparr>
      in kguard (\<not> used_addr + SIZEOF_USED > queue_mem + of_nat PGSIZE) (Panic ''virtio ring too large'')
         (let s = reg_w io VIRTIO_MMIO_GUEST_PAGE_SIZE (of_nat PGSIZE) s;
              s = reg_w io VIRTIO_MMIO_QUEUE_ALIGN (ucast VRING_ALIGN) s;
              s = reg_w io VIRTIO_MMIO_QUEUE_NUM (of_nat NUM) s;
              s = reg_w io VIRTIO_MMIO_QUEUE_PFN (ucast (drop_bit 12 queue_mem)) s;
              s = reg_w io VIRTIO_MMIO_QUEUE_READY 1 s;
              s = fold (\<lambda>i s. s\<lparr>vfree := (vfree s)(i := True)\<rparr>) [0..<NUM] s;
              status = status OR VIRTIO_CONFIG_S_DRIVER_OK
          in Inr (p, reg_w io VIRTIO_MMIO_STATUS status s)))))"

text \<open>The whole of \<^verbatim>\<open>bio_init\<close>.\<close>

definition bio_init_disk :: "'d mmio \<Rightarrow> 'a pst_scheme \<Rightarrow> 'd vst \<Rightarrow> ('a pst_scheme \<times> 'd vst) kres" where
  "bio_init_disk io p s = virtio_disk_init io p (bio_init s)"

section \<open>Descriptors\<close>

text \<open>\<^verbatim>\<open>alloc_desc\<close> from index \<open>i\<close> with \<open>k\<close> descriptors left.\<close>

fun alloc_desc_loop :: "nat \<Rightarrow> nat \<Rightarrow> 'd vst \<Rightarrow> int \<times> 'd vst" where
  "alloc_desc_loop 0 i s = (-1, s)"
| "alloc_desc_loop (Suc k) i s =
     (if vfree s i then (int i, s\<lparr>vfree := (vfree s)(i := False)\<rparr>) else alloc_desc_loop k (Suc i) s)"

definition alloc_desc :: "'d vst \<Rightarrow> int \<times> 'd vst" where
  "alloc_desc s = alloc_desc_loop NUM 0 s"

definition free_desc :: "int \<Rightarrow> 'd vst \<Rightarrow> 'd vst kres" where
  "free_desc i s =
     kguard (\<not> i \<ge> int NUM) (Panic ''free_desc 1'')
     (kguard (\<not> i < 0) (Undef ''free_desc'')
     (kguard (\<not> vfree s (nat i)) (Panic ''free_desc 2'')
       (Inr (s\<lparr>vdesc := (vdesc s)(nat i := zero_desc), vfree := (vfree s)(nat i := True)\<rparr>))))"

lemma free_desc_Inr:
  "free_desc i s = Inr t \<longleftrightarrow> 0 \<le> i \<and> i < int NUM \<and> \<not> vfree s (nat i) \<and>
     t = s\<lparr>vdesc := (vdesc s)(nat i := zero_desc), vfree := (vfree s)(nat i := True)\<rparr>"
  by (auto simp: free_desc_def kguard_def)

definition taken :: "'d vst \<Rightarrow> nat set" where
  "taken s = {j. j < NUM \<and> \<not> vfree s j}"

lemma free_desc_taken: "free_desc i s = Inr t \<Longrightarrow> card (taken t) < card (taken s)"
proof -
  assume "free_desc i s = Inr t"
  then have "nat i \<in> taken s" "taken t = taken s - {nat i}" by (auto simp: free_desc_Inr taken_def)
  moreover have "finite (taken s)" by (simp add: taken_def)
  ultimately show ?thesis by (metis card_Diff1_less)
qed

text \<open>\<^verbatim>\<open>free_chain\<close>: every round frees a descriptor that was taken, so the loop ends.\<close>

function free_chain :: "int \<Rightarrow> 'd vst \<Rightarrow> 'd vst kres" where
  "free_chain i s =
     (let flag = d_flags (vdesc s (nat i)); nx = int (unat (d_next (vdesc s (nat i))))
      in kbind (free_desc i s) (\<lambda>s. if flag AND VRING_DESC_F_NEXT \<noteq> 0 then free_chain nx s else Inr s))"
  by pat_completeness auto
termination
proof (relation "measure (\<lambda>(i, s). card (taken s))", goal_cases)
  case 1
  then show ?case by simp
next
  case (2 i s flag nx t)
  show ?case using free_desc_taken [OF 2(3)] by (simp add: taken_def)
qed

declare free_chain.simps [simp del]

text \<open>\<^verbatim>\<open>alloc3_desc\<close>: three descriptors, or none.\<close>

definition alloc3_desc :: "'d vst \<Rightarrow> ((int \<times> int \<times> int) option \<times> 'd vst) kres" where
  "alloc3_desc s =
     (let (i0, s) = alloc_desc s
      in if i0 < 0 then Inr (None, s)
         else let (i1, s) = alloc_desc s
              in if i1 < 0 then kbind (free_desc i0 s) (\<lambda>s. Inr (None, s))
                 else let (i2, s) = alloc_desc s
                      in if i2 < 0 then kbind (free_desc i0 s) (\<lambda>s. kbind (free_desc i1 s) (\<lambda>s. Inr (None, s)))
                         else Inr (Some (i0, i1, i2), s))"

section \<open>Requests\<close>

definition set_avail :: "(virtq_avail \<Rightarrow> virtq_avail) \<Rightarrow> 'd vst \<Rightarrow> 'd vst" where
  "set_avail f s = s\<lparr>vavail := f (vavail s)\<rparr>"

text \<open>One entry of the used ring: \<^verbatim>\<open>disk.info[id]\<close> outside the array is undefined.\<close>

definition process_one :: "'d vst \<Rightarrow> 'd vst kres" where
  "process_one s =
     (let id = to_int (ue_id (us_ring (vused s) (unat (vused_idx s) mod NUM)))
      in kguard (0 \<le> id \<and> id < int NUM) (Undef ''virtio_disk_process_used'')
         (kguard (\<not> info_status s (nat id) \<noteq> 0) (Panic ''virtio_disk status'')
          (let s = (case info_b s (nat id) of None \<Rightarrow> s | Some b \<Rightarrow> upd_buf b (\<lambda>c. c\<lparr>bdisk := False\<rparr>) s)
           in Inr (s\<lparr>vused_idx := vused_idx s + 1\<rparr>))))"

lemma process_one_Inr: "process_one s = Inr t \<Longrightarrow> vused t = vused s \<and> vused_idx t = vused_idx s + 1"
  by (auto simp: process_one_def kguard_Inr_iff Let_def upd_buf_def split: option.splits)

lemma unat_pred_less: "x \<noteq> y \<Longrightarrow> unat (y - (x + 1)) < unat (y - x)" for x y :: "'a::len word"
proof -
  assume "x \<noteq> y"
  then have "y - x \<noteq> 0" by simp
  then have "unat (y - x - 1) < unat (y - x)" by (simp add: measure_unat)
  then show ?thesis by (simp add: diff_diff_eq)
qed

function virtio_disk_process_used :: "'d vst \<Rightarrow> 'd vst kres" where
  "virtio_disk_process_used s =
     (if vused_idx s \<noteq> us_idx (vused s) then kbind (process_one s) virtio_disk_process_used else Inr s)"
  by pat_completeness auto
termination
proof (relation "measure (\<lambda>s. unat (us_idx (vused s) - vused_idx s))", goal_cases)
  case 1
  then show ?case by simp
next
  case (2 s t)
  then show ?case using process_one_Inr [of s t] unat_pred_less [of "vused_idx s" "us_idx (vused s)"] by simp
qed

declare virtio_disk_process_used.simps [simp del]

text \<open>The two polling loops; between two polls the device runs.\<close>

fun alloc3_wait :: "nat \<Rightarrow> ('d vst \<Rightarrow> 'd vst) \<Rightarrow> 'd vst \<Rightarrow> ((int \<times> int \<times> int) \<times> 'd vst) kres" where
  "alloc3_wait 0 dev s = Inl (Spin ''virtio_disk_rw'')"
| "alloc3_wait (Suc fuel) dev s =
     kbind (alloc3_desc s) (\<lambda>(r, s).
     case r of
       Some idx \<Rightarrow> Inr (idx, s)
     | None \<Rightarrow> kbind (virtio_disk_process_used (dev s)) (alloc3_wait fuel dev))"

fun disk_wait :: "nat \<Rightarrow> ('d vst \<Rightarrow> 'd vst) \<Rightarrow> nat \<Rightarrow> 'd vst \<Rightarrow> 'd vst kres" where
  "disk_wait 0 dev b s = Inl (Spin ''virtio_disk_rw'')"
| "disk_wait (Suc fuel) dev b s =
     (if bdisk (bufs s b) then kbind (virtio_disk_process_used (dev s)) (disk_wait fuel dev b) else Inr s)"

definition set_desc :: "nat \<Rightarrow> virtq_desc \<Rightarrow> 'd vst \<Rightarrow> 'd vst" where
  "set_desc i d s = s\<lparr>vdesc := (vdesc s)(i := d)\<rparr>"

text \<open>The chain of three descriptors, its entry in the available ring and the notification.\<close>

definition submit :: "'d mmio \<Rightarrow> nat \<Rightarrow> bool \<Rightarrow> nat \<Rightarrow> nat \<Rightarrow> nat \<Rightarrow> 'd vst \<Rightarrow> 'd vst" where
  "submit io b write i0 i1 i2 s =
     (let sector = blockno (bufs s b) * of_nat (BSIZE div 512);
          s = s\<lparr>vops := (vops s)(i0 := \<lparr>rq_type = (if write then VIRTIO_BLK_T_OUT else VIRTIO_BLK_T_IN), rq_reserved = 0,
                rq_sector = sector\<rparr>)\<rparr>;
          s = set_desc i0 \<lparr>d_addr = ops_addr s i0, d_len = SIZEOF_REQ, d_flags = VRING_DESC_F_NEXT, d_next = of_nat i1\<rparr> s;
          s = set_desc i1 \<lparr>d_addr = data_addr s b, d_len = of_nat BSIZE,
                d_flags = (if write then 0 else VRING_DESC_F_WRITE) OR VRING_DESC_F_NEXT, d_next = of_nat i2\<rparr> s;
          s = s\<lparr>info_status := (info_status s)(i0 := 0xff)\<rparr>;
          s = set_desc i2 \<lparr>d_addr = status_addr s i0, d_len = 1, d_flags = VRING_DESC_F_WRITE, d_next = 0\<rparr> s;
          s = upd_buf b (\<lambda>c. c\<lparr>bdisk := True\<rparr>) s;
          s = s\<lparr>info_b := (info_b s)(i0 := Some b)\<rparr>;
          s = set_avail (\<lambda>a. a\<lparr>av_ring := (av_ring a)(unat (av_idx a) mod NUM := of_nat i0)\<rparr>) s;
          s = set_avail (\<lambda>a. a\<lparr>av_idx := av_idx a + 1\<rparr>) s
      in reg_w io VIRTIO_MMIO_QUEUE_NOTIFY 0 s)"

definition virtio_disk_rw :: "nat \<Rightarrow> 'd mmio \<Rightarrow> ('d vst \<Rightarrow> 'd vst) \<Rightarrow> nat \<Rightarrow> bool \<Rightarrow> 'd vst \<Rightarrow> 'd vst kres" where
  "virtio_disk_rw fuel io dev b write s =
     kbind (alloc3_wait fuel dev s) (\<lambda>((i0, i1, i2), s).
     kbind (disk_wait fuel dev b (submit io b write (nat i0) (nat i1) (nat i2) s)) (\<lambda>s.
     free_chain i0 (s\<lparr>info_b := (info_b s)(nat i0 := None)\<rparr>)))"

definition virtio_disk_intr :: "'d mmio \<Rightarrow> 'd vst \<Rightarrow> 'd vst kres" where
  "virtio_disk_intr io s =
     (let irq_status = reg_r io VIRTIO_MMIO_INTERRUPT_STATUS s AND 3;
          s = (if irq_status \<noteq> 0 then reg_w io VIRTIO_MMIO_INTERRUPT_ACK irq_status s else s)
      in virtio_disk_process_used s)"

section \<open>What the device does\<close>

text \<open>A device resolves the addresses in the descriptors. \<open>serve\<close> is the request that the last entry of
  the available ring names, as the specification describes it: a header that the device reads, a
  buffer that it writes for a read of the disk and reads for a write, a status byte that it writes,
  and an entry in the used ring. Sectors have 512 bytes.\<close>

definition at_addr :: "(nat \<Rightarrow> uint64) \<Rightarrow> nat \<Rightarrow> uint64 \<Rightarrow> nat option" where
  "at_addr f n a = find (\<lambda>k. f k = a) [0..<n]"

definition disk_byte :: "'a bio_scheme \<Rightarrow> nat \<Rightarrow> uint8" where
  "disk_byte s n = dsk s (of_nat (n div BSIZE)) (n mod BSIZE)"

definition transfer :: "nat \<Rightarrow> bool \<Rightarrow> nat \<Rightarrow> nat \<Rightarrow> 'a bio_scheme \<Rightarrow> 'a bio_scheme" where
  "transfer b out start len s =
     (if out then
        s\<lparr>dsk := (\<lambda>c i. let n = unat c * BSIZE + i in if i < BSIZE \<and> start \<le> n \<and> n < start + len
            then bdata (bufs s b) (n - start) else dsk s c i),
          dwrites := dwrites s @ [(of_nat (start div BSIZE), bdata (bufs s b))]\<rparr>
      else upd_buf b (\<lambda>c. c\<lparr>bdata := (\<lambda>i. if i < len then disk_byte s (start + i) else bdata c i)\<rparr>) s)"

definition serve :: "'d vst \<Rightarrow> 'd vst option" where
  "serve s =
     (let h = unat (av_ring (vavail s) (unat (av_idx (vavail s) - 1) mod NUM));
          d0 = vdesc s h; d1 = vdesc s (unat (d_next d0)); d2 = vdesc s (unat (d_next d1))
      in case (at_addr (ops_addr s) NUM (d_addr d0), at_addr (data_addr s) NBUF (d_addr d1),
               at_addr (status_addr s) NUM (d_addr d2)) of
           (Some k, Some b, Some j) \<Rightarrow>
             let out = (rq_type (vops s k) = VIRTIO_BLK_T_OUT)
             in if d_flags d0 = VRING_DESC_F_NEXT \<and> d_len d0 = SIZEOF_REQ \<and> d_flags d2 = VRING_DESC_F_WRITE \<and> d_len d2 = 1 \<and>
                   d_flags d1 = (if out then VRING_DESC_F_NEXT else VRING_DESC_F_WRITE OR VRING_DESC_F_NEXT)
                then let t = transfer b out (512 * unat (rq_sector (vops s k))) (unat (d_len d1)) s
                     in Some (t\<lparr>info_status := (info_status t)(j := 0),
                          vused := (vused t)\<lparr>us_idx := us_idx (vused t) + 1, us_ring := (us_ring (vused t))
                            (unat (us_idx (vused t)) mod NUM := \<lparr>ue_id = of_nat h, ue_len = d_len d1\<rparr>)\<rparr>\<rparr>)
                else None
         | _ \<Rightarrow> None)"

text \<open>What the specification promises: a device that has been notified (by a write to \<^verbatim>\<open>QUEUE_NOTIFY\<close>) when the available ring had one
  entry more than the used ring serves that request. It may take any number of polls, and until then it changes only itself.
  Nothing is promised of a device that has not been notified.\<close>

definition virtio_device :: "'d mmio \<Rightarrow> ('d vst \<Rightarrow> 'd vst) \<Rightarrow> bool" where
  "virtio_device io dev \<longleftrightarrow>
     (\<forall>s t. av_idx (vavail s) = us_idx (vused s) + 1 \<longrightarrow> serve s = Some t \<longrightarrow>
        (\<exists>n. (\<forall>k < n. \<exists>x. (dev ^^ Suc k) (reg_w io VIRTIO_MMIO_QUEUE_NOTIFY 0 s) = s\<lparr>vdev := x\<rparr>) \<and>
           (\<exists>x. (dev ^^ Suc n) (reg_w io VIRTIO_MMIO_QUEUE_NOTIFY 0 s) = t\<lparr>vdev := x\<rparr>)))"

section \<open>Requests are served\<close>

text \<open>The driver with no request under way.\<close>

definition vq_idle :: "'d vst \<Rightarrow> bool" where
  "vq_idle s \<longleftrightarrow> (\<forall>i < NUM. vfree s i \<and> info_b s i = None) \<and>
     vused_idx s = us_idx (vused s) \<and> av_idx (vavail s) = us_idx (vused s)"

lemma reg_w_simps [simp]:
  "vfree (reg_w io r v s) = vfree s" "vused (reg_w io r v s) = vused s" "vavail (reg_w io r v s) = vavail s"
  "vused_idx (reg_w io r v s) = vused_idx s" "info_b (reg_w io r v s) = info_b s"
  by (simp_all add: reg_w_def)

text \<open>The driver starts idle: its static variables are zero when the kernel is loaded.\<close>

lemma virtio_init_idle:
  assumes "virtio_disk_init io p s = Inr (q, t)" and "vused_idx s = 0" "\<And>i. info_b s i = None"
  shows "vq_idle t"
proof -
  obtain st u where u: "virtio_negotiate io s = Inr (st, u)"
    using assms(1) by (auto simp: virtio_disk_init_def elim: kbind_InrE)
  then have "vused_idx u = 0" "info_b u = info_b s"
    using assms(2) by (auto simp: virtio_negotiate_def kguard_Inr_iff Let_def)
  then show ?thesis
    using assms u by (auto simp: virtio_disk_init_def kbind_Inr_iff kguard_Inr_iff Let_def vq_idle_def NUM_def upt_rec numeral_eq_Suc less_Suc_eq)
qed

text \<open>So \<^verbatim>\<open>bio_init\<close> leaves an idle driver behind.\<close>

lemma bio_init_disk_idle:
  assumes "bio_init_disk io p s = Inr (q, t)" and "vused_idx s = 0" "\<And>i. info_b s i = None"
  shows "vq_idle t"
  using assms by (intro virtio_init_idle [of io p "bio_init s" q]) (simp_all add: bio_init_disk_def bio_init_def Let_def)

text \<open>Buffers and disk as far as their bytes inside a block go.\<close>

definition bytes_of :: "block \<Rightarrow> uint8 list" where
  "bytes_of d = map d [0..<BSIZE]"

definition buf_view :: "buf \<Rightarrow> bool \<times> bool \<times> uint64 \<times> uint64 \<times> uint64 \<times> nat \<times> nat \<times> uint8 list" where
  "buf_view c = (valid c, bdisk c, bdev c, blockno c, refcnt c, prev c, nxt c, bytes_of (bdata c))"

definition disk_view :: "'a bio_scheme \<Rightarrow> (nat \<Rightarrow> bool \<times> bool \<times> uint64 \<times> uint64 \<times> uint64 \<times> nat \<times> nat \<times> uint8 list) \<times>
    (uint64 \<Rightarrow> uint8 list) \<times> (uint64 \<times> uint8 list) list" where
  "disk_view s = (\<lambda>b. buf_view (bufs s b), \<lambda>c. bytes_of (dsk s c), map (\<lambda>(c, d). (c, bytes_of d)) (dwrites s))"

definition addrs_ok :: "'d vst \<Rightarrow> bool" where
  "addrs_ok s \<longleftrightarrow> inj_on (ops_addr s) {..<NUM} \<and> inj_on (data_addr s) {..<NBUF} \<and> inj_on (status_addr s) {..<NUM}"

lemma at_addr_inj: "inj_on f {..<n} \<Longrightarrow> k < n \<Longrightarrow> at_addr f n (f k) = Some k"
  unfolding at_addr_def find_Some_iff by (intro exI [of _ k]) (auto dest: inj_onD)

lemma alloc3_idle:
  assumes "vq_idle s"
  shows "alloc3_wait (Suc n) dev s = Inr ((0, 1, 2), s\<lparr>vfree := (vfree s)(0 := False, 1 := False, 2 := False)\<rparr>)"
  using assms by (simp add: alloc3_desc_def alloc_desc_def vq_idle_def NUM_def eval_nat_numeral)

lemma transfer_frame [simp]:
  fixes s :: "'d vst"
  shows "vused (transfer b w n l s) = vused s" "vdesc (transfer b w n l s) = vdesc s" "vfree (transfer b w n l s) = vfree s"
    "vused_idx (transfer b w n l s) = vused_idx s" "info_b (transfer b w n l s) = info_b s"
    "vavail (transfer b w n l s) = vavail s" "bdisk (bufs (transfer b w n l s) c) = bdisk (bufs s c)"
  by (simp_all add: transfer_def upd_buf_def)

lemma transfer_block:
  assumes "unat (blockno (bufs s b)) < 2 ^ 54"
  shows "disk_view (transfer b out (512 * unat (blockno (bufs s b) * of_nat (BSIZE div 512))) BSIZE s) = disk_view (disk_rw b out s)"
proof -
  let ?c = "blockno (bufs s b)"
  have "unat (?c * of_nat (BSIZE div 512)) = unat ?c * 2"
    using assms by (simp add: unat_word_ariths BSIZE_def)
  then have st: "512 * unat (?c * of_nat (BSIZE div 512)) = unat ?c * BSIZE" by (simp add: BSIZE_def)
  have w: "unat ?c * BSIZE \<le> unat c * BSIZE + i \<and> unat c * BSIZE + i < unat ?c * BSIZE + BSIZE \<longleftrightarrow> c = ?c"
    if "i < BSIZE" for c :: uint64 and i
  proof
    assume h: "unat ?c * BSIZE \<le> unat c * BSIZE + i \<and> unat c * BSIZE + i < unat ?c * BSIZE + BSIZE"
    then have "unat c = unat ?c" using that by (auto simp: BSIZE_def)
    then show "c = ?c" by (simp only: word_unat_eq_iff)
  qed (use that in simp)
  have "BSIZE \<noteq> 0" by (simp add: BSIZE_def)
  then show ?thesis unfolding st
    by (auto simp: transfer_def disk_rw_def disk_view_def buf_view_def bytes_of_def upd_buf_def disk_byte_def fun_eq_iff Let_def w
      simp del: mult_Suc)
qed


lemma bytes_view:
  "disk_view s = disk_view t \<longleftrightarrow> (\<forall>b. buf_view (bufs s b) = buf_view (bufs t b)) \<and>
     (\<forall>c. bytes_of (dsk s c) = bytes_of (dsk t c)) \<and>
     map (\<lambda>(c, d). (c, bytes_of d)) (dwrites s) = map (\<lambda>(c, d). (c, bytes_of d)) (dwrites t)"
  by (simp add: disk_view_def fun_eq_iff)

lemma process_used_same: "vused_idx s = us_idx (vused s) \<Longrightarrow> virtio_disk_process_used s = Inr s"
  by (simp add: virtio_disk_process_used.simps)

text \<open>Polls before the device has served the request change nothing.\<close>

lemma disk_wait_idle:
  assumes "\<forall>k < n. \<exists>x. (dev ^^ Suc k) s = s\<lparr>vdev := x\<rparr>" and "bdisk (bufs s b)" and "vused_idx s = us_idx (vused s)"
  shows "disk_wait (n + m) dev b s = disk_wait m dev b ((dev ^^ n) s)"
  using assms(1)
proof (induction n arbitrary: m)
  case 0
  then show ?case by simp
next
  case (Suc n)
  have e: "\<exists>x. (dev ^^ k) s = s\<lparr>vdev := x\<rparr>" if "k \<le> Suc n" for k
  proof (cases k)
    case 0
    then show ?thesis by (intro exI [of _ "vdev s"]) simp
  next
    case (Suc j)
    then show ?thesis using Suc.prems that by simp
  qed
  obtain x y where x: "(dev ^^ n) s = s\<lparr>vdev := x\<rparr>" and y: "(dev ^^ Suc n) s = s\<lparr>vdev := y\<rparr>"
    using e [OF le_SucI [OF order_refl]] e [OF order_refl] by blast
  have "disk_wait (n + Suc m) dev b s = disk_wait (Suc m) dev b ((dev ^^ n) s)"
    using Suc.prems by (intro Suc.IH) simp
  also have "\<dots> = disk_wait m dev b ((dev ^^ Suc n) s)"
    using x y assms(2,3) by (simp add: process_used_same)
  finally show ?case by simp
qed

text \<open>What the driver has handed to the device, and the request the device makes of it.\<close>

lemma serve_submit:
  fixes io :: "'d mmio" and w :: bool and s :: "'d vst"
  assumes i: "vq_idle s" and a: "addrs_ok s" and b: "b < NBUF"
  defines "r \<equiv> s\<lparr>vfree := (vfree s)(0 := False, 1 := False, 2 := False)\<rparr>"
  defines "u \<equiv> submit io b w 0 1 2 r"
  defines "t \<equiv> transfer b w (512 * unat (blockno (bufs s b) * of_nat (BSIZE div 512))) BSIZE u"
  shows "serve u = Some (t\<lparr>info_status := (info_status t)(0 := 0),
      vused := (vused s)\<lparr>us_idx := us_idx (vused s) + 1, us_ring := (us_ring (vused s))
        (unat (us_idx (vused s)) mod NUM := \<lparr>ue_id = 0, ue_len = of_nat BSIZE\<rparr>)\<rparr>\<rparr>)"
proof -
  have n: "unat (av_ring (vavail u) (unat (av_idx (vavail u) - 1) mod NUM)) = 0"
    by (simp add: u_def submit_def reg_w_def set_avail_def Let_def set_desc_def upd_buf_def r_def)
  have "vdesc u 0 = \<lparr>d_addr = ops_addr s 0, d_len = SIZEOF_REQ, d_flags = VRING_DESC_F_NEXT, d_next = 1\<rparr>"
    "vdesc u 1 = \<lparr>d_addr = data_addr s b, d_len = of_nat BSIZE,
       d_flags = (if w then 0 else VRING_DESC_F_WRITE) OR VRING_DESC_F_NEXT, d_next = 2\<rparr>"
    "vdesc u 2 = \<lparr>d_addr = status_addr s 0, d_len = 1, d_flags = VRING_DESC_F_WRITE, d_next = 0\<rparr>"
    "vops u 0 = \<lparr>rq_type = (if w then VIRTIO_BLK_T_OUT else VIRTIO_BLK_T_IN), rq_reserved = 0,
       rq_sector = blockno (bufs s b) * of_nat (BSIZE div 512)\<rparr>"
    "ops_addr u = ops_addr s" "data_addr u = data_addr s" "status_addr u = status_addr s" "vused u = vused s"
    by (simp_all add: u_def submit_def reg_w_def set_avail_def Let_def set_desc_def upd_buf_def r_def)
  note f = this
  have at: "at_addr (ops_addr s) NUM (ops_addr s 0) = Some 0" "at_addr (data_addr s) NBUF (data_addr s b) = Some b"
    "at_addr (status_addr s) NUM (status_addr s 0) = Some 0"
    using a b by (auto simp: addrs_ok_def NUM_def intro!: at_addr_inj)
  have z: "unat (of_nat BSIZE :: uint32) = BSIZE" by (simp add: BSIZE_def)
  show ?thesis
    unfolding serve_def Let_def n
    by (cases w) (simp_all add: f [unfolded One_nat_def] at t_def z VIRTIO_BLK_T_IN_def VIRTIO_BLK_T_OUT_def)
qed


text \<open>The poll in which the device serves the request clears \<^verbatim>\<open>b->disk\<close>.\<close>

lemma process_served:
  assumes "vused_idx t = i" and "us_idx (vused t) = i + 1" and "ue_id (us_ring (vused t) (unat i mod NUM)) = 0"
    and "info_status t 0 = 0" and "info_b t 0 = Some b"
  shows "virtio_disk_process_used t = Inr (upd_buf b (\<lambda>c. c\<lparr>bdisk := False\<rparr>) t\<lparr>vused_idx := i + 1\<rparr>)"
proof -
  have z: "to_int (0 :: uint32) = 0" by (simp add: to_int_def)
  have "process_one t = Inr (upd_buf b (\<lambda>c. c\<lparr>bdisk := False\<rparr>) t\<lparr>vused_idx := i + 1\<rparr>)"
    using assms by (simp add: process_one_def Let_def NUM_def upd_buf_def z)
  then show ?thesis
    using assms(1,2) by (simp add: virtio_disk_process_used.simps [of t] process_used_same upd_buf_def)
qed

lemma free_chain_three:
  assumes d: "d_flags (vdesc s 0) = VRING_DESC_F_NEXT" "d_next (vdesc s 0) = 1"
    "d_flags (vdesc s 1) AND VRING_DESC_F_NEXT \<noteq> 0" "d_next (vdesc s 1) = 2"
    "d_flags (vdesc s 2) = VRING_DESC_F_WRITE" and f: "\<not> vfree s 0" "\<not> vfree s 1" "\<not> vfree s 2"
  shows "free_chain 0 s = Inr (s\<lparr>vdesc := (vdesc s)(0 := zero_desc, 1 := zero_desc, 2 := zero_desc),
    vfree := (vfree s)(0 := True, 1 := True, 2 := True)\<rparr>)"
  using assms
  by (simp add: free_chain.simps [of 0] free_chain.simps [of 1] free_chain.simps [of 2] free_desc_def NUM_def
      VRING_DESC_F_NEXT_def VRING_DESC_F_WRITE_def)

lemma transfer_bdisk:
  assumes "bufs u = (bufs s)(b := (bufs s b)\<lparr>bdisk := True\<rparr>)" "dsk u = dsk s" "dwrites u = dwrites s" "\<not> bdisk (bufs s b)"
  shows "disk_view (upd_buf b (\<lambda>c. c\<lparr>bdisk := False\<rparr>) (transfer b w n l u)) = disk_view (transfer b w n l s)"
  unfolding bytes_view using assms by (simp add: transfer_def buf_view_def upd_buf_def disk_byte_def Let_def cong: if_cong)

lemma submit_simps:
  "bufs (submit io b w i0 i1 i2 s) = (bufs s)(b := (bufs s b)\<lparr>bdisk := True\<rparr>)"
  "dsk (submit io b w i0 i1 i2 s) = dsk s" "dwrites (submit io b w i0 i1 i2 s) = dwrites s"
  "vused (submit io b w i0 i1 i2 s) = vused s" "vused_idx (submit io b w i0 i1 i2 s) = vused_idx s"
  "vfree (submit io b w i0 i1 i2 s) = vfree s" "info_b (submit io b w i0 i1 i2 s) = (info_b s)(i0 := Some b)"
  "av_idx (vavail (submit io b w i0 i1 i2 s)) = av_idx (vavail s) + 1"
  "ops_addr (submit io b w i0 i1 i2 s) = ops_addr s" "data_addr (submit io b w i0 i1 i2 s) = data_addr s"
  "status_addr (submit io b w i0 i1 i2 s) = status_addr s"
  by (simp_all add: submit_def reg_w_def set_avail_def Let_def set_desc_def upd_buf_def)

lemma submit_desc:
  "d_flags (vdesc (submit io b w 0 1 2 s) 0) = VRING_DESC_F_NEXT" "d_next (vdesc (submit io b w 0 1 2 s) 0) = 1"
  "d_flags (vdesc (submit io b w 0 1 2 s) 1) AND VRING_DESC_F_NEXT \<noteq> 0" "d_next (vdesc (submit io b w 0 1 2 s) 1) = 2"
  "d_flags (vdesc (submit io b w 0 1 2 s) 2) = VRING_DESC_F_WRITE"
  by (simp_all add: submit_def reg_w_def set_avail_def Let_def set_desc_def upd_buf_def VRING_DESC_F_NEXT_def VRING_DESC_F_WRITE_def)

lemma transfer_vdev: "transfer b w n l (s\<lparr>vdev := x\<rparr>) = (transfer b w n l s)\<lparr>vdev := x\<rparr>"
  by (cases s) (simp add: transfer_def upd_buf_def disk_byte_def Let_def cong: if_cong)

lemma serve_vdev: "serve (s\<lparr>vdev := x\<rparr>) = map_option (\<lambda>t. t\<lparr>vdev := x\<rparr>) (serve s)"
  by (auto simp: serve_def Let_def transfer_vdev split: option.splits)

lemma submit_notifies:
  "submit io b w i0 i1 i2 s = reg_w io VIRTIO_MMIO_QUEUE_NOTIFY 0 ((submit io b w i0 i1 i2 s)\<lparr>vdev := vdev s\<rparr>)"
  by (simp add: submit_def reg_w_def set_avail_def Let_def set_desc_def upd_buf_def)

text \<open>The wait: the request is served, and \<^verbatim>\<open>b->disk\<close> is the only field of the buffer that the driver touches.\<close>

lemma disk_wait_served:
  fixes s :: "'d vst"
  assumes dev: "virtio_device io dev" and nt: "u = reg_w io VIRTIO_MMIO_QUEUE_NOTIFY 0 (u\<lparr>vdev := y\<rparr>)" and vu: "vused u = vu" and i: "vused_idx u = us_idx vu" "av_idx (vavail u) = us_idx vu + 1"
    and d: "bdisk (bufs u b)" "info_b u 0 = Some b" and t: "serve u = Some (t\<lparr>info_status := (info_status t)(0 := 0),
      vused := vu\<lparr>us_idx := us_idx vu + 1, us_ring := (us_ring vu)
        (unat (us_idx vu) mod NUM := \<lparr>ue_id = 0, ue_len = l\<rparr>)\<rparr>\<rparr>)"
    and tu: "vused_idx t = vused_idx u" "info_b t = info_b u"
  shows "\<exists>n x. \<forall>m. disk_wait (n + Suc (Suc m)) dev b u =
     Inr (upd_buf b (\<lambda>c. c\<lparr>bdisk := False\<rparr>) t\<lparr>info_status := (info_status t)(0 := 0), vused_idx := us_idx vu + 1,
       vused := vu\<lparr>us_idx := us_idx vu + 1, us_ring := (us_ring vu)
        (unat (us_idx vu) mod NUM := \<lparr>ue_id = 0, ue_len = l\<rparr>)\<rparr>, vdev := x\<rparr>)"
proof -
  let ?t = "t\<lparr>info_status := (info_status t)(0 := 0), vused := vu\<lparr>us_idx := us_idx vu + 1, us_ring := (us_ring vu)
        (unat (us_idx vu) mod NUM := \<lparr>ue_id = 0, ue_len = l\<rparr>)\<rparr>\<rparr>"
  obtain n x where n: "\<forall>k < n. \<exists>x. (dev ^^ Suc k) u = u\<lparr>vdev := x\<rparr>" "(dev ^^ Suc n) u = ?t\<lparr>vdev := x\<rparr>"
  proof -
    have "av_idx (vavail (u\<lparr>vdev := y\<rparr>)) = us_idx (vused (u\<lparr>vdev := y\<rparr>)) + 1" "serve (u\<lparr>vdev := y\<rparr>) = Some (?t\<lparr>vdev := y\<rparr>)"
      using i(2) vu t by (simp_all add: serve_vdev)
    then obtain n x where n: "\<forall>k < n. \<exists>x. (dev ^^ Suc k) (reg_w io VIRTIO_MMIO_QUEUE_NOTIFY 0 (u\<lparr>vdev := y\<rparr>)) = u\<lparr>vdev := y\<rparr>\<lparr>vdev := x\<rparr>"
      "(dev ^^ Suc n) (reg_w io VIRTIO_MMIO_QUEUE_NOTIFY 0 (u\<lparr>vdev := y\<rparr>)) = ?t\<lparr>vdev := y\<rparr>\<lparr>vdev := x\<rparr>"
      using dev unfolding virtio_device_def by blast
    then show thesis unfolding nt [symmetric] by (intro that [of n x]) simp_all
  qed
  have b: "bdisk (bufs ((dev ^^ n) u) b)"
  proof (cases n)
    case (Suc k)
    then obtain y where "(dev ^^ n) u = u\<lparr>vdev := y\<rparr>" using n(1) by auto
    then show ?thesis using d(1) by simp
  qed (use d in simp)
  have p: "virtio_disk_process_used (?t\<lparr>vdev := x\<rparr>) =
      Inr (upd_buf b (\<lambda>c. c\<lparr>bdisk := False\<rparr>) (?t\<lparr>vdev := x\<rparr>)\<lparr>vused_idx := us_idx vu + 1\<rparr>)"
    using i d tu by (intro process_served) simp_all
  have "disk_wait (n + Suc (Suc m)) dev b u = Inr (upd_buf b (\<lambda>c. c\<lparr>bdisk := False\<rparr>) (?t\<lparr>vdev := x\<rparr>)\<lparr>vused_idx := us_idx vu + 1\<rparr>)" for m
    unfolding disk_wait_idle [OF n(1) d(1) i(1) [folded vu]] using b p n(2) by (simp add: upd_buf_def)
  then show ?thesis by (intro exI [of _ n] exI [of _ x]) (simp add: upd_buf_def)
qed

text \<open>\<^bold>\<open>C4\<close>: the disk driver implements the requests of the block cache. With an idle queue and a device that
  serves the requests it is notified of, as the VIRTIO specification asks, however many polls it takes, \<^verbatim>\<open>virtio_disk_rw\<close> returns, the bytes of all
  buffers, of the disk and of the writes it has seen are those after \<open>disk_rw\<close>, and the queue is idle again:
  every descriptor has been given back.\<close>

theorem virtio_disk_rw_refines:
  fixes s :: "'d vst"
  assumes i: "vq_idle s" and a: "addrs_ok s" and b: "b < NBUF" "\<not> bdisk (bufs s b)" "unat (blockno (bufs s b)) < 2 ^ 54"
    and dev: "virtio_device io dev"
  shows "\<exists>n t. (\<forall>m \<ge> n. virtio_disk_rw m io dev b w s = Inr t) \<and> disk_view t = disk_view (disk_rw b w s) \<and> vq_idle t \<and> addrs_ok t"
proof -
  let ?r = "s\<lparr>vfree := (vfree s)(0 := False, 1 := False, 2 := False)\<rparr>"
  let ?u = "submit io b w 0 1 2 ?r"
  let ?k = "512 * unat (blockno (bufs s b) * of_nat (BSIZE div 512))"
  let ?t = "transfer b w ?k BSIZE ?u"
  let ?us = "(vused s)\<lparr>us_idx := us_idx (vused s) + 1, us_ring := (us_ring (vused s))
      (unat (us_idx (vused s)) mod NUM := \<lparr>ue_id = 0, ue_len = of_nat BSIZE\<rparr>)\<rparr>"
  have q: "vused_idx s = us_idx (vused s)" "av_idx (vavail s) = us_idx (vused s)" using i by (simp_all add: vq_idle_def)
  obtain n x where n: "\<And>m. disk_wait (n + Suc (Suc m)) dev b ?u =
      Inr (upd_buf b (\<lambda>c. c\<lparr>bdisk := False\<rparr>) ?t\<lparr>info_status := (info_status ?t)(0 := 0), vused_idx := us_idx (vused s) + 1,
       vused := ?us, vdev := x\<rparr>)"
    using disk_wait_served [OF dev submit_notifies _ _ _ _ _ serve_submit [OF i a b(1), of io w]] q
    by (auto simp: submit_simps)
  let ?w = "upd_buf b (\<lambda>c. c\<lparr>bdisk := False\<rparr>) ?t\<lparr>info_status := (info_status ?t)(0 := 0), vused_idx := us_idx (vused s) + 1,
       vused := ?us, vdev := x, info_b := (info_b ?t)(0 := None)\<rparr>"
  let ?f = "?w\<lparr>vdesc := (vdesc ?w)(0 := zero_desc, 1 := zero_desc, 2 := zero_desc), vfree := (vfree ?w)(0 := True, 1 := True, 2 := True)\<rparr>"
  have "free_chain 0 ?w = Inr ?f"
    by (rule free_chain_three) (simp_all add: upd_buf_def submit_desc [unfolded One_nat_def] submit_simps)
  then have r: "virtio_disk_rw (n + Suc (Suc m)) io dev b w s = Inr ?f" for m
    unfolding virtio_disk_rw_def add_Suc_right alloc3_idle [OF i] using n [of m]
    by (simp add: upd_buf_def del: disk_wait.simps)
  have "virtio_disk_rw m io dev b w s = Inr ?f" if "m \<ge> n + 2" for m
  proof -
    have "\<exists>k. m = n + 2 + k" using that by (rule le_Suc_ex)
    then obtain k where "m = n + Suc (Suc k)" by auto
    then show ?thesis using r [of k] by simp
  qed
  moreover have "disk_view ?f = disk_view (disk_rw b w s)"
    using transfer_bdisk [of ?u s b w ?k BSIZE] transfer_block [OF b(3), of w] b(2)
    by (simp add: submit_simps disk_view_def upd_buf_def)
  moreover have "vq_idle ?f" "addrs_ok ?f"
    using i a by (auto simp: vq_idle_def addrs_ok_def submit_simps transfer_def upd_buf_def)
  ultimately show ?thesis by blast
qed

text \<open>A device that is woken by a notification, idles for one poll and then serves the request; and a disk whose block 7 is read
  into buffer 0.\<close>

definition lazy_io :: "nat option mmio" where
  "lazy_io = \<lparr>vread = (\<lambda>_ _. 0), vwrite = (\<lambda>r _ s. if r = VIRTIO_MMIO_QUEUE_NOTIFY then Some 1 else vdev s)\<rparr>"

definition lazy_dev :: "nat option vst \<Rightarrow> nat option vst" where
  "lazy_dev s =
     (case vdev s of
        None \<Rightarrow> s
      | Some 0 \<Rightarrow> (case serve s of None \<Rightarrow> s | Some t \<Rightarrow> t\<lparr>vdev := None\<rparr>)
      | Some (Suc k) \<Rightarrow> s\<lparr>vdev := Some k\<rparr>)"

lemma lazy_dev_ok: "virtio_device lazy_io lazy_dev"
  unfolding virtio_device_def
proof (intro allI impI)
  fix s t :: "nat option vst"
  assume t: "serve s = Some t"
  let ?s = "reg_w lazy_io VIRTIO_MMIO_QUEUE_NOTIFY 0 s"
  have "?s = s\<lparr>vdev := Some 1\<rparr>" by (simp add: reg_w_def lazy_io_def)
  then have d: "(lazy_dev ^^ Suc 0) ?s = s\<lparr>vdev := Some 0\<rparr>" "(lazy_dev ^^ Suc 1) ?s = t\<lparr>vdev := None\<rparr>"
    using t by (simp_all add: lazy_dev_def serve_vdev)
  have "\<exists>x. (lazy_dev ^^ Suc k) ?s = s\<lparr>vdev := x\<rparr>" if "k < 1" for k using that d(1) by (intro exI [of _ "Some 0"]) simp
  then show "\<exists>n. (\<forall>k < n. \<exists>x. (lazy_dev ^^ Suc k) ?s = s\<lparr>vdev := x\<rparr>) \<and> (\<exists>x. (lazy_dev ^^ Suc n) ?s = t\<lparr>vdev := x\<rparr>)"
    using d(2) by (intro exI [of _ 1] conjI exI [of _ None]) simp_all
qed

definition vst0 :: "nat option vst" where
  "vst0 = \<lparr>bufs = (\<lambda>_. zero_buf\<lparr>blockno := 7\<rparr>), dsk = (\<lambda>c i. of_nat (unat c + i)), dwrites = [], vdesc = (\<lambda>_. zero_desc),
     vavail = \<lparr>av_flags = 0, av_idx = 0, av_ring = (\<lambda>_. 0)\<rparr>,
     vused = \<lparr>us_flags = 0, us_idx = 0, us_ring = (\<lambda>_. \<lparr>ue_id = 0, ue_len = 0\<rparr>)\<rparr>, vfree = (\<lambda>_. True), vused_idx = 0,
     info_b = (\<lambda>_. None), info_status = (\<lambda>_. 0), vops = (\<lambda>_. \<lparr>rq_type = 0, rq_reserved = 0, rq_sector = 0\<rparr>),
     vqueue = 0x87fff000, vused_addr = 0x87fff0a0, ops_addr = (\<lambda>k. 0x80010000 + of_nat (16 * k)),
     data_addr = (\<lambda>b. 0x80020000 + of_nat (1088 * b)), status_addr = (\<lambda>k. 0x80011000 + of_nat (16 * k)), vdev = None\<rparr>"

lemma of_nat_scale_inj:
  assumes "m * n \<le> 2 ^ 32" and "0 < m"
  shows "inj_on (\<lambda>k. (a :: uint64) + of_nat (m * k)) {..<n}"
proof (rule inj_onI)
  fix x y assume h: "x \<in> {..<n}" "y \<in> {..<n}" "a + of_nat (m * x) = a + of_nat (m * y)"
  have "m * k < 2 ^ 64" if "k < n" for k
    using le_less_trans [OF order_trans [OF mult_le_mono2 [OF less_imp_le [OF that]] assms(1)], of "2 ^ 64"] by simp
  note l = this
  have "(of_nat (m * x) :: uint64) = of_nat (m * y)" using h(3) by (simp only: add_left_cancel)
  then have "unat (of_nat (m * x) :: uint64) = unat (of_nat (m * y) :: uint64)" by (rule arg_cong)
  moreover have "unat (of_nat (m * k) :: uint64) = m * k" if "k < n" for k using l [OF that] by (intro unat_of_nat_small) simp
  ultimately have "m * x = m * y" using h(1,2) by (simp only: lessThan_iff)
  then show "x = y" using assms(2) by simp
qed

theorem virtio_disk_rw_refines_witness:
  "\<exists>n t. (\<forall>m \<ge> n. virtio_disk_rw m lazy_io lazy_dev 0 False vst0 = Inr t) \<and>
    disk_view t = disk_view (disk_rw 0 False vst0) \<and> vq_idle t \<and> addrs_ok t"
proof -
  have "vq_idle vst0" by (simp add: vq_idle_def vst0_def)
  moreover have "addrs_ok vst0"
    by (simp add: addrs_ok_def vst0_def NUM_def NBUF_def of_nat_scale_inj [of 16 8, simplified] of_nat_scale_inj [of 1088 30, simplified])
  moreover have "\<not> bdisk (bufs vst0 0)" "unat (blockno (bufs vst0 0)) < 2 ^ 54" by (simp_all add: vst0_def zero_buf_def)
  ultimately show ?thesis
    using virtio_disk_rw_refines [OF _ _ _ _ _ lazy_dev_ok, of vst0 0 False] by (simp add: NBUF_def)
qed

end
