(* ===== verification/Vm.thy ===== *)
theory Vm
  imports Pmem
begin

text \<open>
  \<^verbatim>\<open>kernel/mem/kvm.c\<close>: three-level Sv39 page tables that live in physical memory, and the part of
  \<^verbatim>\<open>kernel/mem/uvm.c\<close> that works on a page table alone. A page table is the physical address of
  its root page. \<open>node\<close> follows the table from the root, \<open>leaf\<close> is the abstract mapping it
  represents (0 where nothing is mapped); \<open>vm_inv\<close> says that the table is a tree of allocated
  pages. Walking with allocation leaves the mapping alone, \<^verbatim>\<open>vm_mappages\<close> and \<^verbatim>\<open>vm_unmappages\<close>
  change exactly the entries of their range, and \<^verbatim>\<open>uvm_copyin\<close> and \<^verbatim>\<open>uvm_copyout\<close> move bytes through the
  mapping.
\<close>

section \<open>Page-table entries\<close>

definition PTE_V :: uint64 where [layout]: "PTE_V = 1"
definition PTE_R :: uint64 where [layout]: "PTE_R = 2"
definition PTE_W :: uint64 where [layout]: "PTE_W = 4"
definition PTE_X :: uint64 where [layout]: "PTE_X = 8"
definition PTE_U :: uint64 where [layout]: "PTE_U = 16"
definition MAXVA :: uint64 where [layout]: "MAXVA = push_bit (9 + 9 + 9 + 12 - 1) 1"
definition TRAMPOLINE :: uint64 where [layout]: "TRAMPOLINE = MAXVA - of_nat PGSIZE"
definition TRAPFRAME :: uint64 where [layout]: "TRAPFRAME = TRAMPOLINE - of_nat PGSIZE"
definition UART_BASE :: uint64 where [layout]: "UART_BASE = 0x10000000"
definition VIRTIO_BASE :: uint64 where [layout]: "VIRTIO_BASE = 0x10001000"
definition CLINT_BASE :: uint64 where [layout]: "CLINT_BASE = 0x2000000"
definition PLIC_BASE :: uint64 where [layout]: "PLIC_BASE = 0x0c000000"

definition KSTACK :: "nat \<Rightarrow> uint64" where
  "KSTACK p = TRAMPOLINE - (of_nat p + 1) * 2 * of_nat PGSIZE"

definition PG_ROUND_UP :: "uint64 \<Rightarrow> uint64" where
  "PG_ROUND_UP sz = (sz + of_nat PGSIZE - 1) AND NOT (of_nat PGSIZE - 1)"

definition PG_ROUND_DOWN :: "uint64 \<Rightarrow> uint64" where
  "PG_ROUND_DOWN a = a AND NOT (of_nat PGSIZE - 1)"

definition PA2PTE :: "uint64 \<Rightarrow> uint64" where
  "PA2PTE pa = push_bit 10 (drop_bit 12 pa)"

definition PTE2PA :: "uint64 \<Rightarrow> uint64" where
  "PTE2PA pte = push_bit 12 (drop_bit 10 pte)"

definition PTE_FLAGS :: "uint64 \<Rightarrow> uint64" where
  "PTE_FLAGS pte = pte AND 0x3FF"

definition PX :: "uint64 \<Rightarrow> nat \<Rightarrow> uint64" where
  "PX va level = drop_bit (12 + 9 * level) va AND 0x1FF"

definition SATP_SV39 :: uint64 where [layout]: "SATP_SV39 = push_bit 60 8"

definition MAKE_SATP :: "uint64 \<Rightarrow> uint64" where
  "MAKE_SATP pagetable = SATP_SV39 OR drop_bit 12 pagetable"

section \<open>Operations\<close>

text \<open>The loop of \<^verbatim>\<open>vm_getpte\<close> from a level down to level 0; the address 0 is \<^verbatim>\<open>NULL\<close>.\<close>

fun vm_getpte_loop :: "nat \<Rightarrow> uint64 \<Rightarrow> uint64 \<Rightarrow> bool \<Rightarrow> 'a pst_scheme \<Rightarrow> (uint64 \<times> 'a pst_scheme) kres" where
  "vm_getpte_loop 0 pgtbl va alloc s = Inr (pgtbl + 8 * PX va 0, s)"
| "vm_getpte_loop (Suc l) pgtbl va alloc s =
     (let pte = pgtbl + 8 * PX va (Suc l)
      in if load64 (kmem s) pte AND PTE_V \<noteq> 0
         then vm_getpte_loop l (PTE2PA (load64 (kmem s) pte)) va alloc s
         else if \<not> alloc then Inr (0, s)
         else kbind (pmem_alloc s) (\<lambda>(p, s).
           if p = 0 then Inr (0, s)
           else let s = s\<lparr>kmem := memset (kmem s) p 0 (of_nat PGSIZE)\<rparr>
                in vm_getpte_loop l p va alloc (s\<lparr>kmem := store64 (kmem s) pte (PA2PTE p OR PTE_V)\<rparr>)))"

definition vm_getpte :: "uint64 \<Rightarrow> uint64 \<Rightarrow> bool \<Rightarrow> 'a pst_scheme \<Rightarrow> (uint64 \<times> 'a pst_scheme) kres" where
  "vm_getpte pgtbl va alloc s = vm_getpte_loop 2 pgtbl va alloc s"

definition vm_getpa :: "uint64 \<Rightarrow> uint64 \<Rightarrow> 'a pst_scheme \<Rightarrow> uint64 kres" where
  "vm_getpa pgtbl va s =
     (if va \<ge> MAXVA then Inr 0
      else kbind (vm_getpte pgtbl va False s) (\<lambda>(pte, _).
        if pte = 0 then Inr 0
        else if load64 (kmem s) pte AND PTE_V = 0 \<or> load64 (kmem s) pte AND PTE_U = 0 then Inr 0
        else Inr (PTE2PA (load64 (kmem s) pte))))"

text \<open>The \<^verbatim>\<open>for(;;)\<close> loop of \<^verbatim>\<open>vm_mappages\<close>; the caller passes enough fuel to reach \<^verbatim>\<open>last\<close>.\<close>

fun vm_mappages_loop :: "nat \<Rightarrow> uint64 \<Rightarrow> uint64 \<Rightarrow> uint64 \<Rightarrow> uint64 \<Rightarrow> uint64 \<Rightarrow> 'a pst_scheme \<Rightarrow> 'a pst_scheme kres" where
  "vm_mappages_loop 0 pgtbl a last_a pa perm s = Inl (Spin ''vm_mappages'')"
| "vm_mappages_loop (Suc fuel) pgtbl a last_a pa perm s =
     kbind (vm_getpte pgtbl a True s) (\<lambda>(pte, s).
       if pte = 0 then Inl (Panic ''mappages: pte==0'')
       else if load64 (kmem s) pte AND PTE_V \<noteq> 0 then Inl (Panic ''mappages: remap'')
       else let s = s\<lparr>kmem := store64 (kmem s) pte (PA2PTE pa OR perm OR PTE_V)\<rparr>
            in if a = last_a then Inr s
               else vm_mappages_loop fuel pgtbl (a + of_nat PGSIZE) last_a (pa + of_nat PGSIZE) perm s)"

definition vm_mappages :: "uint64 \<Rightarrow> uint64 \<Rightarrow> uint64 \<Rightarrow> uint64 \<Rightarrow> uint64 \<Rightarrow> 'a pst_scheme \<Rightarrow> 'a pst_scheme kres" where
  "vm_mappages pgtbl va pa len perm s =
     (if len = 0 then Inl (Panic ''mappages: len'')
      else let a = PG_ROUND_DOWN va; last_a = PG_ROUND_DOWN (va + len - 1)
           in vm_mappages_loop (Suc (unat (last_a - a) div PGSIZE)) pgtbl a last_a pa perm s)"

text \<open>The loop of \<^verbatim>\<open>vm_unmappages\<close> runs while \<^verbatim>\<open>a < va + len_rounded\<close> (\<open>lim\<close>).\<close>

fun vm_unmappages_loop :: "nat \<Rightarrow> uint64 \<Rightarrow> uint64 \<Rightarrow> uint64 \<Rightarrow> bool \<Rightarrow> 'a pst_scheme \<Rightarrow> 'a pst_scheme kres" where
  "vm_unmappages_loop 0 pgtbl a lim freeit s = Inl (Spin ''vm_unmappages'')"
| "vm_unmappages_loop (Suc fuel) pgtbl a lim freeit s =
     (if \<not> a < lim then Inr s
      else kbind (vm_getpte pgtbl a False s) (\<lambda>(pte, s).
        if pte = 0 then Inl (Panic ''uvmunmap: vm_getpte'')
        else if load64 (kmem s) pte AND PTE_V = 0 then Inl (Panic ''uvmunmap: not mapped'')
        else if PTE_FLAGS (load64 (kmem s) pte) = PTE_V then Inl (Panic ''uvmunmap: not a leaf'')
        else kbind (if freeit then pmem_free (PTE2PA (load64 (kmem s) pte)) s else Inr s) (\<lambda>s.
          vm_unmappages_loop fuel pgtbl (a + of_nat PGSIZE) lim freeit (s\<lparr>kmem := store64 (kmem s) pte 0\<rparr>))))"

definition vm_unmappages :: "uint64 \<Rightarrow> uint64 \<Rightarrow> uint64 \<Rightarrow> bool \<Rightarrow> 'a pst_scheme \<Rightarrow> 'a pst_scheme kres" where
  "vm_unmappages pgtbl va len freeit s =
     (if unat va mod PGSIZE \<noteq> 0 then Inl (Panic ''uvmunmap: not aligned'')
      else let len_rounded = to_int (PG_ROUND_UP len)
           in vm_unmappages_loop (Suc (unat (word_of_int len_rounded :: uint64) div PGSIZE)) pgtbl va
                (va + word_of_int len_rounded) freeit s)"

text \<open>\<^verbatim>\<open>proc_mapstacks\<close> of \<^verbatim>\<open>kernel/proc/proc.c\<close>, and the kernel page table; \<^verbatim>\<open>etext\<close> and \<^verbatim>\<open>trampoline\<close>
  are addresses the linker assigns.\<close>

definition proc_mapstacks :: "uint64 \<Rightarrow> 'a pst_scheme \<Rightarrow> 'a pst_scheme kres" where
  "proc_mapstacks kpgtbl s =
     kfold (\<lambda>p s. kbind (pmem_alloc s) (\<lambda>(pa, s).
         if pa = 0 then Inl (Panic ''kalloc'')
         else vm_mappages kpgtbl (KSTACK p) pa (of_nat PGSIZE) (PTE_R OR PTE_W) s)) [0..<64] s"

definition kvm_create :: "uint64 \<Rightarrow> uint64 \<Rightarrow> 'a pst_scheme \<Rightarrow> (uint64 \<times> 'a pst_scheme) kres" where
  "kvm_create etext trampoline s =
     kbind (pmem_alloc s) (\<lambda>(kpgtbl, s).
     let s = s\<lparr>kmem := memset (kmem s) kpgtbl 0 (of_nat PGSIZE)\<rparr> in
     kbind (vm_mappages kpgtbl UART_BASE UART_BASE (of_nat PGSIZE) (PTE_R OR PTE_W) s) (\<lambda>s.
     kbind (vm_mappages kpgtbl VIRTIO_BASE VIRTIO_BASE (of_nat PGSIZE) (PTE_R OR PTE_W) s) (\<lambda>s.
     kbind (vm_mappages kpgtbl CLINT_BASE CLINT_BASE (of_nat PGSIZE) (PTE_R OR PTE_W) s) (\<lambda>s.
     kbind (vm_mappages kpgtbl PLIC_BASE PLIC_BASE 0x400000 (PTE_R OR PTE_W) s) (\<lambda>s.
     kbind (vm_mappages kpgtbl KERNEL_BASE KERNEL_BASE (etext - KERNEL_BASE) (PTE_R OR PTE_X) s) (\<lambda>s.
     kbind (vm_mappages kpgtbl etext etext (PHYSTOP - etext) (PTE_R OR PTE_W) s) (\<lambda>s.
     kbind (vm_mappages kpgtbl TRAMPOLINE trampoline (of_nat PGSIZE) (PTE_R OR PTE_X) s) (\<lambda>s.
     kbind (proc_mapstacks kpgtbl s) (\<lambda>s. Inr (kpgtbl, s))))))))))"

section \<open>Copying between user and kernel memory\<close>

text \<open>Each iteration consumes at least one byte of \<^verbatim>\<open>len\<close>: the fuel is the length. The result is the
  return value (0 or -1) and the state.\<close>

fun uvm_copyin_loop :: "nat \<Rightarrow> uint64 \<Rightarrow> uint64 \<Rightarrow> uint64 \<Rightarrow> uint32 \<Rightarrow> 'a pst_scheme \<Rightarrow> (int \<times> 'a pst_scheme) kres" where
  "uvm_copyin_loop 0 pgtbl dst src len s = (if len > 0 then Inl (Spin ''uvm_copyin'') else Inr (0, s))"
| "uvm_copyin_loop (Suc fuel) pgtbl dst src len s =
     (if \<not> len > 0 then Inr (0, s)
      else let va0 = PG_ROUND_DOWN src
           in if va0 \<ge> MAXVA then Inr (-1, s)
              else kbind (vm_getpa pgtbl va0 s) (\<lambda>pa0.
                if pa0 = 0 then Inr (-1, s)
                else let n = of_nat PGSIZE - (src - va0);
                         n = (if n > ucast len then ucast len else n)
                     in uvm_copyin_loop fuel pgtbl (dst + n) (va0 + of_nat PGSIZE) (len - ucast n)
                          (s\<lparr>kmem := memmove (kmem s) dst (pa0 + (src - va0)) (ucast n)\<rparr>)))"

definition uvm_copyin :: "uint64 \<Rightarrow> uint64 \<Rightarrow> uint64 \<Rightarrow> uint32 \<Rightarrow> 'a pst_scheme \<Rightarrow> (int \<times> 'a pst_scheme) kres" where
  "uvm_copyin pgtbl dst src len s = uvm_copyin_loop (unat len) pgtbl dst src len s"

fun uvm_copyout_loop :: "nat \<Rightarrow> uint64 \<Rightarrow> uint64 \<Rightarrow> uint64 \<Rightarrow> uint32 \<Rightarrow> 'a pst_scheme \<Rightarrow> (int \<times> 'a pst_scheme) kres" where
  "uvm_copyout_loop 0 pgtbl dst src len s = (if len > 0 then Inl (Spin ''uvm_copyout'') else Inr (0, s))"
| "uvm_copyout_loop (Suc fuel) pgtbl dst src len s =
     (if \<not> len > 0 then Inr (0, s)
      else let va0 = PG_ROUND_DOWN dst
           in if va0 \<ge> MAXVA then Inr (-1, s)
              else kbind (vm_getpa pgtbl va0 s) (\<lambda>pa0.
                if pa0 = 0 then Inr (-1, s)
                else let n = of_nat PGSIZE - (dst - va0);
                         n = (if n > ucast len then ucast len else n)
                     in uvm_copyout_loop fuel pgtbl (va0 + of_nat PGSIZE) (src + n) (len - ucast n)
                          (s\<lparr>kmem := memmove (kmem s) (pa0 + (dst - va0)) src (ucast n)\<rparr>)))"

definition uvm_copyout :: "uint64 \<Rightarrow> uint64 \<Rightarrow> uint64 \<Rightarrow> uint32 \<Rightarrow> 'a pst_scheme \<Rightarrow> (int \<times> 'a pst_scheme) kres" where
  "uvm_copyout pgtbl dst src len s = uvm_copyout_loop (unat len) pgtbl dst src len s"

text \<open>The inner loop of \<^verbatim>\<open>uvm_copyin_str\<close> copies up to \<open>n\<close> bytes and stops after a NUL; it returns
  whether one was found, the memory, and the advanced \<^verbatim>\<open>dst\<close> and \<^verbatim>\<open>maxlen\<close>.\<close>

fun copyin_str_page :: "nat \<Rightarrow> uint64 \<Rightarrow> uint64 \<Rightarrow> uint32 \<Rightarrow> mem \<Rightarrow> bool \<times> uint64 \<times> uint32 \<times> mem" where
  "copyin_str_page 0 p dst maxlen m = (False, dst, maxlen, m)"
| "copyin_str_page (Suc n) p dst maxlen m =
     (if m p = 0 then (True, dst, maxlen, m(dst := 0))
      else copyin_str_page n (p + 1) (dst + 1) (maxlen - 1) (m(dst := m p)))"

fun uvm_copyin_str_loop :: "nat \<Rightarrow> uint64 \<Rightarrow> uint64 \<Rightarrow> uint64 \<Rightarrow> uint32 \<Rightarrow> 'a pst_scheme \<Rightarrow> 'a pst_scheme kres" where
  "uvm_copyin_str_loop 0 pgtbl dst src maxlen s = (if maxlen > 0 then Inl (Spin ''uvm_copyin_str'') else Inr s)"
| "uvm_copyin_str_loop (Suc fuel) pgtbl dst src maxlen s =
     (if \<not> maxlen > 0 then Inr s
      else let va0 = PG_ROUND_DOWN src
           in kbind (vm_getpa pgtbl va0 s) (\<lambda>pa0.
                if pa0 = 0 then Inr s
                else let n = of_nat PGSIZE - (src - va0);
                         n = (if n > ucast maxlen then ucast maxlen else n);
                         (got_null, dst, maxlen, m) = copyin_str_page (unat n) (pa0 + (src - va0)) dst maxlen (kmem s);
                         s = s\<lparr>kmem := m\<rparr>
                     in if got_null then Inr s
                        else uvm_copyin_str_loop fuel pgtbl dst (va0 + of_nat PGSIZE) maxlen s))"

definition uvm_copyin_str :: "uint64 \<Rightarrow> uint64 \<Rightarrow> uint64 \<Rightarrow> uint32 \<Rightarrow> 'a pst_scheme \<Rightarrow> 'a pst_scheme kres" where
  "uvm_copyin_str pgtbl dst src maxlen s = uvm_copyin_str_loop (unat maxlen) pgtbl dst src maxlen s"

section \<open>Copying and destroying page tables\<close>

text \<open>\<^verbatim>\<open>destroy_pgtbl\<close> recurses at most four levels; entries are read from memory as it is when the
  loop reaches them.\<close>

fun destroy_pgtbl :: "nat \<Rightarrow> uint64 \<Rightarrow> 'a pst_scheme \<Rightarrow> 'a pst_scheme kres" where
  "destroy_pgtbl 0 pgtbl s = (if pgtbl = 0 then Inr s else pmem_free pgtbl s)"
| "destroy_pgtbl (Suc levels) pgtbl s =
     (if pgtbl = 0 then Inr s
      else kbind (kfold (\<lambda>i s.
          let pa = PTE2PA (load64 (kmem s) (pgtbl + 8 * of_nat i))
          in if pa \<noteq> 0 then destroy_pgtbl levels pa s else Inr s) [0..<512] s)
        (pmem_free pgtbl))"

definition uvm_destroy_pgtbl :: "uint64 \<Rightarrow> 'a pst_scheme \<Rightarrow> 'a pst_scheme kres" where
  "uvm_destroy_pgtbl pgtbl s =
     kbind (vm_unmappages pgtbl TRAMPOLINE (of_nat PGSIZE) False s) (\<lambda>s.
     kbind (vm_unmappages pgtbl TRAPFRAME (of_nat PGSIZE) False s) (\<lambda>s.
     destroy_pgtbl 3 pgtbl s))"

fun uvm_copy_pgtbl_loop :: "nat \<Rightarrow> uint64 \<Rightarrow> uint64 \<Rightarrow> uint64 \<Rightarrow> uint64 \<Rightarrow> 'a pst_scheme \<Rightarrow> 'a pst_scheme kres" where
  "uvm_copy_pgtbl_loop 0 old new va heap_top s = Inl (Spin ''uvm_copy_pgtbl'')"
| "uvm_copy_pgtbl_loop (Suc fuel) old new va heap_top s =
     (if \<not> va < heap_top then Inr s
      else kbind (vm_getpte old va False s) (\<lambda>(pte, s).
        if pte = 0 then Inl (Panic ''uvmcopy: pte should exist'')
        else if load64 (kmem s) pte AND PTE_V = 0 then Inl (Panic ''uvmcopy: page not present'')
        else let pa = PTE2PA (load64 (kmem s) pte);
                 flags = ucast (PTE_FLAGS (load64 (kmem s) pte)) :: uint8
             in kbind (pmem_alloc s) (\<lambda>(mem, s).
                kbind (if mem = 0 then vm_unmappages new 0 (va div of_nat PGSIZE) True s else Inr s) (\<lambda>s.
                let s = s\<lparr>kmem := memmove (kmem s) mem pa (of_nat PGSIZE)\<rparr>
                in kbind (vm_mappages new va mem (of_nat PGSIZE) (ucast flags) s)
                     (uvm_copy_pgtbl_loop fuel old new (va + of_nat PGSIZE) heap_top)))))"

definition uvm_copy_pgtbl :: "uint64 \<Rightarrow> uint64 \<Rightarrow> uint64 \<Rightarrow> 'a pst_scheme \<Rightarrow> 'a pst_scheme kres" where
  "uvm_copy_pgtbl old new heap_top s =
     uvm_copy_pgtbl_loop (Suc (Suc (unat heap_top div PGSIZE))) old new 0 heap_top s"

section \<open>Words\<close>

abbreviation px :: "uint64 \<Rightarrow> nat \<Rightarrow> nat" where
  "px va level \<equiv> unat (PX va level)"

lemma px_less: "px va level < 512"
proof -
  have "PX va level = take_bit 9 (drop_bit (12 + 9 * level) va)"
    by (simp add: PX_def take_bit_eq_mask mask_eq_decr_exp)
  then have "px va level = take_bit 9 (unat (drop_bit (12 + 9 * level) va))"
    by (simp add: unsigned_take_bit_eq)
  then show ?thesis using take_bit_nat_less_exp [of 9 "unat (drop_bit (12 + 9 * level) va)"] by simp
qed

lemma PX_of_nat: "PX va level = of_nat (px va level)"
  by simp

lemma page_low_bits: "page_ok b p \<Longrightarrow> n < 12 \<Longrightarrow> \<not> bit p n"
proof -
  assume p: "page_ok b p" and n: "n < 12"
  have "take_bit 12 p = 0"
  proof (rule unsigned_word_eqI [where ?'a = nat])
    have "unat (take_bit 12 p) = take_bit 12 (unat p)" by (rule unsigned_take_bit_eq)
    also have "\<dots> = unat p mod PGSIZE" by (simp add: take_bit_eq_mod layout)
    finally show "unat (take_bit 12 p) = unat (0 :: uint64)" using p by (simp add: page_ok_def)
  qed
  then have "\<not> bit (take_bit 12 p) n" by simp
  then show "\<not> bit p n" using n by (simp add: bit_take_bit_iff)
qed

lemma PTE2PA_PA2PTE:
  assumes "page_ok b p" and "\<forall>n \<ge> 10. \<not> bit f n"
  shows "PTE2PA (PA2PTE p OR f) = p"
proof (rule bit_word_eqI)
  fix n assume "n < LENGTH(64)"
  then show "bit (PTE2PA (PA2PTE p OR f)) n \<longleftrightarrow> bit p n"
    using assms page_low_bits [of b p n]
    by (cases "n < 12") (auto simp: PTE2PA_def PA2PTE_def bit_simps)
qed

lemma and_exp_iff:
  fixes f :: uint64
  assumes "k < 64"
  shows "f AND 2 ^ k \<noteq> 0 \<longleftrightarrow> bit f k"
proof -
  have "f AND 2 ^ k = (if bit f k then 2 ^ k else 0)"
    using assms by (intro bit_word_eqI) (auto simp: bit_simps)
  then show ?thesis using assms by simp
qed

lemma flag_bits: "f AND PTE_V \<noteq> 0 \<longleftrightarrow> bit f 0" "f AND PTE_U \<noteq> 0 \<longleftrightarrow> bit f 4"
  using and_exp_iff [of 0 f] and_exp_iff [of 4 f] by (simp_all add: layout)

section \<open>The tree of page-table pages\<close>

definition ent :: "mem \<Rightarrow> uint64 \<Rightarrow> nat \<Rightarrow> uint64" where
  "ent m p i = load64 m (p + 8 * of_nat i)"

definition child :: "mem \<Rightarrow> uint64 \<Rightarrow> nat \<Rightarrow> uint64 option" where
  "child m p i = (if bit (ent m p i) 0 then Some (PTE2PA (ent m p i)) else None)"

fun node :: "mem \<Rightarrow> uint64 \<Rightarrow> nat list \<Rightarrow> uint64 option" where
  "node m p [] = Some p"
| "node m p (i # is) = (case child m p i of None \<Rightarrow> None | Some q \<Rightarrow> node m q is)"

definition paths :: "nat list set" where
  "paths = {is. length is \<le> 2 \<and> (\<forall>i \<in> set is. i < 512)}"

lemma paths_simps [simp]:
  "[] \<in> paths" "[i] \<in> paths \<longleftrightarrow> i < 512" "[i, j] \<in> paths \<longleftrightarrow> i < 512 \<and> j < 512"
  "i # j # k # is \<notin> paths"
  by (auto simp: paths_def)

text \<open>The pages of the table are allocatable pages, and no page occurs at two places.\<close>

definition pt_ok :: "uint64 \<Rightarrow> mem \<Rightarrow> uint64 \<Rightarrow> bool" where
  "pt_ok b m r \<longleftrightarrow> (\<forall>is \<in> paths. \<forall>p. node m r is = Some p \<longrightarrow> page_ok b p) \<and>
     (\<forall>is \<in> paths. \<forall>js \<in> paths. \<forall>p. node m r is = Some p \<longrightarrow> node m r js = Some p \<longrightarrow> is = js)"

definition pt_pages :: "mem \<Rightarrow> uint64 \<Rightarrow> uint64 set" where
  "pt_pages m r = {p. \<exists>is \<in> paths. node m r is = Some p}"

text \<open>The mapping a table represents.\<close>

definition leaf :: "mem \<Rightarrow> uint64 \<Rightarrow> uint64 \<Rightarrow> uint64" where
  "leaf m r va = (case node m r [px va 2, px va 1] of None \<Rightarrow> 0 | Some p \<Rightarrow> ent m p (px va 0))"

definition same_page :: "uint64 \<Rightarrow> uint64 \<Rightarrow> bool" where
  "same_page va va' \<longleftrightarrow> px va 2 = px va' 2 \<and> px va 1 = px va' 1 \<and> px va 0 = px va' 0"

lemma pt_okD:
  assumes "pt_ok b m r"
  shows "is \<in> paths \<Longrightarrow> node m r is = Some p \<Longrightarrow> page_ok b p"
    "is \<in> paths \<Longrightarrow> js \<in> paths \<Longrightarrow> node m r is = Some p \<Longrightarrow> node m r js = Some p \<Longrightarrow> is = js"
  using assms unfolding pt_ok_def by blast+

lemma entry_in_page:
  assumes "i < 512" and "unat (x - (p + 8 * of_nat i)) < 8"
  shows "in_page p x"
proof -
  define y where "y = x - (p + 8 * of_nat i)"
  have "x - p = y + of_nat (8 * i)" by (simp add: y_def)
  moreover have "unat (y + of_nat (8 * i)) = unat y + 8 * i"
    using assms by (intro unat_add_of_nat) (simp add: y_def [symmetric])
  ultimately have "unat (x - p) = unat y + 8 * i" by simp
  then show ?thesis using assms by (simp add: in_page_def layout y_def [symmetric])
qed

lemma ent_cong: "i < 512 \<Longrightarrow> (\<And>x. in_page p x \<Longrightarrow> m x = m' x) \<Longrightarrow> ent m p i = ent m' p i"
  unfolding ent_def by (rule load64_cong) (blast dest: entry_in_page)

lemma entry_unat:
  assumes "page_ok b p" and "k < 512"
  shows "unat (p + 8 * of_nat k) = unat p + 8 * k"
  using page_ok_bound [OF assms(1)] assms(2) unat_add_of_nat [of p "8 * k"] by (simp add: layout)

lemma entries_apart:
  assumes "page_ok b p" and "i < 512" and "j < 512" and "i \<noteq> j"
  shows "apart (p + 8 * of_nat i) 8 (p + 8 * of_nat j) 8"
  using assms page_ok_bound [OF assms(1)] entry_unat [OF assms(1)] by (intro apartI) (auto simp: layout)

lemma ent_store:
  assumes p: "page_ok b p" and q: "page_ok c q" and i: "i < 512" "j < 512"
  shows "ent (store64 m (p + 8 * of_nat i) v) q j = (if q = p \<and> j = i then v else ent m q j)"
proof (cases "q = p")
  case True
  then show ?thesis
    using load64_other [OF entries_apart [OF p i]] by (cases "j = i") (auto simp: ent_def)
next
  case False
  have "store64 m (p + 8 * of_nat i) v x = m x" if "in_page q x" for x
    using that in_page_unique [OF p q, of x] entry_in_page [OF i(1), of x p] False
    by (auto simp: store64_def)
  then have "ent (store64 m (p + 8 * of_nat i) v) q j = ent m q j" by (rule ent_cong [OF i(2)])
  then show ?thesis using False by simp
qed

lemma ent_zero:
  assumes "page_ok b p" and "page_ok c q" and "i < 512"
  shows "ent (\<lambda>x. if in_page p x then 0 else m x) q i = (if q = p then 0 else ent m q i)"
proof (cases "q = p")
  case True
  have "ent (\<lambda>x. if in_page p x then 0 else m x) p i = ent (\<lambda>_. 0) p i"
    by (rule ent_cong [OF assms(3)]) simp
  moreover have "ent (\<lambda>_. 0) p i = 0"
    by (rule bit_word_eqI) (simp add: ent_def load64_def bit_le_load view_def)
  ultimately show ?thesis using True by simp
next
  case False
  then have "\<not> in_page p x" if "in_page q x" for x using in_page_unique [OF assms(1,2)] that by blast
  then have "ent (\<lambda>x. if in_page p x then 0 else m x) q i = ent m q i"
    by (intro ent_cong [OF assms(3)]) simp
  then show ?thesis using False by simp
qed

lemma node_cong:
  assumes ok: "pt_ok b m r" and eq: "\<And>p x. p \<in> pt_pages m r \<Longrightarrow> in_page p x \<Longrightarrow> m' x = m x"
  shows "is \<in> paths \<Longrightarrow> node m' r is = node m r is"
    and "leaf m' r va = leaf m r va"
proof -
  have e: "ent m' p i = ent m p i" if "p \<in> pt_pages m r" "i < 512" for p i
    using that eq by (intro ent_cong) auto
  have c: "child m' p i = child m p i" if "p \<in> pt_pages m r" "i < 512" for p i
    using e [OF that] by (simp add: child_def)
  have r: "r \<in> pt_pages m r" by (auto simp: pt_pages_def intro!: bexI [of _ "[]"])
  have n: "child m r i = Some p \<Longrightarrow> i < 512 \<Longrightarrow> p \<in> pt_pages m r" for i p
    by (auto simp: pt_pages_def intro!: bexI [of _ "[i]"])
  show nd: "is \<in> paths \<Longrightarrow> node m' r is = node m r is" for "is"
    using c [OF r] c [OF n]
    by (cases "is" rule: remdups_adj.cases) (auto simp: paths_def split: option.splits)
  have "p \<in> pt_pages m r" if "node m r [px va 2, px va 1] = Some p" for p
    using that px_less by (auto simp: pt_pages_def intro!: bexI [of _ "[px va 2, px va 1]"])
  then show "leaf m' r va = leaf m r va"
    using nd [of "[px va 2, px va 1]"] e px_less
    by (auto simp: leaf_def simp del: node.simps split: option.splits)
qed

section \<open>Growing the tree\<close>

definition zeroed :: "uint64 \<Rightarrow> mem \<Rightarrow> mem" where
  "zeroed q m = (\<lambda>x. if in_page q x then 0 else m x)"

text \<open>Hanging the fresh page \<open>q\<close> into the empty entry \<open>k\<close> of the table page \<open>p\<close>.\<close>

definition hang :: "uint64 \<Rightarrow> nat \<Rightarrow> uint64 \<Rightarrow> mem \<Rightarrow> mem" where
  "hang p k q m = store64 (zeroed q m) (p + 8 * of_nat k) (PA2PTE q OR PTE_V)"

lemma PTE_V_bits: "\<forall>n \<ge> 10. \<not> bit PTE_V n"
  by (auto simp: PTE_V_def bit_1_iff)

lemma child_hang:
  assumes "page_ok b p" and "page_ok b q" and "page_ok b x" and "k < 512" "i < 512"
  shows "ent (hang p k q m) x i = (if x = p \<and> i = k then PA2PTE q OR PTE_V else if x = q then 0 else ent m x i)"
    and "child (hang p k q m) x i = (if x = p \<and> i = k then Some q else if x = q then None else child m x i)"
proof -
  show e: "ent (hang p k q m) x i =
      (if x = p \<and> i = k then PA2PTE q OR PTE_V else if x = q then 0 else ent m x i)"
    unfolding hang_def zeroed_def ent_store [OF assms(1,3-5)] ent_zero [OF assms(2,3,5)] by simp
  have "bit (PA2PTE q OR PTE_V) 0" by (simp add: PTE_V_def bit_simps)
  then show "child (hang p k q m) x i =
      (if x = p \<and> i = k then Some q else if x = q then None else child m x i)"
    unfolding child_def e using PTE2PA_PA2PTE [OF assms(2) PTE_V_bits] by auto
qed

definition fresh_entry :: "uint64 \<Rightarrow> mem \<Rightarrow> uint64 \<Rightarrow> uint64 \<Rightarrow> uint64 \<Rightarrow> nat list \<Rightarrow> nat \<Rightarrow> bool" where
  "fresh_entry b m r p q is k \<longleftrightarrow> pt_ok b m r \<and> page_ok b q \<and> q \<notin> pt_pages m r \<and>
     is \<in> paths \<and> length is < 2 \<and> node m r is = Some p \<and> k < 512 \<and> child m p k = None"

lemma fresh_entryD:
  assumes "fresh_entry b m r p q is k"
  shows "pt_ok b m r" "page_ok b q" "is \<in> paths" "length is < 2" "node m r is = Some p" "k < 512"
    "child m p k = None" "page_ok b p" "p \<noteq> q" "is @ [k] \<in> paths"
    "js \<in> paths \<Longrightarrow> node m r js = Some x \<Longrightarrow> page_ok b x \<and> x \<noteq> q"
proof -
  show f: "pt_ok b m r" "page_ok b q" "is \<in> paths" "length is < 2" "node m r is = Some p" "k < 512"
    "child m p k = None" using assms by (auto simp: fresh_entry_def)
  show g: "js \<in> paths \<Longrightarrow> node m r js = Some x \<Longrightarrow> page_ok b x \<and> x \<noteq> q" for js x
    using assms pt_okD(1) [OF f(1)] by (auto simp: fresh_entry_def pt_pages_def)
  show "page_ok b p" "p \<noteq> q" using g [OF f(3,5)] by auto
  show "is @ [k] \<in> paths" using f(3,4,6) by (auto simp: paths_def)
qed

lemma fresh_path:
  assumes fe: "fresh_entry b m r p q is k"
  shows "node m r (is @ [k]) = None"
  using fresh_entryD(4,5,7) [OF fe] by (cases "is" rule: remdups_adj.cases) (auto split: option.splits)

lemma step_child:
  assumes fe: "fresh_entry b m r p q is k" and "js \<in> paths" and "node m r js = Some x" and "i < 512"
  shows "child (hang p k q m) x i = (if js = is \<and> i = k then Some q else child m x i)"
proof -
  note f = fresh_entryD [OF fe]
  have "js = is \<longleftrightarrow> x = p" using pt_okD(2) [OF f(1) assms(2) f(3)] assms(3) f(5) by auto
  then show ?thesis using f(11) [OF assms(2,3)] child_hang(2) [OF f(8,2) _ f(6) assms(4)] by simp
qed

lemma fresh_child:
  "fresh_entry b m r p q is k \<Longrightarrow> i < 512 \<Longrightarrow> child (hang p k q m) q i = None"
  by (simp add: child_hang(2) [of b] fresh_entryD(2,6,8) fresh_entryD(9) [symmetric])

lemma node_hang:
  assumes fe: "fresh_entry b m r p q is k" and js: "js \<in> paths"
  shows "node (hang p k q m) r js = (if js = is @ [k] then Some q else node m r js)"
proof (cases js rule: remdups_adj.cases)
  case 1
  then show ?thesis by simp
next
  case (2 i)
  then show ?thesis using js step_child [OF fe, of "[]" r i] by (auto split: option.splits)
next
  case (3 i j js')
  note f = fresh_entryD [OF fe]
  from 3 have ij: "js = [i, j]" "i < 512" "j < 512" using js by (auto simp: paths_def)
  have c: "child (hang p k q m) r i = (if is = [] \<and> i = k then Some q else child m r i)"
    using step_child [OF fe, of "[]" r i] ij by auto
  show ?thesis
  proof (cases "is = [] \<and> i = k")
    case True
    then have "child m r i = None" using f(5,7) by simp
    then show ?thesis using True c ij fresh_child [OF fe] by simp
  next
    case False
    show ?thesis
    proof (cases "child m r i")
      case None
      then have "is \<noteq> [i]" using f(5) by auto
      then show ?thesis using c False None ij by auto
    next
      case (Some x)
      then have "child (hang p k q m) x j = (if [i] = is \<and> j = k then Some q else child m x j)"
        using ij by (intro step_child [OF fe]) auto
      then show ?thesis using c False Some ij by (auto split: option.splits)
    qed
  qed
qed

lemma pt_pages_hang:
  assumes fe: "fresh_entry b m r p q is k"
  shows "pt_pages (hang p k q m) r = insert q (pt_pages m r)"
proof (rule set_eqI)
  fix x
  note n = node_hang [OF fe] and np = fresh_entryD(10) [OF fe]
  show "x \<in> pt_pages (hang p k q m) r \<longleftrightarrow> x \<in> insert q (pt_pages m r)"
  proof
    assume "x \<in> pt_pages (hang p k q m) r"
    then show "x \<in> insert q (pt_pages m r)" by (auto simp: pt_pages_def n split: if_splits)
  next
    assume "x \<in> insert q (pt_pages m r)"
    then consider "x = q" | js where "js \<in> paths" "node m r js = Some x" by (auto simp: pt_pages_def)
    then show "x \<in> pt_pages (hang p k q m) r"
    proof cases
      case 1
      then show ?thesis using np n [OF np] by (auto simp: pt_pages_def)
    next
      case (2 js)
      then have "js \<noteq> is @ [k]" using fresh_path [OF fe] by auto
      then show ?thesis using 2 n [OF 2(1)] by (auto simp: pt_pages_def)
    qed
  qed
qed

lemma pt_ok_hang:
  assumes fe: "fresh_entry b m r p q is k"
  shows "pt_ok b (hang p k q m) r"
proof -
  note f = fresh_entryD [OF fe]
  have "page_ok b x" if "js \<in> paths" "node (hang p k q m) r js = Some x" for js x
    using that f(2,11) by (auto simp: node_hang [OF fe] split: if_splits)
  moreover have "js = ls" if "js \<in> paths" "ls \<in> paths" "node (hang p k q m) r js = Some x"
      "node (hang p k q m) r ls = Some x" for js ls x
    using that f(11) [OF that(1)] f(11) [OF that(2)] pt_okD(2) [OF f(1) that(1,2)]
    by (auto simp: node_hang [OF fe] split: if_splits)
  ultimately show ?thesis unfolding pt_ok_def by blast
qed

lemma leaf_hang:
  assumes fe: "fresh_entry b m r p q is k"
  shows "leaf (hang p k q m) r va = leaf m r va"
proof -
  let ?js = "[px va 2, px va 1]"
  note f = fresh_entryD [OF fe]
  have js: "?js \<in> paths" by (simp add: px_less)
  show ?thesis
  proof (cases "?js = is @ [k]")
    case True
    then have "node m r ?js = None" using fresh_path [OF fe] by (simp only:)
    moreover have "ent (hang p k q m) q (px va 0) = 0"
      using f(9) child_hang(1) [OF f(8,2,2) f(6) px_less] by auto
    moreover have "node (hang p k q m) r ?js = Some q" using True node_hang [OF fe js] by (simp only: simp_thms if_True)
    ultimately show ?thesis unfolding leaf_def by (simp only: option.case)
  next
    case False
    have "ent (hang p k q m) x (px va 0) = ent m x (px va 0)" if "node m r ?js = Some x" for x
    proof -
      have "x \<noteq> p" using pt_okD(2) [OF f(1) js f(3) that] f(4,5) by auto
      then show ?thesis using f(11) [OF js that] child_hang(1) [OF f(8,2) _ f(6) px_less] by simp
    qed
    then show ?thesis
      using False node_hang [OF fe js] by (auto simp: leaf_def simp del: node.simps split: option.splits)
  qed
qed

section \<open>Walking the tree\<close>

definition vm_inv :: "'a pst_scheme \<Rightarrow> uint64 \<Rightarrow> uint64 list \<Rightarrow> bool" where
  "vm_inv s r ps \<longleftrightarrow> pool s ps \<and> pt_ok (ALLOC_BEGIN s) (kmem s) r \<and> pt_pages (kmem s) r \<inter> set ps = {}"

text \<open>The walk without allocation.\<close>

lemma vm_getpte_lookup:
  "vm_getpte r va False s =
     Inr (case node (kmem s) r [px va 2, px va 1] of None \<Rightarrow> 0 | Some p \<Rightarrow> p + 8 * of_nat (px va 0), s)"
  by (auto simp: vm_getpte_def numeral_2_eq_2 Let_def flag_bits child_def ent_def split: option.splits)

text \<open>A walk with allocation takes the pages \<open>qs\<close> from the pool into the table and changes nothing
  else: not the mapping, and no memory outside the table and those pages.\<close>

definition grown :: "uint64 \<Rightarrow> 'a pst_scheme \<Rightarrow> uint64 list \<Rightarrow> uint64 list \<Rightarrow> 'a pst_scheme \<Rightarrow> bool" where
  "grown r s qs ps s' \<longleftrightarrow> vm_inv s (r :: uint64) (qs @ ps) \<and> vm_inv s' r ps \<and>
     (\<forall>va. leaf (kmem s') r va = leaf (kmem s) r va) \<and> ALLOC_BEGIN s' = ALLOC_BEGIN s \<and>
     pst.more s' = pst.more s \<and> pt_pages (kmem s') r = pt_pages (kmem s) r \<union> set qs \<and>
     (\<forall>x. (\<forall>p \<in> pt_pages (kmem s) r \<union> set qs. \<not> in_page p x) \<longrightarrow> kmem s' x = kmem s x) \<and>
     (\<forall>js \<in> paths. \<forall>x. node (kmem s) r js = Some x \<longrightarrow> node (kmem s') r js = Some x)"

lemma grown_refl: "vm_inv s r ps \<Longrightarrow> grown r s [] ps s"
  by (simp add: grown_def)

lemma grown_trans: "grown r s qs (qs' @ ps) t \<Longrightarrow> grown r t qs' ps u \<Longrightarrow> grown r s (qs @ qs') ps u"
  unfolding grown_def by (auto 0 3)

lemma vm_invD:
  assumes "vm_inv s r ps"
  shows "pool s ps" "pt_ok (ALLOC_BEGIN s) (kmem s) r" "p \<in> pt_pages (kmem s) r \<Longrightarrow> p \<notin> set ps"
    "p \<in> set ps \<Longrightarrow> page_ok (ALLOC_BEGIN s) p \<and> p \<noteq> 0"
    "p \<in> pt_pages (kmem s) r \<Longrightarrow> page_ok (ALLOC_BEGIN s) p \<and> p \<noteq> 0"
proof -
  show pl: "pool s ps" and ok: "pt_ok (ALLOC_BEGIN s) (kmem s) r"
    and "p \<in> pt_pages (kmem s) r \<Longrightarrow> p \<notin> set ps"
    using assms by (auto simp: vm_inv_def)
  show "p \<in> set ps \<Longrightarrow> page_ok (ALLOC_BEGIN s) p \<and> p \<noteq> 0" using pmem.pool_pages [OF pl] by simp
  have b: "0 < ALLOC_BEGIN s" using pl by (simp add: pool_def)
  show "p \<in> pt_pages (kmem s) r \<Longrightarrow> page_ok (ALLOC_BEGIN s) p \<and> p \<noteq> 0"
    using pt_okD(1) [OF ok] page_nonzero [OF _ b] unfolding pt_pages_def by blast
qed

lemma hang_outside:
  assumes "k < 512" and "\<not> in_page p x" and "\<not> in_page q x"
  shows "hang p k q m x = m x"
  using assms entry_in_page [of k x p] by (auto simp: hang_def zeroed_def store64_def)

lemma grow_ok:
  assumes inv: "vm_inv s r (q # ps)" and p: "is \<in> paths" "length is < 2" "node (kmem s) r is = Some p"
    and k: "k < 512" "child (kmem s) p k = None"
  shows "\<exists>t. pmem_alloc s = Inr (q, t) \<and> q \<noteq> 0 \<and>
    (let s1 = t\<lparr>kmem := memset (kmem t) q 0 (of_nat PGSIZE)\<rparr>;
         s2 = s1\<lparr>kmem := store64 (kmem s1) (p + 8 * of_nat k) (PA2PTE q OR PTE_V)\<rparr>
     in grown r s [q] ps s2 \<and> node (kmem s2) r (is @ [k]) = Some q)"
proof -
  let ?b = "ALLOC_BEGIN s" and ?m = "kmem s"
  have q: "page_ok ?b q" "q \<notin> pt_pages ?m r" using vm_invD(4) [OF inv] inv by (auto simp: vm_inv_def)
  have fe: "fresh_entry ?b ?m r p q is k"
    using inv q p k by (simp add: fresh_entry_def vm_inv_def)
  obtain t where t: "pmem_alloc s = Inr (q, t)" "q \<noteq> 0"
    "let s' = t\<lparr>kmem := memset (kmem t) q 0 (of_nat PGSIZE)\<rparr>
     in pool s' ps \<and> ALLOC_BEGIN s' = ?b \<and> pst.more s' = pst.more s \<and>
       kmem s' = (\<lambda>x. if in_page q x then 0 else ?m x)"
    using pmem.alloc_zeroed [OF vm_invD(1) [OF inv]] by blast
  define s1 where "s1 = t\<lparr>kmem := memset (kmem t) q 0 (of_nat PGSIZE)\<rparr>"
  have s1: "pool s1 ps" "ALLOC_BEGIN s1 = ?b" "pst.more s1 = pst.more s" "kmem s1 = zeroed q ?m"
    using t(3) unfolding Let_def s1_def [symmetric] zeroed_def by blast+
  define s2 where "s2 = s1\<lparr>kmem := store64 (kmem s1) (p + 8 * of_nat k) (PA2PTE q OR PTE_V)\<rparr>"
  have m2: "kmem s2 = hang p k q ?m" by (simp add: s2_def hang_def s1(4))
  have pp: "p \<in> pt_pages ?m r" using p by (auto simp: pt_pages_def)
  have "pool s2 ps"
    unfolding s2_def
  proof (rule pmem.put_ok [OF s1(1)])
    fix c x assume c: "c \<in> set ps" "in_page c x"
    then have "page_ok ?b c" "c \<noteq> p" using vm_invD(4) [OF inv, of c] vm_invD(3) [OF inv pp] by auto
    then have "\<not> in_page p x" using in_page_unique fresh_entryD(8) [OF fe] c(2) by blast
    then show "store64 (kmem s1) (p + 8 * of_nat k) (PA2PTE q OR PTE_V) x = kmem s1 x"
      using entry_in_page [OF k(1), of x p] by (auto simp: store64_def)
  qed
  moreover have "pt_pages (hang p k q ?m) r \<inter> set ps = {}"
    using pt_pages_hang [OF fe] inv vm_invD(1) [OF inv] by (auto simp: vm_inv_def pool_def)
  ultimately have "vm_inv s2 r ps"
    using pt_ok_hang [OF fe] s1(2) m2 by (simp add: vm_inv_def s2_def)
  moreover have "hang p k q ?m x = ?m x" if "\<forall>p' \<in> pt_pages ?m r \<union> {q}. \<not> in_page p' x" for x
    using that pp k(1) by (intro hang_outside) auto
  moreover have "node (hang p k q ?m) r js = Some x" if "js \<in> paths" "node ?m r js = Some x" for js x
    using that node_hang [OF fe that(1)] fresh_path [OF fe] by auto
  ultimately have "grown r s [q] ps s2"
    using inv s1(2,3) m2 leaf_hang [OF fe] pt_pages_hang [OF fe] by (simp add: grown_def s2_def)
  moreover have "node (kmem s2) r (is @ [k]) = Some q"
    using m2 node_hang [OF fe fresh_entryD(10) [OF fe]] by simp
  ultimately show ?thesis using t(1,2) unfolding Let_def s2_def s1_def by (intro exI [of _ t]) simp
qed

text \<open>The pool has a page for every table of \<open>P\<close> that is still missing, and \<open>k\<close> more.\<close>

definition pt_room :: "nat \<Rightarrow> nat list set \<Rightarrow> mem \<Rightarrow> uint64 \<Rightarrow> uint64 list \<Rightarrow> bool" where
  "pt_room k P m r ps \<longleftrightarrow> finite P \<and> P \<subseteq> paths \<and> card {is \<in> P. node m r is = None} + k \<le> length ps"

text \<open>The tables that the walk to an address passes.\<close>

definition tables :: "uint64 \<Rightarrow> nat list set" where
  "tables va = {[px va 2], [px va 2, px va 1]}"

lemma pt_room_pos: "pt_room k P m r ps \<Longrightarrow> is \<in> P \<Longrightarrow> node m r is = None \<Longrightarrow> ps \<noteq> []"
  by (force simp: pt_room_def card_eq_0_iff)

lemma pt_room_mono:
  assumes "pt_room k P m r ps" and "\<And>js x. js \<in> paths \<Longrightarrow> node m r js = Some x \<Longrightarrow> node m' r js = Some x"
  shows "pt_room k P m' r ps"
proof -
  have "{is \<in> P. node m' r is = None} \<subseteq> {is \<in> P. node m r is = None}" using assms by (force simp: pt_room_def)
  then show ?thesis using assms(1) card_mono [of "{is \<in> P. node m r is = None}" "{is \<in> P. node m' r is = None}"] by (auto simp: pt_room_def)
qed

lemma pt_room_less:
  assumes rm: "pt_room k P m r (q # ps)" and "\<And>js x. js \<in> paths \<Longrightarrow> node m r js = Some x \<Longrightarrow> node m' r js = Some x"
    and "is \<in> P" "node m r is = None" "node m' r is \<noteq> None"
  shows "pt_room k P m' r ps"
proof -
  have "{is \<in> P. node m' r is = None} \<subset> {is \<in> P. node m r is = None}" using assms by (force simp: pt_room_def)
  then show ?thesis
    using rm psubset_card_mono [of "{is \<in> P. node m r is = None}" "{is \<in> P. node m' r is = None}"] by (auto simp: pt_room_def)
qed

lemma walk_step:
  assumes inv: "vm_inv s r ps" and rm: "pt_room k P (kmem s) r ps" "is @ [px va (Suc l)] \<in> P"
    and p: "is \<in> paths" "length is < 2" "node (kmem s) r is = Some p"
  shows "\<exists>q s' qs ps'. vm_getpte_loop (Suc l) p va True s = vm_getpte_loop l q va True s' \<and>
    ps = qs @ ps' \<and> pt_room k P (kmem s') r ps' \<and> grown r s qs ps' s' \<and>
    node (kmem s') r (is @ [px va (Suc l)]) = Some q"
proof (cases "child (kmem s) p (px va (Suc l))")
  case (Some q)
  then have "load64 (kmem s) (p + 8 * PX va (Suc l)) AND PTE_V \<noteq> 0"
    "PTE2PA (load64 (kmem s) (p + 8 * PX va (Suc l))) = q"
    by (auto simp: child_def ent_def flag_bits split: if_splits)
  moreover have "node (kmem s) r (is @ [px va (Suc l)]) = Some q"
    using p(2,3) Some by (cases "is" rule: remdups_adj.cases) (auto split: option.splits)
  ultimately show ?thesis
    using grown_refl [OF inv] rm(1) by (intro exI [of _ q] exI [of _ s] exI [of _ "[]"] exI [of _ ps]) (simp add: Let_def)
next
  case None
  then have n: "node (kmem s) r (is @ [px va (Suc l)]) = None"
    using p(2,3) by (cases "is" rule: remdups_adj.cases) (auto split: option.splits)
  obtain q qs where q: "ps = q # qs" using pt_room_pos [OF rm n] by (cases ps) auto
  then obtain t where t: "pmem_alloc s = Inr (q, t)" "q \<noteq> 0"
    "let s1 = t\<lparr>kmem := memset (kmem t) q 0 (of_nat PGSIZE)\<rparr>;
         s2 = s1\<lparr>kmem := store64 (kmem s1) (p + 8 * of_nat (px va (Suc l))) (PA2PTE q OR PTE_V)\<rparr>
     in grown r s [q] qs s2 \<and> node (kmem s2) r (is @ [px va (Suc l)]) = Some q"
    using grow_ok [of s r q qs, OF _ p px_less None] inv by blast
  have "load64 (kmem s) (p + 8 * PX va (Suc l)) AND PTE_V = 0"
    using None flag_bits(1) by (auto simp: child_def ent_def split: if_splits)
  moreover define s2 where "s2 = t\<lparr>kmem := store64 (memset (kmem t) q 0 (of_nat PGSIZE)) (p + 8 * of_nat (px va (Suc l))) (PA2PTE q OR PTE_V)\<rparr>"
  moreover have g: "grown r s [q] qs s2" "node (kmem s2) r (is @ [px va (Suc l)]) = Some q" using t(3) by (simp_all add: Let_def s2_def)
  moreover have "pt_room k P (kmem s2) r qs"
    using pt_room_less [OF rm(1) [unfolded q] _ rm(2) n] g by (auto simp: grown_def)
  ultimately show ?thesis
    using t(1,2) q by (intro exI [of _ q] exI [of _ s2] exI [of _ "[q]"] exI [of _ qs]) (auto simp: Let_def)
qed

lemma vm_getpte_alloc:
  assumes inv: "vm_inv s r ps" and rm: "pt_room k P (kmem s) r ps" "tables va \<subseteq> P"
  shows "\<exists>p s' qs ps'. vm_getpte r va True s = Inr (p + 8 * of_nat (px va 0), s') \<and>
    ps = qs @ ps' \<and> pt_room k P (kmem s') r ps' \<and> grown r s qs ps' s' \<and> node (kmem s') r [px va 2, px va 1] = Some p"
proof -
  from walk_step [OF inv rm(1), of "[]" va "Suc 0" r] rm(2) obtain p1 s1 q1 ps1 where
    1: "vm_getpte_loop (Suc (Suc 0)) r va True s = vm_getpte_loop (Suc 0) p1 va True s1"
      "ps = q1 @ ps1" "pt_room k P (kmem s1) r ps1" "grown r s q1 ps1 s1" "node (kmem s1) r [px va 2] = Some p1"
    by (auto simp: numeral_2_eq_2 tables_def simp del: vm_getpte_loop.simps)
  then have "vm_inv s1 r ps1" by (simp add: grown_def)
  from walk_step [OF this 1(3), of "[px va 2]" va 0 p1] 1(5) rm(2) obtain p2 s2 q2 ps2 where
    2: "vm_getpte_loop (Suc 0) p1 va True s1 = vm_getpte_loop 0 p2 va True s2"
      "ps1 = q2 @ ps2" "pt_room k P (kmem s2) r ps2" "grown r s1 q2 ps2 s2" "node (kmem s2) r [px va 2, px va 1] = Some p2"
    using px_less by (auto simp: tables_def simp del: vm_getpte_loop.simps)
  have "grown r s (q1 @ q2) ps2 s2" using 1(2,4) 2(2,4) by (auto intro: grown_trans)
  then show ?thesis
    using 1 2 by (intro exI [of _ p2] exI [of _ s2] exI [of _ "q1 @ q2"] exI [of _ ps2])
      (simp add: vm_getpte_def numeral_2_eq_2)
qed

section \<open>Changing the mapping\<close>

lemma leaf_store:
  fixes v :: uint64
  assumes ok: "pt_ok b m r" and p: "node m r [px va 2, px va 1] = Some p"
  defines "m' \<equiv> store64 m (p + 8 * of_nat (px va 0)) v"
  shows "\<And>js. js \<in> paths \<Longrightarrow> node m' r js = node m r js"
    and "leaf m' r va' = (if same_page va va' then v else leaf m r va')"
proof -
  have pth: "[px va 2, px va 1] \<in> paths" by (simp add: px_less)
  note pp = pt_okD(1) [OF ok pth p]
  have c: "child m' x i = child m x i" if "js \<in> paths" "length js < 2" "node m r js = Some x" "i < 512" for js x i
  proof -
    have "x \<noteq> p" using pt_okD(2) [OF ok that(1) pth that(3)] p that(2) by auto
    then show ?thesis
      using ent_store [OF pp pt_okD(1) [OF ok that(1,3)] px_less that(4)] by (simp add: child_def m'_def)
  qed
  have c1: "child m' r i = child m r i" if "i < 512" for i using c [of "[]" r i] that by simp
  show n: "node m' r js = node m r js" if "js \<in> paths" for js
  proof (cases js rule: remdups_adj.cases)
    case (3 i j js')
    then have "js = [i, j]" "i < 512" "j < 512" using that by (auto simp: paths_def)
    then show ?thesis using c1 c [of "[i]" _ j] by (auto split: option.splits)
  qed (use that c1 in \<open>auto split: option.splits\<close>)
  let ?js = "[px va' 2, px va' 1]"
  have pth': "?js \<in> paths" by (simp add: px_less)
  show "leaf m' r va' = (if same_page va va' then v else leaf m r va')"
  proof (cases "node m r ?js")
    case None
    then have "\<not> same_page va va'" using p by (auto simp: same_page_def simp del: node.simps)
    moreover have "node m' r ?js = None" using n [OF pth'] None by simp
    ultimately show ?thesis using None by (simp add: leaf_def del: node.simps)
  next
    case (Some x)
    have e: "ent m' x (px va' 0) = (if x = p \<and> px va' 0 = px va 0 then v else ent m x (px va' 0))"
      unfolding m'_def by (rule ent_store [OF pp pt_okD(1) [OF ok pth' Some] px_less px_less])
    have "x = p \<longleftrightarrow> ?js = [px va 2, px va 1]" using pt_okD(2) [OF ok pth' pth Some] p Some by (metis option.inject)
    then have "x = p \<and> px va' 0 = px va 0 \<longleftrightarrow> same_page va va'" by (auto simp: same_page_def)
    moreover have "node m' r ?js = Some x" using n [OF pth'] Some by simp
    ultimately show ?thesis using e Some by (simp add: leaf_def del: node.simps)
  qed
qed

lemma set_leaf:
  fixes v :: uint64
  assumes inv: "vm_inv s r ps" and p: "node (kmem s) r [px va 2, px va 1] = Some p"
  defines "s' \<equiv> s\<lparr>kmem := store64 (kmem s) (p + 8 * of_nat (px va 0)) v\<rparr>"
  shows "vm_inv s' r ps" and "leaf (kmem s') r va' = (if same_page va va' then v else leaf (kmem s) r va')"
    and "pt_pages (kmem s') r = pt_pages (kmem s) r"
    and "\<not> in_page p x \<Longrightarrow> kmem s' x = kmem s x" and "js \<in> paths \<Longrightarrow> node (kmem s') r js = node (kmem s) r js"
proof -
  note ok = vm_invD(2) [OF inv] and ls = leaf_store [OF vm_invD(2) [OF inv] p, where v = v]
  have pth: "[px va 2, px va 1] \<in> paths" by (simp add: px_less)
  have pp: "p \<in> pt_pages (kmem s) r" using p pth by (auto simp: pt_pages_def simp del: node.simps)
  show out: "\<not> in_page p x \<Longrightarrow> kmem s' x = kmem s x" for x
    using entry_in_page [OF px_less, of x p va 0] by (auto simp: s'_def store64_def)
  show "js \<in> paths \<Longrightarrow> node (kmem s') r js = node (kmem s) r js" for js using ls(1) by (simp add: s'_def)
  show pg: "pt_pages (kmem s') r = pt_pages (kmem s) r" using ls(1) by (auto simp: pt_pages_def s'_def)
  have "pool s' ps"
    unfolding s'_def
  proof (rule pmem.put_ok [OF vm_invD(1) [OF inv]])
    fix q x assume q: "q \<in> set ps" "in_page q x"
    then have "\<not> in_page p x"
      using in_page_unique vm_invD(3,5) [OF inv pp] vm_invD(4) [OF inv q(1)] by blast
    then show "store64 (kmem s) (p + 8 * of_nat (px va 0)) v x = kmem s x" using out by (simp add: s'_def)
  qed
  moreover have "pt_ok (ALLOC_BEGIN s') (kmem s') r"
    using ok ls(1) unfolding pt_ok_def s'_def by simp
  ultimately show "vm_inv s' r ps" using inv pg by (simp add: vm_inv_def)
  show "leaf (kmem s') r va' = (if same_page va va' then v else leaf (kmem s) r va')"
    using ls(2) by (simp add: s'_def)
qed

lemma leaf_entry:
  "node m r [px va 2, px va 1] = Some p \<Longrightarrow> leaf m r va = load64 m (p + 8 * of_nat (px va 0))"
  by (simp add: leaf_def ent_def del: node.simps)

lemma pte_address_nonzero:
  assumes "vm_inv s r ps" and "node (kmem s) r [px va 2, px va 1] = Some p"
  shows "p + 8 * of_nat (px va 0) \<noteq> 0"
proof -
  have "p \<in> pt_pages (kmem s) r"
    using assms(2) px_less by (auto simp: pt_pages_def intro!: bexI [of _ "[px va 2, px va 1]"])
  then have "page_ok (ALLOC_BEGIN s) p" "p \<noteq> 0" using vm_invD(5) [OF assms(1)] by auto
  then have "unat (p + 8 * of_nat (px va 0)) \<noteq> 0"
    unfolding entry_unat [OF \<open>page_ok (ALLOC_BEGIN s) p\<close> px_less] by (simp add: unat_eq_zero)
  then show ?thesis by (metis unat_0)
qed

text \<open>The body of the loop of \<^verbatim>\<open>vm_mappages\<close> on an unmapped page.\<close>

lemma map_page:
  assumes inv: "vm_inv s r ps" and rm: "pt_room k P (kmem s) r ps" "tables a \<subseteq> P" and un: "\<not> bit (leaf (kmem s) r a) 0"
  shows "\<exists>pte t. vm_getpte r a True s = Inr (pte, t) \<and> pte \<noteq> 0 \<and> load64 (kmem t) pte AND PTE_V = 0 \<and>
    (\<exists>qs ps'. ps = qs @ ps' \<and> pt_room k P (store64 (kmem t) pte v) r ps' \<and> vm_inv (t\<lparr>kmem := store64 (kmem t) pte v\<rparr>) r ps' \<and>
      ALLOC_BEGIN t = ALLOC_BEGIN s \<and> pst.more t = pst.more s \<and>
      pt_pages (store64 (kmem t) pte v) r = pt_pages (kmem s) r \<union> set qs \<and>
      (\<forall>x. (\<forall>p \<in> pt_pages (kmem s) r \<union> set qs. \<not> in_page p x) \<longrightarrow> store64 (kmem t) pte v x = kmem s x) \<and>
      (\<forall>va. leaf (store64 (kmem t) pte v) r va = (if same_page a va then v else leaf (kmem s) r va)))"
proof -
  obtain p t qs ps' where t: "vm_getpte r a True s = Inr (p + 8 * of_nat (px a 0), t)" "ps = qs @ ps'"
    "pt_room k P (kmem t) r ps'" "grown r s qs ps' t" "node (kmem t) r [px a 2, px a 1] = Some p"
    using vm_getpte_alloc [OF inv rm] by blast
  let ?pte = "p + 8 * of_nat (px a 0)"
  have gt: "vm_inv t r ps'" "\<And>va. leaf (kmem t) r va = leaf (kmem s) r va" "ALLOC_BEGIN t = ALLOC_BEGIN s"
    "pst.more t = pst.more s" "pt_pages (kmem t) r = pt_pages (kmem s) r \<union> set qs"
    "\<And>x. (\<forall>p \<in> pt_pages (kmem s) r \<union> set qs. \<not> in_page p x) \<Longrightarrow> kmem t x = kmem s x"
    using t(4) by (auto simp: grown_def)
  note sl = set_leaf [OF gt(1) t(5), where v = v]
  have "leaf (kmem t) r a = load64 (kmem t) ?pte" by (rule leaf_entry [OF t(5)])
  then have "load64 (kmem t) ?pte AND PTE_V = 0" using un gt(2) [of a] flag_bits(1) by auto
  moreover have "?pte \<noteq> 0" by (rule pte_address_nonzero [OF gt(1) t(5)])
  moreover have "p \<in> pt_pages (kmem t) r"
    using t(5) px_less by (auto simp: pt_pages_def intro!: bexI [of _ "[px a 2, px a 1]"])
  then have "store64 (kmem t) ?pte v x = kmem s x"
    if "\<forall>p \<in> pt_pages (kmem s) r \<union> set qs. \<not> in_page p x" for x
    using sl(4) [of x] gt(5,6) that by auto
  moreover have "vm_inv (t\<lparr>kmem := store64 (kmem t) ?pte v\<rparr>) r ps'" using sl(1) by simp
  moreover have "pt_pages (store64 (kmem t) ?pte v) r = pt_pages (kmem s) r \<union> set qs"
    using sl(3) gt(5) by simp
  moreover have "leaf (store64 (kmem t) ?pte v) r va = (if same_page a va then v else leaf (kmem s) r va)" for va
    using sl(2) [of va] gt(2) by simp
  moreover have "pt_room k P (store64 (kmem t) ?pte v) r ps'" using pt_room_mono [OF t(3)] sl(5) by simp
  ultimately show ?thesis
    using t(1,2) gt(3,4) by (intro exI [of _ ?pte] exI [of _ t] conjI exI [of _ qs] exI [of _ ps']) auto
qed

section \<open>Mapping a range\<close>

lemma px_nat: "px va l = unat va div 2 ^ (12 + 9 * l) mod 512"
proof -
  have "PX va l = take_bit 9 (drop_bit (12 + 9 * l) va)"
    by (simp add: PX_def take_bit_eq_mask mask_eq_decr_exp)
  then have "px va l = take_bit 9 (unat (drop_bit (12 + 9 * l) va))" by (simp add: unsigned_take_bit_eq)
  moreover have "unat (drop_bit (12 + 9 * l) va) = unat va div 2 ^ (12 + 9 * l)"
    by (subst unat_drop_bit_eq) (rule drop_bit_eq_div)
  ultimately show ?thesis by (simp only: take_bit_eq_mod) simp
qed

lemma px_div:
  "px v 0 = unat v div PGSIZE mod 512" "px v 1 = unat v div PGSIZE div 512 mod 512"
  "px v 2 = unat v div PGSIZE div 512 div 512 mod 512"
  unfolding px_nat by (simp_all add: layout div_mult2_eq [symmetric])

text \<open>Below \<^verbatim>\<open>MAXVA\<close> the three indices determine the page.\<close>

lemma same_page_iff:
  assumes "va < MAXVA" and "va' < MAXVA"
  shows "same_page va va' \<longleftrightarrow> unat va div PGSIZE = unat va' div PGSIZE"
proof -
  have d: "unat v div PGSIZE = px v 0 + 512 * (px v 1 + 512 * px v 2)" if "v < MAXVA" for v
  proof -
    define q where "q = unat v div PGSIZE"
    have "unat v < 2 ^ 38" using that by (simp add: MAXVA_def word_less_nat_alt)
    then have "q < 2 ^ 26" by (simp add: q_def layout less_mult_imp_div_less)
    then have "q = q mod 512 + 512 * (q div 512 mod 512 + 512 * (q div 512 div 512 mod 512))" by simp
    then show ?thesis unfolding px_div q_def .
  qed
  show ?thesis
  proof
    assume "same_page va va'"
    then show "unat va div PGSIZE = unat va' div PGSIZE"
      unfolding d [OF assms(1)] d [OF assms(2)] same_page_def by simp
  next
    assume "unat va div PGSIZE = unat va' div PGSIZE"
    then show "same_page va va'" unfolding same_page_def px_div by simp
  qed
qed

definition pg :: "uint64 \<Rightarrow> nat \<Rightarrow> uint64" where
  "pg a i = a + of_nat (i * PGSIZE)"

lemma pg_simps: "pg a 0 = a" "pg (a + of_nat PGSIZE) i = pg a (Suc i)"
  by (simp_all add: pg_def algebra_simps)

text \<open>The pages \<open>pg a 0\<close> to \<open>pg a n\<close> of a range lie below \<^verbatim>\<open>MAXVA\<close> and so are different.\<close>

definition range_ok :: "uint64 \<Rightarrow> nat \<Rightarrow> bool" where
  "range_ok a n \<longleftrightarrow> unat a mod PGSIZE = 0 \<and> unat a + n * PGSIZE < unat MAXVA"

lemma pg_unat: "range_ok a n \<Longrightarrow> i \<le> n \<Longrightarrow> unat (pg a i) = unat a + i * PGSIZE \<and> pg a i < MAXVA"
proof -
  assume a: "range_ok a n" "i \<le> n"
  have "i * PGSIZE \<le> n * PGSIZE" using a(2) by (rule mult_le_mono1)
  then have "unat a + i * PGSIZE \<le> unat a + n * PGSIZE" by (rule add_left_mono)
  also have "\<dots> < unat MAXVA" using a(1) by (simp add: range_ok_def)
  finally have lt: "unat a + i * PGSIZE < unat MAXVA" .
  then have "unat (pg a i) = unat a + i * PGSIZE"
    unfolding pg_def by (intro unat_add_of_nat) (simp add: layout)
  then show ?thesis using lt by (simp add: word_less_nat_alt)
qed

lemma pg_distinct:
  assumes "range_ok a n" and "i \<le> n" and "j \<le> n" and "same_page (pg a i) (pg a j)"
  shows "i = j"
proof -
  note i = pg_unat [OF assms(1,2)] and j = pg_unat [OF assms(1,3)]
  have "(unat a + i * PGSIZE) div PGSIZE = (unat a + j * PGSIZE) div PGSIZE"
    using assms(4) same_page_iff [of "pg a i" "pg a j"] i j by simp
  then show ?thesis by (simp add: layout)
qed

lemma range_ok_Suc: "range_ok a (Suc n) \<Longrightarrow> range_ok (a + of_nat PGSIZE) n"
proof -
  assume a: "range_ok a (Suc n)"
  then have "unat (a + of_nat PGSIZE) = unat a + PGSIZE" using pg_unat [OF a, of 1] by (simp add: pg_def)
  then show ?thesis using a by (simp add: range_ok_def)
qed

text \<open>The mapping after the loop.\<close>

definition mapped :: "uint64 \<Rightarrow> nat \<Rightarrow> (nat \<Rightarrow> uint64) \<Rightarrow> (uint64 \<Rightarrow> uint64) \<Rightarrow> (uint64 \<Rightarrow> uint64) \<Rightarrow> bool" where
  "mapped a n e f g \<longleftrightarrow> (\<forall>i \<le> n. \<forall>va. same_page (pg a i) va \<longrightarrow> g va = e i) \<and>
     (\<forall>va. (\<forall>i \<le> n. \<not> same_page (pg a i) va) \<longrightarrow> g va = f va)"

lemma mapped_0: "(\<And>va. g va = (if same_page a va then e 0 else f va)) \<Longrightarrow> mapped a 0 e f g"
  by (simp add: mapped_def pg_simps)

lemma same_page_trans: "same_page a b \<Longrightarrow> same_page c b \<Longrightarrow> same_page a c"
  by (simp add: same_page_def)

lemma mapped_Suc:
  assumes r: "range_ok a (Suc n)" and f: "\<And>va. f' va = (if same_page a va then e 0 else f va)"
    and g: "mapped (a + of_nat PGSIZE) n (\<lambda>i. e (Suc i)) f' g"
  shows "mapped a (Suc n) e f g"
proof -
  have z: "\<not> same_page (pg a (Suc j)) va" if "same_page (pg a 0) va" "j \<le> n" for j va
    using pg_distinct [OF r, of "Suc j" 0] same_page_trans [OF _ that(1), of "pg a (Suc j)"] that(2) by auto
  have "g va = e i" if i: "i \<le> Suc n" "same_page (pg a i) va" for i va
  proof (cases i)
    case 0
    then have "g va = f' va" using g z [of va] i(2) by (simp add: mapped_def pg_simps)
    then show ?thesis using f 0 i(2) by (simp add: pg_simps)
  next
    case (Suc j)
    then show ?thesis using g i by (simp add: mapped_def pg_simps)
  qed
  moreover have "g va = f va" if o: "\<forall>i \<le> Suc n. \<not> same_page (pg a i) va" for va
  proof -
    have "\<forall>i \<le> n. \<not> same_page (pg (a + of_nat PGSIZE) i) va" using o by (simp add: pg_simps)
    moreover have "\<not> same_page a va" using o [rule_format, of 0] by (simp add: pg_simps)
    ultimately show ?thesis using g f by (simp add: mapped_def)
  qed
  ultimately show ?thesis by (simp add: mapped_def)
qed

lemma vm_mappages_loop_ok:
  fixes s :: "'a pst_scheme"
  assumes "vm_inv s r ps" and "pt_room k P (kmem s) r ps" and "range_ok a n" and "\<forall>i \<le> n. tables (pg a i) \<subseteq> P"
    and "\<forall>i \<le> n. \<not> bit (leaf (kmem s) r (pg a i)) 0"
  shows "\<exists>s' qs ps'. vm_mappages_loop (Suc n) r a (pg a n) pa perm s = Inr s' \<and> ps = qs @ ps' \<and>
    vm_inv s' r ps' \<and> pt_room k P (kmem s') r ps' \<and> ALLOC_BEGIN s' = ALLOC_BEGIN s \<and> pst.more s' = pst.more s \<and>
    pt_pages (kmem s') r = pt_pages (kmem s) r \<union> set qs \<and>
    (\<forall>x. (\<forall>p \<in> pt_pages (kmem s) r \<union> set qs. \<not> in_page p x) \<longrightarrow> kmem s' x = kmem s x) \<and>
    mapped a n (\<lambda>i. PA2PTE (pg pa i) OR perm OR PTE_V) (leaf (kmem s) r) (leaf (kmem s') r)"
  using assms
proof (induction n arbitrary: s ps a pa)
  case (0 s ps a pa)
  let ?e = "PA2PTE pa OR perm OR PTE_V"
  have "\<not> bit (leaf (kmem s) r a) 0" "tables a \<subseteq> P" using "0.prems"(4,5) by (simp_all add: pg_simps)
  then obtain pte t qs ps' where t: "vm_getpte r a True s = Inr (pte, t)" "pte \<noteq> 0" "load64 (kmem t) pte AND PTE_V = 0"
    "ps = qs @ ps'" "vm_inv (t\<lparr>kmem := store64 (kmem t) pte ?e\<rparr>) r ps'" "pt_room k P (store64 (kmem t) pte ?e) r ps'"
    "ALLOC_BEGIN t = ALLOC_BEGIN s" "pst.more t = pst.more s"
    "pt_pages (store64 (kmem t) pte ?e) r = pt_pages (kmem s) r \<union> set qs"
    "\<forall>x. (\<forall>p \<in> pt_pages (kmem s) r \<union> set qs. \<not> in_page p x) \<longrightarrow> store64 (kmem t) pte ?e x = kmem s x"
    "\<forall>va. leaf (store64 (kmem t) pte ?e) r va = (if same_page a va then ?e else leaf (kmem s) r va)"
    using map_page [OF "0.prems"(1,2), of a ?e] by auto
  have "mapped a 0 (\<lambda>i. PA2PTE (pg pa i) OR perm OR PTE_V) (leaf (kmem s) r) (leaf (store64 (kmem t) pte ?e) r)"
    using t(11) by (intro mapped_0) (simp add: pg_simps)
  then show ?case
    using t(1-10) by - (rule exI [of _ "t\<lparr>kmem := store64 (kmem t) pte ?e\<rparr>"], rule exI [of _ qs],
      rule exI [of _ ps'], simp add: pg_simps Let_def)
next
  case (Suc n s ps a pa)
  let ?e = "PA2PTE pa OR perm OR PTE_V" and ?a = "a + of_nat PGSIZE" and ?pa = "pa + of_nat PGSIZE"
  have "\<not> bit (leaf (kmem s) r a) 0" "tables a \<subseteq> P"
    using Suc.prems(4,5) [rule_format, of 0] by (simp_all add: pg_simps)
  then obtain pte t qs ps1 where t: "vm_getpte r a True s = Inr (pte, t)" "pte \<noteq> 0" "load64 (kmem t) pte AND PTE_V = 0"
    "ps = qs @ ps1" "pt_room k P (store64 (kmem t) pte ?e) r ps1" "vm_inv (t\<lparr>kmem := store64 (kmem t) pte ?e\<rparr>) r ps1"
    "ALLOC_BEGIN t = ALLOC_BEGIN s" "pst.more t = pst.more s"
    "pt_pages (store64 (kmem t) pte ?e) r = pt_pages (kmem s) r \<union> set qs"
    "\<forall>x. (\<forall>p \<in> pt_pages (kmem s) r \<union> set qs. \<not> in_page p x) \<longrightarrow> store64 (kmem t) pte ?e x = kmem s x"
    "\<And>va. leaf (store64 (kmem t) pte ?e) r va = (if same_page a va then ?e else leaf (kmem s) r va)"
    using map_page [OF Suc.prems(1,2), of a ?e] by auto
  let ?s = "t\<lparr>kmem := store64 (kmem t) pte ?e\<rparr>"
  have "\<not> bit (leaf (kmem ?s) r (pg ?a i)) 0" if "i \<le> n" for i
  proof -
    have "\<not> same_page a (pg a (Suc i))" using pg_distinct [OF Suc.prems(3), of 0 "Suc i"] that by (auto simp: pg_simps)
    then show ?thesis using t(11) [of "pg a (Suc i)"] Suc.prems(5) that by (simp add: pg_simps)
  qed
  moreover have "\<forall>i \<le> n. tables (pg ?a i) \<subseteq> P" using Suc.prems(4) by (simp add: pg_simps)
  moreover have "pt_room k P (kmem ?s) r ps1" using t(5) by simp
  ultimately obtain s' qs' ps' where s': "vm_mappages_loop (Suc n) r ?a (pg ?a n) ?pa perm ?s = Inr s'"
    "ps1 = qs' @ ps'" "vm_inv s' r ps' \<and> pt_room k P (kmem s') r ps'" "ALLOC_BEGIN s' = ALLOC_BEGIN ?s" "pst.more s' = pst.more ?s"
    "pt_pages (kmem s') r = pt_pages (kmem ?s) r \<union> set qs'"
    "\<forall>x. (\<forall>p \<in> pt_pages (kmem ?s) r \<union> set qs'. \<not> in_page p x) \<longrightarrow> kmem s' x = kmem ?s x"
    "mapped ?a n (\<lambda>i. PA2PTE (pg ?pa i) OR perm OR PTE_V) (leaf (kmem ?s) r) (leaf (kmem s') r)"
    using Suc.IH [OF t(6) _ range_ok_Suc [OF Suc.prems(3)], of ?pa] by blast
  have ne: "a \<noteq> pg a (Suc n)"
    using pg_distinct [OF Suc.prems(3), of 0 "Suc n"] by (auto simp: pg_simps same_page_def)
  have "vm_mappages_loop (Suc (Suc n)) r a (pg a (Suc n)) pa perm s = Inr s'"
    using t(1-3) ne s'(1) by (simp add: Let_def pg_simps)
  moreover have "mapped a (Suc n) (\<lambda>i. PA2PTE (pg pa i) OR perm OR PTE_V) (leaf (kmem s) r) (leaf (kmem s') r)"
    using s'(8) t(11) by (intro mapped_Suc [OF Suc.prems(3), of "leaf (kmem ?s) r"]) (simp_all add: pg_simps)
  moreover have "kmem s' x = kmem s x" if "\<forall>p \<in> pt_pages (kmem s) r \<union> set (qs @ qs'). \<not> in_page p x" for x
    using that s'(7) t(9,10) by simp
  ultimately show ?case
    using s' t(4,7-9) by - (rule exI [of _ s'], rule exI [of _ "qs @ qs'"], rule exI [of _ ps'], auto)
qed

lemma round_down_push: "PG_ROUND_DOWN a = push_bit 12 (drop_bit 12 a)"
proof -
  have "PG_ROUND_DOWN a = a AND NOT (mask 12)" by (simp add: PG_ROUND_DOWN_def layout mask_eq_exp_minus_1)
  also have "\<dots> = push_bit 12 (drop_bit 12 a)" by (rule bit_word_eqI) (auto simp: bit_simps)
  finally show ?thesis .
qed

lemma round_down_unat: "unat (PG_ROUND_DOWN a) = unat a div PGSIZE * PGSIZE"
proof -
  have "unat (PG_ROUND_DOWN a) = take_bit 64 (push_bit 12 (drop_bit 12 (unat a)))"
    unfolding round_down_push unsigned_push_bit_eq unat_drop_bit_eq by simp
  also have "\<dots> = take_bit 64 (unat a div PGSIZE * PGSIZE)"
    by (simp only: push_bit_eq_mult drop_bit_eq_div layout) simp
  also have "\<dots> = unat a div PGSIZE * PGSIZE"
    using div_times_less_eq_dividend [of "unat a" PGSIZE] unsigned_less [of a, where ?'a = nat]
    by (intro take_bit_nat_eq_self) (rule le_less_trans, simp_all)
  finally show ?thesis .
qed

lemma round_down_aligned: "unat a mod PGSIZE = 0 \<Longrightarrow> PG_ROUND_DOWN a = a"
  using round_down_unat [of a] by (simp add: word_unat_eq_iff mod_eq_0_iff_dvd)

text \<open>The pages that \<^verbatim>\<open>vm_mappages\<close> touches: \<open>npages len\<close> more than the first.\<close>

definition npages :: "uint64 \<Rightarrow> nat" where
  "npages len = (unat len - 1) div PGSIZE"

lemma last_page:
  assumes a: "unat va mod PGSIZE = 0" and len: "0 < len" and fit: "unat va + unat len \<le> unat MAXVA"
  shows "PG_ROUND_DOWN (va + len - 1) = pg va (npages len)" and "range_ok va (npages len)"
proof -
  have l: "0 < unat len" using len by (simp add: word_less_nat_alt)
  have "unat (va + of_nat (unat len - 1)) = unat va + (unat len - 1)"
    using fit l by (intro unat_add_of_nat) (simp add: layout)
  moreover have "va + of_nat (unat len - 1) = va + len - 1" using l by (simp add: of_nat_diff add_diff_eq)
  ultimately have u: "unat (va + len - 1) = unat va + (unat len - 1)" by metis
  obtain q where q: "unat va = q * PGSIZE"
    using a unfolding mod_eq_0_iff_dvd by (metis dvd_div_mult_self)
  have n: "npages len * PGSIZE \<le> unat len - 1" by (simp add: npages_def)
  then show r: "range_ok va (npages len)" using a fit l by (simp add: range_ok_def)
  have "unat (PG_ROUND_DOWN (va + len - 1)) = unat va + npages len * PGSIZE"
    unfolding round_down_unat u npages_def q by (simp add: layout)
  then show "PG_ROUND_DOWN (va + len - 1) = pg va (npages len)"
    using pg_unat [OF r order_refl] by (simp add: word_unat_eq_iff)
qed

lemma vm_mappages_room:
  fixes s :: "'a pst_scheme"
  assumes inv: "vm_inv s r ps" and va: "unat va mod PGSIZE = 0" and len: "0 < len"
    and fit: "unat va + unat len \<le> unat MAXVA" and rm: "pt_room k P (kmem s) r ps" "\<forall>i \<le> npages len. tables (pg va i) \<subseteq> P"
    and un: "\<forall>i \<le> npages len. \<not> bit (leaf (kmem s) r (pg va i)) 0"
  shows "\<exists>s' qs ps'. vm_mappages r va pa len perm s = Inr s' \<and> ps = qs @ ps' \<and>
    vm_inv s' r ps' \<and> pt_room k P (kmem s') r ps' \<and> ALLOC_BEGIN s' = ALLOC_BEGIN s \<and> pst.more s' = pst.more s \<and>
    pt_pages (kmem s') r = pt_pages (kmem s) r \<union> set qs \<and>
    (\<forall>x. (\<forall>p \<in> pt_pages (kmem s) r \<union> set qs. \<not> in_page p x) \<longrightarrow> kmem s' x = kmem s x) \<and>
    mapped va (npages len) (\<lambda>i. PA2PTE (pg pa i) OR perm OR PTE_V) (leaf (kmem s) r) (leaf (kmem s') r)"
proof -
  note lp = last_page [OF va len fit]
  have "pg va (npages len) - va = of_nat (npages len * PGSIZE)" by (simp add: pg_def)
  moreover have "npages len * PGSIZE < 2 ^ 64"
    using lp(2) by (simp add: range_ok_def layout)
  ultimately have "unat (pg va (npages len) - va) div PGSIZE = npages len"
    by (simp add: unat_of_nat_small layout del: of_nat_mult)
  then have "vm_mappages r va pa len perm s =
      vm_mappages_loop (Suc (npages len)) r va (pg va (npages len)) pa perm s"
    using word_gt_0 [THEN iffD1, OF len]
    by (simp add: vm_mappages_def Let_def round_down_aligned [OF va] lp(1) del: vm_mappages_loop.simps)
  then show ?thesis using vm_mappages_loop_ok [OF inv rm(1) lp(2) rm(2) un] by simp
qed

text \<open>Two pages for every page of the range are always enough.\<close>

lemma pt_room_twice:
  assumes "2 * Suc n \<le> length ps"
  shows "pt_room 0 (\<Union>i \<in> {..n}. tables (pg va i)) m r ps"
proof -
  let ?P = "\<Union>i \<in> {..n}. tables (pg va i)"
  have c: "card (tables a) \<le> 2" "finite (tables a)" "tables a \<subseteq> paths" for a
    using px_less by (auto simp: tables_def card_insert_if)
  have "card ?P \<le> (\<Sum>i \<in> {..n}. card (tables (pg va i)))" by (rule card_UN_le) simp
  also have "\<dots> \<le> (\<Sum>i \<in> {..n}. 2)" using c(1) by (intro sum_mono) simp
  also have "\<dots> \<le> length ps" using assms by simp
  finally have "card ?P \<le> length ps" .
  moreover have "finite ?P" using c(2) by simp
  moreover from this have "card {is \<in> ?P. node m r is = None} \<le> card ?P" by (intro card_mono) auto
  ultimately show ?thesis using c(3) unfolding pt_room_def by (auto intro: order_trans)
qed

lemma vm_mappages_ok:
  fixes s :: "'a pst_scheme"
  assumes inv: "vm_inv s r ps" and va: "unat va mod PGSIZE = 0" and len: "0 < len"
    and fit: "unat va + unat len \<le> unat MAXVA" and room: "2 * Suc (npages len) \<le> length ps"
    and un: "\<forall>i \<le> npages len. \<not> bit (leaf (kmem s) r (pg va i)) 0"
  shows "\<exists>s' qs ps'. vm_mappages r va pa len perm s = Inr s' \<and> ps = qs @ ps' \<and>
    vm_inv s' r ps' \<and> ALLOC_BEGIN s' = ALLOC_BEGIN s \<and> pst.more s' = pst.more s \<and>
    pt_pages (kmem s') r = pt_pages (kmem s) r \<union> set qs \<and>
    (\<forall>x. (\<forall>p \<in> pt_pages (kmem s) r \<union> set qs. \<not> in_page p x) \<longrightarrow> kmem s' x = kmem s x) \<and>
    mapped va (npages len) (\<lambda>i. PA2PTE (pg pa i) OR perm OR PTE_V) (leaf (kmem s) r) (leaf (kmem s') r)"
proof -
  have "\<forall>i \<le> npages len. tables (pg va i) \<subseteq> (\<Union>i \<in> {..npages len}. tables (pg va i))" by auto
  from vm_mappages_room [OF inv va len fit pt_room_twice [OF room] this un] show ?thesis by blast
qed

section \<open>Looking up and unmapping\<close>

text \<open>The physical page behind a user address, 0 if there is none.\<close>

definition upa :: "mem \<Rightarrow> uint64 \<Rightarrow> uint64 \<Rightarrow> uint64" where
  "upa m r va = (if va \<ge> MAXVA \<or> \<not> bit (leaf m r va) 0 \<or> \<not> bit (leaf m r va) 4 then 0 else PTE2PA (leaf m r va))"

lemma vm_getpa_upa:
  assumes "vm_inv s r ps"
  shows "vm_getpa r va s = Inr (upa (kmem s) r va)"
proof (cases "node (kmem s) r [px va 2, px va 1]")
  case None
  then have "leaf (kmem s) r va = 0" by (simp add: leaf_def del: node.simps)
  then show ?thesis using None by (simp add: vm_getpa_def vm_getpte_lookup upa_def del: node.simps)
next
  case (Some p)
  have f: "f AND PTE_V = 0 \<longleftrightarrow> \<not> bit f 0" "f AND PTE_U = 0 \<longleftrightarrow> \<not> bit f 4" for f
    using flag_bits by auto
  show ?thesis
    using Some pte_address_nonzero [OF assms Some]
    by (auto simp: vm_getpa_def vm_getpte_lookup upa_def f leaf_entry [OF Some] simp del: node.simps)
qed

text \<open>The body of the loop of \<^verbatim>\<open>vm_unmappages\<close> on a mapped page, without and with freeing the page.\<close>

lemma unmap_page:
  assumes inv: "vm_inv s r ps" and l: "bit (leaf (kmem s) r a) 0" "PTE_FLAGS (leaf (kmem s) r a) \<noteq> PTE_V"
    and own: "freeit \<Longrightarrow> page_ok (ALLOC_BEGIN s) (PTE2PA (leaf (kmem s) r a)) \<and>
      PTE2PA (leaf (kmem s) r a) \<notin> set ps \<union> pt_pages (kmem s) r"
  shows "\<exists>pte s1. vm_getpte r a False s = Inr (pte, s) \<and> pte \<noteq> 0 \<and> load64 (kmem s) pte = leaf (kmem s) r a \<and>
    (if freeit then pmem_free (PTE2PA (leaf (kmem s) r a)) s else Inr s) = Inr s1 \<and>
    vm_inv (s1\<lparr>kmem := store64 (kmem s1) pte 0\<rparr>) r (if freeit then PTE2PA (leaf (kmem s) r a) # ps else ps) \<and>
    ALLOC_BEGIN s1 = ALLOC_BEGIN s \<and> pst.more s1 = pst.more s \<and>
    pt_pages (store64 (kmem s1) pte 0) r = pt_pages (kmem s) r \<and>
    (\<forall>va. leaf (store64 (kmem s1) pte 0) r va = (if same_page a va then 0 else leaf (kmem s) r va))"
proof -
  let ?e = "leaf (kmem s) r a"
  obtain p where p: "node (kmem s) r [px a 2, px a 1] = Some p"
    using l(1) by (cases "node (kmem s) r [px a 2, px a 1]") (simp_all add: leaf_def del: node.simps)
  let ?pte = "p + 8 * of_nat (px a 0)" and ?ps = "if freeit then PTE2PA ?e # ps else ps"
  have "\<exists>s1. (if freeit then pmem_free (PTE2PA ?e) s else Inr s) = Inr s1 \<and> vm_inv s1 r ?ps \<and>
    ALLOC_BEGIN s1 = ALLOC_BEGIN s \<and> pst.more s1 = pst.more s \<and>
    (\<forall>js \<in> paths. node (kmem s1) r js = node (kmem s) r js) \<and> (\<forall>va. leaf (kmem s1) r va = leaf (kmem s) r va)"
  proof (cases freeit)
    case False
    then show ?thesis using inv by auto
  next
    case True
    note o = own [OF True]
    obtain s1 where s1: "pmem_free (PTE2PA ?e) s = Inr s1" "pool s1 (PTE2PA ?e # ps)"
      "ALLOC_BEGIN s1 = ALLOC_BEGIN s" "pst.more s1 = pst.more s"
      "\<forall>x. \<not> in_page (PTE2PA ?e) x \<longrightarrow> kmem s1 x = kmem s x"
      using pmem.free_ok [OF vm_invD(1) [OF inv], of "PTE2PA ?e"] o by blast
    have eq: "kmem s1 x = kmem s x" if "q \<in> pt_pages (kmem s) r" "in_page q x" for q x
      using that vm_invD(5) [OF inv that(1)] o in_page_unique s1(5) by blast
    note nc = node_cong [OF vm_invD(2) [OF inv], of "kmem s1", OF eq]
    have "pt_pages (kmem s1) r = pt_pages (kmem s) r" using nc(1) by (auto simp: pt_pages_def)
    moreover have "pt_ok (ALLOC_BEGIN s1) (kmem s1) r"
      using vm_invD(2) [OF inv] nc(1) s1(3) unfolding pt_ok_def by simp
    ultimately have "vm_inv s1 r (PTE2PA ?e # ps)" using s1(2) o inv by (auto simp: vm_inv_def)
    then show ?thesis using True s1 nc by auto
  qed
  then obtain s1 where s1: "(if freeit then pmem_free (PTE2PA ?e) s else Inr s) = Inr s1" "vm_inv s1 r ?ps"
    "ALLOC_BEGIN s1 = ALLOC_BEGIN s" "pst.more s1 = pst.more s"
    "\<forall>js \<in> paths. node (kmem s1) r js = node (kmem s) r js" "\<And>va. leaf (kmem s1) r va = leaf (kmem s) r va"
    by blast
  have "[px a 2, px a 1] \<in> paths" by (simp add: px_less)
  then have p1: "node (kmem s1) r [px a 2, px a 1] = Some p" using s1(5) p by metis
  note sl = set_leaf [OF s1(2) p1, where v = 0]
  have "pt_pages (kmem s1) r = pt_pages (kmem s) r" using s1(5) by (auto simp: pt_pages_def)
  then have "pt_pages (store64 (kmem s1) ?pte 0) r = pt_pages (kmem s) r" using sl(3) by simp
  moreover have "leaf (store64 (kmem s1) ?pte 0) r va = (if same_page a va then 0 else leaf (kmem s) r va)" for va
    using sl(2) [of va] s1(6) by simp
  moreover have "vm_getpte r a False s = Inr (?pte, s)" using p by (simp add: vm_getpte_lookup del: node.simps)
  ultimately show ?thesis
    using s1(1,3,4) sl(1) pte_address_nonzero [OF inv p] leaf_entry [OF p]
    by (intro exI [of _ ?pte] exI [of _ s1]) simp
qed

definition unmapped :: "uint64 \<Rightarrow> nat \<Rightarrow> (uint64 \<Rightarrow> uint64) \<Rightarrow> (uint64 \<Rightarrow> uint64) \<Rightarrow> bool" where
  "unmapped a n f g \<longleftrightarrow> (\<forall>va. g va = (if \<exists>i<n. same_page (pg a i) va then 0 else f va))"

lemma unmapped_Suc:
  assumes "\<And>va. f' va = (if same_page a va then 0 else f va)" and "unmapped (a + of_nat PGSIZE) n f' g"
  shows "unmapped a (Suc n) f g"
proof -
  have "(\<exists>i<Suc n. same_page (pg a i) va) \<longleftrightarrow> same_page a va \<or> (\<exists>i<n. same_page (pg a (Suc i)) va)" for va
    by (subst ex_simps(1) [symmetric] | simp add: Ex_less_Suc2 pg_simps(1))+
  then show ?thesis using assms by (auto simp: unmapped_def pg_simps(2))
qed

text \<open>The loop of \<^verbatim>\<open>vm_unmappages\<close> on a range of mapped pages: it clears exactly their entries and,
  with \<open>freeit\<close>, gives the pages behind them back to the allocator.\<close>

definition backing :: "mem \<Rightarrow> uint64 \<Rightarrow> uint64 \<Rightarrow> nat \<Rightarrow> uint64 list" where
  "backing m r a n = map (\<lambda>i. PTE2PA (leaf m r (pg a i))) [0..<n]"

lemma backing_Suc: "backing m r a (Suc n) = PTE2PA (leaf m r a) # backing m r (a + of_nat PGSIZE) n"
  by (simp add: backing_def upt_conv_Cons map_Suc_upt [symmetric] pg_simps del: upt_Suc)

definition own :: "'a pst_scheme \<Rightarrow> uint64 \<Rightarrow> uint64 list \<Rightarrow> uint64 list \<Rightarrow> bool" where
  "own s r ps qs \<longleftrightarrow> distinct (ps @ qs) \<and> (\<forall>q \<in> set qs. page_ok (ALLOC_BEGIN s) q \<and> q \<notin> pt_pages (kmem s) r)"

lemma vm_unmappages_loop_ok:
  fixes s :: "'a pst_scheme"
  assumes "vm_inv s r ps" and "range_ok a n" and "lim = pg a n"
    and "\<forall>i < n. bit (leaf (kmem s) r (pg a i)) 0 \<and> PTE_FLAGS (leaf (kmem s) r (pg a i)) \<noteq> PTE_V"
    and "freeit \<Longrightarrow> own s r ps (backing (kmem s) r a n)"
  shows "\<exists>s'. vm_unmappages_loop (Suc n) r a lim freeit s = Inr s' \<and>
    vm_inv s' r (if freeit then rev (backing (kmem s) r a n) @ ps else ps) \<and>
    ALLOC_BEGIN s' = ALLOC_BEGIN s \<and> pst.more s' = pst.more s \<and>
    pt_pages (kmem s') r = pt_pages (kmem s) r \<and> unmapped a n (leaf (kmem s) r) (leaf (kmem s') r)"
  using assms
proof (induction n arbitrary: a s ps)
  case 0
  then show ?case by (simp add: pg_simps unmapped_def backing_def)
next
  case (Suc n)
  let ?e = "leaf (kmem s) r a" and ?a = "a + of_nat PGSIZE"
  have a0: "bit ?e 0" "PTE_FLAGS ?e \<noteq> PTE_V" using Suc.prems(4) by (auto simp: pg_simps(1) dest: spec [of _ 0])
  have o: "own s r ps (PTE2PA ?e # backing (kmem s) r ?a n)" if freeit
    using Suc.prems(5) [OF that] by (simp add: backing_Suc)
  obtain pte s1 where s1: "vm_getpte r a False s = Inr (pte, s)" "pte \<noteq> 0" "load64 (kmem s) pte = ?e"
    "(if freeit then pmem_free (PTE2PA ?e) s else Inr s) = Inr s1"
    "vm_inv (s1\<lparr>kmem := store64 (kmem s1) pte 0\<rparr>) r (if freeit then PTE2PA ?e # ps else ps)"
    "ALLOC_BEGIN s1 = ALLOC_BEGIN s" "pst.more s1 = pst.more s"
    "pt_pages (store64 (kmem s1) pte 0) r = pt_pages (kmem s) r"
    "\<And>va. leaf (store64 (kmem s1) pte 0) r va = (if same_page a va then 0 else leaf (kmem s) r va)"
    using unmap_page [OF Suc.prems(1) a0, of freeit] o by (auto simp: own_def)
  let ?s = "s1\<lparr>kmem := store64 (kmem s1) pte 0\<rparr>" and ?ps = "if freeit then PTE2PA ?e # ps else ps"
  have ne: "leaf (kmem ?s) r (pg ?a i) = leaf (kmem s) r (pg ?a i)" if "i < n" for i
    using s1(9) [of "pg ?a i"] pg_distinct [OF Suc.prems(2), of 0 "Suc i"] that by (auto simp: pg_simps)
  have b: "backing (kmem ?s) r ?a n = backing (kmem s) r ?a n" using ne by (simp add: backing_def)
  have "\<forall>i < n. bit (leaf (kmem ?s) r (pg ?a i)) 0 \<and> PTE_FLAGS (leaf (kmem ?s) r (pg ?a i)) \<noteq> PTE_V"
    using Suc.prems(4) ne by (simp add: pg_simps(2))
  moreover have "lim = pg ?a n" using Suc.prems(3) by (simp add: pg_simps(2))
  moreover have "own ?s r ?ps (backing (kmem ?s) r ?a n)" if freeit
    using o [OF that] b that s1(6,8) by (simp add: own_def)
  ultimately obtain s' where s': "vm_unmappages_loop (Suc n) r ?a lim freeit ?s = Inr s'"
    "vm_inv s' r (if freeit then rev (backing (kmem ?s) r ?a n) @ ?ps else ?ps)"
    "ALLOC_BEGIN s' = ALLOC_BEGIN ?s" "pst.more s' = pst.more ?s"
    "pt_pages (kmem s') r = pt_pages (kmem ?s) r" "unmapped ?a n (leaf (kmem ?s) r) (leaf (kmem s') r)"
    using Suc.IH [OF s1(5) range_ok_Suc [OF Suc.prems(2)]] by blast
  have lt: "a < lim"
    using pg_unat [OF Suc.prems(2) order_refl] Suc.prems(3) by (simp add: word_less_nat_alt layout)
  have "vm_unmappages_loop (Suc (Suc n)) r a lim freeit s = Inr s'"
    using s1(1-4) s'(1) lt a0 flag_bits(1) [of ?e] by (subst vm_unmappages_loop.simps) (cases freeit; simp del: vm_unmappages_loop.simps)
  moreover have "unmapped a (Suc n) (leaf (kmem s) r) (leaf (kmem s') r)"
    by (rule unmapped_Suc [OF _ s'(6)]) (simp add: s1(9))
  ultimately show ?case using s'(2-5) s1(6-8) b by (auto simp: backing_Suc)
qed

lemma round_up_pages:
  assumes "n * PGSIZE < 2 ^ 31"
  shows "to_int (PG_ROUND_UP (of_nat (n * PGSIZE))) = int (n * PGSIZE)"
proof -
  have u: "unat (of_nat (n * PGSIZE + (PGSIZE - 1)) :: uint64) = n * PGSIZE + (PGSIZE - 1)"
    using assms by (intro unat_of_nat_small) (simp add: layout)
  have "PG_ROUND_UP (of_nat (n * PGSIZE)) = PG_ROUND_DOWN (of_nat (n * PGSIZE + (PGSIZE - 1)))"
    by (simp add: PG_ROUND_UP_def PG_ROUND_DOWN_def layout add.commute)
  then have "unat (PG_ROUND_UP (of_nat (n * PGSIZE))) = n * PGSIZE"
    using round_down_unat [of "of_nat (n * PGSIZE + (PGSIZE - 1))"] u by (simp add: layout)
  then show ?thesis using assms by (simp add: to_int_small)
qed

lemma vm_unmappages_ok:
  fixes s :: "'a pst_scheme"
  assumes inv: "vm_inv s r ps" and rg: "range_ok va n" and n: "n * PGSIZE < 2 ^ 31"
    and map: "\<forall>i < n. bit (leaf (kmem s) r (pg va i)) 0 \<and> PTE_FLAGS (leaf (kmem s) r (pg va i)) \<noteq> PTE_V"
    and own: "freeit \<Longrightarrow> own s r ps (backing (kmem s) r va n)"
  shows "\<exists>s'. vm_unmappages r va (of_nat (n * PGSIZE)) freeit s = Inr s' \<and>
    vm_inv s' r (if freeit then rev (backing (kmem s) r va n) @ ps else ps) \<and>
    ALLOC_BEGIN s' = ALLOC_BEGIN s \<and> pst.more s' = pst.more s \<and>
    pt_pages (kmem s') r = pt_pages (kmem s) r \<and> unmapped va n (leaf (kmem s) r) (leaf (kmem s') r)"
proof -
  have "unat (of_nat (n * PGSIZE) :: uint64) = n * PGSIZE" using n by (intro unat_of_nat_small) simp
  then have "unat (of_nat (n * PGSIZE) :: uint64) div PGSIZE = n" by (simp only: layout)
  then have "vm_unmappages r va (of_nat (n * PGSIZE)) freeit s = vm_unmappages_loop (Suc n) r va (pg va n) freeit s"
    unfolding vm_unmappages_def round_up_pages [OF n] Let_def
    using rg by (simp only: range_ok_def pg_def of_int_of_nat_eq) simp
  then show ?thesis using vm_unmappages_loop_ok [OF inv rg refl map own] by simp
qed

section \<open>A fresh table\<close>

lemma new_table:
  assumes pl: "pool s (r # ps)"
  shows "\<exists>t. pmem_alloc s = Inr (r, t) \<and> r \<noteq> 0 \<and>
    (let s' = t\<lparr>kmem := memset (kmem t) r 0 (of_nat PGSIZE)\<rparr>
     in vm_inv s' r ps \<and> ALLOC_BEGIN s' = ALLOC_BEGIN s \<and> pst.more s' = pst.more s \<and>
       pt_pages (kmem s') r = {r} \<and> (\<forall>va. leaf (kmem s') r va = 0) \<and>
       (\<forall>x. \<not> in_page r x \<longrightarrow> kmem s' x = kmem s x))"
proof -
  obtain t where t: "pmem_alloc s = Inr (r, t)" "r \<noteq> 0"
    "pool (t\<lparr>kmem := memset (kmem t) r 0 (of_nat PGSIZE)\<rparr>) ps" "ALLOC_BEGIN t = ALLOC_BEGIN s"
    "pst.more t = pst.more s" "memset (kmem t) r 0 (of_nat PGSIZE) = (\<lambda>x. if in_page r x then 0 else kmem s x)"
    using pmem.alloc_zeroed [OF pl] by (auto simp: Let_def)
  let ?m = "\<lambda>x. if in_page r x then 0 else kmem s x"
  have r: "page_ok (ALLOC_BEGIN s) r" "r \<notin> set ps" using pl by (auto simp: pool_def)
  have c: "i < 512 \<Longrightarrow> child ?m r i = None" for i using ent_zero [OF r(1) r(1)] by (simp add: child_def)
  then have nd: "is \<in> paths \<Longrightarrow> node ?m r is = (if is = [] then Some r else None)" for "is"
    by (cases "is") (auto simp: paths_def)
  then have pp: "pt_pages ?m r = {r}" unfolding pt_pages_def using paths_simps(1) by (auto split: if_splits)
  have "pt_ok (ALLOC_BEGIN s) ?m r" using nd r(1) by (auto simp: pt_ok_def split: if_splits)
  moreover have "leaf ?m r va = 0" for va using nd [of "[px va 2, px va 1]"] px_less by (simp add: leaf_def)
  ultimately show ?thesis using t pp r(2) by (simp add: vm_inv_def)
qed

section \<open>The properties of the page tables\<close>

lemma mapped_leaf:
  assumes "mapped va n e f g" and "range_ok va n"
  shows "i \<le> n \<Longrightarrow> g (pg va i) = e i" and "\<forall>i \<le> n. \<not> same_page (pg va i) x \<Longrightarrow> g x = f x"
  using assms by (auto simp: mapped_def same_page_def)

lemma map_flags:
  assumes "\<forall>n \<ge> 10. \<not> bit perm n" and "perm AND (PTE_R OR PTE_W OR PTE_X OR PTE_U) \<noteq> 0"
  shows "bit (PA2PTE p OR perm OR PTE_V) 0" and "PTE_FLAGS (PA2PTE p OR perm OR PTE_V) \<noteq> PTE_V"
proof -
  show "bit (PA2PTE p OR perm OR PTE_V) 0" by (simp add: bit_or_iff PTE_V_def)
  obtain n where n: "bit (perm AND (PTE_R OR PTE_W OR PTE_X OR PTE_U)) n"
    using assms(2) bit_eq_iff [of "perm AND (PTE_R OR PTE_W OR PTE_X OR PTE_U)" 0] by auto
  have "bit (PTE_R OR PTE_W OR PTE_X OR PTE_U) n \<Longrightarrow> n \<noteq> 0" by (cases n) (auto simp: layout bit_simps)
  then have b: "bit perm n" "n \<noteq> 0" "n < 10" using n assms(1) by (auto simp: bit_and_iff not_less [symmetric])
  have "(0x3FF :: uint64) = mask 10" by (simp add: mask_eq_exp_minus_1)
  then have "bit (0x3FF :: uint64) n" using b by (simp only: bit_mask_iff) simp
  then have "bit (PTE_FLAGS (PA2PTE p OR perm OR PTE_V)) n"
    using b by (simp only: PTE_FLAGS_def bit_and_iff bit_or_iff) simp
  moreover have "\<not> bit PTE_V n" using b by (simp add: PTE_V_def bit_1_iff)
  ultimately show "PTE_FLAGS (PA2PTE p OR perm OR PTE_V) \<noteq> PTE_V" by metis
qed

text \<open>\<^bold>\<open>C9\<close>: mapping a page-aligned, unmapped range into a page table succeeds if the pool has two
  pages left for every page of the range. Afterwards the table translates exactly the pages of the
  range as asked (with the permissions, and the page behind it consecutive from \<^verbatim>\<open>pa\<close>) and every
  other address as before; the table is still a tree of allocated pages, grown only by pages from
  the pool. Unmapping the range again succeeds, clears exactly these translations and keeps the pool.\<close>

theorem vm_map_unmap:
  fixes s :: "'a pst_scheme"
  assumes inv: "vm_inv s r ps" and va: "unat va mod PGSIZE = 0" and n: "0 < n" "n * PGSIZE < 2 ^ 31"
    and fit: "unat va + n * PGSIZE < unat MAXVA" and room: "2 * n \<le> length ps"
    and un: "\<forall>i < n. \<not> bit (leaf (kmem s) r (pg va i)) 0"
    and perm: "\<forall>k \<ge> 10. \<not> bit perm k" "perm AND (PTE_R OR PTE_W OR PTE_X OR PTE_U) \<noteq> 0"
  shows "\<exists>s1 s2 qs ps'. vm_mappages r va pa (of_nat (n * PGSIZE)) perm s = Inr s1 \<and> ps = qs @ ps' \<and>
    vm_inv s1 r ps' \<and> pt_pages (kmem s1) r = pt_pages (kmem s) r \<union> set qs \<and>
    (\<forall>i < n. leaf (kmem s1) r (pg va i) = PA2PTE (pg pa i) OR perm OR PTE_V) \<and>
    (\<forall>x. (\<forall>i < n. \<not> same_page (pg va i) x) \<longrightarrow> leaf (kmem s1) r x = leaf (kmem s) r x) \<and>
    vm_unmappages r va (of_nat (n * PGSIZE)) False s1 = Inr s2 \<and> vm_inv s2 r ps' \<and>
    (\<forall>x. leaf (kmem s2) r x = (if \<exists>i < n. same_page (pg va i) x then 0 else leaf (kmem s) r x))"
proof -
  let ?len = "of_nat (n * PGSIZE) :: uint64"
  have ul: "unat ?len = n * PGSIZE" using n by (intro unat_of_nat_small) simp
  have "(n * PGSIZE - 1) div PGSIZE = n - 1" using n(1) by (cases n) (simp_all add: layout)
  then have np: "npages ?len = n - 1" using ul by (simp add: npages_def)
  then have le: "i \<le> npages ?len \<longleftrightarrow> i < n" for i using n(1) by auto
  have l0: "0 < ?len" using ul n(1) by (simp add: word_less_nat_alt layout del: of_nat_mult)
  have fit': "unat va + unat ?len \<le> unat MAXVA" using fit ul by simp
  have room': "2 * Suc (npages ?len) \<le> length ps" using room np n(1) by simp
  have rg: "range_ok va n" and rg': "range_ok va (npages ?len)"
    using va fit last_page(2) [OF va l0 fit'] by (simp_all add: range_ok_def)
  obtain s1 qs ps' where s1: "vm_mappages r va pa ?len perm s = Inr s1" "ps = qs @ ps'" "vm_inv s1 r ps'"
    "pt_pages (kmem s1) r = pt_pages (kmem s) r \<union> set qs"
    and m: "mapped va (npages ?len) (\<lambda>i. PA2PTE (pg pa i) OR perm OR PTE_V) (leaf (kmem s) r) (leaf (kmem s1) r)"
    using vm_mappages_ok [OF inv va l0 fit' room', of pa perm] un le by blast
  note ml = mapped_leaf [OF m rg', unfolded le]
  obtain s2 where s2: "vm_unmappages r va ?len False s1 = Inr s2" "vm_inv s2 r ps'"
    "unmapped va n (leaf (kmem s1) r) (leaf (kmem s2) r)"
    using vm_unmappages_ok [OF s1(3) rg n(2), of False] ml(1) map_flags [OF perm] by auto
  have "leaf (kmem s2) r x = (if \<exists>i < n. same_page (pg va i) x then 0 else leaf (kmem s) r x)" for x
    using s2(3) ml(2) [of x] by (auto simp: unmapped_def)
  then show ?thesis using s1 s2(1,2) ml by blast
qed

lemma boot_pages: "\<exists>r ps. pool (pmem_init boot_pst) (r # ps) \<and> 2 \<le> length ps"
proof -
  obtain ps where ps: "pool (pmem_init boot_pst) ps" "set ps = {p. page_ok (ALLOC_BEGIN boot_pst) p}"
    using pmem_init_pool [OF boot_pst_facts] by blast
  have "{0x80020000, 0x80021000, 0x80022000} \<subseteq> set ps"
    unfolding ps(2) by (simp add: page_ok_def boot_pst_def layout)
  then have "card {0x80020000, 0x80021000, 0x80022000 :: uint64} \<le> length ps"
    by (meson List.finite_set card_length card_mono le_trans)
  then have "3 \<le> length ps" by simp
  then show ?thesis using ps(1) by (cases ps) auto
qed

theorem vm_map_unmap_witness:
  "\<exists>s s1 s2 :: pst. \<exists>r. vm_mappages r 0x1000 0x80100000 (of_nat (1 * PGSIZE)) PTE_R s = Inr s1 \<and>
     leaf (kmem s1) r 0x1000 = PA2PTE 0x80100000 OR PTE_R OR PTE_V \<and>
     vm_unmappages r 0x1000 (of_nat (1 * PGSIZE)) False s1 = Inr s2 \<and> leaf (kmem s2) r 0x1000 = 0"
proof -
  obtain r ps where ps: "pool (pmem_init boot_pst) (r # ps)" "2 \<le> length ps" using boot_pages by blast
  from new_table [OF ps(1)] obtain s :: pst where s: "vm_inv s r ps" "\<And>va. leaf (kmem s) r va = 0"
    by (auto simp: Let_def)
  have "\<not> bit PTE_R k" if "10 \<le> k" for k using that by (auto simp: PTE_R_def bit_simps)
  then show ?thesis
    using vm_map_unmap [OF s(1), of "0x1000" 1 PTE_R "0x80100000"] s(2) ps(2) pg_simps(1)
    by (simp add: layout same_page_def) (metis (no_types, lifting))
qed

section \<open>Copying from user space\<close>

lemma vm_inv_write:
  assumes inv: "vm_inv s r ps" and eq: "\<And>p x. p \<in> pt_pages (kmem s) r \<union> set ps \<Longrightarrow> in_page p x \<Longrightarrow> m x = kmem s x"
  shows "vm_inv (s\<lparr>kmem := m\<rparr>) r ps" and "leaf m r va = leaf (kmem s) r va" and "pt_pages m r = pt_pages (kmem s) r"
proof -
  have nc: "is \<in> paths \<Longrightarrow> node m r is = node (kmem s) r is" for "is"
    by (rule node_cong(1) [OF vm_invD(2) [OF inv]]) (use eq in blast)+
  show "leaf m r va = leaf (kmem s) r va"
    by (rule node_cong(2) [OF vm_invD(2) [OF inv]]) (use eq in blast)
  show pp: "pt_pages m r = pt_pages (kmem s) r" using nc by (auto simp: pt_pages_def)
  have "pool (s\<lparr>kmem := m\<rparr>) ps" using eq by (intro pmem.put_ok [OF vm_invD(1) [OF inv]]) auto
  moreover have "pt_ok (ALLOC_BEGIN s) m r" using vm_invD(2) [OF inv] nc unfolding pt_ok_def by simp
  ultimately show "vm_inv (s\<lparr>kmem := m\<rparr>) r ps" using inv pp by (simp add: vm_inv_def)
qed

text \<open>The physical address behind a user address, and the user ranges that are mapped throughout.\<close>

definition uaddr :: "mem \<Rightarrow> uint64 \<Rightarrow> uint64 \<Rightarrow> uint64" where
  "uaddr m r va = upa m r (PG_ROUND_DOWN va) + (va - PG_ROUND_DOWN va)"

definition readable :: "mem \<Rightarrow> uint64 \<Rightarrow> uint64 \<Rightarrow> nat \<Rightarrow> bool" where
  "readable m r src len \<longleftrightarrow> (\<forall>i < len. upa m r (PG_ROUND_DOWN (src + of_nat i)) \<noteq> 0)"

text \<open>A kernel buffer apart from the page table, the free pages and the user bytes copied.\<close>

definition kbuf :: "'a pst_scheme \<Rightarrow> uint64 \<Rightarrow> uint64 list \<Rightarrow> uint64 \<Rightarrow> uint64 \<Rightarrow> nat \<Rightarrow> bool" where
  "kbuf s r ps src dst len \<longleftrightarrow> unat dst + len \<le> 2 ^ 64 \<and>
     (\<forall>x. unat (x - dst) < len \<longrightarrow> (\<forall>p \<in> pt_pages (kmem s) r \<union> set ps. \<not> in_page p x) \<and>
       (\<forall>i < len. x \<noteq> uaddr (kmem s) r (src + of_nat i)))"

text \<open>The bytes of one iteration: up to the end of the page or of the range.\<close>

definition chunk :: "uint64 \<Rightarrow> nat \<Rightarrow> nat" where
  "chunk src len = min (PGSIZE - unat src mod PGSIZE) len"

lemma page_offset: "unat (src - PG_ROUND_DOWN src) = unat src mod PGSIZE"
proof -
  have "PG_ROUND_DOWN src \<le> src" using round_down_unat [of src] by (simp add: word_le_nat_alt)
  then show ?thesis using round_down_unat [of src] by (simp add: unat_sub_if_size word_le_nat_alt minus_div_mult_eq_mod)
qed

lemma chunk_facts:
  assumes fit: "unat src < unat MAXVA" and l: "0 < unat len"
  defines "n \<equiv> chunk src (unat len)"
  shows "0 < n" "n \<le> unat len" "n \<le> PGSIZE" "PG_ROUND_DOWN src < MAXVA"
    and "i < n \<Longrightarrow> PG_ROUND_DOWN (src + of_nat i) = PG_ROUND_DOWN src"
    and "n < unat len \<Longrightarrow> PG_ROUND_DOWN src + of_nat PGSIZE = src + of_nat n"
    and "unat (PG_ROUND_DOWN src + of_nat PGSIZE) \<le> unat MAXVA"
proof -
  have m: "unat src mod PGSIZE < PGSIZE" by (simp add: layout)
  show "0 < n" "n \<le> unat len" "n \<le> PGSIZE" using l m by (auto simp: n_def chunk_def)
  have s: "unat src = unat src div PGSIZE * PGSIZE + unat src mod PGSIZE" by simp
  show "PG_ROUND_DOWN src < MAXVA" using fit l round_down_unat [of src] s by (simp only: word_less_nat_alt)
  show "PG_ROUND_DOWN (src + of_nat i) = PG_ROUND_DOWN src" if "i < n"
  proof -
    have i: "i < unat len" "unat src mod PGSIZE + i < PGSIZE" using that by (auto simp: n_def chunk_def)
    then have u: "unat (src + of_nat i) = unat src + i" using fit m by (intro unat_add_of_nat) (simp add: layout)
    have "(unat src + i) div PGSIZE = unat src div PGSIZE"
      using i(2) div_add1_eq [of "unat src" i PGSIZE] by (simp add: layout)
    then show ?thesis using round_down_unat [of src] round_down_unat [of "src + of_nat i"] u
      by (simp add: word_unat_eq_iff)
  qed
  have q: "unat src div PGSIZE * PGSIZE + PGSIZE \<le> unat MAXVA" using fit l by (simp add: layout)
  have u: "unat (PG_ROUND_DOWN src + of_nat PGSIZE) = unat src div PGSIZE * PGSIZE + PGSIZE"
    using q round_down_unat [of src] by (subst unat_add_of_nat) (simp_all add: layout)
  then show "unat (PG_ROUND_DOWN src + of_nat PGSIZE) \<le> unat MAXVA" using q by simp
  show "PG_ROUND_DOWN src + of_nat PGSIZE = src + of_nat n" if "n < unat len"
  proof -
    have "n = PGSIZE - unat src mod PGSIZE" using that by (simp add: n_def chunk_def)
    moreover have "unat (src + of_nat n) = unat src + n"
      using fit m \<open>n \<le> PGSIZE\<close> by (intro unat_add_of_nat) (simp add: layout)
    moreover have "unat src div PGSIZE * PGSIZE + PGSIZE = unat src + (PGSIZE - unat src mod PGSIZE)"
      using s m by linarith
    ultimately show ?thesis unfolding word_unat_eq_iff u by presburger
  qed
qed

lemma chunk_word:
  fixes len :: uint32
  shows "(let n = of_nat PGSIZE - (src - PG_ROUND_DOWN src) in if n > ucast len then ucast len else n) =
    (of_nat (chunk src (unat len)) :: uint64)"
proof -
  let ?n = "of_nat PGSIZE - (src - PG_ROUND_DOWN src)"
  have "unat src mod PGSIZE < PGSIZE" by (simp add: layout)
  then have un: "unat ?n = PGSIZE - unat src mod PGSIZE"
    using page_offset [of src] by (simp add: unat_sub_if_size layout)
  have w: "?n = of_nat (PGSIZE - unat src mod PGSIZE)" "ucast len = (of_nat (unat len) :: uint64)"
    unfolding un [symmetric] by simp_all
  have "unat (ucast len :: uint64) = unat len"
    using unsigned_less [of len, where ?'a = nat] by (simp add: unsigned_ucast_eq take_bit_nat_eq_self)
  then have "?n > ucast len \<longleftrightarrow> unat len < PGSIZE - unat src mod PGSIZE" by (simp only: word_less_nat_alt un)
  moreover have "chunk src (unat len) = (if unat len < PGSIZE - unat src mod PGSIZE then unat len else PGSIZE - unat src mod PGSIZE)"
    by (simp add: chunk_def)
  ultimately show ?thesis unfolding Let_def using w by metis
qed

lemma uaddr_write:
  assumes "\<And>va. leaf m r va = leaf m' r va"
  shows "uaddr m r = uaddr m' r" and "readable m r = readable m' r"
  using assms by (auto simp: uaddr_def readable_def upa_def fun_eq_iff)

lemma PTE2PA_aligned: "unat (PTE2PA e) + PGSIZE \<le> 2 ^ 64"
proof -
  have "drop_bit 12 (PTE2PA e) = take_bit 52 (drop_bit 10 e)"
    unfolding PTE2PA_def by (rule bit_word_eqI) (auto simp: bit_simps)
  then have "PTE2PA e = push_bit 12 (drop_bit 12 (PTE2PA e))"
    unfolding PTE2PA_def by (intro bit_word_eqI) (auto simp: bit_simps)
  then have "unat (PTE2PA e) = unat (PTE2PA e) div PGSIZE * PGSIZE"
    using round_down_unat [of "PTE2PA e"] round_down_push [of "PTE2PA e"] by simp
  then obtain q where "unat (PTE2PA e) = q * PGSIZE" by blast
  then show ?thesis using unsigned_less [of "PTE2PA e", where ?'a = nat] by (simp add: layout)
qed

lemma copyin_chunk:
  assumes fit: "unat src < unat MAXVA" and l: "0 < unat (len :: uint32)"
    and d: "unat dst + unat len \<le> 2 ^ 64" and pa: "upa m r (PG_ROUND_DOWN src) \<noteq> 0"
  shows "memmove m dst (upa m r (PG_ROUND_DOWN src) + (src - PG_ROUND_DOWN src)) (of_nat (chunk src (unat len))) =
    (\<lambda>x. if unat (x - dst) < chunk src (unat len) then m (uaddr m r (src + (x - dst))) else m x)"
proof -
  let ?n = "chunk src (unat len)" and ?p = "upa m r (PG_ROUND_DOWN src)" and ?o = "src - PG_ROUND_DOWN src"
  note c = chunk_facts [OF fit l]
  have n32: "unat (of_nat ?n :: uint32) = ?n" using c(3) by (intro unat_of_nat_small) (simp add: layout)
  have p: "unat ?p + PGSIZE \<le> 2 ^ 64" using pa PTE2PA_aligned by (simp add: upa_def split: if_splits)
  have o: "unat ?o + ?n \<le> PGSIZE" using page_offset [of src] by (auto simp: chunk_def layout)
  have "unat (?p + of_nat (unat ?o)) = unat ?p + unat ?o" using p o c(1) by (intro unat_add_of_nat) simp
  then have u: "unat (?p + ?o) = unat ?p + unat ?o" by simp
  have "memmove m dst (?p + ?o) (of_nat ?n) = moved m dst (?p + ?o) ?n"
    using memmove_moved [of "?p + ?o" "of_nat ?n" dst m] n32 u p o d c(2) by simp
  moreover have "?p + ?o + (x - dst) = uaddr m r (src + (x - dst))" if "unat (x - dst) < ?n" for x
    using c(5) [OF that] by (simp add: uaddr_def)
  ultimately show ?thesis by (auto simp: moved_def fun_eq_iff)
qed

lemma readable_split:
  assumes pg: "\<And>i. i < n \<Longrightarrow> PG_ROUND_DOWN (src + of_nat i) = PG_ROUND_DOWN src"
    and pa: "upa m r (PG_ROUND_DOWN src) \<noteq> 0" and n: "n \<le> len" "l = len - n"
    and nx: "0 < l \<Longrightarrow> src' = src + of_nat n"
  shows "readable m r src len \<longleftrightarrow> readable m r src' l"
proof
  assume "readable m r src len"
  then have "upa m r (PG_ROUND_DOWN (src + of_nat (n + i))) \<noteq> 0" if "i < l" for i
    using that n unfolding readable_def by (simp del: of_nat_add)
  then show "readable m r src' l" using nx by (auto simp: readable_def add.assoc)
next
  assume r: "readable m r src' l"
  have "upa m r (PG_ROUND_DOWN (src + of_nat i)) \<noteq> 0" if "i < len" for i
  proof (cases "i < n")
    case True
    then show ?thesis using pg pa by simp
  next
    case False
    then have "i - n < l" "of_nat n + of_nat (i - n) = (of_nat i :: uint64)"
      using that n by (simp_all flip: of_nat_add)
    then show ?thesis using r nx unfolding readable_def by (metis add.assoc not_less_zero gr0I)
  qed
  then show "readable m r src len" by (simp add: readable_def)
qed

text \<open>User addresses are mapped only below \<^verbatim>\<open>MAXVA\<close>, which is a page boundary.\<close>

lemma upa_below: "upa m r va \<noteq> 0 \<Longrightarrow> va < MAXVA"
  by (simp add: upa_def not_le split: if_splits)

lemma round_down_below: "PG_ROUND_DOWN src < MAXVA \<Longrightarrow> unat src < unat MAXVA"
  using round_down_unat [of src] by (simp add: word_less_nat_alt layout)

lemma uvm_copyin_loop_ok:
  fixes s :: "'a pst_scheme"
  assumes "vm_inv s r ps" and "unat len \<le> fuel" and "kbuf s r ps src dst (unat len)"
  shows "\<exists>m. uvm_copyin_loop fuel r dst src len s =
      Inr (if readable (kmem s) r src (unat len) then 0 else -1, s\<lparr>kmem := m\<rparr>) \<and>
    (\<forall>x. \<not> unat (x - dst) < unat len \<longrightarrow> m x = kmem s x) \<and>
    (readable (kmem s) r src (unat len) \<longrightarrow>
      (\<forall>x. unat (x - dst) < unat len \<longrightarrow> m x = kmem s (uaddr (kmem s) r (src + (x - dst)))))"
  using assms
proof (induction fuel arbitrary: dst src len s)
  case 0
  then show ?case by (auto simp: readable_def word_less_nat_alt intro!: exI [of _ "kmem s"])
next
  case (Suc fuel)
  show ?case
  proof (cases "0 < len")
    case False
    then have "unat len = 0" by (simp add: word_less_nat_alt)
    then show ?thesis using False by (auto simp: readable_def intro!: exI [of _ "kmem s"])
  next
    case True
    then have l: "0 < unat len" by (simp add: word_less_nat_alt)
    let ?n = "chunk src (unat len)" and ?v = "PG_ROUND_DOWN src" and ?m = "kmem s"
    note cw = chunk_word [of src len, unfolded Let_def]
    note gp = vm_getpa_upa [OF Suc.prems(1), of ?v]
    show ?thesis
    proof (cases "upa ?m r ?v = 0")
      case nil: True
      have "\<not> readable ?m r src (unat len)" using nil l by (auto simp: readable_def)
      then show ?thesis using True nil gp by (auto simp: Let_def intro!: exI [of _ ?m])
    next
      case pa: False
      have below: "unat src < unat MAXVA" using upa_below [OF pa] by (rule round_down_below)
      note c = chunk_facts [OF below l]
      define m1 where "m1 = (\<lambda>x. if unat (x - dst) < ?n then ?m (uaddr ?m r (src + (x - dst))) else ?m x)"
      let ?s = "s\<lparr>kmem := m1\<rparr>" and ?l = "len - of_nat ?n"
      have kb: "unat dst + unat len \<le> 2 ^ 64"
        "\<And>x p. unat (x - dst) < unat len \<Longrightarrow> p \<in> pt_pages ?m r \<union> set ps \<Longrightarrow> \<not> in_page p x"
        "\<And>x i. unat (x - dst) < unat len \<Longrightarrow> i < unat len \<Longrightarrow> x \<noteq> uaddr ?m r (src + of_nat i)"
        using Suc.prems(3) by (auto simp: kbuf_def)
      have eq: "m1 x = ?m x" if "p \<in> pt_pages ?m r \<union> set ps" "in_page p x" for p x
        using kb(2) [OF _ that(1), of x] that(2) c(2) by (auto simp: m1_def)
      have w: "vm_inv ?s r ps" "\<And>va. leaf m1 r va = leaf ?m r va" "pt_pages m1 r = pt_pages ?m r"
        by (rule vm_inv_write [OF Suc.prems(1)]; use eq in blast)+
      note ua = uaddr_write [of m1 r ?m, OF w(2)]
      have ul: "unat ?l = unat len - ?n"
        using c(2,3) by (simp add: unat_sub_if_size unat_of_nat_small layout)
      have un: "(ucast (of_nat ?n :: uint64) :: uint32) = of_nat ?n"
        using c(3) by (simp add: word_unat_eq_iff unsigned_ucast_eq unat_of_nat_small take_bit_nat_eq_self layout)
      have step: "uvm_copyin_loop (Suc fuel) r dst src len s =
          uvm_copyin_loop fuel r (dst + of_nat ?n) (?v + of_nat PGSIZE) ?l ?s"
        unfolding uvm_copyin_loop.simps(2) Let_def gp cw
        using True c(4) [unfolded not_le [symmetric]] pa un copyin_chunk [OF below l kb(1) pa]
        by (simp add: m1_def del: uvm_copyin_loop.simps)
      have sh: "unat (x - dst) = unat (x - (dst + of_nat ?n)) + ?n"
        if "unat (x - (dst + of_nat ?n)) < unat ?l" for x
        using that ul c(2) unat_add_of_nat [of "x - (dst + of_nat ?n)" ?n] unsigned_less [of len, where ?'a = nat] by simp
      have nx: "?v + of_nat PGSIZE = src + of_nat ?n" if "0 < unat ?l" using c(6) that ul by simp
      have ix: "?v + of_nat PGSIZE + of_nat i = src + of_nat (?n + i)" if "i < unat ?l" for i
        using nx that by (simp add: ac_simps)
      have d: "unat (dst + of_nat ?n) + unat ?l \<le> 2 ^ 64"
        using kb(1) ul c(2) unat_word_ariths(1) [of dst "of_nat ?n"] by (simp add: unat_of_nat) 
      have "x \<noteq> uaddr ?m r (?v + of_nat PGSIZE + of_nat i)"
        if "unat (x - (dst + of_nat ?n)) < unat ?l" "i < unat ?l" for x i
        using kb(3) [of x "?n + i"] sh [OF that(1)] ix [OF that(2)] that ul by (simp add: add.assoc)
      then have kn: "kbuf ?s r ps (?v + of_nat PGSIZE) (dst + of_nat ?n) (unat ?l)"
        unfolding kbuf_def using d kb(2) sh w(3) ua(1) ul by simp
      have "unat ?l \<le> fuel" using ul c(1) Suc.prems(2) by simp
      from Suc.IH [OF w(1) this kn] obtain m where m: "uvm_copyin_loop fuel r (dst + of_nat ?n) (?v + of_nat PGSIZE) ?l ?s =
          Inr (if readable m1 r (?v + of_nat PGSIZE) (unat ?l) then 0 else -1, ?s\<lparr>kmem := m\<rparr>)"
        "\<And>x. \<not> unat (x - (dst + of_nat ?n)) < unat ?l \<Longrightarrow> m x = m1 x"
        "\<And>x. readable m1 r (?v + of_nat PGSIZE) (unat ?l) \<Longrightarrow> unat (x - (dst + of_nat ?n)) < unat ?l \<Longrightarrow>
          m x = m1 (uaddr m1 r (?v + of_nat PGSIZE + (x - (dst + of_nat ?n))))"
        by auto
      have rd: "readable ?m r src (unat len) \<longleftrightarrow> readable m1 r (?v + of_nat PGSIZE) (unat ?l)"
        unfolding ua(2) by (rule readable_split [OF c(5) pa c(2) ul]) (simp_all add: nx)
      have y: "m1 (uaddr ?m r (src + (x - dst))) = ?m (uaddr ?m r (src + (x - dst)))" if "unat (x - dst) < unat len" for x
        using kb(3) [of "uaddr ?m r (src + (x - dst))" "unat (x - dst)"] that c(2) by (auto simp: m1_def)
      have lo: "unat (x - dst) < ?n"
        if "unat (x - dst) < unat len" "\<not> unat (x - (dst + of_nat ?n)) < unat ?l" for x
        using that ul c(3) unat_sub_if_size [of "x - dst" "of_nat ?n"]
        by (simp add: unat_of_nat_small layout diff_diff_add split: if_splits)
      have "m x = ?m (uaddr ?m r (src + (x - dst)))"
        if "readable ?m r src (unat len)" "unat (x - dst) < unat len" for x
      proof (cases "unat (x - (dst + of_nat ?n)) < unat ?l")
        case True
        then have "?v + of_nat PGSIZE + (x - (dst + of_nat ?n)) = src + (x - dst)" using nx by simp
        moreover have "m x = m1 (uaddr ?m r (?v + of_nat PGSIZE + (x - (dst + of_nat ?n))))"
          using m(3) [of x] True that(1) rd ua(1) by simp
        ultimately show ?thesis using y [OF that(2)] by presburger
      next
        case False
        then show ?thesis using m(2) [of x] lo that(2) by (simp add: m1_def)
      qed
      moreover have "m x = ?m x" if "\<not> unat (x - dst) < unat len" for x
        using m(2) [of x] that sh [of x] ul c(2)
        by (cases "unat (x - (dst + of_nat ?n)) < unat ?l") (auto simp: m1_def)
      ultimately show ?thesis using step m(1) rd by (intro exI [of _ m]) simp
    qed
  qed
qed

text \<open>\<^bold>\<open>C35\<close>: \<^verbatim>\<open>uvm_copyin\<close> of any range of user addresses returns. It returns 0 if all pages of the
  range are mapped for the user, and then the kernel buffer holds exactly the user's bytes as the
  page table translates them, across page boundaries; if some page is not mapped, also because the range reaches
  or starts beyond \<^verbatim>\<open>MAXVA\<close> or wraps around, it returns -1. In both cases nothing outside the buffer changes.
  (\<^verbatim>\<open>vm_getpa\<close> repeats the test for \<^verbatim>\<open>MAXVA\<close>, so either of the two tests alone would do.)\<close>

theorem uvm_copyin_correct:
  assumes "vm_inv s r ps" and "kbuf s r ps src dst (unat len)"
  shows "\<exists>m. uvm_copyin r dst src len s =
      Inr (if readable (kmem s) r src (unat len) then 0 else -1, s\<lparr>kmem := m\<rparr>) \<and>
    (\<forall>x. \<not> unat (x - dst) < unat len \<longrightarrow> m x = kmem s x) \<and>
    (readable (kmem s) r src (unat len) \<longrightarrow>
      (\<forall>x. unat (x - dst) < unat len \<longrightarrow> m x = kmem s (uaddr (kmem s) r (src + (x - dst)))))"
  unfolding uvm_copyin_def by (rule uvm_copyin_loop_ok [OF assms(1) order_refl assms(2)])

lemma low_not_in_page:
  assumes "page_ok b p" and "0x80020000 \<le> b" and "unat x < 0x10000"
  shows "\<not> in_page p x"
proof -
  have p: "0x80020000 \<le> unat p" "unat p < 0x88000000"
    using assms(1,2) by (auto simp: page_ok_def word_le_nat_alt word_less_nat_alt layout)
  then have "unat (x - p) = 2 ^ 64 + unat x - unat p" using assms(3) by (simp add: unat_sub_if_size word_size)
  then show ?thesis using p assms(3) by (simp add: in_page_def layout)
qed

theorem uvm_copyin_correct_witness:
  "\<exists>(s :: pst) r m. uvm_copyin r 0x5000 0x1FFE 2 s = Inr (0, s\<lparr>kmem := m\<rparr>) \<and> m 0x5001 = kmem s 0x80100FFF"
proof -
  obtain r ps where ps: "pool (pmem_init boot_pst) (r # ps)" "2 \<le> length ps" using boot_pages by blast
  from new_table [OF ps(1)] obtain t :: pst where t: "vm_inv t r ps" "\<And>va. leaf (kmem t) r va = 0"
    "ALLOC_BEGIN t = ALLOC_BEGIN (pmem_init boot_pst)" by (auto simp: Let_def)
  have np: "npages (of_nat PGSIZE) = 0" by (simp add: npages_def layout)
  obtain s :: pst and qs ps' where s: "vm_inv s r ps'" "ps = qs @ ps'" "ALLOC_BEGIN s = ALLOC_BEGIN t"
    "mapped 0x1000 0 (\<lambda>i. PA2PTE (pg 0x80100000 i) OR 18 OR PTE_V) (leaf (kmem t) r) (leaf (kmem s) r)"
    using vm_mappages_ok [OF t(1), of "0x1000" "of_nat PGSIZE" "0x80100000" 18] t(2) ps(2)
    unfolding np by (simp add: layout) blast
  have b: "0x80020000 \<le> ALLOC_BEGIN s" using s(3) t(3) by (simp add: pmem_init_base boot_pst_def)
  have "leaf (kmem s) r 0x1000 = PA2PTE 0x80100000 OR 18 OR PTE_V"
    using s(4) by (auto simp: mapped_def pg_def same_page_def)
  then have u: "upa (kmem s) r 0x1000 = 0x80100000"
    by (simp add: upa_def PA2PTE_def PTE2PA_def layout bit_simps)
  have "\<not> in_page p x" if "unat (x - 0x5000) < 2" "p \<in> pt_pages (kmem s) r \<union> set ps'" for p x
  proof (rule low_not_in_page [OF _ b])
    show "page_ok (ALLOC_BEGIN s) p" using that(2) vm_invD(4,5) [OF s(1)] by blast
    have "unat (x - 0x5000 + 0x5000) = unat (x - 0x5000) + 0x5000"
      using that(1) by (subst unat_add_lem [THEN iffD1]) simp_all
    then show "unat x < 0x10000" using that(1) by simp
  qed
  moreover have "uaddr (kmem s) r (0x1FFE + of_nat i) = 0x80100FFE + of_nat i" if "i < 2" for i
    using u that by (auto simp: uaddr_def PG_ROUND_DOWN_def layout numeral_2_eq_2 less_Suc_eq)
  moreover have "\<not> unat (0x80100FFE + of_nat i - 0x5000 :: uint64) < 2" if "i < 2" for i :: nat
    using less_2_cases [OF that] by auto
  ultimately have k: "kbuf s r ps' 0x1FFE 0x5000 2" unfolding kbuf_def by auto
  have rd: "readable (kmem s) r 0x1FFE 2" 
  proof -
    have "PG_ROUND_DOWN (0x1FFE + of_nat i) = 0x1000" if "i < 2" for i
      using less_2_cases [OF that] by (auto simp: PG_ROUND_DOWN_def layout)
    then show ?thesis using u by (simp add: readable_def)
  qed
  have "uaddr (kmem s) r 0x1FFF = 0x80100FFF" using u by (simp add: uaddr_def PG_ROUND_DOWN_def layout)
  moreover obtain m where m: "uvm_copyin r 0x5000 0x1FFE 2 s = Inr (0, s\<lparr>kmem := m\<rparr>)"
    "\<And>x. unat (x - 0x5000) < 2 \<Longrightarrow> m x = kmem s (uaddr (kmem s) r (0x1FFE + (x - 0x5000)))"
    using uvm_copyin_correct [OF s(1), of "0x1FFE" "0x5000" 2] k rd by auto
  ultimately have "m 0x5001 = kmem s 0x80100FFF" using m(2) [of "0x5001"] by simp
  then show ?thesis using m(1) by blast
qed

section \<open>What the memory operations leave alone\<close>

text \<open>Allocation, the page tables and the copies to and from user space touch only the state of physical
  memory: whatever extends it is the same afterwards.\<close>

named_theorems frame \<open>operations that keep the extension of the memory state\<close>

lemma pmem_alloc_more [frame]: "pmem_alloc s = Inr (p, t) \<Longrightarrow> pst.more t = pst.more s"
  by (auto simp: pmem_alloc_def Let_def elim!: kbind_InrE split: prod.splits if_splits)

lemma pmem_free_more [frame]: "pmem_free p s = Inr t \<Longrightarrow> pst.more t = pst.more s"
  by (auto simp: pmem_free_def Let_def push_page_def kguard_Inr_iff elim!: kbind_InrE split: prod.splits)

lemma vm_getpte_loop_more: "vm_getpte_loop l r va alloc s = Inr (p, t) \<Longrightarrow> pst.more t = pst.more s"
proof (induction l r va alloc s arbitrary: p rule: vm_getpte_loop.induct)
  case (2 l r va alloc s)
  then show ?case
    by (fastforce simp: Let_def dest: pmem_alloc_more elim!: kbind_InrE split: if_splits)
qed auto

lemma vm_getpte_more [frame]: "vm_getpte r va alloc s = Inr (p, t) \<Longrightarrow> pst.more t = pst.more s"
  unfolding vm_getpte_def by (rule vm_getpte_loop_more)

lemma vm_mappages_loop_more: "vm_mappages_loop k r a l pa perm s = Inr t \<Longrightarrow> pst.more t = pst.more s"
proof (induction k r a l pa perm s rule: vm_mappages_loop.induct)
  case (2 k r a l pa perm s)
  then show ?case
    by (fastforce simp: Let_def dest: vm_getpte_more elim!: kbind_InrE split: if_splits)
qed auto

lemma vm_mappages_more [frame]: "vm_mappages r va pa len perm s = Inr t \<Longrightarrow> pst.more t = pst.more s"
  by (auto simp: vm_mappages_def Let_def simp del: vm_mappages_loop.simps dest: vm_mappages_loop_more split: if_splits)

lemma vm_unmappages_loop_more: "vm_unmappages_loop k r a l fr s = Inr t \<Longrightarrow> pst.more t = pst.more s"
proof (induction k r a l fr s rule: vm_unmappages_loop.induct)
  case (2 k r a l fr s)
  then show ?case
    by (fastforce dest: vm_getpte_more pmem_free_more elim!: kbind_InrE split: if_splits)
qed auto

lemma vm_unmappages_more [frame]: "vm_unmappages r va len fr s = Inr t \<Longrightarrow> pst.more t = pst.more s"
  by (auto simp: vm_unmappages_def Let_def simp del: vm_unmappages_loop.simps dest: vm_unmappages_loop_more split: if_splits)

lemma destroy_pgtbl_more: "destroy_pgtbl l r s = Inr t \<Longrightarrow> pst.more t = pst.more s"
proof (induction l arbitrary: r s t)
  case 0
  then show ?case by (auto dest: pmem_free_more split: if_splits)
next
  case (Suc l)
  show ?case
  proof (cases "r = 0")
    case False
    then obtain u where u: "kfold (\<lambda>i s. let pa = PTE2PA (load64 (kmem s) (r + 8 * of_nat i))
        in if pa \<noteq> 0 then destroy_pgtbl l pa s else Inr s) [0..<512] s = Inr u" "pmem_free r u = Inr t"
      using Suc.prems by (auto elim!: kbind_InrE)
    have "pst.more u = pst.more s"
      by (rule kfold_inv [OF u(1)]) (auto simp: Let_def dest: Suc.IH split: if_splits)
    then show ?thesis using pmem_free_more [OF u(2)] by simp
  qed (use Suc.prems in auto)
qed

lemma uvm_destroy_pgtbl_more [frame]: "uvm_destroy_pgtbl r s = Inr t \<Longrightarrow> pst.more t = pst.more s"
  by (auto simp: uvm_destroy_pgtbl_def dest!: destroy_pgtbl_more vm_unmappages_more elim!: kbind_InrE)

lemma uvm_copy_pgtbl_loop_more: "uvm_copy_pgtbl_loop k r n va h s = Inr t \<Longrightarrow> pst.more t = pst.more s"
proof (induction k arbitrary: va s)
  case (Suc k)
  then show ?case by (auto simp: Let_def dest!: frame Suc.IH elim!: kbind_InrE split: if_splits)
qed simp

lemma uvm_copy_pgtbl_more [frame]: "uvm_copy_pgtbl r n h s = Inr t \<Longrightarrow> pst.more t = pst.more s"
  unfolding uvm_copy_pgtbl_def by (rule uvm_copy_pgtbl_loop_more)

lemma uvm_copyout_loop_more: "uvm_copyout_loop k r dst src len s = Inr (v, t) \<Longrightarrow> pst.more t = pst.more s"
proof (induction k arbitrary: dst src len s)
  case (Suc k)
  then show ?case by (auto simp: Let_def dest!: Suc.IH elim!: kbind_InrE split: if_splits)
qed (auto split: if_splits)

lemma uvm_copyout_more [frame]: "uvm_copyout r dst src len s = Inr (v, t) \<Longrightarrow> pst.more t = pst.more s"
  unfolding uvm_copyout_def by (rule uvm_copyout_loop_more)

lemma uvm_copyin_loop_more: "uvm_copyin_loop k r dst src len s = Inr (v, t) \<Longrightarrow> pst.more t = pst.more s"
proof (induction k arbitrary: dst src len s)
  case (Suc k)
  then show ?case by (auto simp: Let_def dest!: Suc.IH elim!: kbind_InrE split: if_splits)
qed (auto split: if_splits)

lemma uvm_copyin_more [frame]: "uvm_copyin r dst src len s = Inr (v, t) \<Longrightarrow> pst.more t = pst.more s"
  unfolding uvm_copyin_def by (rule uvm_copyin_loop_more)

end
