(* ===== verification/Kvm.thy ===== *)
theory Kvm
  imports Vm
begin

text \<open>
  The kernel's address space: what \<^verbatim>\<open>kvm_create\<close> of \<^verbatim>\<open>kernel/mem/kvm.c\<close> and \<^verbatim>\<open>proc_mapstacks\<close> of
  \<^verbatim>\<open>kernel/proc/proc.c\<close> map. A mapping is described by a function from page numbers to page-table entries.
\<close>

section \<open>Mapping a region\<close>

text \<open>A table whose mapping below \<^verbatim>\<open>MAXVA\<close> is \<open>M\<close>, with pages left for the tables in \<open>P\<close> and \<open>k\<close> others.\<close>

definition built :: "nat \<Rightarrow> nat list set \<Rightarrow> 'a pst_scheme \<Rightarrow> uint64 \<Rightarrow> uint64 list \<Rightarrow> (nat \<Rightarrow> uint64) \<Rightarrow> bool" where
  "built k P s r ps M \<longleftrightarrow> vm_inv s r ps \<and> pt_room k P (kmem s) r ps \<and> (\<forall>x < MAXVA. leaf (kmem s) r x = M (unat x div PGSIZE))"

text \<open>The pages the table has taken in between come from the pool, and only pages of the table or of the pool are written.\<close>

definition from_pool :: "uint64 \<Rightarrow> 'a pst_scheme \<Rightarrow> uint64 list \<Rightarrow> 'a pst_scheme \<Rightarrow> uint64 list \<Rightarrow> bool" where
  "from_pool r s ps t ps' \<longleftrightarrow> pt_pages (kmem t) r \<subseteq> pt_pages (kmem s) r \<union> (set ps - set ps') \<and> set ps' \<subseteq> set ps \<and>
     ALLOC_BEGIN t = ALLOC_BEGIN s \<and> pst.more t = pst.more s \<and>
     (\<forall>x. (\<forall>p \<in> pt_pages (kmem s) r \<union> (set ps - set ps'). \<not> in_page p x) \<longrightarrow> kmem t x = kmem s x)"

lemma from_pool_trans:
  assumes st: "from_pool r s ps t qs" and tu: "from_pool r t qs u rs"
  shows "from_pool r s ps u rs"
proof -
  have "kmem u x = kmem s x" if "\<forall>p \<in> pt_pages (kmem s) r \<union> (set ps - set rs). \<not> in_page p x" for x
  proof -
    have "kmem u x = kmem t x" using tu st that unfolding from_pool_def by blast
    also have "\<dots> = kmem s x" using st tu that unfolding from_pool_def by blast
    finally show ?thesis .
  qed
  then show ?thesis using st tu by (auto simp: from_pool_def)
qed

definition pte_of :: "uint64 \<Rightarrow> uint64 \<Rightarrow> uint64" where
  "pte_of pa perm = PA2PTE pa OR perm OR PTE_V"

definition region :: "nat \<Rightarrow> nat \<Rightarrow> uint64 \<Rightarrow> uint64 \<Rightarrow> (nat \<Rightarrow> uint64) \<Rightarrow> nat \<Rightarrow> uint64" where
  "region f n pa perm M k = (if f \<le> k \<and> k < f + n then pte_of (pa + of_nat ((k - f) * PGSIZE)) perm else M k)"

definition ktables :: "nat \<Rightarrow> nat list set" where
  "ktables k = {[k div 512 div 512 mod 512], [k div 512 div 512 mod 512, k div 512 mod 512]}"

lemma tables_page: "tables x = ktables (unat x div PGSIZE)"
  unfolding tables_def ktables_def px_div ..

lemma map_region:
  fixes s :: "'a pst_scheme"
  assumes b: "built k P s r ps M" and va: "unat va = f * PGSIZE" and n: "0 < n" "f + n \<le> 2 ^ 26"
    and P: "\<And>k. f \<le> k \<Longrightarrow> k < f + n \<Longrightarrow> ktables k \<subseteq> P \<and> M k = 0"
  shows "\<exists>t ps'. vm_mappages r va pa (of_nat (n * PGSIZE)) perm s = Inr t \<and> built k P t r ps' (region f n pa perm M) \<and> from_pool r s ps t ps'"
proof -
  let ?len = "of_nat (n * PGSIZE) :: uint64"
  have inv: "vm_inv s r ps" and rm: "pt_room k P (kmem s) r ps" and M: "\<And>x. x < MAXVA \<Longrightarrow> leaf (kmem s) r x = M (unat x div PGSIZE)"
    using b by (auto simp: built_def)
  have ul: "unat ?len = n * PGSIZE" using n by (intro unat_of_nat_small) (simp add: layout)
  have "(n * PGSIZE - 1) div PGSIZE = n - 1" using n(1) by (cases n) (simp_all add: layout)
  then have np: "npages ?len = n - 1" using ul by (simp add: npages_def)
  have al: "unat va mod PGSIZE = 0" using va by simp
  have l0: "0 < ?len" using ul n(1) by (simp add: word_less_nat_alt layout del: of_nat_mult)
  have fit: "unat va + unat ?len \<le> unat MAXVA" using n(2) va ul by (simp add: layout)
  note rg = last_page(2) [OF al l0 fit]
  have pn: "unat (pg va i) div PGSIZE = f + i" "pg va i < MAXVA" if "i \<le> npages ?len" for i
    using pg_unat [OF rg that] va by (simp_all add: layout)
  have "\<forall>i \<le> npages ?len. tables (pg va i) \<subseteq> P" "\<forall>i \<le> npages ?len. \<not> bit (leaf (kmem s) r (pg va i)) 0"
    using P np n(1) pn M by (auto simp: tables_page)
  then obtain t qs ps' where t: "vm_mappages r va pa ?len perm s = Inr t" "ps = qs @ ps'" "vm_inv t r ps'" "pt_room k P (kmem t) r ps'"
    "ALLOC_BEGIN t = ALLOC_BEGIN s" "pst.more t = pst.more s" "pt_pages (kmem t) r = pt_pages (kmem s) r \<union> set qs"
    "\<forall>x. (\<forall>p \<in> pt_pages (kmem s) r \<union> set qs. \<not> in_page p x) \<longrightarrow> kmem t x = kmem s x"
    and m: "mapped va (npages ?len) (\<lambda>i. PA2PTE (pg pa i) OR perm OR PTE_V) (leaf (kmem s) r) (leaf (kmem t) r)"
    using vm_mappages_room [OF inv al l0 fit rm, of pa perm] by blast
  have "leaf (kmem t) r x = region f n pa perm M (unat x div PGSIZE)" if x: "x < MAXVA" for x
  proof (cases "f \<le> unat x div PGSIZE \<and> unat x div PGSIZE < f + n")
    case True
    define i where "i = unat x div PGSIZE - f"
    have i: "i \<le> npages ?len" "unat x div PGSIZE = f + i" "i < n" using True np by (auto simp: i_def)
    then have "same_page (pg va i) x" using same_page_iff [of "pg va i" x] pn [of i] x by simp
    then show ?thesis using m i by (simp add: mapped_def region_def pte_of_def pg_def)
  next
    case False
    then have "\<forall>i \<le> npages ?len. \<not> same_page (pg va i) x" using same_page_iff [OF pn(2) x] pn(1) np n(1) by auto
    then show ?thesis using m M [OF x] False by (auto simp: mapped_def region_def)
  qed
  then have "built k P t r ps' (region f n pa perm M)" using t(3,4) by (simp add: built_def)
  moreover have "set ps - set ps' = set qs" using pmem.pool_pages [OF vm_invD(1) [OF inv]] t(2) by auto
  ultimately show ?thesis using t by (auto simp: from_pool_def)
qed

section \<open>The regions of the kernel\<close>

type_synonym kregion = "nat \<times> nat \<times> uint64 \<times> uint64"

fun regions :: "kregion list \<Rightarrow> (nat \<Rightarrow> uint64) \<Rightarrow> nat \<Rightarrow> uint64" where
  "regions [] M = M"
| "regions ((f, n, pa, perm) # rs) M = regions rs (region f n pa perm M)"

fun mappable :: "nat list set \<Rightarrow> kregion list \<Rightarrow> (nat \<Rightarrow> uint64) \<Rightarrow> bool" where
  "mappable P [] M \<longleftrightarrow> True"
| "mappable P ((f, n, pa, perm) # rs) M \<longleftrightarrow> 0 < n \<and> f + n \<le> 2 ^ 26 \<and>
     (\<forall>k. f \<le> k \<and> k < f + n \<longrightarrow> ktables k \<subseteq> P \<and> M k = 0) \<and> mappable P rs (region f n pa perm M)"

definition map_one :: "uint64 \<Rightarrow> kregion \<Rightarrow> 'a pst_scheme \<Rightarrow> 'a pst_scheme kres" where
  "map_one r = (\<lambda>(f, n, pa, perm) s. vm_mappages r (of_nat (f * PGSIZE)) pa (of_nat (n * PGSIZE)) perm s)"

lemma map_regions:
  fixes s :: "'a pst_scheme"
  assumes "built k P s r ps M" and "mappable P rs M"
  shows "\<exists>t ps'. kfold (map_one r) rs s = Inr t \<and> built k P t r ps' (regions rs M) \<and> from_pool r s ps t ps'"
  using assms
proof (induction rs arbitrary: s ps M)
  case Nil
  then show ?case by (auto simp: from_pool_def)
next
  case (Cons x rs)
  obtain f n pa perm where x: "x = (f, n, pa, perm)" by (cases x)
  have u: "unat (of_nat (f * PGSIZE) :: uint64) = f * PGSIZE"
    using Cons.prems(2) x by (intro unat_of_nat_small) (simp add: layout)
  obtain s1 ps1 where 1: "vm_mappages r (of_nat (f * PGSIZE)) pa (of_nat (n * PGSIZE)) perm s = Inr s1"
    "built k P s1 r ps1 (region f n pa perm M)" "from_pool r s ps s1 ps1"
    using map_region [OF Cons.prems(1) u, of n pa perm] Cons.prems(2) x by auto
  moreover obtain t ps' where "kfold (map_one r) rs s1 = Inr t" "built k P t r ps' (regions rs (region f n pa perm M))" "from_pool r s1 ps1 t ps'"
    using Cons.IH [OF 1(2)] Cons.prems(2) x by auto
  ultimately show ?case using x from_pool_trans [OF 1(3)] by (auto simp: map_one_def)
qed

section \<open>The stacks\<close>

text \<open>\<^verbatim>\<open>KSTACK(p)\<close> as a page number: every other page below the trampoline.\<close>

definition stack_page :: "nat \<Rightarrow> nat" where
  "stack_page p = 2 ^ 26 - 1 - 2 * (p + 1)"

lemma KSTACK_page: "p < 64 \<Longrightarrow> unat (KSTACK p) = stack_page p * PGSIZE"
proof -
  assume p: "p < 64"
  have "KSTACK p = of_nat (stack_page p * PGSIZE)"
    using p by (simp add: KSTACK_def stack_page_def layout of_nat_diff algebra_simps)
  moreover have "unat (of_nat (stack_page p * PGSIZE) :: uint64) = stack_page p * PGSIZE"
    by (intro unat_of_nat_small) (simp add: stack_page_def layout)
  ultimately show ?thesis by metis
qed

lemma take_page:
  fixes s :: "'a pst_scheme"
  assumes b: "built (Suc k) P s r ps M"
  shows "\<exists>p ps' t. ps = p # ps' \<and> pmem_alloc s = Inr (p, t) \<and> p \<noteq> 0 \<and> built k P t r ps' M \<and> kmem t = kmem s \<and>
    p \<notin> pt_pages (kmem s) r \<and> p \<notin> set ps' \<and> ALLOC_BEGIN t = ALLOC_BEGIN s \<and> pst.more t = pst.more s"
proof -
  have inv: "vm_inv s r ps" and rm: "pt_room (Suc k) P (kmem s) r ps" using b by (auto simp: built_def)
  obtain p ps' where ps: "ps = p # ps'" using rm by (cases ps) (auto simp: pt_room_def)
  obtain t where t: "pmem_alloc s = Inr (p, t)" "pool t ps'" "kmem t = kmem s" "ALLOC_BEGIN t = ALLOC_BEGIN s" "pst.more t = pst.more s"
    using pmem.alloc_ok [OF vm_invD(1) [OF inv, unfolded ps]] by blast
  have "p \<notin> set ps'" using pmem.pool_pages [OF vm_invD(1) [OF inv]] ps by simp
  moreover have "p \<noteq> 0" "p \<notin> pt_pages (kmem s) r" using vm_invD(3,4) [OF inv, of p] ps by auto
  moreover have "built k P t r ps' M" using b t(2-4) ps by (simp add: built_def vm_inv_def pt_room_def)
  ultimately show ?thesis using t ps by blast
qed

text \<open>\<open>stacks i n stk M\<close> maps the stacks \<open>i\<close> to \<open>i + n - 1\<close> to the pages \<open>stk\<close>.\<close>

fun stacks :: "nat \<Rightarrow> nat \<Rightarrow> (nat \<Rightarrow> uint64) \<Rightarrow> (nat \<Rightarrow> uint64) \<Rightarrow> nat \<Rightarrow> uint64" where
  "stacks i 0 stk M = M"
| "stacks i (Suc n) stk M = stacks (Suc i) n stk (region (stack_page i) 1 (stk i) (PTE_R OR PTE_W) M)"

lemma stacks_cong: "(\<And>p. i \<le> p \<Longrightarrow> stk p = stk' p) \<Longrightarrow> stacks i n stk M = stacks i n stk' M"
  by (induction i n stk M rule: stacks.induct) simp_all

lemma stacks_built:
  fixes s :: "'a pst_scheme"
  assumes "built n P s r ps M" and "i + n = 64"
    and "\<And>p. i \<le> p \<Longrightarrow> p < 64 \<Longrightarrow> ktables (stack_page p) \<subseteq> P \<and> M (stack_page p) = 0"
  shows "\<exists>t ps' stk. kfold (\<lambda>p s. kbind (pmem_alloc s) (\<lambda>(pa, s).
         if pa = 0 then Inl (Panic ''kalloc'')
         else vm_mappages r (KSTACK p) pa (of_nat PGSIZE) (PTE_R OR PTE_W) s)) [i..<64] s = Inr t \<and>
    built 0 P t r ps' (stacks i n stk M) \<and> from_pool r s ps t ps' \<and> inj_on stk {i..<64} \<and>
    (\<forall>p \<in> {i..<64}. stk p \<in> set ps \<and> stk p \<notin> pt_pages (kmem t) r \<union> set ps')"
  (is "\<exists>t ps' stk. kfold ?f _ s = Inr t \<and> _")
  using assms
proof (induction n arbitrary: i s ps M)
  case 0
  then show ?case by (auto simp: from_pool_def)
next
  case (Suc n)
  obtain p ps1 s1 where 1: "ps = p # ps1" "pmem_alloc s = Inr (p, s1)" "p \<noteq> 0" "built n P s1 r ps1 M" "kmem s1 = kmem s"
    "p \<notin> pt_pages (kmem s) r" "p \<notin> set ps1" "ALLOC_BEGIN s1 = ALLOC_BEGIN s" "pst.more s1 = pst.more s"
    using take_page [OF Suc.prems(1)] by blast
  let ?M = "region (stack_page i) 1 p (PTE_R OR PTE_W) M"
  have u: "unat (KSTACK i) = stack_page i * PGSIZE" "stack_page i + 1 \<le> 2 ^ 26"
    using KSTACK_page [of i] Suc.prems(2) by (simp_all add: stack_page_def)
  obtain s2 ps2 where 2: "vm_mappages r (KSTACK i) p (of_nat PGSIZE) (PTE_R OR PTE_W) s1 = Inr s2" "built n P s2 r ps2 ?M" "from_pool r s1 ps1 s2 ps2"
    using map_region [OF 1(4) u(1), of 1 p "PTE_R OR PTE_W"] u(2) Suc.prems(2,3) by (auto simp: le_less_Suc_eq)
  have "ktables (stack_page q) \<subseteq> P \<and> ?M (stack_page q) = 0" if "Suc i \<le> q" "q < 64" for q
    using Suc.prems(2) Suc.prems(3) [of q] that by (auto simp: region_def stack_page_def)
  then obtain t ps' stk where 3: "kfold ?f [Suc i..<64] s2 = Inr t" "built 0 P t r ps' (stacks (Suc i) n stk ?M)"
    "from_pool r s2 ps2 t ps'" "inj_on stk {Suc i..<64}" "\<forall>q \<in> {Suc i..<64}. stk q \<in> set ps2 \<and> stk q \<notin> pt_pages (kmem t) r \<union> set ps'"
    using Suc.IH [OF 2(2), of "Suc i"] Suc.prems(2) by auto
  let ?stk = "stk(i := p)"
  have up: "[i..<64] = i # [Suc i..<64]" and I: "{i..<64} = insert i {Suc i..<64}" using Suc.prems(2) by (auto simp: upt_conv_Cons)
  have st: "stacks i (Suc n) ?stk M = stacks (Suc i) n stk ?M" using stacks_cong [of "Suc i" ?stk stk] by simp
  have fp: "from_pool r s1 ps1 t ps'" using from_pool_trans [OF 2(3) 3(3)] .
  then have np: "p \<notin> pt_pages (kmem t) r \<union> set ps'" using 1(5-7) by (auto simp: from_pool_def)
  have "stk q \<in> set ps1" if "q \<in> {Suc i..<64}" for q using 3(5) 2(3) that by (auto simp: from_pool_def)
  then have "inj_on ?stk {i..<64}" "\<forall>q \<in> {i..<64}. ?stk q \<in> set ps \<and> ?stk q \<notin> pt_pages (kmem t) r \<union> set ps'"
    unfolding I using 3(4,5) 1(1,7) np by (auto simp: inj_on_def)
  moreover have "from_pool r s ps t ps'" using fp 1(1,5,8,9) by (auto simp: from_pool_def)
  moreover have "kfold ?f [i..<64] s = Inr t" unfolding up using 1(2,3) 2(1) 3(1) by simp
  ultimately show ?case using 3(2) unfolding st [symmetric] by blast
qed

lemma stack_page_inj: "p < 64 \<Longrightarrow> q < 64 \<Longrightarrow> stack_page p = stack_page q \<longleftrightarrow> p = q"
  by (auto simp: stack_page_def)

lemma region_one: "region f 1 pa perm M k = (if k = f then pte_of pa perm else M k)"
  by (auto simp: region_def)

lemma region_id:
  "region f n (of_nat (f * PGSIZE)) perm M k = (if f \<le> k \<and> k < f + n then pte_of (of_nat (k * PGSIZE)) perm else M k)"
  by (auto simp: region_def simp flip: of_nat_add) (simp add: algebra_simps)

lemma stacks_apply:
  "i + n \<le> 64 \<Longrightarrow> p < 64 \<Longrightarrow> stacks i n stk M (stack_page p) = (if i \<le> p \<and> p < i + n then pte_of (stk p) (PTE_R OR PTE_W) else M (stack_page p))"
  "i + n \<le> 64 \<Longrightarrow> (\<And>p. p < 64 \<Longrightarrow> k \<noteq> stack_page p) \<Longrightarrow> stacks i n stk M k = M k"
  by (induction i n stk M rule: stacks.induct) (auto simp del: One_nat_def simp: region_one stack_page_inj)

section \<open>The kernel page table\<close>

definition kernel_regions :: "nat \<Rightarrow> uint64 \<Rightarrow> kregion list" where
  "kernel_regions e tr =
     [(0x10000, 1, UART_BASE, PTE_R OR PTE_W), (0x10001, 1, VIRTIO_BASE, PTE_R OR PTE_W), (0x2000, 1, CLINT_BASE, PTE_R OR PTE_W),
      (0xC000, 1024, PLIC_BASE, PTE_R OR PTE_W), (0x80000, e - 0x80000, KERNEL_BASE, PTE_R OR PTE_X),
      (e, 0x88000 - e, of_nat (e * PGSIZE), PTE_R OR PTE_W), (2 ^ 26 - 1, 1, tr, PTE_R OR PTE_X)]"

definition kernel_tables :: "nat list set" where
  "kernel_tables = {[0], [2], [255], [0, 16], [0, 96], [0, 97], [0, 128], [255, 511]} \<union> (\<lambda>j. [2, j]) ` {0..<64}"

lemma kernel_tables_ok: "finite kernel_tables" "kernel_tables \<subseteq> paths" "card kernel_tables \<le> 72"
proof -
  have "card ((\<lambda>j. [2 :: nat, j]) ` {0..<64}) \<le> 64" using card_image_le [of "{0..<64}" "\<lambda>j. [2 :: nat, j]"] by simp
  moreover have "card {[0], [2], [255], [0, 16], [0, 96], [0, 97], [0, 128], [255, 511 :: nat]} \<le> 8" by (simp add: card_insert_if)
  ultimately show "card kernel_tables \<le> 72" unfolding kernel_tables_def by (intro order_trans [OF card_Un_le]) simp
qed (auto simp: kernel_tables_def)

text \<open>The address space as it is meant to be, by page number: \<open>e\<close> is the first page after the code.\<close>

definition device_page :: "nat \<Rightarrow> bool" where
  "device_page k \<longleftrightarrow> k = 0x10000 \<or> k = 0x10001 \<or> k = 0x2000 \<or> 0xC000 \<le> k \<and> k < 0xC400"

definition kernel_map :: "nat \<Rightarrow> uint64 \<Rightarrow> (nat \<Rightarrow> uint64) \<Rightarrow> nat \<Rightarrow> uint64" where
  "kernel_map e tr stk k =
     (if device_page k \<or> e \<le> k \<and> k < 0x88000 then pte_of (of_nat (k * PGSIZE)) (PTE_R OR PTE_W)
      else if 0x80000 \<le> k \<and> k < e then pte_of (of_nat (k * PGSIZE)) (PTE_R OR PTE_X)
      else if k = 2 ^ 26 - 1 then pte_of tr (PTE_R OR PTE_X)
      else case find (\<lambda>p. k = stack_page p) [0..<64] of None \<Rightarrow> 0 | Some p \<Rightarrow> pte_of (stk p) (PTE_R OR PTE_W))"

lemma ktables_kernel:
  "k = 0x10000 \<or> k = 0x10001 \<or> k = 0x2000 \<or> 0xC000 \<le> k \<and> k < 0xC400 \<Longrightarrow> ktables k \<subseteq> kernel_tables"
  "0x80000 \<le> k \<Longrightarrow> k < 0x88000 \<Longrightarrow> ktables k \<subseteq> kernel_tables"
  "2 ^ 26 - 512 \<le> k \<Longrightarrow> k < 2 ^ 26 \<Longrightarrow> ktables k \<subseteq> kernel_tables"
proof -
  assume "0x80000 \<le> k" "k < 0x88000"
  then have "1024 \<le> k div 512" "k div 512 - 1024 < 64" by linarith+
  then obtain j where "k div 512 = 1024 + j" "j < 64" by (intro that [of "k div 512 - 1024"]) simp_all
  moreover have "(j + 2 * 512) mod 512 = j mod 512" by (rule mod_mult_self1)
  ultimately have "k div 512 div 512 = 2" "k div 512 mod 512 < 64" by (simp_all add: add.commute)
  then show "ktables k \<subseteq> kernel_tables" by (auto simp: ktables_def kernel_tables_def)
next
  assume "2 ^ 26 - 512 \<le> k" "k < 2 ^ 26"
  then have "k div 512 = 131071" by simp
  then show "ktables k \<subseteq> kernel_tables" by (auto simp: ktables_def kernel_tables_def)
next
  assume "k = 0x10000 \<or> k = 0x10001 \<or> k = 0x2000 \<or> 0xC000 \<le> k \<and> k < 0xC400"
  moreover have "k div 512 = 96 \<or> k div 512 = 97" if "0xC000 \<le> k" "k < 0xC400" using that by linarith
  ultimately have "k div 512 \<in> {128, 16, 96, 97}" by auto
  then show "ktables k \<subseteq> kernel_tables" by (auto simp: ktables_def kernel_tables_def)
qed

lemma kernel_mappable:
  assumes "0x80000 < e" "e < 0x88000"
  shows "mappable kernel_tables (kernel_regions e tr) (\<lambda>_. 0)"
  using assms ktables_kernel by (auto simp: kernel_regions_def region_def)

lemma kernel_map_eq:
  assumes "0x80000 < e" "e < 0x88000"
  shows "stacks 0 64 stk (regions (kernel_regions e tr) (\<lambda>_. 0)) = kernel_map e tr stk"
proof
  fix k
  have a: "UART_BASE = of_nat (0x10000 * PGSIZE)" "VIRTIO_BASE = of_nat (0x10001 * PGSIZE)" "CLINT_BASE = of_nat (0x2000 * PGSIZE)"
    "PLIC_BASE = of_nat (0xC000 * PGSIZE)" "KERNEL_BASE = of_nat (0x80000 * PGSIZE)"
    by (simp_all add: layout)
  show "stacks 0 64 stk (regions (kernel_regions e tr) (\<lambda>_. 0)) k = kernel_map e tr stk k"
  proof (cases "\<exists>p < 64. k = stack_page p")
    case True
    then obtain p where p: "p < 64" "k = stack_page p" by blast
    have "find (\<lambda>q. stack_page p = stack_page q) [0..<64] = Some p"
      using p(1) by (auto simp: find_Some_iff stack_page_inj intro!: exI [of _ p])
    moreover have "2 ^ 26 - 200 < k" "k < 2 ^ 26 - 1" using p by (simp_all add: stack_page_def)
    ultimately show ?thesis using p assms by (simp add: stacks_apply(1) kernel_map_def device_page_def)
  next
    case False
    then have f: "find (\<lambda>p. k = stack_page p) [0..<64] = None" by (auto simp: find_None_iff)
    have "stacks 0 64 stk (regions (kernel_regions e tr) (\<lambda>_. 0)) k = regions (kernel_regions e tr) (\<lambda>_. 0) k"
      using False by (intro stacks_apply(2)) auto
    then show ?thesis
      using assms by (simp add: kernel_regions_def a region_id region_one kernel_map_def device_page_def f del: of_nat_mult One_nat_def)
  qed
qed

lemma kvm_create_regions:
  fixes s :: "'a pst_scheme"
  assumes e: "unat etext = e * PGSIZE" "0x80000 < e" "e < 0x88000"
  shows "kvm_create etext tr s = kbind (pmem_alloc s) (\<lambda>(r, s).
    kbind (kfold (map_one r) (kernel_regions e tr) (s\<lparr>kmem := memset (kmem s) r 0 (of_nat PGSIZE)\<rparr>)) (\<lambda>s.
    kbind (proc_mapstacks r s) (\<lambda>s. Inr (r, s))))"
proof -
  have t: "etext = of_nat (e * PGSIZE)" using e(1) by (simp flip: e(1))
  have "etext - KERNEL_BASE = of_nat ((e - 0x80000) * PGSIZE)" "PHYSTOP - etext = of_nat ((0x88000 - e) * PGSIZE)"
    using e(2,3) by (simp_all add: t layout of_nat_diff algebra_simps)
  moreover have "UART_BASE = of_nat (0x10000 * PGSIZE)" "VIRTIO_BASE = of_nat (0x10001 * PGSIZE)" "CLINT_BASE = of_nat (0x2000 * PGSIZE)"
    "PLIC_BASE = of_nat (0xC000 * PGSIZE)" "KERNEL_BASE = of_nat (0x80000 * PGSIZE)" "TRAMPOLINE = of_nat ((2 ^ 26 - 1) * PGSIZE)"
    "0x400000 = (of_nat (1024 * PGSIZE) :: uint64)"
    by (simp_all add: layout)
  ultimately show ?thesis
    unfolding kvm_create_def Let_def kernel_regions_def map_one_def by (simp add: kbind_assoc split_def t [symmetric] del: of_nat_mult)
qed

lemma pte_bits: "\<not> bit (PA2PTE pa) n" if "n < 10"
  using that by (simp add: PA2PTE_def bit_simps)

lemma kernel_map_wx: "\<not> (bit (kernel_map e tr stk k) 2 \<and> bit (kernel_map e tr stk k) 3)"
  by (auto simp: kernel_map_def pte_of_def bit_or_iff pte_bits PTE_R_def PTE_W_def PTE_X_def PTE_V_def split: option.splits)

text \<open>The page below a stack is no stack and not the trampoline.\<close>

lemma kernel_map_guard:
  assumes "e < 0x88000" "p < 64"
  shows "kernel_map e tr stk (stack_page p) = pte_of (stk p) (PTE_R OR PTE_W)" "kernel_map e tr stk (stack_page p - 1) = 0"
proof -
  have "find (\<lambda>q. stack_page p = stack_page q) [0..<64] = Some p"
    using assms(2) by (auto simp: find_Some_iff stack_page_inj intro!: exI [of _ p])
  moreover have "find (\<lambda>q. stack_page p - 1 = stack_page q) [0..<64] = None"
    using assms(2) unfolding find_None_iff stack_page_def by auto presburger
  moreover have "2 ^ 26 - 200 < stack_page p" "2 ^ 26 - 200 < stack_page p - 1" "stack_page p < 2 ^ 26 - 1" "stack_page p - 1 < 2 ^ 26 - 1" using assms(2) by (simp_all add: stack_page_def)
  ultimately show "kernel_map e tr stk (stack_page p) = pte_of (stk p) (PTE_R OR PTE_W)" "kernel_map e tr stk (stack_page p - 1) = 0"
    using assms(1) by (simp_all add: kernel_map_def device_page_def)
qed

lemma stack_addresses:
  assumes "p < 64"
  shows "unat (KSTACK p) div PGSIZE = stack_page p \<and> unat (KSTACK p - of_nat PGSIZE) div PGSIZE = stack_page p - 1 \<and>
    KSTACK p < MAXVA \<and> KSTACK p - of_nat PGSIZE < MAXVA"
proof -
  note u = KSTACK_page [OF assms]
  have b: "2 ^ 26 - 200 < stack_page p" "stack_page p < 2 ^ 26 - 1" using assms by (simp_all add: stack_page_def)
  have "of_nat PGSIZE \<le> KSTACK p" using u b by (simp add: word_le_nat_alt layout)
  then have "unat (KSTACK p - of_nat PGSIZE) = (stack_page p - 1) * PGSIZE"
    using unat_diff_ge [of "of_nat PGSIZE" "KSTACK p"] u by (simp add: layout diff_mult_distrib)
  then show ?thesis using u b by (simp add: word_less_nat_alt layout)
qed

lemma kvm_create_map:
  fixes s :: "'a pst_scheme"
  assumes pl: "pool s ps" "137 \<le> length ps" and e: "unat etext = e * PGSIZE" "KERNEL_BASE < etext" "etext < PHYSTOP"
  shows "\<exists>r t stk ps'. kvm_create etext tr s = Inr (r, t) \<and> vm_inv t r ps' \<and>
    (\<forall>va < MAXVA. leaf (kmem t) r va = kernel_map e tr stk (unat va div PGSIZE)) \<and>
    inj_on stk {0..<64} \<and> (\<forall>p \<in> {0..<64}. stk p \<in> set ps \<and> stk p \<notin> pt_pages (kmem t) r \<union> set ps') \<and>
    (\<forall>va < MAXVA. \<not> (bit (leaf (kmem t) r va) 2 \<and> bit (leaf (kmem t) r va) 3)) \<and>
    (\<forall>p < 64. leaf (kmem t) r (KSTACK p) = pte_of (stk p) (PTE_R OR PTE_W) \<and> leaf (kmem t) r (KSTACK p - of_nat PGSIZE) = 0)"
proof -
  have E: "0x80000 < e" "e < 0x88000" using e by (simp_all add: word_less_nat_alt layout)
  obtain r ps1 where ps: "ps = r # ps1" "136 \<le> length ps1" using pl(2) by (cases ps) auto
  obtain s0 where s0: "pmem_alloc s = Inr (r, s0)" "r \<noteq> 0"
    "let s' = s0\<lparr>kmem := memset (kmem s0) r 0 (of_nat PGSIZE)\<rparr>
     in vm_inv s' r ps1 \<and> ALLOC_BEGIN s' = ALLOC_BEGIN s \<and> pst.more s' = pst.more s \<and>
       pt_pages (kmem s') r = {r} \<and> (\<forall>va. leaf (kmem s') r va = 0) \<and> (\<forall>x. \<not> in_page r x \<longrightarrow> kmem s' x = kmem s x)"
    using new_table [OF pl(1) [unfolded ps(1)]] by blast
  define s1 where "s1 = s0\<lparr>kmem := memset (kmem s0) r 0 (of_nat PGSIZE)\<rparr>"
  have "card {is \<in> kernel_tables. node (kmem s1) r is = None} \<le> 72"
    using kernel_tables_ok card_mono [OF kernel_tables_ok(1), of "{is \<in> kernel_tables. node (kmem s1) r is = None}"] by auto
  then have b1: "built 64 kernel_tables s1 r ps1 (\<lambda>_. 0)"
    using s0(3) kernel_tables_ok ps(2) unfolding Let_def s1_def [symmetric] by (simp add: built_def pt_room_def)
  obtain s2 ps2 where 2: "kfold (map_one r) (kernel_regions e tr) s1 = Inr s2"
    "built 64 kernel_tables s2 r ps2 (regions (kernel_regions e tr) (\<lambda>_. 0))" "from_pool r s1 ps1 s2 ps2"
    using map_regions [OF b1 kernel_mappable [OF E]] by blast
  have "ktables (stack_page p) \<subseteq> kernel_tables \<and> regions (kernel_regions e tr) (\<lambda>_. 0) (stack_page p) = 0" if "p < 64" for p
    using that E ktables_kernel(3) [of "stack_page p"] by (auto simp: stack_page_def kernel_regions_def region_def)
  then obtain t ps' stk where 3: "proc_mapstacks r s2 = Inr t" "built 0 kernel_tables t r ps' (kernel_map e tr stk)"
    "inj_on stk {0..<64}" "\<forall>p \<in> {0..<64}. stk p \<in> set ps2 \<and> stk p \<notin> pt_pages (kmem t) r \<union> set ps'"
    using stacks_built [OF 2(2), of 0] unfolding kernel_map_eq [OF E] proc_mapstacks_def by auto
  have l: "\<forall>va < MAXVA. leaf (kmem t) r va = kernel_map e tr stk (unat va div PGSIZE)" using 3(2) by (simp add: built_def)
  have k: "unat (KSTACK p) div PGSIZE = stack_page p" "unat (KSTACK p - of_nat PGSIZE) div PGSIZE = stack_page p - 1"
      "KSTACK p < MAXVA" "KSTACK p - of_nat PGSIZE < MAXVA" if "p < 64" for p
    using stack_addresses [OF that] by blast+
  have "kvm_create etext tr s = Inr (r, t)"
    unfolding kvm_create_regions [OF e(1) E] using s0(1) 2(1) 3(1) by (simp add: s1_def)
  moreover have "set ps2 \<subseteq> set ps" using 2(3) ps(1) by (auto simp: from_pool_def)
  ultimately show ?thesis
    using l 3 k kernel_map_wx kernel_map_guard [OF E(2)]
    by (intro exI [of _ r] exI [of _ t] exI [of _ stk] exI [of _ ps']) (auto simp: built_def)
qed

lemma pmem_init_more: "pst.more (pmem_init s) = pst.more s"
proof -
  have "pst.more (pmem_init_loop a u) = pst.more u" for a and u :: "'a pst_scheme"
    by (induction a u rule: pmem_init_loop.induct) (subst pmem_init_loop.simps, simp add: push_page_def)
  then show ?thesis by (simp add: pmem_init_def Let_def)
qed

text \<open>The pages that \<^verbatim>\<open>pmem_init\<close> provides.\<close>

lemma pmem_init_room:
  assumes b: "base_ok (ALLOC_BEGIN s)" "cpu_ok (khart s)" and n: "unat (ALLOC_BEGIN s) + n * PGSIZE \<le> unat PHYSTOP"
  shows "\<exists>ps. pool (pmem_init s) ps \<and> n \<le> length ps"
proof -
  obtain ps where ps: "pool (pmem_init s) ps" "set ps = {p. page_ok (ALLOC_BEGIN s) p}"
    using pmem_init_pool [OF b] by blast
  let ?f = "\<lambda>i. of_nat (unat (ALLOC_BEGIN s) + i * PGSIZE) :: uint64"
  have u: "unat (?f i) = unat (ALLOC_BEGIN s) + i * PGSIZE" "unat (ALLOC_BEGIN s) + i * PGSIZE < unat PHYSTOP" if "i < n" for i
  proof -
    have "Suc i * PGSIZE \<le> n * PGSIZE" using that by (intro mult_le_mono1) simp
    then show l: "unat (ALLOC_BEGIN s) + i * PGSIZE < unat PHYSTOP" using n by (simp add: layout)
    then show "unat (?f i) = unat (ALLOC_BEGIN s) + i * PGSIZE" by (intro unat_of_nat_small) (simp add: layout)
  qed
  have "page_ok (ALLOC_BEGIN s) (?f i)" if "i < n" for i
    unfolding page_ok_def word_le_nat_alt word_less_nat_alt u(1) [OF that] using u(2) [OF that] b(1) by (simp add: base_ok_def)
  then have "?f ` {0..<n} \<subseteq> set ps" unfolding ps(2) by auto
  moreover have "inj_on ?f {0..<n}"
  proof (rule inj_onI)
    fix i j assume "i \<in> {0..<n}" "j \<in> {0..<n}" "?f i = ?f j"
    then show "i = j" using u(1) [of i] u(1) [of j] by (simp add: PGSIZE_def del: of_nat_add of_nat_mult)
  qed
  ultimately have "n \<le> card (set ps)" using card_mono [of "set ps" "?f ` {0..<n}"] card_image [of ?f "{0..<n}"] by simp
  then show ?thesis using ps(1) card_length [of ps] by auto
qed

end
