(* ===== verification/Fs.thy ===== *)
theory Fs
  imports Log Str
begin

text \<open>
  \<^verbatim>\<open>kernel/fs/fs.c\<close>: the on-disk structures (superblock, bitmap, inodes, directory entries), the
  cache of inodes, the block map and reading and writing of files, directories and path names. The
  state extends that of the log with the superblock and the inode cache; inode pointers are indices
  into \<^verbatim>\<open>icache.inode\<close>. Reading and writing move bytes to and from kernel variables or user
  memory; the two branches of \<^verbatim>\<open>if(user_dst)\<close> are the copy function that \<open>readi\<close> and \<open>writei\<close> take.
  Console output is not part of the state.
\<close>

section \<open>On-disk structures\<close>

definition ROOTDEV :: uint64 where [layout]: "ROOTDEV = 1"
definition ROOTINO :: uint64 where [layout]: "ROOTINO = 1"
definition FSMAGIC :: uint64 where [layout]: "FSMAGIC = 0x10203040"
definition NDIRECT :: nat where [layout]: "NDIRECT = 12"
definition NINDIRECT :: nat where [layout]: "NINDIRECT = BSIZE div 4"
definition MAXFILE :: nat where [layout]: "MAXFILE = NDIRECT + NINDIRECT"
definition DIRSIZ :: nat where [layout]: "DIRSIZ = 14"
definition IPB :: nat where [layout]: "IPB = BSIZE div 64"
definition BPB :: nat where [layout]: "BPB = BSIZE * 8"
definition NINODE :: nat where [layout]: "NINODE = 100"
definition T_DIR :: uint16 where [layout]: "T_DIR = 1"
definition T_FILE :: uint16 where [layout]: "T_FILE = 2"
definition T_DEVICE :: uint16 where [layout]: "T_DEVICE = 3"

text \<open>\<^verbatim>\<open>sizeof(struct dirent)\<close>: eight bytes of inode number, the name, two bytes of padding.\<close>

definition SIZEOF_DIRENT :: nat where [layout]: "SIZEOF_DIRENT = 24"

definition IBLOCK :: "uint64 \<Rightarrow> superblock \<Rightarrow> uint64" where
  "IBLOCK i sb = i div of_nat IPB + sb_inodestart sb"

definition BBLOCK :: "uint64 \<Rightarrow> superblock \<Rightarrow> uint64" where
  "BBLOCK b sb = b div of_nat BPB + sb_bmapstart sb"

definition sb_load :: "block \<Rightarrow> superblock" where
  "sb_load d = \<lparr>sb_magic = le_load 8 d 0, sb_size = le_load 8 d 8, sb_nblocks = le_load 8 d 16,
     sb_ninodes = le_load 8 d 24, sb_nlog = le_load 8 d 32, sb_logstart = le_load 8 d 40,
     sb_inodestart = le_load 8 d 48, sb_bmapstart = le_load 8 d 56\<rparr>"

definition sb_store :: "superblock \<Rightarrow> block \<Rightarrow> block" where
  "sb_store sb d =
     (let d = le_store 8 d 0 (sb_magic sb); d = le_store 8 d 8 (sb_size sb);
          d = le_store 8 d 16 (sb_nblocks sb); d = le_store 8 d 24 (sb_ninodes sb);
          d = le_store 8 d 32 (sb_nlog sb); d = le_store 8 d 40 (sb_logstart sb);
          d = le_store 8 d 48 (sb_inodestart sb)
      in le_store 8 d 56 (sb_bmapstart sb))"

text \<open>\<^verbatim>\<open>struct inode\<close>.\<close>

record inode =
  idev :: uint64
  inum :: uint64
  iref :: int
  ivalid :: bool
  itype :: uint16
  imajor :: uint16
  iminor :: uint16
  inlink :: uint16
  isize :: uint32
  iaddrs :: "nat \<Rightarrow> uint32"

text \<open>\<^verbatim>\<open>struct dinode\<close> at byte \<open>o\<close> of a block: the fields as \<^verbatim>\<open>ilock\<close> loads and \<^verbatim>\<open>iupdate\<close> stores them.\<close>

definition dip_off :: "uint64 \<Rightarrow> nat" where
  "dip_off i = (unat i mod IPB) * 64"

definition dinode_load :: "block \<Rightarrow> nat \<Rightarrow> inode \<Rightarrow> inode" where
  "dinode_load d k ip = ip\<lparr>itype := le_load 2 d k, imajor := le_load 2 d (k + 2), iminor := le_load 2 d (k + 4),
     inlink := le_load 2 d (k + 6), isize := le_load 4 d (k + 8),
     iaddrs := (\<lambda>j. if j \<le> NDIRECT then le_load 4 d (k + 12 + 4 * j) else iaddrs ip j)\<rparr>"

definition dinode_store :: "inode \<Rightarrow> nat \<Rightarrow> block \<Rightarrow> block" where
  "dinode_store ip k d =
     (let d = le_store 2 d k (itype ip); d = le_store 2 d (k + 2) (imajor ip);
          d = le_store 2 d (k + 4) (iminor ip); d = le_store 2 d (k + 6) (inlink ip);
          d = le_store 4 d (k + 8) (isize ip)
      in fold (\<lambda>j d. le_store 4 d (k + 12 + 4 * j) (iaddrs ip j)) [0..<Suc NDIRECT] d)"

section \<open>State\<close>

record fsst = lst +
  sblk :: superblock
  icache :: "nat \<Rightarrow> inode"

definition set_ino :: "nat \<Rightarrow> (inode \<Rightarrow> inode) \<Rightarrow> 'a fsst_scheme \<Rightarrow> 'a fsst_scheme" where
  "set_ino ip f s = s\<lparr>icache := (icache s)(ip := f (icache s ip))\<rparr>"

section \<open>Disk blocks\<close>

text \<open>The bit \<^verbatim>\<open>bi\<close> of a bitmap block, as the byte and the mask of the code.\<close>

definition bitmask :: "nat \<Rightarrow> uint8" where
  "bitmask bi = push_bit (bi mod 8) 1"

definition bm_used :: "block \<Rightarrow> nat \<Rightarrow> bool" where
  "bm_used d bi \<longleftrightarrow> d (bi div 8) AND bitmask bi \<noteq> 0"

definition bm_set :: "nat \<Rightarrow> block \<Rightarrow> block" where
  "bm_set bi d = d(bi div 8 := d (bi div 8) OR bitmask bi)"

definition bm_clear :: "nat \<Rightarrow> block \<Rightarrow> block" where
  "bm_clear bi d = d(bi div 8 := d (bi div 8) AND NOT (bitmask bi))"

text \<open>The inner loop of \<^verbatim>\<open>fs_alloc\<close> with \<open>k\<close> iterations left: the first free bit.\<close>

fun alloc_scan :: "nat \<Rightarrow> block \<Rightarrow> nat \<Rightarrow> nat \<Rightarrow> nat \<Rightarrow> nat option" where
  "alloc_scan 0 d b bi sz = None"
| "alloc_scan (Suc k) d b bi sz =
     (if \<not> b + bi < sz then None
      else if \<not> bm_used d bi then Some bi
      else alloc_scan k d b (Suc bi) sz)"

text \<open>The outer loop, from block \<open>b\<close> on; \<^verbatim>\<open>b\<close> is a C \<open>int\<close>.\<close>

fun fs_alloc_loop :: "nat \<Rightarrow> uint64 \<Rightarrow> nat \<Rightarrow> 'a fsst_scheme \<Rightarrow> (int \<times> 'a fsst_scheme) kres" where
  "fs_alloc_loop 0 dev b s = Inl (Spin ''fs_alloc'')"
| "fs_alloc_loop (Suc fuel) dev b s =
     (if \<not> b < unat (sb_size (sblk s)) then Inl (Panic ''fs_alloc: out of blocks'')
      else kguard (b + BPB < 2 ^ 31) (Undef ''fs_alloc: b'')
       (kbind (bread dev (BBLOCK (of_nat b) (sblk s)) s) (\<lambda>(bp, s).
         case alloc_scan BPB (bdata (bufs s bp)) b 0 (unat (sb_size (sblk s))) of
           Some bi \<Rightarrow>
             kbind (log_write bp (set_data bp (bm_set bi (bdata (bufs s bp))) s)) (\<lambda>s.
             kbind (brelse bp s) (\<lambda>s.
             kbind (bread dev (of_nat (b + bi)) s) (\<lambda>(zbp, s).
             kbind (log_write zbp (set_data zbp (\<lambda>i. if i < BSIZE then 0 else bdata (bufs s zbp) i) s)) (\<lambda>s.
             kbind (brelse zbp s) (\<lambda>s. Inr (int (b + bi), s))))))
         | None \<Rightarrow> kbind (brelse bp s) (fs_alloc_loop fuel dev (b + BPB)))))"

definition fs_alloc :: "uint64 \<Rightarrow> 'a fsst_scheme \<Rightarrow> (int \<times> 'a fsst_scheme) kres" where
  "fs_alloc dev s = fs_alloc_loop (Suc (Suc (unat (sb_size (sblk s)) div BPB))) dev 0 s"

definition fs_free :: "int \<Rightarrow> uint64 \<Rightarrow> 'a fsst_scheme \<Rightarrow> 'a fsst_scheme kres" where
  "fs_free dev b s =
     kbind (bread (word_of_int dev) (BBLOCK b (sblk s)) s) (\<lambda>(bp, s).
     let bi = unat b mod BPB
     in kguard (bm_used (bdata (bufs s bp)) bi) (Panic ''fs_free: block not in use'')
         (kbind (log_write bp (set_data bp (bm_clear bi (bdata (bufs s bp))) s)) (brelse bp)))"

section \<open>The inode cache\<close>

text \<open>The first loop of \<^verbatim>\<open>iget\<close>: the entry of the inode, and the first free entry before it.\<close>

fun iget_scan :: "nat \<Rightarrow> nat \<Rightarrow> (nat \<Rightarrow> inode) \<Rightarrow> uint64 \<Rightarrow> uint64 \<Rightarrow> nat option \<Rightarrow> nat option \<times> nat option" where
  "iget_scan 0 i ic dev n emp = (None, emp)"
| "iget_scan (Suc k) i ic dev n emp =
     (if iref (ic i) > 0 \<and> idev (ic i) = dev \<and> inum (ic i) = n then (Some i, emp)
      else iget_scan k (Suc i) ic dev n (if emp = None \<and> iref (ic i) = 0 then Some i else emp))"

definition iget :: "uint64 \<Rightarrow> uint64 \<Rightarrow> 'a fsst_scheme \<Rightarrow> (nat \<times> 'a fsst_scheme) kres" where
  "iget dev n s =
     (case iget_scan NINODE 0 (icache s) dev n None of
        (Some ip, _) \<Rightarrow> Inr (ip, set_ino ip (\<lambda>x. x\<lparr>iref := iref x + 1\<rparr>) s)
      | (None, emp) \<Rightarrow>
          (case (if emp = None then find (\<lambda>i. iref (icache s i) = 0) [0..<NINODE] else emp) of
             None \<Rightarrow> Inl (Panic ''iget: no inodes'')
           | Some ip \<Rightarrow> Inr (ip, set_ino ip (\<lambda>x. x\<lparr>idev := dev, inum := n, iref := 1, ivalid := False\<rparr>) s)))"

definition idup :: "nat \<Rightarrow> 'a fsst_scheme \<Rightarrow> 'a fsst_scheme" where
  "idup ip s = set_ino ip (\<lambda>x. x\<lparr>iref := iref x + 1\<rparr>) s"

text \<open>\<^verbatim>\<open>ialloc\<close>: the loop over the inode numbers from \<open>n\<close>, with \<open>k\<close> numbers left.\<close>

fun ialloc_loop :: "nat \<Rightarrow> uint64 \<Rightarrow> nat \<Rightarrow> uint16 \<Rightarrow> 'a fsst_scheme \<Rightarrow> (nat \<times> 'a fsst_scheme) kres" where
  "ialloc_loop 0 dev n type s = Inl (Panic ''ialloc: no inodes'')"
| "ialloc_loop (Suc k) dev n type s =
     kbind (bread dev (IBLOCK (of_nat n) (sblk s)) s) (\<lambda>(bp, s).
       let dip = dip_off (of_nat n); d = bdata (bufs s bp)
       in if (le_load 2 d dip :: uint16) = 0 then
            let d = (\<lambda>i. if dip \<le> i \<and> i < dip + 64 then 0 else d i); d = le_store 2 d dip type
            in kbind (log_write bp (set_data bp d s)) (\<lambda>s.
               kbind (brelse bp s) (\<lambda>s.
               kbind (iget dev (of_nat n) s) (\<lambda>(ip, s).
               Inr (ip, set_ino ip (\<lambda>x. x\<lparr>itype := type, imajor := 0, iminor := 0, inlink := 0, isize := 0,
                 iaddrs := (\<lambda>j. if j \<le> NDIRECT then 0 else iaddrs x j), ivalid := True\<rparr>) s))))
          else kbind (brelse bp s) (ialloc_loop k dev (Suc n) type))"

definition ialloc :: "uint64 \<Rightarrow> uint16 \<Rightarrow> 'a fsst_scheme \<Rightarrow> (nat \<times> 'a fsst_scheme) kres" where
  "ialloc dev type s = ialloc_loop (unat (sb_ninodes (sblk s)) - 1) dev 1 type s"

definition ilock :: "nat \<Rightarrow> 'a fsst_scheme \<Rightarrow> 'a fsst_scheme kres" where
  "ilock ip s =
     kguard (\<not> iref (icache s ip) < 1) (Panic ''ilock'')
      (if \<not> ivalid (icache s ip) then
         kbind (bread (idev (icache s ip)) (IBLOCK (inum (icache s ip)) (sblk s)) s) (\<lambda>(bp, s).
         let s = set_ino ip (dinode_load (bdata (bufs s bp)) (dip_off (inum (icache s ip)))) s
         in kbind (brelse bp s) (\<lambda>s.
            let s = set_ino ip (\<lambda>x. x\<lparr>ivalid := True\<rparr>) s
            in kguard (itype (icache s ip) \<noteq> 0) (Panic ''ilock: no type'') (Inr s)))
       else Inr s)"

definition iunlock :: "nat \<Rightarrow> 'a fsst_scheme \<Rightarrow> 'a fsst_scheme kres" where
  "iunlock ip s = kguard (\<not> iref (icache s ip) < 1) (Panic ''iunlock'') (Inr s)"

definition iupdate :: "nat \<Rightarrow> 'a fsst_scheme \<Rightarrow> 'a fsst_scheme kres" where
  "iupdate ip s =
     kbind (bread (idev (icache s ip)) (IBLOCK (inum (icache s ip)) (sblk s)) s) (\<lambda>(bp, s).
     let d = dinode_store (icache s ip) (dip_off (inum (icache s ip))) (bdata (bufs s bp))
     in kbind (log_write bp (set_data bp d s)) (brelse bp))"

section \<open>The blocks of a file\<close>

definition bmap :: "nat \<Rightarrow> uint64 \<Rightarrow> 'a fsst_scheme \<Rightarrow> (uint64 \<times> 'a fsst_scheme) kres" where
  "bmap ip bn s =
     (if unat bn < NDIRECT then
        (let addr = iaddrs (icache s ip) (unat bn)
         in if addr = 0 then
              kbind (fs_alloc (idev (icache s ip)) s) (\<lambda>(a, s).
              let addr = word_of_int a
              in Inr (ucast addr, set_ino ip (\<lambda>x. x\<lparr>iaddrs := (iaddrs x)(unat bn := addr)\<rparr>) s))
            else Inr (ucast addr, s))
      else
        let bn = unat bn - NDIRECT
        in if bn < NINDIRECT then
             (let addr = iaddrs (icache s ip) NDIRECT
              in kbind (if addr = 0 then
                     kbind (fs_alloc (idev (icache s ip)) s) (\<lambda>(a, s).
                     let addr = word_of_int a
                     in Inr (addr, set_ino ip (\<lambda>x. x\<lparr>iaddrs := (iaddrs x)(NDIRECT := addr)\<rparr>) s))
                   else Inr (addr, s)) (\<lambda>(addr, s).
                 kbind (bread (idev (icache s ip)) (ucast addr) s) (\<lambda>(bp, s).
                 let addr = (le_load 4 (bdata (bufs s bp)) (4 * bn) :: uint32)
                 in kbind (if addr = 0 then
                        kbind (fs_alloc (idev (icache s ip)) s) (\<lambda>(a, s).
                        let addr = word_of_int a :: uint32
                        in kbind (log_write bp (set_data bp (le_store 4 (bdata (bufs s bp)) (4 * bn) addr) s))
                             (\<lambda>s. Inr (addr, s)))
                      else Inr (addr, s)) (\<lambda>(addr, s).
                    kbind (brelse bp s) (\<lambda>s. Inr (ucast addr, s))))))
           else Inl (Panic ''bmap: out of range''))"

definition itrunc :: "nat \<Rightarrow> 'a fsst_scheme \<Rightarrow> 'a fsst_scheme kres" where
  "itrunc ip s =
     kbind (kfold (\<lambda>i s.
         if iaddrs (icache s ip) i \<noteq> 0 then
           kbind (fs_free (to_int (idev (icache s ip))) (ucast (iaddrs (icache s ip) i)) s) (\<lambda>s.
           Inr (set_ino ip (\<lambda>x. x\<lparr>iaddrs := (iaddrs x)(i := 0)\<rparr>) s))
         else Inr s) [0..<NDIRECT] s) (\<lambda>s.
     kbind (if iaddrs (icache s ip) NDIRECT \<noteq> 0 then
         kbind (bread (idev (icache s ip)) (ucast (iaddrs (icache s ip) NDIRECT)) s) (\<lambda>(bp, s).
         kbind (kfold (\<lambda>j s.
             let a = (le_load 4 (bdata (bufs s bp)) (4 * j) :: uint32)
             in if a \<noteq> 0 then fs_free (to_int (idev (icache s ip))) (ucast a) s else Inr s) [0..<NINDIRECT] s) (\<lambda>s.
         kbind (brelse bp s) (\<lambda>s.
         kbind (fs_free (to_int (idev (icache s ip))) (ucast (iaddrs (icache s ip) NDIRECT)) s) (\<lambda>s.
         Inr (set_ino ip (\<lambda>x. x\<lparr>iaddrs := (iaddrs x)(NDIRECT := 0)\<rparr>) s)))))
       else Inr s) (\<lambda>s.
     iupdate ip (set_ino ip (\<lambda>x. x\<lparr>isize := 0\<rparr>) s)))"

definition iput :: "nat \<Rightarrow> 'a fsst_scheme \<Rightarrow> 'a fsst_scheme kres" where
  "iput ip s =
     (if inum (icache s ip) = ROOTINO \<and> iref (icache s ip) = 1
      then Inr (set_ino ip (\<lambda>x. x\<lparr>iref := iref x - 1\<rparr>) s)
      else kbind (if iref (icache s ip) = 1 \<and> ivalid (icache s ip) \<and> inlink (icache s ip) = 0 then
          kbind (itrunc ip s) (\<lambda>s.
          kbind (iupdate ip (set_ino ip (\<lambda>x. x\<lparr>itype := 0\<rparr>) s)) (\<lambda>s.
          Inr (set_ino ip (\<lambda>x. x\<lparr>ivalid := False\<rparr>) s)))
        else Inr s) (\<lambda>s.
      Inr (set_ino ip (\<lambda>x. x\<lparr>iref := iref x - 1\<rparr>) s)))"

definition iunlockput :: "nat \<Rightarrow> 'a fsst_scheme \<Rightarrow> 'a fsst_scheme kres" where
  "iunlockput ip s = kbind (iunlock ip s) (iput ip)"

text \<open>A copy out of a buffer gets the buffer, the destination address, the offset and the number of
  bytes, the contents of the buffer and the memory that receives them; it tells whether it succeeded.\<close>

type_synonym 'x copy_out = "nat \<Rightarrow> uint64 \<Rightarrow> nat \<Rightarrow> uint64 \<Rightarrow> block \<Rightarrow> 'x \<Rightarrow> (bool \<times> 'x) kres"
type_synonym 'x copy_in = "nat \<Rightarrow> uint64 \<Rightarrow> nat \<Rightarrow> uint64 \<Rightarrow> block \<Rightarrow> 'x \<Rightarrow> (bool \<times> block \<times> 'x) kres"

text \<open>The branch for a kernel variable: a \<^verbatim>\<open>memmove\<close> that addresses the variable from 0.\<close>

definition kcopy_out :: "bytes copy_out" where
  "kcopy_out bp dst off m d x = Inr (True, copy_bytes x (unat dst) d off (unat m))"

definition kcopy_in :: "bytes copy_in" where
  "kcopy_in bp src off m d x = Inr (True, copy_bytes d off x (unat src) (unat m), x)"

text \<open>The loop of \<^verbatim>\<open>readi\<close>; each iteration but the first and the last moves a whole block.\<close>

fun readi_loop :: "nat \<Rightarrow> nat \<Rightarrow> 'x copy_out \<Rightarrow> uint64 \<Rightarrow> uint64 \<Rightarrow> uint64 \<Rightarrow> uint64 \<Rightarrow> 'a fsst_scheme \<Rightarrow> 'x \<Rightarrow>
    (int \<times> 'a fsst_scheme \<times> 'x) kres" where
  "readi_loop 0 ip copy dst off n tot s x = Inl (Spin ''readi'')"
| "readi_loop (Suc fuel) ip copy dst off n tot s x =
     (if \<not> tot < n then Inr (to_int n, s, x)
      else kbind (bmap ip (off div of_nat BSIZE) s) (\<lambda>(a, s).
        kbind (bread (idev (icache s ip)) a s) (\<lambda>(bp, s).
        let m = of_nat BSIZE - off mod of_nat BSIZE; m = (if n - tot < m then n - tot else m)
        in kbind (copy bp dst (unat (off mod of_nat BSIZE)) m (bdata (bufs s bp)) x) (\<lambda>(ok, x).
           kbind (brelse bp s) (\<lambda>s.
           if \<not> ok then Inr (-1, s, x)
           else readi_loop fuel ip copy (dst + m) (off + m) n (tot + m) s x)))))"

definition readi :: "nat \<Rightarrow> 'x copy_out \<Rightarrow> uint64 \<Rightarrow> uint64 \<Rightarrow> uint64 \<Rightarrow> 'a fsst_scheme \<Rightarrow> 'x \<Rightarrow>
    (int \<times> 'a fsst_scheme \<times> 'x) kres" where
  "readi ip copy dst off n s x =
     (let sz = ucast (isize (icache s ip))
      in if off > sz \<or> off + n < off then Inr (0, s, x)
         else let n = (if off + n > sz then sz - off else n)
              in readi_loop (unat n div BSIZE + 3) ip copy dst off n 0 s x)"

text \<open>The loop of \<^verbatim>\<open>writei\<close> returns whether all bytes were copied, and the offset reached.\<close>

fun writei_loop :: "nat \<Rightarrow> nat \<Rightarrow> 'x copy_in \<Rightarrow> uint64 \<Rightarrow> uint64 \<Rightarrow> uint64 \<Rightarrow> uint64 \<Rightarrow> 'a fsst_scheme \<Rightarrow> 'x \<Rightarrow>
    (bool \<times> uint64 \<times> 'a fsst_scheme \<times> 'x) kres" where
  "writei_loop 0 ip copy src off n tot s x = Inl (Spin ''writei'')"
| "writei_loop (Suc fuel) ip copy src off n tot s x =
     (if \<not> tot < n then Inr (True, off, s, x)
      else kbind (bmap ip (off div of_nat BSIZE) s) (\<lambda>(a, s).
        kbind (bread (idev (icache s ip)) a s) (\<lambda>(bp, s).
        let m = of_nat BSIZE - off mod of_nat BSIZE; m = (if n - tot < m then n - tot else m)
        in kbind (copy bp src (unat (off mod of_nat BSIZE)) m (bdata (bufs s bp)) x) (\<lambda>(ok, d, x).
           let s = set_data bp d s
           in if \<not> ok then kbind (brelse bp s) (\<lambda>s. Inr (False, off, s, x))
              else kbind (log_write bp s) (\<lambda>s.
                   kbind (brelse bp s) (\<lambda>s.
                   writei_loop fuel ip copy (src + m) (off + m) n (tot + m) s x))))))"

definition writei :: "nat \<Rightarrow> 'x copy_in \<Rightarrow> uint64 \<Rightarrow> uint64 \<Rightarrow> uint64 \<Rightarrow> 'a fsst_scheme \<Rightarrow> 'x \<Rightarrow>
    (int \<times> 'a fsst_scheme \<times> 'x) kres" where
  "writei ip copy src off n s x =
     (let sz = ucast (isize (icache s ip))
      in if off > sz \<or> off + n < off then Inr (-1, s, x)
         else if off + n > of_nat (MAXFILE * BSIZE) then Inr (-1, s, x)
         else kbind (writei_loop (unat n div BSIZE + 3) ip copy src off n 0 s x) (\<lambda>(ok, off, s, x).
           if \<not> ok then Inr (-1, s, x)
           else let s = (if off > ucast (isize (icache s ip)) then set_ino ip (\<lambda>i. i\<lparr>isize := ucast off\<rparr>) s else s)
                in kbind (iupdate ip s) (\<lambda>s. Inr (to_int n, s, x))))"

section \<open>Directories\<close>

definition de_inum :: "bytes \<Rightarrow> uint64" where
  "de_inum de = le_load 8 de 0"

definition de_name :: "bytes \<Rightarrow> bytes" where
  "de_name de = (\<lambda>i. de (8 + i))"

text \<open>\<^verbatim>\<open>strncpy(de.name, name, DIRSIZ); de.inum = inum;\<close>\<close>

definition de_fill :: "bytes \<Rightarrow> bytes \<Rightarrow> uint64 \<Rightarrow> bytes" where
  "de_fill de name n =
     le_store 8 (copy_bytes de 8 (strncpy (de_name de) name (int DIRSIZ)) 0 DIRSIZ) 0 n"

text \<open>The kernel's \<^verbatim>\<open>readi\<close> and \<^verbatim>\<open>writei\<close> of one directory entry. The entry read starts as
  whatever the stack holds; the model starts it as zero. Only the two padding bytes that \<^verbatim>\<open>dirlink\<close>
  writes into an empty directory keep that value.\<close>

definition read_dirent :: "nat \<Rightarrow> uint64 \<Rightarrow> string \<Rightarrow> bytes \<Rightarrow> 'a fsst_scheme \<Rightarrow> (bytes \<times> 'a fsst_scheme) kres" where
  "read_dirent dp off msg de s =
     kbind (readi dp kcopy_out 0 off (of_nat SIZEOF_DIRENT) s de) (\<lambda>(r, s, de).
     kguard (r = int SIZEOF_DIRENT) (Panic msg) (Inr (de, s)))"

fun dirlookup_loop :: "nat \<Rightarrow> nat \<Rightarrow> bytes \<Rightarrow> uint64 \<Rightarrow> bytes \<Rightarrow> 'a fsst_scheme \<Rightarrow>
    (nat option \<times> uint64 \<times> 'a fsst_scheme) kres" where
  "dirlookup_loop 0 dp name off de s = Inl (Spin ''dirlookup'')"
| "dirlookup_loop (Suc fuel) dp name off de s =
     (if \<not> off < ucast (isize (icache s dp)) then Inr (None, 0, s)
      else kbind (read_dirent dp off ''dirlookup: read'' de s) (\<lambda>(de, s).
        if de_inum de = 0 then dirlookup_loop fuel dp name (off + of_nat SIZEOF_DIRENT) de s
        else if strncmp name (de_name de) (of_nat DIRSIZ) = 0
        then kbind (iget (idev (icache s dp)) (de_inum de) s) (\<lambda>(ip, s). Inr (Some ip, off, s))
        else dirlookup_loop fuel dp name (off + of_nat SIZEOF_DIRENT) de s))"

definition dirlookup :: "nat \<Rightarrow> bytes \<Rightarrow> 'a fsst_scheme \<Rightarrow> (nat option \<times> uint64 \<times> 'a fsst_scheme) kres" where
  "dirlookup dp name s =
     kguard (itype (icache s dp) = T_DIR) (Panic ''dirlookup: not DIR'')
      (dirlookup_loop (unat (isize (icache s dp)) div SIZEOF_DIRENT + 2) dp name 0 (\<lambda>_. 0) s)"

fun dirlink_loop :: "nat \<Rightarrow> nat \<Rightarrow> uint64 \<Rightarrow> bytes \<Rightarrow> 'a fsst_scheme \<Rightarrow> (uint64 \<times> bytes \<times> 'a fsst_scheme) kres" where
  "dirlink_loop 0 dp off de s = Inl (Spin ''dirlink'')"
| "dirlink_loop (Suc fuel) dp off de s =
     (if \<not> off < ucast (isize (icache s dp)) then Inr (off, de, s)
      else kbind (read_dirent dp off ''dirlink: read'' de s) (\<lambda>(de, s).
        if de_inum de = 0 then Inr (off, de, s)
        else dirlink_loop fuel dp (off + of_nat SIZEOF_DIRENT) de s))"

definition dirlink :: "nat \<Rightarrow> bytes \<Rightarrow> uint64 \<Rightarrow> 'a fsst_scheme \<Rightarrow> (int \<times> 'a fsst_scheme) kres" where
  "dirlink dp name n s =
     kbind (dirlookup dp name s) (\<lambda>(r, _, s).
       case r of
         Some ip \<Rightarrow> kbind (iput ip s) (\<lambda>s. Inr (-1, s))
       | None \<Rightarrow>
           kbind (dirlink_loop (unat (isize (icache s dp)) div SIZEOF_DIRENT + 2) dp 0 (\<lambda>_. 0) s) (\<lambda>(off, de, s).
           let de = de_fill de name n
           in kbind (writei dp kcopy_in 0 off (of_nat SIZEOF_DIRENT) s de) (\<lambda>(r, s, _).
              kguard (r = int SIZEOF_DIRENT) (Panic ''dirlink: write'') (Inr (0, s)))))"

section \<open>Path names\<close>

definition SLASH :: uint8 where [layout]: "SLASH = 47"

text \<open>Path buffers of the system calls have 128 bytes and end in a NUL: the scans stop within
  that many steps.\<close>

definition MAXPATH :: nat where [layout]: "MAXPATH = 128"

fun skip_slash :: "nat \<Rightarrow> bytes \<Rightarrow> nat \<Rightarrow> nat kres" where
  "skip_slash 0 path p = Inl (Undef ''skipelem'')"
| "skip_slash (Suc k) path p = (if path p = SLASH then skip_slash k path (Suc p) else Inr p)"

fun skip_name :: "nat \<Rightarrow> bytes \<Rightarrow> nat \<Rightarrow> nat kres" where
  "skip_name 0 path p = Inl (Undef ''skipelem'')"
| "skip_name (Suc k) path p =
     (if path p \<noteq> SLASH \<and> path p \<noteq> 0 then skip_name k path (Suc p) else Inr p)"

text \<open>\<^verbatim>\<open>skipelem\<close> on the rest of the path at index \<open>p\<close>: the index after the element (\<open>None\<close> for
  \<^verbatim>\<open>NULL\<close>) and the name.\<close>

definition skipelem :: "bytes \<Rightarrow> nat \<Rightarrow> bytes \<Rightarrow> (nat option \<times> bytes) kres" where
  "skipelem path p name =
     kbind (skip_slash MAXPATH path p) (\<lambda>s0.
     if path s0 = 0 then Inr (None, name)
     else kbind (skip_name MAXPATH path s0) (\<lambda>p.
       let len = p - s0; len = (if len \<ge> DIRSIZ then DIRSIZ - 1 else len);
           name = (copy_bytes name 0 path s0 len)(len := 0)
       in kbind (skip_slash MAXPATH path p) (\<lambda>p. Inr (Some p, name))))"

fun namex_loop :: "nat \<Rightarrow> bytes \<Rightarrow> nat \<Rightarrow> bool \<Rightarrow> bytes \<Rightarrow> nat \<Rightarrow> 'a fsst_scheme \<Rightarrow>
    (nat option \<times> bytes \<times> 'a fsst_scheme) kres" where
  "namex_loop 0 path p nameiparent name ip s = Inl (Spin ''namex'')"
| "namex_loop (Suc fuel) path p nameiparent name ip s =
     kbind (skipelem path p name) (\<lambda>(r, name).
       case r of
         None \<Rightarrow>
           if nameiparent then kbind (iput ip s) (\<lambda>s. Inr (None, name, s)) else Inr (Some ip, name, s)
       | Some p \<Rightarrow>
           kbind (ilock ip s) (\<lambda>s.
           if itype (icache s ip) \<noteq> T_DIR then kbind (iunlockput ip s) (\<lambda>s. Inr (None, name, s))
           else if nameiparent \<and> path p = 0 then kbind (iunlock ip s) (\<lambda>s. Inr (Some ip, name, s))
           else kbind (dirlookup ip name s) (\<lambda>(next, _, s).
             case next of
               None \<Rightarrow> kbind (iunlockput ip s) (\<lambda>s. Inr (None, name, s))
             | Some next \<Rightarrow> kbind (iunlockput ip s) (namex_loop fuel path p nameiparent name next))))"

definition namex :: "bytes \<Rightarrow> bool \<Rightarrow> bytes \<Rightarrow> 'a fsst_scheme \<Rightarrow> (nat option \<times> bytes \<times> 'a fsst_scheme) kres" where
  "namex path nameiparent name s =
     kbind (iget ROOTDEV ROOTINO s) (\<lambda>(ip, s).
     let s = (if path 0 = SLASH then s else idup ip s)
     in namex_loop MAXPATH path 0 nameiparent name ip s)"

definition namei :: "bytes \<Rightarrow> 'a fsst_scheme \<Rightarrow> (nat option \<times> 'a fsst_scheme) kres" where
  "namei path s = kbind (namex path False (\<lambda>_. 0) s) (\<lambda>(ip, _, s). Inr (ip, s))"

definition nameiparent :: "bytes \<Rightarrow> bytes \<Rightarrow> 'a fsst_scheme \<Rightarrow> (nat option \<times> bytes \<times> 'a fsst_scheme) kres" where
  "nameiparent path name s = namex path True name s"

text \<open>\<^verbatim>\<open>struct stat\<close> with the padding that the compiler inserts, as the bytes that reach the user.\<close>

definition stati :: "nat \<Rightarrow> bytes \<Rightarrow> 'a fsst_scheme \<Rightarrow> bytes" where
  "stati ip st s =
     (let x = icache s ip;
          st = le_store 4 st 0 (word_of_int (to_int (idev x)) :: uint32);
          st = le_store 8 st 8 (inum x); st = le_store 2 st 16 (itype x); st = le_store 2 st 18 (inlink x)
      in le_store 8 st 24 (ucast (isize x) :: uint64))"

section \<open>Mounting and formatting\<close>

definition chars :: "string \<Rightarrow> bytes" where
  "chars cs = (\<lambda>i. if i < length cs then of_char (cs ! i) else 0)"

definition new_sb :: superblock where
  "new_sb =
     (let inodestart = 2 + 30
      in \<lparr>sb_magic = FSMAGIC, sb_size = of_nat FSSIZE, sb_nblocks = of_nat FSSIZE - 100, sb_ninodes = 200,
          sb_nlog = 30, sb_logstart = 2, sb_inodestart = inodestart,
          sb_bmapstart = inodestart + 200 div of_nat IPB + 1\<rparr>)"

definition fs_init :: "int \<Rightarrow> 'a fsst_scheme \<Rightarrow> 'a fsst_scheme kres" where
  "fs_init dev s =
     (let s = bio_init s; dev64 = word_of_int dev :: uint64
      in kbind (bread dev64 1 s) (\<lambda>(bp, s).
         let s = s\<lparr>sblk := sb_load (bdata (bufs s bp))\<rparr>
         in kbind (brelse bp s) (\<lambda>s.
         if sb_magic (sblk s) \<noteq> FSMAGIC then
           let s = s\<lparr>sblk := new_sb\<rparr>
           in kbind (bread dev64 1 s) (\<lambda>(bp, s).
              kbind (bwrite bp (set_data bp (sb_store (sblk s) (bdata (bufs s bp))) s)) (\<lambda>s.
              kbind (brelse bp s) (\<lambda>s.
              kbind (log_init dev (sblk s) s) (\<lambda>s.
              kbind (begin_op s) (\<lambda>s.
              kbind (bread dev64 (sb_bmapstart (sblk s)) s) (\<lambda>(bp, s).
              let d = fold (\<lambda>b. bm_set (b mod BPB)) [0..<Suc (unat (sb_bmapstart (sblk s)))] (bdata (bufs s bp))
              in kbind (log_write bp (set_data bp d s)) (\<lambda>s.
              kbind (brelse bp s) (\<lambda>s.
              kbind (end_op s) (\<lambda>s.
              kbind (begin_op s) (\<lambda>s.
              kbind (ialloc dev64 T_DIR s) (\<lambda>(root, s).
              kguard (inum (icache s root) = ROOTINO) (Panic ''fs_init: root inode != ROOTINO'')
              (kbind (ilock root s) (\<lambda>s.
              kbind (iupdate root (set_ino root (\<lambda>x. x\<lparr>inlink := 2, isize := 0\<rparr>) s)) (\<lambda>s.
              kbind (dirlink root (chars ''.'') ROOTINO s) (\<lambda>(_, s).
              kbind (dirlink root (chars ''..'') ROOTINO s) (\<lambda>(_, s).
              kbind (iunlockput root s) end_op))))))))))))))))
         else log_init dev (sblk s) s)))"

end
