(* ===== verification/Fsblk.thy ===== *)
theory Fsblk
  imports Fs
begin

text \<open>
  How the file system of \<^verbatim>\<open>kernel/fs/fs.c\<close> uses the cache and the log. Reading a block and releasing it
  changes only the order of the cache (\<open>csim\<close>); updating one inside a transaction is the \<open>tx_write\<close> of the
  log. On top of that: the encoding of inodes, the bitmap of blocks, the inode cache.
\<close>

section \<open>Operations on blocks and the inode cache\<close>

lemma set_ino_simps [simp]:
  "bufs (set_ino i f s) = bufs s" "dsk (set_ino i f s) = dsk s" "dwrites (set_ino i f s) = dwrites s"
  "lg (set_ino i f s) = lg s" "sblk (set_ino i f s) = sblk s" "fsst.more (set_ino i f s) = fsst.more s"
  "icache (set_ino i f s) = (icache s)(i := f (icache s i))"
  by (simp_all add: set_ino_def)

lemma bread_more: "bread d bn s = Inr (b, t) \<Longrightarrow> bio.more t = bio.more s"
  unfolding bread_def bget_def disk_rw_def kguard_def
  by (auto simp: Let_def elim!: kbind_InrE split: if_splits option.splits)

lemma brelse_set_ino: "brelse b (set_ino i f s) = kbind (brelse b s) (\<lambda>s. Inr (set_ino i f s))"
  by (simp add: brelse_def kguard_def Let_def upd_buf_def set_ino_def)

lemma more_fs:
  "bio.more s = bio.more t \<Longrightarrow> lg s = lg t \<and> sblk s = sblk t \<and> icache s = icache t \<and> fsst.more s = fsst.more t"
  by (cases s, cases t) simp

text \<open>Two states that differ only in where the cache holds which block.\<close>

definition csim :: "uint64 \<Rightarrow> 'a bio_scheme \<Rightarrow> 'a bio_scheme \<Rightarrow> bool" where
  "csim d s t \<longleftrightarrow> bcache_inv d t \<and> bview d t = bview d s \<and> bio.more t = bio.more s"

lemma csim_refl: "bcache_inv d s \<Longrightarrow> csim d s s"
  by (simp add: csim_def)

lemma csim_trans: "csim d s t \<Longrightarrow> csim d t u \<Longrightarrow> csim d s u"
  by (simp add: csim_def)

lemma csim_facts:
  assumes "csim d s t"
  shows "blk d t = blk d s" "refs d t = refs d s" "dsk t = dsk s" "dwrites t = dwrites s" "bview d t = bview d s" "bcache_inv d t"
  using assms unfolding csim_def bview_def by simp_all

lemma csim_more:
  fixes s :: "'a fsst_scheme"
  assumes "csim d s t"
  shows "lg t = lg s" "sblk t = sblk s" "icache t = icache s" "fsst.more t = fsst.more s"
  using more_fs assms unfolding csim_def by blast+

lemma view_set_ino [simp]:
  "bview d (set_ino i f s) = bview d s" "bcache_inv d (set_ino i f s) = bcache_inv d s"
  "blk d (set_ino i f s) = blk d s" "refs d (set_ino i f s) = refs d s"
  unfolding bcache_inv_def bview_def blk_def refs_def cached_def set_ino_simps by simp_all

lemma more_set_ino: "bio.more s = bio.more t \<Longrightarrow> bio.more (set_ino i f s) = bio.more (set_ino i f t)"
  by (cases s, cases t) (simp add: set_ino_def)

lemma csim_set_ino: "csim d s t \<Longrightarrow> csim d (set_ino i f s) (set_ino i f t)"
  unfolding csim_def view_set_ino using more_set_ino by blast

lemma csim_log_inv:
  assumes "csim d s t" and "log_inv d s"
  shows "log_inv d t"
proof -
  have l: "lg t = lg s" using assms(1) by (intro lg_more) (simp add: csim_def)
  show ?thesis using assms(2) csim_facts(6) [OF assms(1)] unfolding log_inv_def l csim_facts(1-3) [OF assms(1)] by simp
qed

lemma csim_in_tx:
  assumes "csim d s t" and "in_tx d s"
  shows "in_tx d t"
proof -
  have l: "lg t = lg s" using assms(1) by (intro lg_more) (simp add: csim_def)
  show ?thesis using assms(2) csim_log_inv [OF assms(1)] unfolding in_tx_def l csim_facts(1-3) [OF assms(1)] by blast
qed

text \<open>Reading a block.\<close>

lemma read_block:
  assumes "bcache_inv d s" and "readable bn (bview d s)"
  shows "\<exists>b s1 s2. bread d bn s = Inr (b, s1) \<and> bdata (bufs s1 b) = blk d s bn \<and> brelse b s1 = Inr s2 \<and>
    csim d s s2 \<and> bio.more s1 = bio.more s"
  using bcache.read_release [OF assms] by (auto simp: csim_def)


section \<open>Updates inside a transaction\<close>

text \<open>Inside a transaction that may log \<open>k\<close> more blocks.\<close>

definition ftx :: "uint64 \<Rightarrow> nat \<Rightarrow> 'a lst_scheme \<Rightarrow> bool" where
  "ftx d k s \<longleftrightarrow> in_tx d s \<and> lh_n (lg s) + int k \<le> lsize (lg s) - 1 \<and> lsize (lg s) \<le> int LOGSIZE"

definition home_block :: "'a lst_scheme \<Rightarrow> uint64 \<Rightarrow> bool" where
  "home_block s bn \<longleftrightarrow> unat bn < FSSIZE \<and> \<not> in_log (lg s) bn"

lemma ftx_less: "ftx d k s \<Longrightarrow> j \<le> k \<Longrightarrow> ftx d j s"
  by (auto simp: ftx_def)

lemma ftx_csim: "csim d s t \<Longrightarrow> ftx d k s \<Longrightarrow> ftx d k t"
  using lg_more [of t s] csim_in_tx by (auto simp: ftx_def csim_def)

lemma ftx_readable:
  assumes "ftx d k s" and "unat bn < FSSIZE"
  shows "bcache_inv d s" "readable bn (bview d s)"
proof -
  have tx: "in_tx d s" "lh_n (lg s) + 1 \<le> int NBUF" using assms(1) by (auto simp: ftx_def layout)
  show "bcache_inv d s" using tx(1) by (simp add: in_tx_def log_inv_def)
  show "readable bn (bview d s)" using in_tx_room [OF tx] tx(1) assms(2) by (simp add: readable_def in_tx_def)
qed

lemma ftx_write:
  fixes s :: "'a fsst_scheme"
  assumes "ftx d (Suc k) s" and "home_block s bn"
  shows "\<exists>t. tx_write d bn g s = Inr t \<and> ftx d k t \<and> blk d t = (blk d s)(bn := g (blk d s bn)) \<and> dsk t = dsk s \<and>
    dwrites t = dwrites s \<and> sblk t = sblk s \<and> icache t = icache s \<and> fsst.more t = fsst.more s \<and> in_log (lg t) = in_log (lg s)"
proof -
  have tx: "in_tx d s" and p: "pend_ok (lg s)" using assms(1) by (auto simp: ftx_def in_tx_def log_inv_def)
  have bn: "unat bn < FSSIZE" "\<not> in_log (lg s) bn" using assms(2) by (auto simp: home_block_def)
  have n: "lh_n (lg s) < int LOGSIZE" "lh_n (lg s) < lsize (lg s) - 1" using assms(1) by (auto simp: ftx_def)
  have r: "refs d s bn \<le> 1" using tx by (simp add: in_tx_def)
  obtain t where t: "tx_write d bn g s = Inr t" "log_inv d t" "lg t = logged bn (lg s)"
    "bview d t = (let v = a_set bn (g (blk d s bn)) (bview d s) in if bn \<in> set (pending (lg s)) then v else a_ref bn v)"
    "lst.more t = lst.more s"
    using tx_write_ok [of d s bn g] tx bn n r ftx_readable [OF assms(1) bn(1)] by (auto simp: in_tx_def)
  have "refs d t x = of_bool (x \<in> set (pending (lg t)))" for x
    using arg_cong [OF t(4), of "\<lambda>v. vref v x"] tx pending_logged [OF p bn(1)] t(3)
    by (auto simp: Let_def a_set_def a_ref_def in_tx_def)
  then have "in_tx d t" using t(2,3) tx by (simp add: in_tx_def)
  moreover have "blk d t = (blk d s)(bn := g (blk d s bn))" "dsk t = dsk s" "dwrites t = dwrites s"
    using arg_cong [OF t(4), of vblk] arg_cong [OF t(4), of vdsk] arg_cong [OF t(4), of vhist]
    by (auto simp: Let_def a_set_def a_ref_def)
  moreover have "sblk t = sblk s" "icache t = icache s" "fsst.more t = fsst.more s"
    using t(5) by (cases s, cases t, simp)+
  ultimately show ?thesis using t(1,3) assms(1) lh_n_logged [of bn "lg s"] by (auto simp: ftx_def)
qed

lemma iupdate_tx:
  "iupdate ip s = tx_write (idev (icache s ip)) (IBLOCK (inum (icache s ip)) (sblk s))
     (dinode_store (icache s ip) (dip_off (inum (icache s ip)))) s"
proof (cases "bread (idev (icache s ip)) (IBLOCK (inum (icache s ip)) (sblk s)) s")
  case (Inr r)
  obtain b t where r: "r = (b, t)" by (cases r)
  have "icache t = icache s" using more_fs [OF bread_more [OF Inr [unfolded r]]] by simp
  then show ?thesis using Inr r by (simp add: iupdate_def tx_write_def Let_def)
qed (simp add: iupdate_def tx_write_def)


section \<open>Inodes on disk\<close>

lemma fold_store:
  fixes v :: "nat \<Rightarrow> uint32" and d :: block and b :: nat
  defines "e n \<equiv> fold (\<lambda>j d. le_store 4 d (b + 4 * j) (v j)) [0..<n] d"
  shows "i < n \<Longrightarrow> (le_load 4 (e n) (b + 4 * i) :: uint32) = v i"
    and "k + m \<le> b \<Longrightarrow> le_load m (e n) k = le_load m d k"
    and "x < b \<or> b + 4 * n \<le> x \<Longrightarrow> e n x = d x"
proof -
  show "i < n \<Longrightarrow> (le_load 4 (e n) (b + 4 * i) :: uint32) = v i"
  proof (induction n)
    case (Suc n)
    then show ?case by (cases "i = n") (simp_all add: e_def le_load_store_at le_load_store_other)
  qed simp
  show "k + m \<le> b \<Longrightarrow> le_load m (e n) k = le_load m d k"
    by (induction n) (simp_all add: e_def le_load_store_other)
  show "x < b \<or> b + 4 * n \<le> x \<Longrightarrow> e n x = d x"
    by (induction n) (auto simp: e_def le_store_apply)
qed

lemma le_load_store_2: "(le_load 2 (le_store 2 d k v) k :: uint16) = v"
  by (rule le_load_store_same) simp

lemma dinode_load_store:
  "dinode_load (dinode_store ip k d) k x = x\<lparr>itype := itype ip, imajor := imajor ip, iminor := iminor ip, inlink := inlink ip,
     isize := isize ip, iaddrs := (\<lambda>j. if j \<le> NDIRECT then iaddrs ip j else iaddrs x j)\<rparr>"
proof -
  have "(le_load 4 (dinode_store ip k d) (k + 12 + 4 * j) :: uint32) = iaddrs ip j" if "j \<le> NDIRECT" for j
    unfolding dinode_store_def Let_def using that by (intro fold_store(1)) simp
  then have a: "(\<lambda>j. if j \<le> NDIRECT then (le_load 4 (dinode_store ip k d) (k + 12 + 4 * j) :: uint32) else iaddrs x j) =
      (\<lambda>j. if j \<le> NDIRECT then iaddrs ip j else iaddrs x j)" by auto
  show ?thesis
    unfolding dinode_load_def a
    by (simp add: dinode_store_def Let_def fold_store(2) le_load_store_other le_load_store_2 le_load_store_at
        del: upt_Suc fold_append)
qed

lemma dinode_store_other: "x < k \<or> k + 64 \<le> x \<Longrightarrow> dinode_store ip k d x = d x"
  unfolding dinode_store_def Let_def by (subst fold_store(3)) (auto simp: le_store_apply layout)

lemma le_load_range:
  "(\<And>i. i < n \<Longrightarrow> d (k + i) = e (k + i)) \<Longrightarrow> j + m \<le> n \<Longrightarrow> le_load m d (k + j) = le_load m e (k + j)"
  by (rule le_load_cong) (simp add: add.assoc)

lemma dinode_load_cong:
  assumes "\<And>i. i < 64 \<Longrightarrow> d (k + i) = e (k + i)"
  shows "dinode_load d k x = dinode_load e k x"
proof -
  have a: "(le_load 4 d (k + 12 + 4 * j) :: uint32) = le_load 4 e (k + 12 + 4 * j)" if "j \<le> NDIRECT" for j
    using le_load_range [of 64 d k e "12 + 4 * j" 4] assms that by (simp add: layout add.assoc)
  have h: "(le_load 2 d (k + j) :: uint16) = le_load 2 e (k + j)" if "j \<le> 62" for j
    using le_load_range [of 64 d k e j 2] assms that by simp
  have z: "(le_load 4 d (k + 8) :: uint32) = le_load 4 e (k + 8)" using le_load_range [of 64 d k e 8 4] assms by simp
  have "(\<lambda>j. if j \<le> NDIRECT then (le_load 4 d (k + 12 + 4 * j) :: uint32) else iaddrs x j) =
      (\<lambda>j. if j \<le> NDIRECT then le_load 4 e (k + 12 + 4 * j) else iaddrs x j)" using a by auto
  then show ?thesis using h [of 0] h [of 2] h [of 4] h [of 6] z unfolding dinode_load_def by simp
qed

lemma dip_off_le: "dip_off n + 64 \<le> BSIZE"
proof -
  have "unat n mod IPB < IPB" by (rule mod_less_divisor) (simp add: layout)
  then show ?thesis by (simp add: dip_off_def layout)
qed

text \<open>Different inodes occupy different bytes.\<close>

lemma inodes_disjoint:
  assumes "IBLOCK m sb = IBLOCK n sb" and "m \<noteq> n"
  shows "dip_off m + 64 \<le> dip_off n \<or> dip_off n + 64 \<le> dip_off m"
proof -
  have "m div of_nat IPB = n div (of_nat IPB :: uint64)" using assms(1) by (simp add: IBLOCK_def)
  then have "unat m div IPB = unat n div IPB"
    using unat_div [of m "of_nat IPB"] unat_div [of n "of_nat IPB"] by (simp add: layout)
  moreover have "unat m \<noteq> unat n" using assms(2) by (simp add: unsigned_word_eqI word_unat_eq_iff)
  ultimately have "unat m mod IPB \<noteq> unat n mod IPB" by (metis mult_div_mod_eq)
  then show ?thesis unfolding dip_off_def by linarith
qed

lemma dinode_store_kept:
  assumes "m \<noteq> n"
  shows "dinode_load (((f :: uint64 \<Rightarrow> block)(IBLOCK n sb := dinode_store ip (dip_off n) (f (IBLOCK n sb)))) (IBLOCK m sb)) (dip_off m) x =
    dinode_load (f (IBLOCK m sb)) (dip_off m) x"
proof (cases "IBLOCK m sb = IBLOCK n sb")
  case True
  show ?thesis
    using inodes_disjoint [OF True assms] True by (intro dinode_load_cong) (auto intro!: dinode_store_other)
qed simp


lemma set_ino_twice: "set_ino i g (set_ino i f s) = set_ino i (\<lambda>x. g (f x)) s"
  by (simp add: set_ino_def)

definition loaded_ino :: "uint64 \<Rightarrow> 'a fsst_scheme \<Rightarrow> nat \<Rightarrow> inode \<Rightarrow> inode" where
  "loaded_ino d s ip x = (dinode_load (blk d s (IBLOCK (inum x) (sblk s))) (dip_off (inum x)) x)\<lparr>ivalid := True\<rparr>"

lemma ilock_load:
  fixes s :: "'a fsst_scheme"
  assumes inv: "bcache_inv d s" and rd: "readable (IBLOCK (inum (icache s ip)) (sblk s)) (bview d s)"
    and x: "idev (icache s ip) = d" "1 \<le> iref (icache s ip)" "\<not> ivalid (icache s ip)"
  shows "if itype (loaded_ino d s ip (icache s ip)) = 0 then ilock ip s = Inl (Panic ''ilock: no type'')
    else \<exists>t. ilock ip s = Inr t \<and> csim d (set_ino ip (loaded_ino d s ip) s) t"
proof -
  let ?B = "IBLOCK (inum (icache s ip)) (sblk s)" and ?x = "loaded_ino d s ip (icache s ip)"
  obtain b s1 s2 where b: "bread d ?B s = Inr (b, s1)" "bdata (bufs s1 b) = blk d s ?B" "brelse b s1 = Inr s2"
    "csim d s s2" "bio.more s1 = bio.more s" using read_block [OF inv rd] by blast
  have i: "icache s1 = icache s" "icache s2 = icache s" using more_fs [OF b(5)] csim_more [OF b(4)] by auto
  let ?f = "dinode_load (blk d s ?B) (dip_off (inum (icache s ip)))"
  let ?t = "set_ino ip (\<lambda>y. (?f y)\<lparr>ivalid := True\<rparr>) s2"
  have "ilock ip s = kguard (itype (icache ?t ip) \<noteq> 0) (Panic ''ilock: no type'') (Inr ?t)"
    using b x i by (simp add: ilock_def Let_def brelse_set_ino set_ino_twice)
  moreover have "icache ?t ip = ?x" using i(2) by (simp add: loaded_ino_def)
  moreover have "set_ino ip (loaded_ino d s ip) s = set_ino ip (\<lambda>y. (?f y)\<lparr>ivalid := True\<rparr>) s"
    by (simp add: set_ino_def loaded_ino_def)
  ultimately have l: "ilock ip s = (if itype ?x = 0 then Inl (Panic ''ilock: no type'') else Inr ?t)"
    and c: "csim d (set_ino ip (loaded_ino d s ip) s) ?t"
    using csim_set_ino [OF b(4), of ip "\<lambda>y. (?f y)\<lparr>ivalid := True\<rparr>"] by (simp_all only: kguard_def if_not_P if_P) simp_all
  then show ?thesis by auto
qed

text \<open>\<^bold>\<open>C23\<close>: an inode that \<^verbatim>\<open>iupdate\<close> has stored comes back unchanged. Inside a transaction with room for one
  more block, \<^verbatim>\<open>iupdate\<close> succeeds; after it, locking a cache entry that has been set up for the same inode loads
  exactly the type, device numbers, link count, size and block addresses that were stored, and every other
  inode of the device, in the same disk block or not, reads as before.\<close>

theorem inode_roundtrip:
  fixes s :: "'a fsst_scheme"
  assumes tx: "ftx d 1 s" and x: "x = icache s ip" "idev x = d" "itype x \<noteq> 0" and home: "home_block s (IBLOCK (inum x) (sblk s))"
  shows "\<exists>t u. iupdate ip s = Inr t \<and>
    ilock jp (set_ino jp (\<lambda>y. y\<lparr>idev := d, inum := inum x, iref := 1, ivalid := False\<rparr>) t) = Inr u \<and>
    icache u jp = (icache s jp)\<lparr>idev := d, inum := inum x, iref := 1, ivalid := True, itype := itype x, imajor := imajor x,
      iminor := iminor x, inlink := inlink x, isize := isize x, iaddrs := (\<lambda>j. if j \<le> NDIRECT then iaddrs x j else iaddrs (icache s jp) j)\<rparr> \<and>
    (\<forall>n y. n \<noteq> inum x \<longrightarrow>
      dinode_load (blk d u (IBLOCK n (sblk u))) (dip_off n) y = dinode_load (blk d s (IBLOCK n (sblk s))) (dip_off n) y)"
proof -
  let ?B = "IBLOCK (inum x) (sblk s)" and ?o = "dip_off (inum x)"
  obtain t where t: "iupdate ip s = Inr t" "ftx d 0 t" "blk d t = (blk d s)(?B := dinode_store x ?o (blk d s ?B))"
    "sblk t = sblk s" "icache t = icache s"
    using ftx_write [of d 0 s ?B "dinode_store x ?o"] tx home x(2) unfolding iupdate_tx x(1) [symmetric] by auto
  let ?e = "\<lambda>y. y\<lparr>idev := d, inum := inum x, iref := 1, ivalid := False\<rparr>"
  let ?t = "set_ino jp ?e t"
  have "unat ?B < FSSIZE" using home by (simp add: home_block_def)
  from ftx_readable [OF t(2) this] have r: "bcache_inv d ?t" "readable (IBLOCK (inum (icache ?t jp)) (sblk ?t)) (bview d ?t)"
    by (simp_all add: t(4))
  have l: "loaded_ino d ?t jp (icache ?t jp) = (icache s jp)\<lparr>idev := d, inum := inum x, iref := 1, ivalid := True, itype := itype x,
      imajor := imajor x, iminor := iminor x, inlink := inlink x, isize := isize x,
      iaddrs := (\<lambda>j. if j \<le> NDIRECT then iaddrs x j else iaddrs (icache s jp) j)\<rparr>"
    by (simp add: loaded_ino_def t dinode_load_store cong: if_cong)
  have "itype (loaded_ino d ?t jp (icache ?t jp)) \<noteq> 0" using x(3) unfolding l by simp
  then obtain u where u: "ilock jp ?t = Inr u" "csim d (set_ino jp (loaded_ino d ?t jp) ?t) u"
    using ilock_load [OF r] by auto
  have "icache u jp = loaded_ino d ?t jp (icache ?t jp)" "sblk u = sblk s" "blk d u = blk d t"
    using csim_more [OF u(2)] csim_facts [OF u(2)] t(4) by simp_all
  then show ?thesis using t(1,3) u(1) dinode_store_kept [of _ "inum x" "blk d s" "sblk s" x] unfolding l by auto
qed


text \<open>A file system in a transaction, with disk \<open>D\<close> and inode cache \<open>ic\<close>.\<close>

definition fs_state :: "(uint64 \<Rightarrow> block) \<Rightarrow> (nat \<Rightarrow> inode) \<Rightarrow> fsst" where
  "fs_state D ic = \<lparr>bufs = (\<lambda>_. zero_buf), dsk = D, dwrites = [], lg = lg boot_lst, sblk = boot_sb, icache = ic\<rparr>"

definition tx_state :: "(uint64 \<Rightarrow> block) \<Rightarrow> (nat \<Rightarrow> inode) \<Rightarrow> fsst" where
  "tx_state D ic = set_lg (\<lambda>l. l\<lparr>outstanding := 1\<rparr>) (bio_init (fs_state D ic))"

lemma tx_state_simps [simp]: "sblk (tx_state D ic) = boot_sb" "icache (tx_state D ic) = ic" "dsk (tx_state D ic) = D"
  by (simp_all add: tx_state_def set_lg_def bio_init_def fs_state_def)

lemma boot_in_log: "in_log (lg boot_lst) bn \<longleftrightarrow> 2 \<le> unat bn \<and> unat bn < 32"
proof -
  have "lblk (lg boot_lst) k = of_nat (2 + k)" for k by (simp add: lblk_def boot_lst_def)
  moreover have "bn = of_nat (2 + k) \<longleftrightarrow> unat bn = 2 + k" if "k < 30" for k
    using unat_of_nat_small [of "2 + k", where ?'a = 64] that unfolding word_unat_eq_iff [of bn] by simp
  ultimately have "in_log (lg boot_lst) bn \<longleftrightarrow> (\<exists>k < 30. unat bn = 2 + k)" by (auto simp: in_log_def boot_lst_def)
  then show ?thesis by presburger
qed

lemma tx_state_in_log: "in_log (lg (tx_state D ic)) = in_log (lg boot_lst)"
  by (simp add: tx_state_def set_lg_def bio_init_def fs_state_def)

lemma tx_state_ok:
  assumes "hdr_n (D 2) = 0"
  shows "ftx 1 29 (tx_state D ic)" "blk 1 (tx_state D ic) = D"
proof -
  have f: "fresh 1 (fs_state D ic)" by (simp add: fresh_def fs_state_def zero_buf_def)
  have l: "lg (bio_init (fs_state D ic)) = lg boot_lst" "dsk (fs_state D ic) = D" by (simp_all add: bio_init_def fs_state_def Let_def)
  have "lblk (lg boot_lst) 0 = 2" by (simp add: lblk_def boot_lst_def)
  then have q: "quiescent 1 (bio_init (fs_state D ic))"
    using bio_init_fresh [OF f] boot_lst_facts(1) assms l
    by (simp add: quiescent_def log_inv_def pend_ok_def pending_def layout)
      (simp add: boot_lst_def bio_init_def Let_def fs_state_def)
  show "ftx 1 29 (tx_state D ic)"
    using begin_op_quiescent(2) [OF q] by (simp add: ftx_def tx_state_def l boot_lst_def layout)
  show "blk 1 (tx_state D ic) = D" using bio_init_fresh [OF f] l by (simp add: tx_state_def)
qed

lemma zero_hdr: "hdr_n (\<lambda>_. 0) = 0"
  by (simp add: hdr_n_def numeral_eq_Suc)

definition ino0 :: inode where
  "ino0 = \<lparr>idev = 1, inum = 5, iref = 1, ivalid = True, itype = 2, imajor = 0, iminor = 0, inlink = 1, isize = 24,
     iaddrs = (\<lambda>j. if j = 0 then 50 else 0)\<rparr>"

theorem inode_roundtrip_witness:
  "\<exists>t u. iupdate 3 (tx_state (\<lambda>_ _. 0) (\<lambda>_. ino0)) = Inr t \<and>
    ilock 4 (set_ino 4 (\<lambda>y. y\<lparr>idev := 1, inum := 5, iref := 1, ivalid := False\<rparr>) t) = Inr u \<and> isize (icache u 4) = 24 \<and>
    iaddrs (icache u 4) 0 = 50"
proof -
  let ?s = "tx_state (\<lambda>_ _. 0) (\<lambda>_. ino0)"
  have "home_block ?s (IBLOCK (inum (icache ?s 3)) (sblk ?s))"
    by (simp add: home_block_def tx_state_in_log boot_in_log IBLOCK_def ino0_def boot_sb_def layout)
  moreover have "ftx 1 1 ?s" using ftx_less [OF tx_state_ok(1) [of "\<lambda>_ _. 0"]] zero_hdr by simp
  ultimately show ?thesis
    using inode_roundtrip [of 1 ?s ino0 3 4] by (auto simp: ino0_def)
qed


section \<open>The bitmap\<close>

lemma bm_used_bit: "bm_used d bi \<longleftrightarrow> bit (d (bi div 8)) (bi mod 8)"
  by (simp add: bm_used_def bitmask_def bit_iff_and_push_bit_not_eq_0)

lemma same_bit: "(i :: nat) = j \<longleftrightarrow> i div 8 = j div 8 \<and> i mod 8 = j mod 8"
  by (metis div_mult_mod_eq)

lemma bm_used_set: "bm_used (bm_set i d) j \<longleftrightarrow> j = i \<or> bm_used d j"
  by (auto simp: bm_used_bit bm_set_def bitmask_def bit_simps same_bit [of j i])

lemma bm_used_clear: "bm_used (bm_clear i d) j \<longleftrightarrow> j \<noteq> i \<and> bm_used d j"
  by (auto simp: bm_used_bit bm_clear_def bitmask_def bit_simps same_bit [of j i] dest: bit_imp_le_length)

lemma bm_clear_set:
  assumes "\<not> bm_used d i"
  shows "bm_clear i (bm_set i d) = d"
proof -
  have "(d (i div 8) OR push_bit (i mod 8) 1) AND NOT (push_bit (i mod 8) 1) = d (i div 8)"
    using assms by (intro bit_eqI) (auto simp: bm_used_bit bit_simps)
  then show ?thesis by (simp add: bm_clear_def bm_set_def bitmask_def)
qed

lemma alloc_scan_find:
  "alloc_scan k d 0 bi sz = find (\<lambda>j. \<not> bm_used d j) [bi..<min (bi + k) sz]"
proof (induction k arbitrary: bi)
  case (Suc k)
  have "[bi..<min (bi + Suc k) sz] = (if bi < sz then bi # [Suc bi..<min (Suc bi + k) sz] else [])"
    by (auto simp: upt_conv_Cons)
  then show ?case using Suc [of "Suc bi"] by simp
qed simp

text \<open>The first free block.\<close>

definition free_block :: "block \<Rightarrow> nat \<Rightarrow> nat option" where
  "free_block d sz = find (\<lambda>j. \<not> bm_used d j) [0..<sz]"

lemma free_block_Some: "free_block d sz = Some b \<longleftrightarrow> b < sz \<and> \<not> bm_used d b \<and> (\<forall>j < b. bm_used d j)"
  by (auto simp: free_block_def find_Some_iff)

lemma free_block_None: "free_block d sz = None \<longleftrightarrow> (\<forall>j < sz. bm_used d j)"
  by (auto simp: free_block_def find_None_iff)

text \<open>The bitmap is one block outside the log, and it marks itself and the log as used.\<close>

definition bitmap_ok :: "uint64 \<Rightarrow> 'a fsst_scheme \<Rightarrow> bool" where
  "bitmap_ok d s \<longleftrightarrow> unat (sb_size (sblk s)) \<le> FSSIZE \<and> home_block s (sb_bmapstart (sblk s)) \<and>
     (\<forall>b. in_log (lg s) b \<or> b = sb_bmapstart (sblk s) \<longrightarrow> bm_used (blk d s (sb_bmapstart (sblk s))) (unat b))"

lemma fs_alloc_tx:
  fixes s :: "'a fsst_scheme"
  assumes tx: "ftx d k s" and bm: "bitmap_ok d s"
  defines "M \<equiv> sb_bmapstart (sblk s)"
  shows "fs_alloc d s = (case free_block (blk d s M) (unat (sb_size (sblk s))) of
      None \<Rightarrow> Inl (Panic ''fs_alloc: out of blocks'')
    | Some b \<Rightarrow> kbind (tx_write d M (bm_set b) s) (\<lambda>s.
        kbind (tx_write d (of_nat b) (\<lambda>c i. if i < BSIZE then 0 else c i) s) (\<lambda>s. Inr (int b, s))))"
proof -
  have sz: "unat (sb_size (sblk s)) \<le> FSSIZE" and M: "unat M < FSSIZE"
    using bm by (auto simp: bitmap_ok_def home_block_def M_def)
  have B: "BBLOCK (of_nat 0) (sblk s) = M" by (simp add: BBLOCK_def M_def)
  obtain b s1 s2 where b: "bread d M s = Inr (b, s1)" "bdata (bufs s1 b) = blk d s M" "brelse b s1 = Inr s2" "csim d s s2"
    "bio.more s1 = bio.more s" using read_block [OF ftx_readable [OF tx M]] by blast
  have i: "sblk s1 = sblk s" "sblk s2 = sblk s" using more_fs [OF b(5)] csim_more [OF b(4)] by auto
  have f: "alloc_scan BPB (blk d s M) 0 0 (unat (sb_size (sblk s))) = free_block (blk d s M) (unat (sb_size (sblk s)))"
    using sz by (simp add: alloc_scan_find free_block_def layout min_absorb2)
  show ?thesis
  proof (cases "unat (sb_size (sblk s)) = 0")
    case True
    then show ?thesis by (simp add: fs_alloc_def free_block_def)
  next
    case False
    then have fu: "unat (sb_size (sblk s)) div BPB = 0" using sz by (simp add: layout)
    have l2: "fs_alloc_loop (Suc 0) d BPB s2 = Inl (Panic ''fs_alloc: out of blocks'')"
      using sz i by (simp add: layout)
    have "fs_alloc d s = (case free_block (blk d s M) (unat (sb_size (sblk s))) of
        Some bi \<Rightarrow>
             kbind (log_write b (set_data b (bm_set bi (bdata (bufs s1 b))) s1)) (\<lambda>s.
             kbind (brelse b s) (\<lambda>s.
             kbind (bread d (of_nat bi) s) (\<lambda>(zbp, s).
             kbind (log_write zbp (set_data zbp (\<lambda>i. if i < BSIZE then 0 else bdata (bufs s zbp) i) s)) (\<lambda>s.
             kbind (brelse zbp s) (\<lambda>s. Inr (int bi, s))))))
         | None \<Rightarrow> kbind (brelse b s1) (fs_alloc_loop (Suc 0) d BPB))"
      unfolding fs_alloc_def fu using False b i f B by (simp add: layout split: option.splits)
    then show ?thesis
      using b l2 by (simp add: tx_write_def kbind_assoc case_prod_unfold del: fs_alloc_loop.simps split: option.splits)
  qed
qed


lemma fs_free_tx:
  fixes s :: "'a fsst_scheme"
  assumes tx: "ftx d k s" and bm: "bitmap_ok d s" and dev: "word_of_int dev = d" and b: "unat b < FSSIZE"
  defines "M \<equiv> sb_bmapstart (sblk s)"
  shows "fs_free dev b s = kguard (bm_used (blk d s M) (unat b)) (Panic ''fs_free: block not in use'')
    (tx_write d M (bm_clear (unat b)) s)"
proof -
  have M: "unat M < FSSIZE" using bm by (auto simp: bitmap_ok_def home_block_def M_def)
  have "unat (b div of_nat BPB) = 0" using b by (simp add: unat_div layout)
  then have B: "BBLOCK b (sblk s) = M" by (simp add: BBLOCK_def M_def unat_eq_zero)
  have m: "unat b mod BPB = unat b" using b by (simp add: layout)
  obtain c s1 s2 where "bread d M s = Inr (c, s1)" "bdata (bufs s1 c) = blk d s M"
    using read_block [OF ftx_readable [OF tx M]] by blast
  then show ?thesis using B m dev by (simp add: fs_free_def tx_write_def Let_def)
qed

lemma fs_alloc_ok:
  fixes s :: "'a fsst_scheme"
  assumes tx: "ftx d (Suc (Suc k)) s" and bm: "bitmap_ok d s"
    and f: "free_block (blk d s (sb_bmapstart (sblk s))) (unat (sb_size (sblk s))) = Some b"
  shows "\<exists>t. fs_alloc d s = Inr (int b, t) \<and> ftx d k t \<and> bitmap_ok d t \<and> of_nat b \<noteq> sb_bmapstart (sblk s) \<and> b < FSSIZE \<and>
    blk d t = (blk d s)(sb_bmapstart (sblk s) := bm_set b (blk d s (sb_bmapstart (sblk s))),
      of_nat b := (\<lambda>i. if i < BSIZE then 0 else blk d s (of_nat b) i)) \<and>
    dsk t = dsk s \<and> dwrites t = dwrites s \<and> sblk t = sblk s \<and> icache t = icache s \<and> fsst.more t = fsst.more s \<and>
    in_log (lg t) = in_log (lg s)"
proof -
  let ?M = "sb_bmapstart (sblk s)"
  have b: "b < FSSIZE" "\<not> bm_used (blk d s ?M) b" using f bm by (auto simp: free_block_Some bitmap_ok_def)
  have u: "unat (of_nat b :: uint64) = b" using b(1) by (intro unat_of_nat_small) (simp add: layout)
  have n: "of_nat b \<noteq> ?M" "\<not> in_log (lg s) (of_nat b)"
    using bm b(2) u unfolding bitmap_ok_def by metis+
  have hM: "home_block s ?M" using bm by (simp add: bitmap_ok_def)
  obtain s1 where s1: "tx_write d ?M (bm_set b) s = Inr s1" "ftx d (Suc k) s1" "blk d s1 = (blk d s)(?M := bm_set b (blk d s ?M))"
    "dsk s1 = dsk s" "dwrites s1 = dwrites s" "sblk s1 = sblk s" "icache s1 = icache s" "fsst.more s1 = fsst.more s"
    "in_log (lg s1) = in_log (lg s)"
    using ftx_write [OF tx hM, of "bm_set b"] by blast
  have "home_block s1 (of_nat b)" using b(1) u n(2) s1(9) by (simp add: home_block_def)
  then obtain t where t: "tx_write d (of_nat b) (\<lambda>c i. if i < BSIZE then 0 else c i) s1 = Inr t" "ftx d k t"
    "blk d t = (blk d s1)(of_nat b := (\<lambda>i. if i < BSIZE then 0 else blk d s1 (of_nat b) i))" "dsk t = dsk s1"
    "dwrites t = dwrites s1" "sblk t = sblk s1" "icache t = icache s1" "fsst.more t = fsst.more s1"
    "in_log (lg t) = in_log (lg s1)"
    using ftx_write [OF s1(2), of "of_nat b" "\<lambda>c i. if i < BSIZE then 0 else c i"] by blast
  have "bitmap_ok d t"
    using bm n(1) unfolding bitmap_ok_def home_block_def t s1 by (auto simp: bm_used_set)
  then show ?thesis
    using fs_alloc_tx [OF tx bm] f s1 t b(1) n by (auto simp: fun_eq_iff)
qed

text \<open>\<^bold>\<open>C7\<close>: inside a transaction that may log two more blocks, \<^verbatim>\<open>fs_alloc\<close> panics exactly if all blocks are in use;
  otherwise it returns the first block that is not in use, marks it in the bitmap, zeroes it, and changes no other
  block, nothing on the disk and no inode. The block is neither part of the log nor the bitmap.\<close>

theorem fs_alloc_correct:
  fixes s :: "'a fsst_scheme"
  assumes "ftx d 2 s" and "bitmap_ok d s"
  shows "if \<forall>b < unat (sb_size (sblk s)). bm_used (blk d s (sb_bmapstart (sblk s))) b
    then fs_alloc d s = Inl (Panic ''fs_alloc: out of blocks'')
    else \<exists>b t. fs_alloc d s = Inr (int b, t) \<and> b < unat (sb_size (sblk s)) \<and> home_block s (of_nat b) \<and>
      \<not> bm_used (blk d s (sb_bmapstart (sblk s))) b \<and> (\<forall>j < b. bm_used (blk d s (sb_bmapstart (sblk s))) j) \<and>
      (\<forall>j. bm_used (blk d t (sb_bmapstart (sblk s))) j \<longleftrightarrow> j = b \<or> bm_used (blk d s (sb_bmapstart (sblk s))) j) \<and>
      (\<forall>i < BSIZE. blk d t (of_nat b) i = 0) \<and>
      (\<forall>c. c \<noteq> of_nat b \<and> c \<noteq> sb_bmapstart (sblk s) \<longrightarrow> blk d t c = blk d s c) \<and>
      dsk t = dsk s \<and> dwrites t = dwrites s \<and> icache t = icache s"
proof (cases "free_block (blk d s (sb_bmapstart (sblk s))) (unat (sb_size (sblk s)))")
  case None
  then have "\<forall>b < unat (sb_size (sblk s)). bm_used (blk d s (sb_bmapstart (sblk s))) b" by (simp add: free_block_None)
  then show ?thesis using fs_alloc_tx [OF assms] None by simp
next
  case (Some b)
  note f = Some [unfolded free_block_Some]
  obtain t where t: "fs_alloc d s = Inr (int b, t)" "of_nat b \<noteq> sb_bmapstart (sblk s)" "b < FSSIZE"
    "blk d t = (blk d s)(sb_bmapstart (sblk s) := bm_set b (blk d s (sb_bmapstart (sblk s))),
      of_nat b := (\<lambda>i. if i < BSIZE then 0 else blk d s (of_nat b) i))" "dsk t = dsk s" "dwrites t = dwrites s" "icache t = icache s"
    using fs_alloc_ok [of d 0 s b] assms Some by (auto simp: numeral_2_eq_2)
  have u: "unat (of_nat b :: uint64) = b" using t(3) by (intro unat_of_nat_small) (simp add: layout)
  have "home_block s (of_nat b)" using assms(2) f u t(3) unfolding bitmap_ok_def home_block_def by metis
  moreover have "\<not> (\<forall>b < unat (sb_size (sblk s)). bm_used (blk d s (sb_bmapstart (sblk s))) b)" using f by blast
  ultimately show ?thesis using f t by (auto simp: bm_used_set intro!: exI [of _ b])
qed


text \<open>A bitmap as \<^verbatim>\<open>fs_init\<close> leaves it, and the disk that holds it in block 45.\<close>

lemma bm_used_fold: "bm_used (fold bm_set xs d) j \<longleftrightarrow> j \<in> set xs \<or> bm_used d j"
  by (induction xs arbitrary: d) (auto simp: bm_used_set)

definition fresh_disk :: "uint64 \<Rightarrow> block" where
  "fresh_disk bn = (if bn = 45 then fold bm_set [0..<46] (\<lambda>_. 0) else (\<lambda>_. 0))"

lemma fresh_bitmap: "bm_used (fresh_disk 45) j \<longleftrightarrow> j < 46"
  using bm_used_fold [of "[0..<46]" "\<lambda>_. 0" j] by (simp add: fresh_disk_def bm_used_bit [of "\<lambda>_. 0"] del: upt_Suc upt_rec_numeral)

lemma fresh_disk_ok: "ftx 1 29 (tx_state fresh_disk ic)" "bitmap_ok 1 (tx_state fresh_disk ic)" "blk 1 (tx_state fresh_disk ic) = fresh_disk"
proof -
  have "hdr_n (fresh_disk 2) = 0" by (simp add: fresh_disk_def zero_hdr)
  then have t: "ftx 1 29 (tx_state fresh_disk ic)" "blk 1 (tx_state fresh_disk ic) = fresh_disk" by (rule tx_state_ok)+
  show "ftx 1 29 (tx_state fresh_disk ic)" "blk 1 (tx_state fresh_disk ic) = fresh_disk" by (fact t)+
  show "bitmap_ok 1 (tx_state fresh_disk ic)"
    by (auto simp: bitmap_ok_def home_block_def t(2) tx_state_in_log boot_in_log fresh_bitmap boot_sb_def layout)
qed

theorem fs_alloc_correct_witness:
  "\<exists>t. fs_alloc 1 (tx_state fresh_disk (\<lambda>_. ino0)) = Inr (46, t) \<and> bm_used (blk 1 t 45) 46 \<and> \<not> bm_used (blk 1 t 45) 47"
proof -
  let ?s = "tx_state fresh_disk (\<lambda>_. ino0)"
  have m: "sb_bmapstart (sblk ?s) = 45" "unat (sb_size (sblk ?s)) = 1000" by (simp_all add: boot_sb_def)
  have n: "\<not> (\<forall>b < unat (sb_size (sblk ?s)). bm_used (blk 1 ?s (sb_bmapstart (sblk ?s))) b)"
    unfolding m fresh_disk_ok(3) fresh_bitmap by (auto intro!: exI [of _ 46])
  obtain b t where t: "fs_alloc 1 ?s = Inr (int b, t)" "\<not> bm_used (blk 1 ?s 45) b" "\<forall>j < b. bm_used (blk 1 ?s 45) j"
    "\<forall>j. bm_used (blk 1 t 45) j \<longleftrightarrow> j = b \<or> bm_used (blk 1 ?s 45) j"
    using fs_alloc_correct [OF ftx_less [OF fresh_disk_ok(1)] fresh_disk_ok(2), of "\<lambda>_. ino0"] n unfolding m by auto
  have "b = 46" using t(2,3) unfolding fresh_disk_ok(3) fresh_bitmap by (metis linorder_not_less nat_neq_iff)
  then show ?thesis using t unfolding fresh_disk_ok(3) fresh_bitmap by auto
qed

text \<open>\<^bold>\<open>C24\<close>: freeing a block that has just been allocated restores the bitmap, and freeing it a second time
  panics. The parameter of \<^verbatim>\<open>fs_free\<close> is an \<^verbatim>\<open>int\<close>; \<open>dev\<close> stands for the same device as the \<open>d\<close> of \<^verbatim>\<open>fs_alloc\<close>.\<close>

theorem alloc_free_roundtrip:
  fixes s :: "'a fsst_scheme"
  assumes tx: "ftx d 3 s" and bm: "bitmap_ok d s" and a: "fs_alloc d s = Inr (b, t)" and dev: "word_of_int dev = d"
  shows "\<exists>u. fs_free dev (word_of_int b) t = Inr u \<and> blk d u (sb_bmapstart (sblk s)) = blk d s (sb_bmapstart (sblk s)) \<and>
    fs_free dev (word_of_int b) u = Inl (Panic ''fs_free: block not in use'')"
proof -
  let ?M = "sb_bmapstart (sblk s)"
  have tx': "ftx d (Suc (Suc 1)) s" using tx by (simp add: numeral_3_eq_3)
  obtain n where f: "free_block (blk d s ?M) (unat (sb_size (sblk s))) = Some n"
    using fs_alloc_tx [OF tx bm] a by (cases "free_block (blk d s ?M) (unat (sb_size (sblk s)))") auto
  have t: "b = int n" "ftx d 1 t" "bitmap_ok d t" "of_nat n \<noteq> ?M" "n < FSSIZE" "sblk t = sblk s"
    "blk d t ?M = bm_set n (blk d s ?M)" "in_log (lg t) = in_log (lg s)" using fs_alloc_ok [OF tx' bm f] a by auto
  have u: "unat (of_nat n :: uint64) = n" using t(5) by (intro unat_of_nat_small) (simp add: layout)
  have nf: "\<not> bm_used (blk d s ?M) n" using f by (simp add: free_block_Some)
  have hM: "home_block t ?M" using t(3,6) by (simp add: bitmap_ok_def)
  obtain v where v: "tx_write d ?M (bm_clear n) t = Inr v" "ftx d 0 v" "sblk v = sblk s"
    "blk d v = (blk d t)(?M := bm_clear n (blk d t ?M))" "in_log (lg v) = in_log (lg t)"
    using ftx_write [of d 0 t ?M "bm_clear n"] t(2,6) hM by auto
  have free: "fs_free dev (of_nat n) t = Inr v"
    using fs_free_tx [OF t(2,3) dev, of "of_nat n"] u t(5-7) v(1) by (simp add: bm_used_set)
  have r: "blk d v ?M = blk d s ?M" using v(4) t(7) bm_clear_set [OF nf] by simp
  have "bitmap_ok d v" using bm t(3) r unfolding bitmap_ok_def home_block_def v(3,5) t(6,8) by auto
  then have "fs_free dev (of_nat n) v = Inl (Panic ''fs_free: block not in use'')"
    using fs_free_tx [OF v(2) _ dev, of "of_nat n"] u t(5) r nf v(3) by simp
  then show ?thesis using free r t(1) by auto
qed

theorem alloc_free_roundtrip_witness:
  "\<exists>b t u. fs_alloc 1 (tx_state fresh_disk (\<lambda>_. ino0)) = Inr (b, t) \<and> fs_free 1 (word_of_int b) t = Inr u \<and> blk 1 u 45 = fresh_disk 45"
proof -
  let ?s = "tx_state fresh_disk (\<lambda>_. ino0)"
  have m: "sb_bmapstart (sblk ?s) = 45" "unat (sb_size (sblk ?s)) = 1000" by (simp_all add: boot_sb_def)
  have "free_block (blk 1 ?s (sb_bmapstart (sblk ?s))) (unat (sb_size (sblk ?s))) = Some 46"
    unfolding m fresh_disk_ok(3) free_block_Some fresh_bitmap by simp
  then obtain t where t: "fs_alloc 1 ?s = Inr (46, t)"
    using fs_alloc_ok [OF ftx_less [OF fresh_disk_ok(1)] fresh_disk_ok(2), of 1 "\<lambda>_. ino0" 46] by auto
  then show ?thesis
    using alloc_free_roundtrip [OF ftx_less [OF fresh_disk_ok(1)] fresh_disk_ok(2) t, of 1] unfolding m fresh_disk_ok(3) by auto
qed


section \<open>The inode cache\<close>

text \<open>No inode has two entries in use.\<close>

definition icache_ok :: "(nat \<Rightarrow> inode) \<Rightarrow> bool" where
  "icache_ok ic \<longleftrightarrow> (\<forall>i < NINODE. 0 \<le> iref (ic i)) \<and> (\<forall>i < NINODE. \<forall>j < NINODE. 0 < iref (ic i) \<longrightarrow> 0 < iref (ic j) \<longrightarrow>
     idev (ic i) = idev (ic j) \<longrightarrow> inum (ic i) = inum (ic j) \<longrightarrow> i = j)"

definition caches :: "(nat \<Rightarrow> inode) \<Rightarrow> uint64 \<Rightarrow> uint64 \<Rightarrow> nat \<Rightarrow> bool" where
  "caches ic dev n i \<longleftrightarrow> 0 < iref (ic i) \<and> idev (ic i) = dev \<and> inum (ic i) = n"

lemma iget_scan_spec:
  "iget_scan k i ic dev n emp = (r, e) \<Longrightarrow>
     r = find (caches ic dev n) [i..<i + k] \<and>
     (r = None \<longrightarrow> e = (case emp of None \<Rightarrow> find (\<lambda>j. iref (ic j) = 0) [i..<i + k] | Some x \<Rightarrow> Some x))"
proof (induction k arbitrary: i emp)
  case (Suc k)
  have u: "[i..<i + Suc k] = i # [Suc i..<Suc i + k]" by (simp add: upt_conv_Cons)
  show ?case
  proof (cases "caches ic dev n i")
    case True
    then show ?thesis using Suc.prems unfolding u by (auto simp: caches_def)
  next
    case False
    let ?emp = "if emp = None \<and> iref (ic i) = 0 then Some i else emp"
    have "iget_scan k (Suc i) ic dev n ?emp = (r, e)"
      using Suc.prems False unfolding caches_def iget_scan.simps by (simp only: if_False)
    from Suc.IH [OF this] show ?thesis
      using False unfolding u by (cases emp; cases "iref (ic i) = 0") (simp_all del: upt_Suc)
  qed
qed (auto split: option.splits)

lemma iget_cases:
  "iget dev n s = (case find (caches (icache s) dev n) [0..<NINODE] of
     Some i \<Rightarrow> Inr (i, set_ino i (\<lambda>x. x\<lparr>iref := iref x + 1\<rparr>) s)
   | None \<Rightarrow> (case find (\<lambda>i. iref (icache s i) = 0) [0..<NINODE] of
        None \<Rightarrow> Inl (Panic ''iget: no inodes'')
      | Some i \<Rightarrow> Inr (i, set_ino i (\<lambda>x. x\<lparr>idev := dev, inum := n, iref := 1, ivalid := False\<rparr>) s)))"
proof -
  obtain r e where r: "iget_scan NINODE 0 (icache s) dev n None = (r, e)" by fastforce
  show ?thesis using iget_scan_spec [OF r] r by (auto simp: iget_def split: option.splits)
qed

text \<open>\<^bold>\<open>C27\<close>: the inode cache has at most one entry in use per inode, and \<^verbatim>\<open>iget\<close> keeps it so. A cached inode gets
  one more reference and keeps its contents; another one gets the first unused entry (all before it are in use),
  with one reference and nothing loaded. Nothing else changes; \<^verbatim>\<open>iget\<close> panics exactly if the inode is not cached and all entries are in use.\<close>

theorem iget_unique:
  assumes ok: "icache_ok (icache s)"
  shows "case iget dev n s of
      Inl e \<Rightarrow> e = Panic ''iget: no inodes'' \<and> (\<forall>i < NINODE. 0 < iref (icache s i) \<and> \<not> caches (icache s) dev n i)
    | Inr (i, t) \<Rightarrow> i < NINODE \<and> icache_ok (icache t) \<and> caches (icache t) dev n i \<and> (\<forall>j. j \<noteq> i \<longrightarrow> icache t j = icache s j) \<and>
        (if caches (icache s) dev n i then icache t i = (icache s i)\<lparr>iref := iref (icache s i) + 1\<rparr>
         else (\<forall>j < NINODE. \<not> caches (icache s) dev n j) \<and> iref (icache s i) = 0 \<and> (\<forall>j < i. 0 < iref (icache s j)) \<and>
           icache t i = (icache s i)\<lparr>idev := dev, inum := n, iref := 1, ivalid := False\<rparr>) \<and> t = s\<lparr>icache := icache t\<rparr>"
proof (cases "find (caches (icache s) dev n) [0..<NINODE]")
  case (Some i)
  then have i: "i < NINODE" "caches (icache s) dev n i" by (auto simp: find_Some_iff)
  moreover have "icache_ok ((icache s)(i := (icache s i)\<lparr>iref := iref (icache s i) + 1\<rparr>))"
    using ok i unfolding icache_ok_def caches_def by auto
  ultimately show ?thesis unfolding iget_cases Some by (simp add: caches_def set_ino_def)
next
  case None
  then have n: "\<forall>j < NINODE. \<not> caches (icache s) dev n j" by (simp add: find_None_iff)
  show ?thesis
  proof (cases "find (\<lambda>i. iref (icache s i) = 0) [0..<NINODE]")
    case f: None
    then have "\<forall>i < NINODE. 0 < iref (icache s i)" using ok by (auto simp: find_None_iff icache_ok_def order_less_le)
    then show ?thesis using n unfolding iget_cases None f by simp
  next
    case (Some i)
    then have i: "i < NINODE" "iref (icache s i) = 0" "\<forall>j < i. iref (icache s j) \<noteq> 0" by (auto simp: find_Some_iff)
    then have "\<forall>j < i. 0 < iref (icache s j)" using ok by (simp add: icache_ok_def order_less_le)
    moreover
    have "icache_ok ((icache s)(i := (icache s i)\<lparr>idev := dev, inum := n, iref := 1, ivalid := False\<rparr>))"
      using ok n unfolding icache_ok_def caches_def by auto
    ultimately show ?thesis using i n unfolding iget_cases None Some by (simp add: caches_def set_ino_def)
  qed
qed

theorem iget_unique_witness:
  "\<exists>i t. iget 1 7 (fs_state (\<lambda>_ _. 0) (\<lambda>i. if i = 0 then ino0 else ino0\<lparr>iref := 0\<rparr>)) = Inr (i, t) \<and> i = 1 \<and> iref (icache t 1) = 1 \<and> icache_ok (icache t)"
proof -
  let ?s = "fs_state (\<lambda>_ _. 0) (\<lambda>i. if i = 0 then ino0 else ino0\<lparr>iref := 0\<rparr>)"
  have ic: "icache ?s = (\<lambda>i. if i = 0 then ino0 else ino0\<lparr>iref := 0\<rparr>)" by (simp add: fs_state_def)
  have ok: "icache_ok (icache ?s)" by (auto simp: ic icache_ok_def ino0_def)
  have c: "\<not> caches (icache ?s) 1 7 i" for i by (simp add: ic caches_def ino0_def)
  have z: "iref (icache ?s 1) = 0" "1 < NINODE" "0 < iref (icache ?s 0)" by (simp_all add: ic layout ino0_def)
  then obtain i t where t: "iget 1 7 ?s = Inr (i, t)" "icache_ok (icache t)" "iref (icache ?s i) = 0" "\<forall>j < i. 0 < iref (icache ?s j)"
    "iref (icache t i) = 1"
    using iget_unique [OF ok, of 1 7] c by (cases "iget 1 7 ?s") (auto dest: spec [of _ 1])
  have "i = 1" using t(3,4) z by (metis One_nat_def less_numeral_extra(3) linorder_neqE_nat less_one)
  then show ?thesis using t by blast
qed

end
