(* ===== verification/Fsio.thy ===== *)
theory Fsio
  imports Fsblk
begin

text \<open>
  Reading and writing files: the block map of an inode (\<^verbatim>\<open>bmap\<close>), \<^verbatim>\<open>readi\<close> and \<^verbatim>\<open>writei\<close> as operations on the
  bytes of a file. The contents of a file are a function of the blocks of the disk
  as the cache presents them; the loops are followed on natural numbers.
\<close>

section \<open>Words as natural numbers\<close>

lemma of_nat64_less: "a < 2 ^ 64 \<Longrightarrow> b < 2 ^ 64 \<Longrightarrow> (of_nat a :: uint64) < of_nat b \<longleftrightarrow> a < b"
  by (simp add: word_less_nat_alt unat_of_nat_small)

lemma of_nat64_le: "a < 2 ^ 64 \<Longrightarrow> b < 2 ^ 64 \<Longrightarrow> (of_nat a :: uint64) \<le> of_nat b \<longleftrightarrow> a \<le> b"
  by (simp add: word_le_nat_alt unat_of_nat_small)

lemma of_nat64_div: "a < 2 ^ 64 \<Longrightarrow> b < 2 ^ 64 \<Longrightarrow> (of_nat a :: uint64) div of_nat b = of_nat (a div b)"
  using le_less_trans [OF div_le_dividend [of a b]] unfolding word_unat_eq_iff unat_div by (simp add: unat_of_nat_small)

lemma of_nat64_mod: "a < 2 ^ 64 \<Longrightarrow> b < 2 ^ 64 \<Longrightarrow> (of_nat a :: uint64) mod of_nat b = of_nat (a mod b)"
  using le_less_trans [OF mod_less_eq_dividend [of a b]] unfolding word_unat_eq_iff unat_mod by (simp add: unat_of_nat_small)

lemma of_nat64_diff: "b \<le> a \<Longrightarrow> (of_nat a :: uint64) - of_nat b = of_nat (a - b)"
  by (simp add: of_nat_diff)

lemma unat_ucast64: "unat (ucast (w :: uint32) :: uint64) = unat w"
  using unsigned_less [of w, where ?'a = nat] by (simp add: unsigned_ucast_eq take_bit_nat_eq_self)

lemmas nat64 = of_nat64_less of_nat64_le of_nat64_div of_nat64_mod

lemma BSIZE_bound: "BSIZE < 2 ^ 64" "0 < BSIZE"
  by (simp_all add: layout)

lemmas block_words = of_nat64_div [OF _ BSIZE_bound(1)] of_nat64_mod [OF _ BSIZE_bound(1)]

section \<open>The blocks of a file\<close>

definition fblk :: "uint64 \<Rightarrow> 'a bio_scheme \<Rightarrow> inode \<Rightarrow> nat \<Rightarrow> uint32" where
  "fblk d s x bn = (if bn < NDIRECT then iaddrs x bn
     else le_load 4 (blk d s (ucast (iaddrs x NDIRECT))) (4 * (bn - NDIRECT)))"

definition fbyte :: "uint64 \<Rightarrow> 'a bio_scheme \<Rightarrow> inode \<Rightarrow> bytes" where
  "fbyte d s x i = blk d s (ucast (fblk d s x (i div BSIZE))) (i mod BSIZE)"

text \<open>The first \<open>n\<close> blocks of a file are allocated.\<close>

definition mapped :: "uint64 \<Rightarrow> 'a bio_scheme \<Rightarrow> inode \<Rightarrow> nat \<Rightarrow> bool" where
  "mapped d s x n \<longleftrightarrow> n \<le> MAXFILE \<and> (\<forall>bn < n. fblk d s x bn \<noteq> 0 \<and> unat (fblk d s x bn) < FSSIZE) \<and>
     (NDIRECT < n \<longrightarrow> iaddrs x NDIRECT \<noteq> 0 \<and> unat (iaddrs x NDIRECT) < FSSIZE)"

definition rdok :: "uint64 \<Rightarrow> 'a bio_scheme \<Rightarrow> bool" where
  "rdok d s \<longleftrightarrow> bcache_inv d s \<and> (\<forall>bn. unat bn < FSSIZE \<longrightarrow> readable bn (bview d s))"

lemma ftx_rdok: "ftx d k s \<Longrightarrow> rdok d s"
  using ftx_readable(2) ftx_readable(1) [of d k s 0] by (auto simp: rdok_def layout)

lemma rdok_csim: "csim d s t \<Longrightarrow> rdok d s \<Longrightarrow> rdok d t"
  by (simp add: rdok_def csim_def)

lemma file_csim: "csim d s t \<Longrightarrow> fblk d t = fblk d s" "csim d s t \<Longrightarrow> fbyte d t = fbyte d s" "csim d s t \<Longrightarrow> mapped d t = mapped d s"
  by (auto simp: fblk_def fbyte_def mapped_def fun_eq_iff csim_facts)

lemma rdok_read:
  assumes "rdok d s" and "unat bn < FSSIZE"
  shows "\<exists>b s1 s2. bread d bn s = Inr (b, s1) \<and> bdata (bufs s1 b) = blk d s bn \<and> brelse b s1 = Inr s2 \<and>
    csim d s s2 \<and> bio.more s1 = bio.more s"
  by (rule read_block) (use assms in \<open>auto simp: rdok_def\<close>)

lemma bmap_mapped:
  fixes s :: "'a fsst_scheme"
  assumes rd: "rdok d s" and x: "idev (icache s ip) = d" and m: "mapped d s (icache s ip) n" and bn: "bn < n"
  shows "\<exists>t. bmap ip (of_nat bn) s = Inr (ucast (fblk d s (icache s ip) bn), t) \<and> csim d s t"
proof -
  let ?x = "icache s ip"
  have n: "n \<le> 268" "fblk d s ?x bn \<noteq> 0" using m bn by (auto simp: mapped_def layout)
  have u: "unat (of_nat bn :: uint64) = bn" using bn n(1) by (intro unat_of_nat_small) simp
  have c: "csim d s s" using rd by (simp add: rdok_def csim_refl)
  show ?thesis
  proof (cases "bn < NDIRECT")
    case True
    then show ?thesis using n(2) c u by (auto simp: bmap_def fblk_def Let_def)
  next
    case False
    let ?a = "iaddrs ?x NDIRECT"
    have a: "?a \<noteq> 0" "unat ?a < FSSIZE" using m bn False by (auto simp: mapped_def)
    then have "unat (ucast ?a :: uint64) < FSSIZE" by (simp add: unat_ucast64)
    then obtain b s1 s2 where b: "bread d (ucast ?a) s = Inr (b, s1)" "bdata (bufs s1 b) = blk d s (ucast ?a)"
      "brelse b s1 = Inr s2" "csim d s s2" using rdok_read [OF rd] by blast
    have "bn - NDIRECT < NINDIRECT" using bn n(1) False by (simp add: layout)
    then show ?thesis using False n(2) a x b u by (simp add: bmap_def fblk_def Let_def)
  qed
qed


section \<open>Reading\<close>

text \<open>One iteration moves \<open>m\<close> bytes, all from one block.\<close>

definition chunk :: "nat \<Rightarrow> nat \<Rightarrow> nat" where
  "chunk off n = min (BSIZE - off mod BSIZE) n"

lemma chunk_pos: "0 < n \<Longrightarrow> 0 < chunk off n" "chunk off n \<le> n" "off mod BSIZE + chunk off n \<le> BSIZE"
proof -
  have "off mod BSIZE < BSIZE" by (rule mod_less_divisor) (simp add: layout)
  then show "0 < n \<Longrightarrow> 0 < chunk off n" "chunk off n \<le> n" "off mod BSIZE + chunk off n \<le> BSIZE" by (auto simp: chunk_def)
qed

lemma chunk_block:
  assumes "i < chunk off n"
  shows "(off + i) div BSIZE = off div BSIZE" "(off + i) mod BSIZE = off mod BSIZE + i"
proof -
  have b: "off mod BSIZE + i < BSIZE" using assms chunk_pos(3) [of off n] by simp
  have "off + i = BSIZE * (off div BSIZE) + (off mod BSIZE + i)" by simp
  then show "(off + i) div BSIZE = off div BSIZE" "(off + i) mod BSIZE = off mod BSIZE + i"
    using b by (simp_all only: div_mult_self4 mod_mult_self4 div_less mod_less add_0_right BSIZE_bound neq0_conv [symmetric])
qed

lemma chunk_next:
  assumes "chunk off n < n" shows "(off + chunk off n) mod BSIZE = 0"
proof -
  have "chunk off n = BSIZE - off mod BSIZE" using assms by (auto simp: chunk_def)
  moreover have "off mod BSIZE < BSIZE" by (rule mod_less_divisor) (simp add: layout)
  ultimately have "off + chunk off n = BSIZE * (off div BSIZE) + BSIZE" using mult_div_mod_eq [of BSIZE off] by linarith
  then show ?thesis by simp
qed

lemma chunk_fuel:
  assumes "tot = n \<or> off mod BSIZE + (n - tot) \<le> Suc fuel * BSIZE" and "tot \<le> n"
  shows "tot + chunk off (n - tot) = n \<or> (off + chunk off (n - tot)) mod BSIZE + (n - (tot + chunk off (n - tot))) \<le> fuel * BSIZE"
proof (cases "chunk off (n - tot) < n - tot")
  case True
  then have "chunk off (n - tot) = BSIZE - off mod BSIZE" by (auto simp: chunk_def)
  moreover have "off mod BSIZE + (n - tot) \<le> BSIZE + fuel * BSIZE" using assms True by auto
  moreover have "off mod BSIZE < BSIZE" by (rule mod_less_divisor [OF BSIZE_bound(2)])
  ultimately have "n - (tot + chunk off (n - tot)) \<le> fuel * BSIZE" by linarith
  then show ?thesis using chunk_next [OF True] by simp
qed (use chunk_pos(2) [of off "n - tot"] assms(2) in auto)

lemma fchunk_word:
  assumes "off < 2 ^ 63" "n < 2 ^ 63"
  shows "(if (of_nat n :: uint64) < of_nat BSIZE - of_nat off mod of_nat BSIZE then of_nat n
      else of_nat BSIZE - of_nat off mod of_nat BSIZE) = (of_nat (chunk off n) :: uint64)"
proof -
  have o: "off mod BSIZE \<le> BSIZE" by (rule less_imp_le [OF mod_less_divisor]) (simp add: layout)
  have e: "(of_nat BSIZE :: uint64) - of_nat off mod of_nat BSIZE = of_nat (BSIZE - off mod BSIZE)"
    using block_words(2) [of off] assms(1) unfolding of_nat64_diff [OF o, symmetric] by simp
  have l: "(of_nat n :: uint64) < of_nat (BSIZE - off mod BSIZE) \<longleftrightarrow> n < BSIZE - off mod BSIZE"
    using BSIZE_bound(1) assms(2) by (intro of_nat64_less) simp_all
  show ?thesis unfolding e l chunk_def min_def by auto
qed

lemma copy_bytes_none: "copy_bytes x k src j 0 = x"
  by (rule ext) (auto simp: copy_bytes_def)

lemma copy_bytes_split:
  assumes "\<And>i. i < m \<Longrightarrow> src (j + i) = src' (j' + i)" and "m \<le> n"
  shows "copy_bytes (copy_bytes x k src j m) (k + m) src' (j' + m) (n - m) = copy_bytes x k src' j' n"
proof (rule ext)
  fix i
  show "copy_bytes (copy_bytes x k src j m) (k + m) src' (j' + m) (n - m) i = copy_bytes x k src' j' n i"
    using assms(1) [of "i - k"] assms(2) by (auto simp: copy_bytes_def)
qed

lemma readi_loop_ok:
  fixes s :: "'a fsst_scheme"
  assumes "rdok d s" and "idev (icache s ip) = d" and "mapped d s (icache s ip) B"
    and "off + (n - tot) \<le> B * BSIZE" and "tot \<le> n" and "n < 2 ^ 63" and "dst + (n - tot) < 2 ^ 63"
    and "tot = n \<or> off mod BSIZE + (n - tot) \<le> fuel * BSIZE"
  shows "\<exists>t. readi_loop (Suc fuel) ip kcopy_out (of_nat dst) (of_nat off) (of_nat n) (of_nat tot) s x =
      Inr (to_int (of_nat n :: uint64), t, copy_bytes x dst (fbyte d s (icache s ip)) off (n - tot)) \<and> csim d s t"
  using assms
proof (induction fuel arbitrary: dst off tot s x)
  case 0
  then have "tot = n" by auto
  then show ?case using 0 by (simp add: rdok_def csim_refl copy_bytes_none)
next
  case (Suc fuel)
  let ?x = "icache s ip" and ?m = "chunk off (n - tot)"
  show ?case
  proof (cases "tot = n")
    case True
    then show ?thesis using Suc.prems by (simp add: rdok_def csim_refl copy_bytes_none)
  next
    case False
    then have r: "0 < n - tot" using Suc.prems(5) by simp
    have B: "B \<le> 268" using Suc.prems(3) by (auto simp: mapped_def layout)
    have o: "off < 2 ^ 63" using Suc.prems(4) r B by (simp add: layout)
    have lt: "(of_nat tot :: uint64) < of_nat n" using False Suc.prems(5,6) by (simp add: nat64)
    have d: "(of_nat off :: uint64) div of_nat BSIZE = of_nat (off div BSIZE)" using o by (simp add: block_words)
    have o': "unat ((of_nat off :: uint64) mod of_nat BSIZE) = off mod BSIZE"
      using o le_less_trans [OF mod_less_eq_dividend [of off BSIZE]] by (simp add: block_words unat_of_nat_small)
    have bn: "off div BSIZE < B" using Suc.prems(4) r by (simp add: layout)
    obtain s1 where s1: "bmap ip (of_nat (off div BSIZE)) s = Inr (ucast (fblk d s ?x (off div BSIZE)), s1)" "csim d s s1"
      using bmap_mapped [OF Suc.prems(1-3) bn] by blast
    have x1: "icache s1 = icache s" using csim_more [OF s1(2)] by simp
    let ?a = "ucast (fblk d s ?x (off div BSIZE)) :: uint64"
    have "unat ?a < FSSIZE" using Suc.prems(3) bn by (simp add: unat_ucast64 mapped_def)
    then obtain b s2 s3 where b: "bread d ?a s1 = Inr (b, s2)" "bdata (bufs s2 b) = blk d s ?a" "brelse b s2 = Inr s3"
      "csim d s1 s3" using rdok_read [OF rdok_csim [OF s1(2) Suc.prems(1)]] csim_facts(1) [OF s1(2)] by metis
    have c: "csim d s s3" using s1(2) b(4) by (rule csim_trans)
    have x3: "icache s3 = icache s" using csim_more [OF c] by simp
    have m: "(if (of_nat n - of_nat tot :: uint64) < of_nat BSIZE - of_nat off mod of_nat BSIZE then of_nat n - of_nat tot
        else of_nat BSIZE - of_nat off mod of_nat BSIZE) = (of_nat ?m :: uint64)"
      unfolding of_nat64_diff [OF Suc.prems(5)] using Suc.prems(6) by (intro fchunk_word [OF o]) simp
    have um: "unat (of_nat ?m :: uint64) = ?m" "unat (of_nat dst :: uint64) = dst"
      using chunk_pos(2) [of off "n - tot"] Suc.prems(6,7) by (auto intro!: unat_of_nat_small)
    let ?y = "copy_bytes x dst (blk d s ?a) (off mod BSIZE) ?m"
    have step: "readi_loop (Suc (Suc fuel)) ip kcopy_out (of_nat dst) (of_nat off) (of_nat n) (of_nat tot) s x =
        readi_loop (Suc fuel) ip kcopy_out (of_nat (dst + ?m)) (of_nat (off + ?m)) (of_nat n) (of_nat (tot + ?m)) s3 ?y"
      unfolding readi_loop.simps(2) [of "Suc fuel"] using lt d s1(1) x1 b Suc.prems(2) o' um
      by (simp add: m kcopy_out_def Let_def del: readi_loop.simps)
    have e: "n - (tot + ?m) = n - tot - ?m" by simp
    have p: "off + ?m + (n - (tot + ?m)) \<le> B * BSIZE" "tot + ?m \<le> n" "dst + ?m + (n - (tot + ?m)) < 2 ^ 63"
      using Suc.prems(4,5,7) chunk_pos(2) [of off "n - tot"] by simp_all
    note f = chunk_fuel [OF Suc.prems(8,5)]
    have ih: "\<exists>t. readi_loop (Suc fuel) ip kcopy_out (of_nat (dst + ?m)) (of_nat (off + ?m)) (of_nat n) (of_nat (tot + ?m)) s3 ?y =
        Inr (to_int (of_nat n :: uint64), t, copy_bytes ?y (dst + ?m) (fbyte d s3 (icache s3 ip)) (off + ?m) (n - (tot + ?m))) \<and> csim d s3 t"
      by (rule Suc.IH) (use rdok_csim [OF c] x3 file_csim [OF c] Suc.prems p f in simp_all)
    have q: "blk d s ?a (off mod BSIZE + i) = fbyte d s ?x (off + i)" if "i < ?m" for i
      using chunk_block [OF that] by (simp add: fbyte_def)
    have "copy_bytes ?y (dst + ?m) (fbyte d s ?x) (off + ?m) (n - tot - ?m) = copy_bytes x dst (fbyte d s ?x) off (n - tot)"
      by (rule copy_bytes_split) (erule q, rule chunk_pos(2))
    then show ?thesis using ih csim_trans [OF c] unfolding step e x3 file_csim [OF c] by auto
  qed
qed


text \<open>The number of blocks a file of \<open>n\<close> bytes occupies.\<close>

definition nblocks :: "nat \<Rightarrow> nat" where
  "nblocks n = (n + BSIZE - 1) div BSIZE"

lemma nblocks_le: "n \<le> nblocks n * BSIZE"
  using div_mult_mod_eq [of "n + BSIZE - 1" BSIZE] mod_less_divisor [OF BSIZE_bound(2), of "n + BSIZE - 1"]
  unfolding nblocks_def by linarith

lemma fuel_enough: "off mod BSIZE + n \<le> (n div BSIZE + 2) * BSIZE"
  using div_mult_mod_eq [of n BSIZE] mod_less_divisor [OF BSIZE_bound(2), of n] mod_less_divisor [OF BSIZE_bound(2), of off]
  unfolding add_mult_distrib by linarith

lemma readi_ok:
  fixes s :: "'a fsst_scheme"
  assumes rd: "rdok d s" and x: "idev (icache s ip) = d" and m: "mapped d s (icache s ip) (nblocks (unat (isize (icache s ip))))"
    and n: "n < 2 ^ 62" "off \<le> unat (isize (icache s ip))" "dst < 2 ^ 62"
  defines "r \<equiv> min n (unat (isize (icache s ip)) - off)"
  shows "\<exists>t. readi ip kcopy_out (of_nat dst) (of_nat off) (of_nat n) s y =
    Inr (int r, t, copy_bytes y dst (fbyte d s (icache s ip)) off r) \<and> csim d s t"
proof -
  define z where z_def: "z = unat (isize (icache s ip))"
  have "nblocks z \<le> 268" using m by (auto simp: mapped_def layout z_def)
  then have z: "z \<le> 274432" using nblocks_le [of z] by (simp add: layout)
  have w: "(ucast (isize (icache s ip)) :: uint64) = of_nat z" by (simp add: z_def)
  have o: "of_nat off + of_nat n = (of_nat (off + n) :: uint64)" by simp
  have g: "\<not> of_nat z < (of_nat off :: uint64)" "\<not> (of_nat (off + n) :: uint64) < of_nat off"
    "(of_nat z :: uint64) < of_nat (off + n) \<longleftrightarrow> z < off + n"
    using n(1) n(2) [folded z_def] z by (simp_all add: of_nat64_less del: of_nat_add)
  have e: "(if (of_nat z :: uint64) < of_nat (off + n) then of_nat z - of_nat off else of_nat n) = (of_nat r :: uint64)"
    unfolding g(3) of_nat64_diff [OF n(2) [folded z_def]] r_def z_def [symmetric] min_def using n(2) [folded z_def] by auto
  have ur: "unat (of_nat r :: uint64) = r" "r \<le> z" using n(1) z by (auto simp: r_def z_def intro!: unat_of_nat_small)
  have "to_int (of_nat r :: uint64) = int r" using to_int_small [of "of_nat r :: uint64"] ur z by simp
  moreover have "\<exists>t. readi_loop (Suc (r div BSIZE + 2)) ip kcopy_out (of_nat dst) (of_nat off) (of_nat r) (of_nat 0) s y =
      Inr (to_int (of_nat r :: uint64), t, copy_bytes y dst (fbyte d s (icache s ip)) off (r - 0)) \<and> csim d s t"
  proof (rule readi_loop_ok [OF rd x m [folded z_def]])
    show "off + (r - 0) \<le> nblocks z * BSIZE" using n(2) [folded z_def] nblocks_le [of z] unfolding r_def z_def [symmetric] by linarith
    show "0 = r \<or> off mod BSIZE + (r - 0) \<le> (r div BSIZE + 2) * BSIZE" using fuel_enough [of off r] by simp
  qed (use n z ur in simp_all)
  ultimately show ?thesis
    unfolding readi_def Let_def w o e using g(1,2) ur by (simp add: eval_nat_numeral del: readi_loop.simps of_nat_add)
qed


text \<open>\<^bold>\<open>C6\<close>: on a file whose blocks are allocated, \<^verbatim>\<open>readi\<close> into a kernel variable returns the number of bytes
  between the offset and the end of the file, at most \<open>n\<close>, stores exactly these bytes of the file, also across
  block boundaries and through the indirect block, and changes nothing but the order of the cache. Beyond the end
  of the file it returns 0 and does nothing.\<close>

theorem readi_correct:
  fixes s :: "'a fsst_scheme"
  assumes rd: "rdok d s" and x: "x = icache s ip" "idev x = d" "z = unat (isize x)" and m: "mapped d s x (nblocks z)"
    and n: "n < 2 ^ 62" "off < 2 ^ 62" "dst < 2 ^ 62"
  shows "if z < off then readi ip kcopy_out (of_nat dst) (of_nat off) (of_nat n) s y = Inr (0, s, y)
    else \<exists>t. readi ip kcopy_out (of_nat dst) (of_nat off) (of_nat n) s y =
        Inr (int (min n (z - off)), t, copy_bytes y dst (fbyte d s x) off (min n (z - off))) \<and>
      blk d t = blk d s \<and> refs d t = refs d s \<and> dsk t = dsk s \<and> icache t = icache s \<and> lg t = lg s"
proof (cases "z < off")
  case True
  have "unat (ucast (isize (icache s ip)) :: uint64) < unat (of_nat off :: uint64)"
    using True x n(2) by (simp add: unat_ucast64 unat_of_nat_small)
  then show ?thesis using True by (simp add: readi_def Let_def word_less_nat_alt)
next
  case False
  then obtain t where t: "readi ip kcopy_out (of_nat dst) (of_nat off) (of_nat n) s y =
      Inr (int (min n (z - off)), t, copy_bytes y dst (fbyte d s x) off (min n (z - off)))" "csim d s t"
    using readi_ok [OF rd, of ip n off dst y] x m n by auto
  then show ?thesis using False csim_facts [OF t(2)] csim_more [OF t(2)] by auto
qed

text \<open>A file of 2000 bytes in blocks 60 and 61.\<close>

definition file_disk :: "uint64 \<Rightarrow> block" where
  "file_disk bn = (if bn = 60 then (\<lambda>i. 1) else if bn = 61 then (\<lambda>i. 2) else (\<lambda>_. 0))"

definition ino_file :: inode where
  "ino_file = ino0\<lparr>isize := 2000, iaddrs := (\<lambda>j. if j = 0 then 60 else if j = 1 then 61 else 0)\<rparr>"

lemma file_state:
  "ftx 1 29 (tx_state file_disk (\<lambda>_. ino_file))" "blk 1 (tx_state file_disk (\<lambda>_. ino_file)) = file_disk"
  "mapped 1 (tx_state file_disk (\<lambda>_. ino_file)) ino_file 2" "nblocks (unat (isize ino_file)) = 2"
proof -
  have "hdr_n (file_disk 2) = 0" by (simp add: file_disk_def zero_hdr)
  then show "ftx 1 29 (tx_state file_disk (\<lambda>_. ino_file))" "blk 1 (tx_state file_disk (\<lambda>_. ino_file)) = file_disk"
    by (rule tx_state_ok)+
  show "mapped 1 (tx_state file_disk (\<lambda>_. ino_file)) ino_file 2"
    by (auto simp: mapped_def fblk_def ino_file_def layout less_2_cases_iff)
  show "nblocks (unat (isize ino_file)) = 2" by (simp add: ino_file_def nblocks_def layout)
qed

theorem readi_correct_witness:
  "\<exists>t y. readi 3 kcopy_out 0 1000 100 (tx_state file_disk (\<lambda>_. ino_file)) (\<lambda>_. 0) = Inr (100, t, y) \<and> y 0 = 1 \<and> y 24 = 2 \<and> y 100 = 0"
proof -
  let ?s = "tx_state file_disk (\<lambda>_. ino_file)"
  have "fbyte 1 ?s ino_file 1000 = 1" "fbyte 1 ?s ino_file 1024 = 2"
    unfolding fbyte_def file_state(2) by (simp_all add: fblk_def file_disk_def ino_file_def layout)
  then show ?thesis
    using readi_correct [OF ftx_rdok [OF file_state(1)], of ino_file 3 2000 100 1000 0 "\<lambda>_. 0"] file_state(3,4)
    by (auto simp: copy_bytes_def ino_file_def ino0_def nblocks_def layout)
qed


section \<open>Writing\<close>

text \<open>A file whose first \<open>n\<close> blocks are allocated in different blocks outside the log, none of them its indirect block.\<close>

definition laid_out :: "uint64 \<Rightarrow> 'a lst_scheme \<Rightarrow> inode \<Rightarrow> nat \<Rightarrow> bool" where
  "laid_out d s x n \<longleftrightarrow> mapped d s x n \<and> inj_on (fblk d s x) {..<n} \<and>
     (\<forall>bn < n. \<not> in_log (lg s) (ucast (fblk d s x bn)) \<and> (NDIRECT < n \<longrightarrow> fblk d s x bn \<noteq> iaddrs x NDIRECT))"

lemma ucast64_inj: "(ucast (a :: uint32) :: uint64) = ucast b \<longleftrightarrow> a = b"
  unfolding word_unat_eq_iff unat_ucast64 ..

text \<open>Updating one block of the file.\<close>

lemma write_block:
  assumes l: "laid_out d s x n" and k: "k < n" and t: "blk d t = (blk d s)(ucast (fblk d s x k) := v)" "in_log (lg t) = in_log (lg s)"
  shows "bn < n \<Longrightarrow> fblk d t x bn = fblk d s x bn" "laid_out d t x n"
    "i div BSIZE < n \<Longrightarrow> fbyte d t x i = (if i div BSIZE = k then v (i mod BSIZE) else fbyte d s x i)"
proof -
  have f: "fblk d t x bn = fblk d s x bn" if "bn < n" for bn
  proof (cases "bn < NDIRECT")
    case False
    then have "fblk d s x k \<noteq> iaddrs x NDIRECT" using l k that by (auto simp: laid_out_def)
    then show ?thesis using False by (simp add: fblk_def [of d t] fblk_def [of d s x bn] t ucast64_inj)
  qed (simp add: fblk_def)
  then show "bn < n \<Longrightarrow> fblk d t x bn = fblk d s x bn" .
  show "laid_out d t x n" using l f by (auto simp: laid_out_def mapped_def t inj_on_def)
  show "fbyte d t x i = (if i div BSIZE = k then v (i mod BSIZE) else fbyte d s x i)" if "i div BSIZE < n"
    using f [OF that] l k that by (auto simp: fbyte_def t ucast64_inj laid_out_def inj_on_def)
qed

lemma laid_out_csim: "csim d s t \<Longrightarrow> laid_out d s x n \<Longrightarrow> laid_out d t x n"
  using lg_more [of t s] by (auto simp: laid_out_def file_csim csim_def)

lemma laid_out_mapped: "laid_out d s x n \<Longrightarrow> mapped d s x n"
  by (simp add: laid_out_def)

text \<open>An iteration of \<^verbatim>\<open>writei\<close>: the bytes of the file in the range now come from the source.\<close>

definition fwritten :: "uint64 \<Rightarrow> 'a fsst_scheme \<Rightarrow> 'a fsst_scheme \<Rightarrow> inode \<Rightarrow> nat \<Rightarrow> nat \<Rightarrow> bytes \<Rightarrow> nat \<Rightarrow> nat \<Rightarrow> bool" where
  "fwritten d s t x B off src j n \<longleftrightarrow> laid_out d t x B \<and> (\<forall>bn < B. fblk d t x bn = fblk d s x bn) \<and>
     (\<forall>i. i div BSIZE < B \<longrightarrow> fbyte d t x i = (if off \<le> i \<and> i < off + n then src (j + (i - off)) else fbyte d s x i)) \<and>
     (\<forall>c. (\<forall>bn < B. c \<noteq> ucast (fblk d s x bn)) \<longrightarrow> blk d t c = blk d s c) \<and>
     dsk t = dsk s \<and> dwrites t = dwrites s \<and> sblk t = sblk s \<and> icache t = icache s \<and> fsst.more t = fsst.more s \<and>
     in_log (lg t) = in_log (lg s)"

lemma fwritten_trans:
  assumes "fwritten d s t x B off src j m" and "fwritten d t u x B (off + m) src (j + m) (n - m)" and "m \<le> n"
  shows "fwritten d s u x B off src j n"
proof -
  have "fbyte d u x i = (if off \<le> i \<and> i < off + n then src (j + (i - off)) else fbyte d s x i)" if "i div BSIZE < B" for i
    using assms that by (auto simp: fwritten_def)
  then show ?thesis using assms by (auto simp: fwritten_def)
qed

lemma writei_chunk:
  fixes s :: "'a fsst_scheme"
  assumes tx: "ftx d (Suc k) s" and l: "laid_out d s x B" and o: "off div BSIZE < B" and m: "m = chunk off r"
  shows "\<exists>t. tx_write d (ucast (fblk d s x (off div BSIZE))) (\<lambda>c. copy_bytes c (off mod BSIZE) src j m) s = Inr t \<and>
    ftx d k t \<and> fwritten d s t x B off src j m"
proof -
  let ?a = "ucast (fblk d s x (off div BSIZE)) :: uint64"
  have "home_block s ?a" using l o by (auto simp: home_block_def laid_out_def mapped_def unat_ucast64)
  then obtain t where t: "tx_write d ?a (\<lambda>c. copy_bytes c (off mod BSIZE) src j m) s = Inr t" "ftx d k t"
    "blk d t = (blk d s)(?a := copy_bytes (blk d s ?a) (off mod BSIZE) src j m)" "dsk t = dsk s" "dwrites t = dwrites s"
    "sblk t = sblk s" "icache t = icache s" "fsst.more t = fsst.more s" "in_log (lg t) = in_log (lg s)"
    using ftx_write [OF tx, of ?a "\<lambda>c. copy_bytes c (off mod BSIZE) src j m"] by blast
  note w = write_block [OF l o t(3,9)]
  have b: "off mod BSIZE + m \<le> BSIZE" using chunk_pos(3) [of off r] m by simp
  have "fbyte d t x i = (if off \<le> i \<and> i < off + m then src (j + (i - off)) else fbyte d s x i)" if i: "i div BSIZE < B" for i
  proof (cases "i div BSIZE = off div BSIZE")
    case True
    then have "i = off div BSIZE * BSIZE + i mod BSIZE" by (metis div_mult_mod_eq)
    moreover have "off = off div BSIZE * BSIZE + off mod BSIZE" by simp
    ultimately have e: "off \<le> i \<longleftrightarrow> off mod BSIZE \<le> i mod BSIZE" "i < off + m \<longleftrightarrow> i mod BSIZE < off mod BSIZE + m"
      "i - off = i mod BSIZE - off mod BSIZE" by linarith+
    show ?thesis using w(3) [OF i] True unfolding e by (simp add: copy_bytes_def fbyte_def)
  next
    case False
    have "\<not> (off \<le> i \<and> i < off + m)"
    proof
      assume a: "off \<le> i \<and> i < off + m"
      then have "i - off < chunk off r" using m by linarith
      then show False using chunk_block(1) [of "i - off" off r] a False by simp
    qed
    then show ?thesis using w(3) [OF i] False by auto
  qed
  then show ?thesis using t w(1,2) o by (auto simp: fwritten_def)
qed


lemma fwritten_csim: "csim d s t \<Longrightarrow> fwritten d t u x B off src j n \<Longrightarrow> fwritten d s u x B off src j n"
  using csim_more [of d s t] csim_facts [of d s t] by (auto simp: fwritten_def file_csim)

lemma fwritten_none: "laid_out d s x B \<Longrightarrow> fwritten d s s x B off src j 0"
  by (auto simp: fwritten_def)

lemma writei_loop_ok:
  fixes s :: "'a fsst_scheme"
  assumes "ftx d (fuel + e) s" and "idev (icache s ip) = d" and "laid_out d s (icache s ip) B"
    and "off + (n - tot) \<le> B * BSIZE" and "tot \<le> n" and "n < 2 ^ 63" and "src + (n - tot) < 2 ^ 63"
    and "tot = n \<or> off mod BSIZE + (n - tot) \<le> fuel * BSIZE"
  shows "\<exists>t. writei_loop (Suc fuel) ip kcopy_in (of_nat src) (of_nat off) (of_nat n) (of_nat tot) s y =
      Inr (True, of_nat (off + (n - tot)), t, y) \<and> ftx d e t \<and> fwritten d s t (icache s ip) B off y src (n - tot)"
  using assms
proof (induction fuel arbitrary: src off tot s)
  case 0
  then have "tot = n" by auto
  then show ?case using 0 by (simp add: fwritten_none)
next
  case (Suc fuel)
  let ?x = "icache s ip" and ?m = "chunk off (n - tot)"
  show ?case
  proof (cases "tot = n")
    case True
    then show ?thesis using Suc.prems ftx_less [OF Suc.prems(1), of e] by (simp add: fwritten_none)
  next
    case False
    then have r: "0 < n - tot" using Suc.prems(5) by simp
    have B: "B \<le> 268" using laid_out_mapped [OF Suc.prems(3)] by (auto simp: mapped_def layout)
    have o: "off < 2 ^ 63" using Suc.prems(4) r B by (simp add: layout)
    have lt: "(of_nat tot :: uint64) < of_nat n" using False Suc.prems(5,6) by (simp add: nat64)
    have d: "(of_nat off :: uint64) div of_nat BSIZE = of_nat (off div BSIZE)" using o by (simp add: block_words)
    have o': "unat ((of_nat off :: uint64) mod of_nat BSIZE) = off mod BSIZE"
      using o le_less_trans [OF mod_less_eq_dividend [of off BSIZE]] by (simp add: block_words unat_of_nat_small)
    have bn: "off div BSIZE < B" using Suc.prems(4) r by (simp add: layout)
    have m: "(if (of_nat n - of_nat tot :: uint64) < of_nat BSIZE - of_nat off mod of_nat BSIZE then of_nat n - of_nat tot
        else of_nat BSIZE - of_nat off mod of_nat BSIZE) = (of_nat ?m :: uint64)"
      unfolding of_nat64_diff [OF Suc.prems(5)] using Suc.prems(6) by (intro fchunk_word [OF o]) simp
    have um: "unat (of_nat ?m :: uint64) = ?m" "unat (of_nat src :: uint64) = src"
      using chunk_pos(2) [of off "n - tot"] Suc.prems(6,7) by (auto intro!: unat_of_nat_small)
    obtain s1 where s1: "bmap ip (of_nat (off div BSIZE)) s = Inr (ucast (fblk d s ?x (off div BSIZE)), s1)" "csim d s s1"
      using bmap_mapped [OF ftx_rdok [OF Suc.prems(1)] Suc.prems(2) laid_out_mapped [OF Suc.prems(3)] bn] by blast
    have x1: "icache s1 = icache s" using csim_more [OF s1(2)] by simp
    let ?a = "ucast (fblk d s ?x (off div BSIZE)) :: uint64"
    obtain t where t: "tx_write d ?a (\<lambda>c. copy_bytes c (off mod BSIZE) y src ?m) s1 = Inr t" "ftx d (fuel + e) t"
      "fwritten d s1 t ?x B off y src ?m"
      using writei_chunk [of d "fuel + e" s1 ?x B off ?m "n - tot" y src] ftx_csim [OF s1(2) Suc.prems(1)]
        laid_out_csim [OF s1(2) Suc.prems(3)] bn file_csim(1) [OF s1(2)] by auto
    have w: "fwritten d s t ?x B off y src ?m" using fwritten_csim [OF s1(2) t(3)] .
    have xt: "icache t = icache s" "laid_out d t ?x B" using w by (auto simp: fwritten_def)
    obtain b s2 s3 where b: "bread d ?a s1 = Inr (b, s2)"
      "log_write b (set_data b (copy_bytes (bdata (bufs s2 b)) (off mod BSIZE) y src ?m) s2) = Inr s3" "brelse b s3 = Inr t"
      using t(1) by (auto simp: tx_write_def elim!: kbind_InrE)
    have step: "writei_loop (Suc (Suc fuel)) ip kcopy_in (of_nat src) (of_nat off) (of_nat n) (of_nat tot) s y =
        writei_loop (Suc fuel) ip kcopy_in (of_nat (src + ?m)) (of_nat (off + ?m)) (of_nat n) (of_nat (tot + ?m)) t y"
      unfolding writei_loop.simps(2) [of "Suc fuel"] using lt d s1(1) x1 b Suc.prems(2) o' um
      by (simp add: m kcopy_in_def Let_def del: writei_loop.simps)
    have e: "n - (tot + ?m) = n - tot - ?m" "off + ?m + (n - tot - ?m) = off + (n - tot)"
      using chunk_pos(2) [of off "n - tot"] Suc.prems(5) by simp_all
    have p: "off + ?m + (n - (tot + ?m)) \<le> B * BSIZE" "tot + ?m \<le> n" "src + ?m + (n - (tot + ?m)) < 2 ^ 63"
      using Suc.prems(4,5,7) chunk_pos(2) [of off "n - tot"] by simp_all
    have ih: "\<exists>u. writei_loop (Suc fuel) ip kcopy_in (of_nat (src + ?m)) (of_nat (off + ?m)) (of_nat n) (of_nat (tot + ?m)) t y =
        Inr (True, of_nat (off + ?m + (n - (tot + ?m))), u, y) \<and> ftx d e u \<and>
        fwritten d t u (icache t ip) B (off + ?m) y (src + ?m) (n - (tot + ?m))"
      by (rule Suc.IH) (use t(2) xt Suc.prems p chunk_fuel [OF Suc.prems(8,5)] in simp_all)
    then obtain u where u: "writei_loop (Suc fuel) ip kcopy_in (of_nat (src + ?m)) (of_nat (off + ?m)) (of_nat n) (of_nat (tot + ?m)) t y =
        Inr (True, of_nat (off + (n - tot)), u, y)" "ftx d e u" "fwritten d t u ?x B (off + ?m) y (src + ?m) (n - tot - ?m)"
      unfolding e xt(1) by blast
    show ?thesis unfolding step u(1) using u(2) fwritten_trans [OF w u(3) chunk_pos(2)] by blast
  qed
qed


lemma laid_out_ino: "iaddrs x = iaddrs y \<Longrightarrow> laid_out d s x n = laid_out d s y n" "iaddrs x = iaddrs y \<Longrightarrow> fbyte d s x = fbyte d s y"
proof -
  assume a: "iaddrs x = iaddrs y"
  have f: "fblk d s x = fblk d s y" by (simp add: fblk_def fun_eq_iff a)
  show "laid_out d s x n = laid_out d s y n" "fbyte d s x = fbyte d s y" by (simp_all add: laid_out_def mapped_def fbyte_def f a fun_eq_iff)
qed

definition grown :: "nat \<Rightarrow> inode \<Rightarrow> inode" where
  "grown n x = (if unat (isize x) < n then x\<lparr>isize := of_nat n\<rparr> else x)"

lemma writei_ok:
  fixes s :: "'a fsst_scheme"
  assumes tx: "ftx d (n div BSIZE + 3) s" and x: "idev (icache s ip) = d" and l: "laid_out d s (icache s ip) B"
    and n: "off \<le> unat (isize (icache s ip))" "off + n \<le> B * BSIZE" "src < 2 ^ 62"
    and home: "home_block s (IBLOCK (inum (icache s ip)) (sblk s))"
  shows "\<exists>t u. writei ip kcopy_in (of_nat src) (of_nat off) (of_nat n) s y = Inr (int n, u, y) \<and>
    fwritten d s t (icache s ip) B off y src n \<and> ftx d 0 u \<and> icache u = (icache s)(ip := grown (off + n) (icache s ip)) \<and>
    sblk u = sblk s \<and> dsk u = dsk s \<and> fsst.more u = fsst.more s \<and> in_log (lg u) = in_log (lg s) \<and>
    blk d u = (blk d t)(IBLOCK (inum (icache s ip)) (sblk s) :=
      dinode_store (grown (off + n) (icache s ip)) (dip_off (inum (icache s ip))) (blk d t (IBLOCK (inum (icache s ip)) (sblk s))))"
proof -
  define z where z_def: "z = unat (isize (icache s ip))"
  let ?x = "icache s ip" and ?I = "IBLOCK (inum (icache s ip)) (sblk s)"
  have B: "B \<le> 268" using laid_out_mapped [OF l] by (auto simp: mapped_def layout)
  then have bd: "off + n \<le> 274432" using n(2) by (simp add: layout)
  have w: "(ucast (isize ?x) :: uint64) = of_nat z" and zb: "z < 2 ^ 32" using unsigned_less [of "isize ?x"] by (simp_all add: z_def)
  have o: "of_nat off + of_nat n = (of_nat (off + n) :: uint64)" by simp
  have mx: "MAXFILE * BSIZE = 274432" by (simp add: layout)
  have g: "\<not> of_nat z < (of_nat off :: uint64)" "\<not> (of_nat (off + n) :: uint64) < of_nat off"
    "\<not> (of_nat (MAXFILE * BSIZE) :: uint64) < of_nat (off + n)"
    using n(1) [folded z_def] bd zb mx of_nat64_less [of "MAXFILE * BSIZE" "off + n"] by (simp_all add: of_nat64_less del: of_nat_add of_nat_mult)
  have un: "unat (of_nat n :: uint64) = n" using bd by (intro unat_of_nat_small) simp
  have ti: "to_int (of_nat n :: uint64) = int n" using to_int_small [of "of_nat n :: uint64"] un bd by simp
  have "\<exists>t. writei_loop (Suc (n div BSIZE + 2)) ip kcopy_in (of_nat src) (of_nat off) (of_nat n) (of_nat 0) s y =
      Inr (True, of_nat (off + (n - 0)), t, y) \<and> ftx d 1 t \<and> fwritten d s t ?x B off y src (n - 0)"
  proof (rule writei_loop_ok [OF _ x l])
    show "0 = n \<or> off mod BSIZE + (n - 0) \<le> (n div BSIZE + 2) * BSIZE" using fuel_enough [of off n] by simp
    show "ftx d (n div BSIZE + 2 + 1) s" using tx by (simp add: numeral_3_eq_3)
  qed (use n bd in simp_all)
  then obtain t where t: "writei_loop (n div BSIZE + 3) ip kcopy_in (of_nat src) (of_nat off) (of_nat n) 0 s y =
      Inr (True, of_nat (off + n), t, y)" "ftx d 1 t" "fwritten d s t ?x B off y src n"
    by (auto simp: eval_nat_numeral simp del: writei_loop.simps)
  have it: "icache t = icache s" "sblk t = sblk s" "in_log (lg t) = in_log (lg s)" "dsk t = dsk s" "fsst.more t = fsst.more s"
    using t(3) by (auto simp: fwritten_def)
  let ?t = "set_ino ip (grown (off + n)) t"
  have c: "(of_nat (off + n) :: uint64) > ucast (isize ?x) \<longleftrightarrow> unat (isize ?x) < off + n"
    unfolding w z_def [symmetric] using zb bd by (simp add: of_nat64_less del: of_nat_add)
  have "(ucast (of_nat (off + n) :: uint64) :: uint32) = of_nat (off + n)"
    using bd by (simp add: word_unat_eq_iff unsigned_ucast_eq unat_of_nat take_bit_nat_eq_self del: of_nat_add)
  then have t': "(if of_nat (off + n) > (ucast (isize (icache t ip)) :: uint64) then set_ino ip (\<lambda>i. i\<lparr>isize := ucast (of_nat (off + n) :: uint64)\<rparr>) t else t) = ?t"
    using c it(1) by (simp add: set_ino_def grown_def)
  have h: "ftx d 1 ?t" "home_block ?t ?I" "icache ?t ip = grown (off + n) ?x"
    using t(2) home it by (auto simp: ftx_def in_tx_def log_inv_def home_block_def)
  have gi: "idev (grown (off + n) ?x) = d" "inum (grown (off + n) ?x) = inum ?x" using x by (simp_all add: grown_def)
  obtain u where u: "iupdate ip ?t = Inr u" "ftx d 0 u" "blk d u = (blk d ?t)(?I := dinode_store (grown (off + n) ?x) (dip_off (inum ?x)) (blk d ?t ?I))"
    "dsk u = dsk ?t" "sblk u = sblk ?t" "icache u = icache ?t" "fsst.more u = fsst.more ?t" "in_log (lg u) = in_log (lg ?t)"
    using ftx_write [of d 0 ?t ?I "dinode_store (grown (off + n) ?x) (dip_off (inum ?x))"] h gi it(2) unfolding iupdate_tx h(3) by auto
  have "writei ip kcopy_in (of_nat src) (of_nat off) (of_nat n) s y = Inr (int n, u, y)"
    unfolding writei_def Let_def w o using g t(1) t' u(1) un ti by (simp del: writei_loop.simps of_nat_add)
  then show ?thesis using t(3) u it by (intro exI [of _ t] exI [of _ u]) auto
qed


text \<open>A block that does not belong to the file.\<close>

definition foreign :: "uint64 \<Rightarrow> 'a bio_scheme \<Rightarrow> inode \<Rightarrow> nat \<Rightarrow> uint64 \<Rightarrow> bool" where
  "foreign d s x n c \<longleftrightarrow> (\<forall>bn < n. c \<noteq> ucast (fblk d s x bn)) \<and> (NDIRECT < n \<longrightarrow> c \<noteq> ucast (iaddrs x NDIRECT))"

lemma foreign_block:
  assumes f: "foreign d s x n c" and u: "blk d u = (blk d s)(c := v)"
  shows "bn < n \<Longrightarrow> fblk d u x bn = fblk d s x bn" "mapped d s x n \<Longrightarrow> mapped d u x n"
    "i div BSIZE < n \<Longrightarrow> fbyte d u x i = fbyte d s x i"
proof -
  have b: "fblk d u x bn = fblk d s x bn" if "bn < n" for bn
    using f that by (auto simp: fblk_def u foreign_def)
  then show "bn < n \<Longrightarrow> fblk d u x bn = fblk d s x bn" .
  show "mapped d s x n \<Longrightarrow> mapped d u x n" using b by (auto simp: mapped_def)
  show "i div BSIZE < n \<Longrightarrow> fbyte d u x i = fbyte d s x i" using b [of "i div BSIZE"] f by (auto simp: fbyte_def u foreign_def)
qed

lemma mapped_less: "mapped d s x n \<Longrightarrow> k \<le> n \<Longrightarrow> mapped d s x k"
  by (auto simp: mapped_def)

lemma nblocks_bound: "n \<le> B * BSIZE \<Longrightarrow> nblocks n \<le> B"
proof -
  assume "n \<le> B * BSIZE"
  then have "n + BSIZE - 1 < Suc B * BSIZE" using BSIZE_bound(2) by simp
  then show "nblocks n \<le> B" unfolding nblocks_def by (simp add: less_mult_imp_div_less less_Suc_eq_le [symmetric])
qed

lemma mapped_ino:
  assumes "iaddrs x = iaddrs y"
  shows "mapped d s x n = mapped d s y n" "fbyte d s x = fbyte d s y"
  using assms by (simp_all add: mapped_def fblk_def fbyte_def fun_eq_iff)

lemma copy_bytes_cong: "(\<And>k. k < n \<Longrightarrow> f (j + k) = g (i + k)) \<Longrightarrow> copy_bytes w t f j n = copy_bytes w t g i n"
proof (rule ext)
  fix x
  assume h: "\<And>k. k < n \<Longrightarrow> f (j + k) = g (i + k)"
  show "copy_bytes w t f j n x = copy_bytes w t g i n x" using h [of "x - t"] by (cases "t \<le> x \<and> x < t + n") (auto simp: copy_bytes_def)
qed

lemma isize_grown:
  assumes "n \<le> B * BSIZE" and "B \<le> MAXFILE"
  shows "unat (isize (grown n x)) = max (unat (isize x)) n"
proof -
  have "n \<le> 274432" using assms mult_le_mono1 [OF assms(2), of BSIZE] by (simp add: layout)
  then have "unat (of_nat n :: uint32) = n" by (intro unat_of_nat_small) simp
  then show ?thesis by (simp add: grown_def max_def)
qed

lemma write_read:
  fixes s :: "'a fsst_scheme"
  assumes tx: "ftx d (n div BSIZE + 3) s" and x: "x = icache s ip" "idev x = d" and l: "laid_out d s x B"
    and z: "unat (isize x) \<le> B * BSIZE" and n: "off \<le> unat (isize x)" "off + n \<le> B * BSIZE" "src < 2 ^ 62"
    and I: "I = IBLOCK (inum x) (sblk s)" "home_block s I" "foreign d s x B I"
  shows "\<exists>u. writei ip kcopy_in (of_nat src) (of_nat off) (of_nat n) s y = Inr (int n, u, y) \<and> ftx d 0 u \<and>
    icache u = (icache s)(ip := grown (off + n) x) \<and> sblk u = sblk s \<and> mapped d u (grown (off + n) x) B \<and>
    unat (isize (grown (off + n) x)) = max (unat (isize x)) (off + n) \<and>
    (\<forall>i. i div BSIZE < B \<longrightarrow> fbyte d u (grown (off + n) x) i =
       (if off \<le> i \<and> i < off + n then y (src + (i - off)) else fbyte d s x i))"
proof -
  obtain t u where u: "writei ip kcopy_in (of_nat src) (of_nat off) (of_nat n) s y = Inr (int n, u, y)"
    "fwritten d s t x B off y src n" "ftx d 0 u" "icache u = (icache s)(ip := grown (off + n) x)" "sblk u = sblk s"
    "blk d u = (blk d t)(I := dinode_store (grown (off + n) x) (dip_off (inum x)) (blk d t I))"
    using writei_ok [OF tx, of ip B off src y] x l n I by auto
  have "foreign d t x B I" using I(3) u(2) by (auto simp: foreign_def fwritten_def)
  note f = foreign_block [OF this u(6)]
  have a: "iaddrs (grown (off + n) x) = iaddrs x" by (simp add: grown_def)
  have B: "B \<le> MAXFILE" using laid_out_mapped [OF l] by (simp add: mapped_def)
  have "mapped d u x B" using f(2) u(2) by (auto simp: fwritten_def laid_out_def)
  moreover have "fbyte d u x i = (if off \<le> i \<and> i < off + n then y (src + (i - off)) else fbyte d s x i)" if "i div BSIZE < B" for i
    using f(3) [OF that] u(2) that by (auto simp: fwritten_def)
  ultimately show ?thesis
    using u isize_grown [OF n(2) B, of x] mapped_ino(1) [OF a, of d u B] mapped_ino(2) [OF a, of d u]
    by (intro exI [of _ u]) simp
qed

text \<open>\<^bold>\<open>C5\<close>: what is written to a file is read back. Inside a transaction with room for the blocks of the range and
  for the inode, \<^verbatim>\<open>writei\<close> from a kernel variable into allocated blocks of a file returns \<open>n\<close>, the file grows to the
  end of the range if it was shorter, the other bytes of the file are unchanged, and \<^verbatim>\<open>readi\<close> of the range returns
  exactly the bytes written.\<close>

theorem write_read_roundtrip:
  fixes s :: "'a fsst_scheme"
  assumes tx: "ftx d (n div BSIZE + 3) s" and x: "x = icache s ip" "idev x = d" and l: "laid_out d s x B"
    and z: "unat (isize x) \<le> B * BSIZE" and n: "off \<le> unat (isize x)" "off + n \<le> B * BSIZE" "src < 2 ^ 62" "dst < 2 ^ 62"
    and I: "I = IBLOCK (inum x) (sblk s)" "home_block s I" "foreign d s x B I"
  shows "\<exists>u v. writei ip kcopy_in (of_nat src) (of_nat off) (of_nat n) s y = Inr (int n, u, y) \<and>
    unat (isize (icache u ip)) = max (unat (isize x)) (off + n) \<and>
    (\<forall>i. i div BSIZE < B \<and> \<not> (off \<le> i \<and> i < off + n) \<longrightarrow> fbyte d u (icache u ip) i = fbyte d s x i) \<and>
    readi ip kcopy_out (of_nat dst) (of_nat off) (of_nat n) u w = Inr (int n, v, copy_bytes w dst y src n)"
proof -
  let ?g = "grown (off + n) x"
  obtain u where u: "writei ip kcopy_in (of_nat src) (of_nat off) (of_nat n) s y = Inr (int n, u, y)" "ftx d 0 u"
    "icache u = (icache s)(ip := ?g)" "mapped d u ?g B" "unat (isize ?g) = max (unat (isize x)) (off + n)"
    "\<forall>i. i div BSIZE < B \<longrightarrow> fbyte d u ?g i = (if off \<le> i \<and> i < off + n then y (src + (i - off)) else fbyte d s x i)"
    using write_read [OF tx x l z n(1-3) I, of y] by blast
  have ip: "icache u ip = ?g" using u(3) by simp
  have "B \<le> MAXFILE" using u(4) by (simp add: mapped_def)
  then have nb: "n < 2 ^ 62" using n(2) mult_le_mono1 [of B MAXFILE BSIZE] by (simp add: layout)
  have m: "mapped d u ?g (nblocks (unat (isize ?g)))"
    by (rule mapped_less [OF u(4)]) (use u(5) z n(2) in \<open>simp add: nblocks_bound\<close>)
  have g: "idev ?g = d" using x(2) by (simp add: grown_def)
  have r: "min n (unat (isize ?g) - off) = n" "off \<le> unat (isize ?g)" using u(5) by (simp_all add: min_def)
  obtain v where v: "readi ip kcopy_out (of_nat dst) (of_nat off) (of_nat n) u w =
      Inr (int n, v, copy_bytes w dst (fbyte d u ?g) off n)"
    using readi_ok [OF ftx_rdok [OF u(2)], of ip n off dst w] g m nb n(4) r unfolding ip by auto
  have "fbyte d u ?g (off + k) = y (src + k)" if "k < n" for k
  proof -
    have "(off + k) div BSIZE < B" using that n(2) by (simp add: less_mult_imp_div_less)
    then show ?thesis using u(6) that by simp
  qed
  then have "copy_bytes w dst (fbyte d u ?g) off n = copy_bytes w dst y src n" by (rule copy_bytes_cong)
  then show ?thesis using u v ip by (intro exI [of _ u] exI [of _ v]) auto
qed

theorem write_read_roundtrip_witness:
  "\<exists>u v. writei 3 kcopy_in 0 1000 100 (tx_state file_disk (\<lambda>_. ino_file)) (\<lambda>i. of_nat i) = Inr (100, u, (\<lambda>i. of_nat i)) \<and>
    readi 3 kcopy_out 0 1000 100 u (\<lambda>_. 0) = Inr (100, v, copy_bytes (\<lambda>_. 0) 0 (\<lambda>i. of_nat i) 0 100)"
proof -
  let ?s = "tx_state file_disk (\<lambda>_. ino_file)"
  have f: "fblk 1 ?s ino_file bn = (if bn = 0 then 60 else 61)" if "bn < 2" for bn
    using that by (auto simp: fblk_def ino_file_def layout less_2_cases_iff)
  have l: "laid_out 1 ?s ino_file 2"
    using file_state(3) by (auto simp: laid_out_def inj_on_def f tx_state_in_log boot_in_log layout split: if_splits)
  have h: "home_block ?s 32" by (simp add: home_block_def tx_state_in_log boot_in_log layout)
  have I: "IBLOCK (inum ino_file) (sblk ?s) = 32" by (simp add: IBLOCK_def ino_file_def ino0_def boot_sb_def layout)
  have g: "foreign 1 ?s ino_file 2 32" by (auto simp: foreign_def f layout)
  have z: "idev ino_file = 1" "isize ino_file = 2000" by (simp_all add: ino_file_def ino0_def)
  have t: "ftx 1 (100 div BSIZE + 3) ?s" by (rule ftx_less [OF file_state(1)]) (simp add: layout)
  show ?thesis
    using write_read_roundtrip [OF t _ _ l, of 3 1000 0 0 32 "\<lambda>i. of_nat i" "\<lambda>_. 0"] h I g z by (auto simp: layout)
qed

end
