(* ===== verification/Path.thy ===== *)
theory Path
  imports Fsio
begin

text \<open>
  Path names and directories: the elements that \<^verbatim>\<open>skipelem\<close> of \<^verbatim>\<open>kernel/fs/fs.c\<close> cuts off one by one are those of
  a reference split, and \<^verbatim>\<open>dirlookup\<close> finds the first entry with a name.
\<close>

section \<open>The elements of a path\<close>

text \<open>The reference: maximal runs of bytes other than the slash.\<close>

lemma rest_shorter:
  assumes "dropWhile (\<lambda>c. c = SLASH) cs \<noteq> []"
  shows "length (dropWhile (\<lambda>c. c \<noteq> SLASH) (dropWhile (\<lambda>c. c = SLASH) cs)) < length cs"
proof -
  have l: "length (dropWhile (\<lambda>c. c \<noteq> SLASH) q) < length q" if "q \<noteq> []" "hd q \<noteq> SLASH" for q
    using that by (cases q) (auto simp: less_Suc_eq_le length_dropWhile_le)
  have "hd (dropWhile (\<lambda>c. c = SLASH) cs) \<noteq> SLASH" using hd_dropWhile [OF assms] .
  from l [OF assms this] length_dropWhile_le [of "\<lambda>c. c = SLASH" cs] show ?thesis by (rule less_le_trans)
qed

function components :: "uint8 list \<Rightarrow> uint8 list list" where
  "components cs =
     (let r = dropWhile (\<lambda>c. c = SLASH) cs
      in if r = [] then [] else takeWhile (\<lambda>c. c \<noteq> SLASH) r # components (dropWhile (\<lambda>c. c \<noteq> SLASH) r))"
  by pat_completeness auto
termination
  using rest_shorter by (relation "measure length") auto

declare components.simps [simp del]

text \<open>The NUL-terminated string at the start of a name buffer, and the loop of \<^verbatim>\<open>namex\<close> reduced to the names it sees.\<close>

definition name_str :: "bytes \<Rightarrow> uint8 list" where
  "name_str name = takeWhile (\<lambda>c. c \<noteq> 0) (map name [0..<DIRSIZ])"

fun path_names :: "nat \<Rightarrow> bytes \<Rightarrow> nat \<Rightarrow> bytes \<Rightarrow> uint8 list list kres" where
  "path_names 0 path p name = Inl (Spin ''namex'')"
| "path_names (Suc fuel) path p name =
     kbind (skipelem path p name) (\<lambda>(r, name).
     case r of None \<Rightarrow> Inr [] | Some p \<Rightarrow> kbind (path_names fuel path p name) (\<lambda>ns. Inr (name_str name # ns)))"

text \<open>\<open>holds path cs p\<close>: from index \<open>p\<close> the buffer holds the bytes \<open>cs\<close> and a NUL, inside its 128 bytes.\<close>

definition holds :: "bytes \<Rightarrow> uint8 list \<Rightarrow> nat \<Rightarrow> bool" where
  "holds path cs p \<longleftrightarrow> p + length cs < MAXPATH \<and> (\<forall>j < length cs. path (p + j) = cs ! j) \<and> path (p + length cs) = 0 \<and> 0 \<notin> set cs"

lemma holds_Cons: "holds path (c # cs) p \<longleftrightarrow> c \<noteq> 0 \<and> path p = c \<and> holds path cs (Suc p)"
  by (auto simp: holds_def less_Suc_eq_0_disj)

lemma holds_head: "holds path cs p \<Longrightarrow> path p = (case cs of [] \<Rightarrow> 0 | c # _ \<Rightarrow> c)"
  by (cases cs) (auto simp: holds_def holds_Cons)

lemma skip_slash_holds:
  assumes "holds path cs p" "length cs < k"
  shows "skip_slash k path p = Inr (p + length (takeWhile (\<lambda>c. c = SLASH) cs)) \<and>
    holds path (dropWhile (\<lambda>c. c = SLASH) cs) (p + length (takeWhile (\<lambda>c. c = SLASH) cs))"
  using assms
proof (induction cs arbitrary: k p)
  case Nil
  then show ?case by (cases k) (simp_all add: holds_def SLASH_def)
next
  case (Cons c cs)
  obtain j where k: "k = Suc j" "length cs < j" using Cons.prems(2) by (cases k) auto
  have h: "path p = c" "holds path cs (Suc p)" using Cons.prems(1) by (simp_all add: holds_Cons)
  then show ?case using Cons.IH [OF h(2) k(2)] Cons.prems(1) k by simp
qed

lemma skip_name_holds:
  assumes "holds path cs p" "length cs < k"
  shows "skip_name k path p = Inr (p + length (takeWhile (\<lambda>c. c \<noteq> SLASH) cs)) \<and>
    holds path (dropWhile (\<lambda>c. c \<noteq> SLASH) cs) (p + length (takeWhile (\<lambda>c. c \<noteq> SLASH) cs))"
  using assms
proof (induction cs arbitrary: k p)
  case Nil
  then show ?case by (cases k) (simp_all add: holds_def)
next
  case (Cons c cs)
  obtain j where k: "k = Suc j" "length cs < j" using Cons.prems(2) by (cases k) auto
  have h: "path p = c" "c \<noteq> 0" "holds path cs (Suc p)" using Cons.prems(1) by (simp_all add: holds_Cons)
  then show ?case using Cons.IH [OF h(3) k(2)] Cons.prems(1) k by (cases "c = SLASH") simp_all
qed

lemma holds_length: "holds path cs p \<Longrightarrow> length cs < MAXPATH"
  by (simp add: holds_def)

text \<open>One call: the element, cut to what the name buffer takes, and the rest of the path.\<close>

lemma skipelem_holds:
  assumes h: "holds path cs p" and r: "r = dropWhile (\<lambda>c. c = SLASH) cs"
  shows "r = [] \<Longrightarrow> skipelem path p name = Inr (None, name)"
    "r \<noteq> [] \<Longrightarrow> \<exists>q name'. skipelem path p name = Inr (Some q, name') \<and>
       name_str name' = take (DIRSIZ - 1) (takeWhile (\<lambda>c. c \<noteq> SLASH) r) \<and>
       holds path (dropWhile (\<lambda>c. c = SLASH) (dropWhile (\<lambda>c. c \<noteq> SLASH) r)) q"
proof -
  let ?p = "p + length (takeWhile (\<lambda>c. c = SLASH) cs)"
  have s: "skip_slash MAXPATH path p = Inr ?p" "holds path r ?p"
    using skip_slash_holds [OF h holds_length [OF h]] r by simp_all
  show "r = [] \<Longrightarrow> skipelem path p name = Inr (None, name)"
    using s holds_head [OF s(2)] by (simp add: skipelem_def)
  assume n: "r \<noteq> []"
  let ?e = "takeWhile (\<lambda>c. c \<noteq> SLASH) r" and ?d = "dropWhile (\<lambda>c. c \<noteq> SLASH) r"
  have e: "skip_name MAXPATH path ?p = Inr (?p + length ?e)" "holds path ?d (?p + length ?e)"
    using skip_name_holds [OF s(2) holds_length [OF s(2)]] by simp_all
  obtain q where q: "skip_slash MAXPATH path (?p + length ?e) = Inr q" "holds path (dropWhile (\<lambda>c. c = SLASH) ?d) q"
    using skip_slash_holds [OF e(2) holds_length [OF e(2)]] by blast
  let ?len = "if length ?e \<ge> DIRSIZ then DIRSIZ - 1 else length ?e"
  let ?name = "(copy_bytes name 0 path ?p ?len)(?len := 0)"
  have nz: "path ?p \<noteq> 0" using holds_head [OF s(2)] n s(2) by (cases r) (auto simp: holds_Cons)
  have l: "?len \<le> DIRSIZ - 1" "?len \<le> length ?e" "?len < DIRSIZ" by (simp_all add: DIRSIZ_def)
  have b: "path (?p + j) = ?e ! j \<and> ?e ! j \<noteq> 0" if "j < length ?e" for j
  proof -
    have "j < length r" using that length_takeWhile_le [of "\<lambda>c. c \<noteq> SLASH" r] by linarith
    moreover from this have "r ! j \<noteq> 0" using s(2) nth_mem [of j r] unfolding holds_def by metis
    ultimately show ?thesis using s(2) takeWhile_nth [OF that] by (simp add: holds_def)
  qed
  have "map ?name [0..<DIRSIZ] = take ?len ?e @ 0 # map ?name [Suc ?len..<DIRSIZ]"
  proof (rule nth_equalityI)
    show "length (map ?name [0..<DIRSIZ]) = length (take ?len ?e @ 0 # map ?name [Suc ?len..<DIRSIZ])" using l by simp
    fix j assume "j < length (map ?name [0..<DIRSIZ])"
    then show "map ?name [0..<DIRSIZ] ! j = (take ?len ?e @ 0 # map ?name [Suc ?len..<DIRSIZ]) ! j"
      using l b by (auto simp: nth_append nth_Cons' copy_bytes_def)
  qed
  moreover have "takeWhile (\<lambda>c. c \<noteq> 0) (take ?len ?e @ 0 # xs) = take ?len ?e" for xs
    using b by (subst takeWhile_append2) (auto simp: in_set_conv_nth)
  ultimately have "name_str ?name = take ?len ?e" unfolding name_str_def by simp
  then have "name_str ?name = take (DIRSIZ - 1) ?e" by (simp add: DIRSIZ_def)
  moreover have "skipelem path p name = Inr (Some q, ?name)"
    using s(1) nz e(1) q(1) by (simp add: skipelem_def Let_def)
  ultimately show "\<exists>q name'. skipelem path p name = Inr (Some q, name') \<and>
       name_str name' = take (DIRSIZ - 1) (takeWhile (\<lambda>c. c \<noteq> SLASH) r) \<and>
       holds path (dropWhile (\<lambda>c. c = SLASH) (dropWhile (\<lambda>c. c \<noteq> SLASH) r)) q"
    using q(2) by blast
qed

text \<open>Leading slashes do not matter.\<close>

lemma components_slashes: "components (dropWhile (\<lambda>c. c = SLASH) cs) = components cs"
  by (simp add: components.simps [of cs] components.simps [of "dropWhile (\<lambda>c. c = SLASH) cs"] dropWhile_idem)

lemma path_names_holds:
  "holds path cs p \<Longrightarrow> length cs < fuel \<Longrightarrow> path_names fuel path p name = Inr (map (take (DIRSIZ - 1)) (components cs))"
proof (induction "length cs" arbitrary: cs fuel p name rule: less_induct)
  case less
  let ?r = "dropWhile (\<lambda>c. c = SLASH) cs"
  obtain k where k: "fuel = Suc k" using less(3) by (cases fuel) auto
  show ?case
  proof (cases "?r = []")
    case True
    then show ?thesis using skipelem_holds(1) [OF less(2) refl True] k by (simp add: components.simps [of cs])
  next
    case False
    let ?d = "dropWhile (\<lambda>c. c \<noteq> SLASH) ?r"
    obtain q name' where q: "skipelem path p name = Inr (Some q, name')"
      "name_str name' = take (DIRSIZ - 1) (takeWhile (\<lambda>c. c \<noteq> SLASH) ?r)" "holds path (dropWhile (\<lambda>c. c = SLASH) ?d) q"
      using skipelem_holds(2) [OF less(2) refl False] by blast
    have l: "length (dropWhile (\<lambda>c. c = SLASH) ?d) < length cs"
      using rest_shorter [OF False] length_dropWhile_le [of "\<lambda>c. c = SLASH" ?d] by linarith
    have "path_names k path q name' = Inr (map (take (DIRSIZ - 1)) (components ?d))"
      using less(1) [OF l q(3), of k name'] l less(3) k components_slashes [of ?d] by simp
    then show ?thesis using q(1,2) k False by (simp add: components.simps [of cs] Let_def)
  qed
qed

text \<open>\<^bold>\<open>C26\<close>: path names are split correctly and the walk along them ends. For every NUL-terminated path in a buffer of
  128 bytes, the names that successive calls of \<^verbatim>\<open>skipelem\<close> deliver are the components of the path in order, each
  cut to 13 bytes, and after them the walk stops.\<close>

theorem skipelem_components:
  assumes "holds path cs 0"
  shows "path_names MAXPATH path 0 name = Inr (map (take (DIRSIZ - 1)) (components cs))"
  using path_names_holds [OF assms] assms by (simp add: holds_def)

lemma holds_chars: "length str < MAXPATH \<Longrightarrow> 0 \<notin> set (map of_char str :: uint8 list) \<Longrightarrow> holds (chars str) (map of_char str) 0"
  by (auto simp: holds_def chars_def)

theorem skipelem_components_witness:
  "path_names MAXPATH (chars ''//usr/a_very_long_directory//f'') 0 (\<lambda>_. 0) =
    Inr [map of_char ''usr'', map of_char ''a_very_long_d'', map of_char ''f'']"
proof -
  have "holds (chars ''//usr/a_very_long_directory//f'') (map of_char ''//usr/a_very_long_directory//f'') 0"
    by (rule holds_chars) (simp_all add: MAXPATH_def)
  from skipelem_components [OF this] show ?thesis
    by (simp add: components.simps SLASH_def DIRSIZ_def)
qed

section \<open>Searching a directory\<close>

text \<open>The \<open>k\<close>-th entry of a directory, and whether it is in use under a name.\<close>

definition dent :: "uint64 \<Rightarrow> 'a bio_scheme \<Rightarrow> inode \<Rightarrow> nat \<Rightarrow> bytes" where
  "dent d s x k = (\<lambda>i. fbyte d s x (SIZEOF_DIRENT * k + i))"

definition named :: "bytes \<Rightarrow> bytes \<Rightarrow> bool" where
  "named name de \<longleftrightarrow> de_inum de \<noteq> 0 \<and> same_str DIRSIZ name (de_name de)"

lemma same_str_cong: "(\<And>j. j < n \<Longrightarrow> q j = r j) \<Longrightarrow> same_str n p q = same_str n p r"
  by (auto simp: same_str_def)

lemma read_dirent_ok:
  fixes s :: "'a fsst_scheme"
  assumes rd: "rdok d s" and x: "x = icache s dp" "idev x = d" "unat (isize x) = SIZEOF_DIRENT * n" and m: "mapped d s x (nblocks (unat (isize x)))"
    and k: "k < n"
  shows "\<exists>de' t. read_dirent dp (of_nat (SIZEOF_DIRENT * k)) msg de s = Inr (de', t) \<and> csim d s t \<and>
    de_inum de' = de_inum (dent d s x k) \<and> (strncmp name (de_name de') (of_nat DIRSIZ) = 0 \<longleftrightarrow> same_str DIRSIZ name (de_name (dent d s x k)))"
proof -
  have le: "SIZEOF_DIRENT * k + SIZEOF_DIRENT \<le> unat (isize x)" using k mult_le_mono2 [of "Suc k" n SIZEOF_DIRENT] x(3) by simp
  then have r: "min SIZEOF_DIRENT (unat (isize x) - SIZEOF_DIRENT * k) = SIZEOF_DIRENT" by simp
  obtain t where t: "readi dp kcopy_out (of_nat 0) (of_nat (SIZEOF_DIRENT * k)) (of_nat SIZEOF_DIRENT) s de =
      Inr (int SIZEOF_DIRENT, t, copy_bytes de 0 (fbyte d s x) (SIZEOF_DIRENT * k) SIZEOF_DIRENT)" "csim d s t"
    using readi_ok [OF rd, of dp SIZEOF_DIRENT "SIZEOF_DIRENT * k" 0 de] x(1,2) m le r by (auto simp: SIZEOF_DIRENT_def)
  let ?e = "copy_bytes de 0 (fbyte d s x) (SIZEOF_DIRENT * k) SIZEOF_DIRENT"
  have e: "?e j = dent d s x k j" if "j < SIZEOF_DIRENT" for j using that by (simp add: copy_bytes_def dent_def)
  have "de_inum ?e = de_inum (dent d s x k)" unfolding de_inum_def by (rule le_load_cong) (rule e, simp add: SIZEOF_DIRENT_def)
  moreover have "same_str DIRSIZ name (de_name ?e) = same_str DIRSIZ name (de_name (dent d s x k))"
    unfolding de_name_def by (rule same_str_cong) (rule e, simp add: SIZEOF_DIRENT_def DIRSIZ_def)
  moreover have "unat (of_nat DIRSIZ :: uint32) = DIRSIZ" by (simp add: DIRSIZ_def)
  ultimately show ?thesis using t by (intro exI [of _ ?e] exI [of _ t]) (simp add: read_dirent_def strncmp_zero_iff)
qed

lemma dirlookup_loop_ok:
  fixes s :: "'a fsst_scheme"
  assumes rd: "rdok d s" and x: "x = icache s dp" "idev x = d" "unat (isize x) = SIZEOF_DIRENT * n" and m: "mapped d s x (nblocks (unat (isize x)))"
    and k: "k \<le> n" "n - k < fuel"
  shows "\<exists>t. csim d s t \<and> dirlookup_loop fuel dp name (of_nat (SIZEOF_DIRENT * k)) de s =
    (case find (\<lambda>j. named name (dent d s x j)) [k..<n] of
       None \<Rightarrow> Inr (None, 0, t)
     | Some j \<Rightarrow> kbind (iget d (de_inum (dent d s x j)) t) (\<lambda>(ip, u). Inr (Some ip, of_nat (SIZEOF_DIRENT * j), u)))"
  using assms
proof (induction fuel arbitrary: k de s)
  case 0
  then show ?case by simp
next
  case (Suc fuel)
  have "SIZEOF_DIRENT * n < 2 ^ 32" using unsigned_less [of "isize x", where ?'a = nat] Suc.prems(4) by simp
  moreover have "SIZEOF_DIRENT * k \<le> SIZEOF_DIRENT * n" using Suc.prems(6) by simp
  ultimately have "SIZEOF_DIRENT * k < 2 ^ 32" "SIZEOF_DIRENT * n < 2 ^ 32" by (rule le_less_trans [rotated]) fact
  then have "SIZEOF_DIRENT * k < 2 ^ 64" "SIZEOF_DIRENT * n < 2 ^ 64" by simp_all
  moreover have "(ucast (isize (icache s dp)) :: uint64) = of_nat (SIZEOF_DIRENT * n)"
    using Suc.prems(2,4) calculation(2) by (simp add: word_unat_eq_iff unat_ucast64 unsigned_of_nat take_bit_nat_eq_self del: of_nat_mult)
  ultimately have lt: "(of_nat (SIZEOF_DIRENT * k) :: uint64) < ucast (isize (icache s dp)) \<longleftrightarrow> k < n"
    using of_nat64_less [of "SIZEOF_DIRENT * k" "SIZEOF_DIRENT * n"] by (simp add: SIZEOF_DIRENT_def del: of_nat_mult)
  show ?case
  proof (cases "k < n")
    case False
    then show ?thesis using lt Suc.prems(1,6) csim_refl by (intro exI [of _ s]) (auto simp: rdok_def)
  next
    case True
    obtain e t where e: "read_dirent dp (of_nat (SIZEOF_DIRENT * k)) ''dirlookup: read'' de s = Inr (e, t)" "csim d s t"
      "de_inum e = de_inum (dent d s x k)" "strncmp name (de_name e) (of_nat DIRSIZ) = 0 \<longleftrightarrow> same_str DIRSIZ name (de_name (dent d s x k))"
      using read_dirent_ok [OF Suc.prems(1-5) True] by blast
    note c = csim_more(3) [OF e(2)] file_csim [OF e(2)]
    have up: "[k..<n] = k # [Suc k..<n]" using True by (rule upt_conv_Cons)
    have of: "(of_nat (SIZEOF_DIRENT * k) :: uint64) + of_nat SIZEOF_DIRENT = of_nat (SIZEOF_DIRENT * Suc k)" by simp
    have dt: "dent d t x = dent d s x" by (simp add: dent_def c fun_eq_iff)
    have "x = icache t dp" "mapped d t x (nblocks (unat (isize x)))" "Suc k \<le> n" "n - Suc k < fuel"
      using Suc.prems(2,5,7) c True by simp_all
    note IH = Suc.IH [OF rdok_csim [OF e(2) Suc.prems(1)] this(1) Suc.prems(3,4) this(2-4), of e, unfolded dt]
    obtain u where u: "csim d t u" "dirlookup_loop fuel dp name (of_nat (SIZEOF_DIRENT * Suc k)) e t =
      (case find (\<lambda>j. named name (dent d s x j)) [Suc k..<n] of
         None \<Rightarrow> Inr (None, 0, u)
       | Some j \<Rightarrow> kbind (iget d (de_inum (dent d s x j)) u) (\<lambda>(ip, v). Inr (Some ip, of_nat (SIZEOF_DIRENT * j), v)))"
      using IH by blast
    have st: "dirlookup_loop (Suc fuel) dp name (of_nat (SIZEOF_DIRENT * k)) de s =
      (if named name (dent d s x k) then kbind (iget d (de_inum (dent d s x k)) t) (\<lambda>(ip, v). Inr (Some ip, of_nat (SIZEOF_DIRENT * k), v))
       else dirlookup_loop fuel dp name (of_nat (SIZEOF_DIRENT * Suc k)) e t)"
      using lt True e(1,3,4) c(1) Suc.prems(2,3) of by (simp add: named_def del: of_nat_mult mult_Suc_right)
    show ?thesis
    proof (cases "named name (dent d s x k)")
      case True
      then show ?thesis using e(2) unfolding st up by auto
    next
      case False
      then show ?thesis using u(2) csim_trans [OF e(2) u(1)] unfolding st up by auto
    qed
  qed
qed

text \<open>\<^bold>\<open>C25\<close>: \<^verbatim>\<open>dirlookup\<close> finds the first entry in use whose name agrees with the one looked for in the first 14 bytes:
  it skips free entries, returns the entry's offset and a reference to its inode, and returns nothing exactly when no
  entry matches. Reading the entries leaves every block, the disk, the log and the inodes in memory as they were.\<close>

theorem dirlookup_first:
  fixes s :: "'a fsst_scheme"
  assumes rd: "rdok d s" and x: "x = icache s dp" "idev x = d" "itype x = T_DIR" "unat (isize x) = SIZEOF_DIRENT * n"
    and m: "mapped d s x (nblocks (unat (isize x)))"
  shows "\<exists>t. blk d t = blk d s \<and> dsk t = dsk s \<and> lg t = lg s \<and> icache t = icache s \<and>
    dirlookup dp name s =
      (case find (\<lambda>k. named name (dent d s x k)) [0..<n] of
         None \<Rightarrow> Inr (None, 0, t)
       | Some k \<Rightarrow> kbind (iget d (de_inum (dent d s x k)) t) (\<lambda>(ip, u). Inr (Some ip, of_nat (SIZEOF_DIRENT * k), u)))"
proof -
  have n: "unat (isize x) div SIZEOF_DIRENT = n" using x(4) by (simp add: SIZEOF_DIRENT_def)
  have "dirlookup dp name s = dirlookup_loop (n + 2) dp name (of_nat (SIZEOF_DIRENT * 0)) (\<lambda>_. 0) s"
    using x(1,3) n by (simp add: dirlookup_def kguard_def del: dirlookup_loop.simps)
  moreover note dirlookup_loop_ok [OF rd x(1,2,4) m, of 0 "n + 2" name "\<lambda>_. 0"]
  ultimately obtain t where t: "csim d s t" "dirlookup dp name s =
      (case find (\<lambda>k. named name (dent d s x k)) [0..<n] of
         None \<Rightarrow> Inr (None, 0, t)
       | Some k \<Rightarrow> kbind (iget d (de_inum (dent d s x k)) t) (\<lambda>(ip, u). Inr (Some ip, of_nat (SIZEOF_DIRENT * k), u)))"
    by auto
  show ?thesis by (intro exI [of _ t] conjI csim_facts [OF t(1)] csim_more [OF t(1)] t(2))
qed

text \<open>A directory of three entries, the first of them free, all called \<open>b\<close>.\<close>

definition dir_disk :: "uint64 \<Rightarrow> block" where
  "dir_disk bn = (if bn = 60 then (\<lambda>i. if i = 24 then 7 else if i = 48 then 9 else if i = 8 \<or> i = 32 \<or> i = 56 then 98 else 0) else (\<lambda>_. 0))"

definition dir_inodes :: "nat \<Rightarrow> inode" where
  "dir_inodes i = (if i = 0 then ino0\<lparr>inum := 7, iref := 1\<rparr>
     else ino0\<lparr>itype := T_DIR, isize := 72, iaddrs := (\<lambda>j. if j = 0 then 60 else 0)\<rparr>)"

lemma dir_state:
  defines "s \<equiv> tx_state dir_disk dir_inodes" and "x \<equiv> dir_inodes 3"
  shows "rdok 1 s" "x = icache s 3" "idev x = 1" "itype x = T_DIR" "unat (isize x) = SIZEOF_DIRENT * 3"
    "mapped 1 s x (nblocks (unat (isize x)))"
    "24 * k + i < BSIZE \<Longrightarrow> dent 1 s x k i = dir_disk 60 (24 * k + i)"
proof -
  have "hdr_n (dir_disk 2) = 0" by (simp add: dir_disk_def zero_hdr)
  note ok = tx_state_ok [of dir_disk dir_inodes, OF this, folded s_def]
  show "rdok 1 s" using ok(1) by (rule ftx_rdok)
  show z: "x = icache s 3" "idev x = 1" "itype x = T_DIR" "unat (isize x) = SIZEOF_DIRENT * 3"
    by (simp_all add: s_def x_def dir_inodes_def ino0_def SIZEOF_DIRENT_def)
  show "mapped 1 s x (nblocks (unat (isize x)))"
    using z(4) by (auto simp: mapped_def fblk_def x_def dir_inodes_def nblocks_def layout SIZEOF_DIRENT_def)
  show "24 * k + i < BSIZE \<Longrightarrow> dent 1 s x k i = dir_disk 60 (24 * k + i)"
    by (simp add: dent_def fbyte_def ok(2) fblk_def x_def dir_inodes_def SIZEOF_DIRENT_def layout)
qed

lemma dir_entries:
  defines "s \<equiv> tx_state dir_disk dir_inodes" and "x \<equiv> dir_inodes 3"
  assumes "k < 3"
  shows "de_inum (dent 1 s x k) = ucast (dir_disk 60 (24 * k))"
    "same_str DIRSIZ (chars [c]) (de_name (dent 1 s x k)) \<longleftrightarrow> of_char c = (98 :: uint8)"
proof -
  have k: "k = 0 \<or> k = 1 \<or> k = 2" using assms by auto
  note b = dir_state(7) [folded s_def x_def]
  have "de_inum (dent 1 s x k) = le_load 8 (\<lambda>j. if j = 0 then dir_disk 60 (24 * k) else 0) 0"
    unfolding de_inum_def using k by (intro le_load_cong) (auto simp: b layout dir_disk_def)
  then show "de_inum (dent 1 s x k) = ucast (dir_disk 60 (24 * k))" by (simp add: eval_nat_numeral)
  have "de_name (dent 1 s x k) j = (if j = 0 then 98 else 0)" if "j < DIRSIZ" for j
    using k that by (elim disjE) (simp_all add: de_name_def b layout DIRSIZ_def dir_disk_def)
  then show "same_str DIRSIZ (chars [c]) (de_name (dent 1 s x k)) \<longleftrightarrow> of_char c = (98 :: uint8)"
    by (auto simp: same_str_def chars_def DIRSIZ_def)
qed

lemma dir_find:
  "find (\<lambda>k. named (chars [c]) (dent 1 (tx_state dir_disk dir_inodes) (dir_inodes 3) k)) [0..<3] =
    (if of_char c = (98 :: uint8) then Some 1 else None)"
proof -
  have "[0..<3] = [0, 1, 2 :: nat]" by (simp add: upt_rec)
  then show ?thesis using dir_entries [of 0] dir_entries [of 1] dir_entries [of 2] by (simp add: named_def dir_disk_def)
qed

theorem dirlookup_first_witness:
  "(\<exists>u. dirlookup 3 (chars ''b'') (tx_state dir_disk dir_inodes) = Inr (Some 0, 24, u)) \<and>
   (\<exists>u. dirlookup 3 (chars ''c'') (tx_state dir_disk dir_inodes) = Inr (None, 0, u))"
proof -
  let ?s = "tx_state dir_disk dir_inodes"
  note l = dirlookup_first [OF dir_state(1-6)]
  obtain t where t: "icache t = icache ?s" "dirlookup 3 (chars ''b'') ?s =
      kbind (iget 1 7 t) (\<lambda>(ip, u). Inr (Some ip, of_nat (SIZEOF_DIRENT * 1), u))"
    using l [of "chars ''b''"] dir_find [of "CHR ''b''"] dir_entries(1) [of 1] by (auto simp: dir_disk_def)
  obtain t' where "dirlookup 3 (chars ''c'') ?s = Inr (None, 0, t')"
    using l [of "chars ''c''"] dir_find [of "CHR ''c''"] by auto
  moreover obtain u where "iget 1 7 t = Inr (0, u)"
    using t(1) by (auto simp: iget_def NINODE_def eval_nat_numeral dir_inodes_def ino0_def)
  ultimately show ?thesis using t(2) by (simp add: SIZEOF_DIRENT_def)
qed

end
