(* ===== verification/File.thy ===== *)
theory File
  imports Fs
begin

text \<open>
  \<^verbatim>\<open>kernel/fs/file.c\<close>: the table of open files. A file pointer is an index into \<^verbatim>\<open>ftable.file\<close>. An
  entry is in use while its reference count is positive; the last close gives the inode back inside
  a transaction of its own, and \<^verbatim>\<open>file_write\<close> splits a long write into transactions that fit the log.
\<close>

section \<open>State\<close>

datatype file_type = FILE_NONE | FILE_PIPE | FILE_INODE | FILE_DEVICE

record File =
  f_type :: file_type
  f_ref :: int
  f_readable :: bool
  f_writable :: bool
  f_append :: bool
  f_ip :: "nat option"
  f_off :: uint64
  f_major :: uint16

definition NFILE :: nat where [layout]: "NFILE = 100"

record filest = fsst +
  ftable :: "nat \<Rightarrow> File"

definition set_file :: "nat \<Rightarrow> (File \<Rightarrow> File) \<Rightarrow> 'a filest_scheme \<Rightarrow> 'a filest_scheme" where
  "set_file f g s = s\<lparr>ftable := (ftable s)(f := g (ftable s f))\<rparr>"

section \<open>Operations\<close>

definition file_init :: "'a filest_scheme \<Rightarrow> 'a filest_scheme" where
  "file_init s = fold (\<lambda>i. set_file i (\<lambda>x. x\<lparr>f_ref := 0, f_type := FILE_NONE\<rparr>)) [0..<NFILE] s"

text \<open>The loop of \<^verbatim>\<open>alloc_file\<close> from index \<open>i\<close> with \<open>k\<close> entries left.\<close>

fun alloc_file_loop :: "nat \<Rightarrow> nat \<Rightarrow> 'a filest_scheme \<Rightarrow> nat option \<times> 'a filest_scheme" where
  "alloc_file_loop 0 i s = (None, s)"
| "alloc_file_loop (Suc k) i s =
     (if f_ref (ftable s i) = 0
      then (Some i, set_file i (\<lambda>x. x\<lparr>f_ref := 1, f_type := FILE_NONE, f_readable := False, f_writable := False,
        f_append := False, f_ip := None, f_off := 0\<rparr>) s)
      else alloc_file_loop k (Suc i) s)"

definition alloc_file :: "'a filest_scheme \<Rightarrow> nat option \<times> 'a filest_scheme" where
  "alloc_file s = alloc_file_loop NFILE 0 s"

definition file_dup :: "nat \<Rightarrow> 'a filest_scheme \<Rightarrow> 'a filest_scheme kres" where
  "file_dup f s =
     kguard (\<not> f_ref (ftable s f) < 1) (Panic ''file_dup'')
      (Inr (set_file f (\<lambda>x. x\<lparr>f_ref := f_ref x + 1\<rparr>) s))"

text \<open>A null inode pointer faults in \<^verbatim>\<open>iput\<close>, and is caught by \<^verbatim>\<open>ilock\<close>.\<close>

definition file_close :: "nat \<Rightarrow> 'a filest_scheme \<Rightarrow> 'a filest_scheme kres" where
  "file_close f s =
     kguard (\<not> f_ref (ftable s f) < 1) (Panic ''file_close'')
      (let s = set_file f (\<lambda>x. x\<lparr>f_ref := f_ref x - 1\<rparr>) s
       in if f_ref (ftable s f) > 0 then Inr s
          else let ff = ftable s f; s = set_file f (\<lambda>x. x\<lparr>f_ref := 0, f_type := FILE_NONE\<rparr>) s
               in if f_type ff = FILE_INODE then
                    kbind (begin_op s) (\<lambda>s.
                    case f_ip ff of
                      None \<Rightarrow> Inl (Undef ''iput'')
                    | Some ip \<Rightarrow> kbind (iput ip s) end_op)
                  else Inr s)"

definition file_stat :: "nat \<Rightarrow> uint64 \<Rightarrow> 'a filest_scheme \<Rightarrow> int" where
  "file_stat f addr s = 0"

definition file_read :: "nat \<Rightarrow> 'x copy_out \<Rightarrow> uint64 \<Rightarrow> int \<Rightarrow> 'a filest_scheme \<Rightarrow> 'x \<Rightarrow>
    (int \<times> 'a filest_scheme \<times> 'x) kres" where
  "file_read f copy addr n s x =
     (if \<not> f_readable (ftable s f) then Inr (-1, s, x)
      else if f_type (ftable s f) = FILE_INODE then
        (case f_ip (ftable s f) of
           None \<Rightarrow> Inl (Panic ''ilock'')
         | Some ip \<Rightarrow>
             kbind (ilock ip s) (\<lambda>s.
             kbind (readi ip copy addr (f_off (ftable s f)) (word_of_int n) s x) (\<lambda>(r, s, x).
             let s = (if r > 0 then set_file f (\<lambda>y. y\<lparr>f_off := f_off y + word_of_int r\<rparr>) s else s)
             in kbind (iunlock ip s) (\<lambda>s. Inr (r, s, x)))))
      else Inl (Panic ''file_read''))"

definition WRITE_MAX :: int where [layout]: "WRITE_MAX = ((int LOGSIZE - 1 - 1 - 2) div 2) * int BSIZE"

text \<open>The loop of \<^verbatim>\<open>file_write\<close> returns the number of bytes written by complete transactions.\<close>

fun file_write_loop :: "nat \<Rightarrow> nat \<Rightarrow> nat \<Rightarrow> 'x copy_in \<Rightarrow> uint64 \<Rightarrow> int \<Rightarrow> int \<Rightarrow> 'a filest_scheme \<Rightarrow> 'x \<Rightarrow>
    (int \<times> 'a filest_scheme \<times> 'x) kres" where
  "file_write_loop 0 f ip copy addr n i s x = Inl (Spin ''file_write'')"
| "file_write_loop (Suc fuel) f ip copy addr n i s x =
     (if \<not> i < n then Inr (i, s, x)
      else let n1 = n - i; n1 = (if n1 > WRITE_MAX then WRITE_MAX else n1)
           in kbind (begin_op s) (\<lambda>s.
              kbind (ilock ip s) (\<lambda>s.
              let s = (if f_append (ftable s f)
                       then set_file f (\<lambda>y. y\<lparr>f_off := ucast (isize (icache s ip))\<rparr>) s else s)
              in kbind (writei ip copy (addr + word_of_int i) (f_off (ftable s f)) (word_of_int n1) s x) (\<lambda>(r, s, x).
                 let s = (if r > 0 then set_file f (\<lambda>y. y\<lparr>f_off := f_off y + word_of_int r\<rparr>) s else s)
                 in kbind (iunlock ip s) (\<lambda>s.
                    kbind (end_op s) (\<lambda>s.
                    if r \<noteq> n1 then Inr (i, s, x)
                    else file_write_loop fuel f ip copy addr n (i + r) s x))))))"

definition file_write :: "nat \<Rightarrow> 'x copy_in \<Rightarrow> uint64 \<Rightarrow> int \<Rightarrow> 'a filest_scheme \<Rightarrow> 'x \<Rightarrow>
    (int \<times> 'a filest_scheme \<times> 'x) kres" where
  "file_write f copy addr n s x =
     (if \<not> f_writable (ftable s f) then Inr (-1, s, x)
      else if f_type (ftable s f) = FILE_INODE then
        (case f_ip (ftable s f) of
           None \<Rightarrow>
             if f_append (ftable s f) then Inl (Panic ''ilock'')
             else if 0 < n then kbind (begin_op s) (\<lambda>_. Inl (Panic ''ilock''))
             else Inr (if 0 = n then n else -1, s, x)
         | Some ip \<Rightarrow>
             kbind (if f_append (ftable s f) then
                 kbind (ilock ip s) (\<lambda>s.
                 iunlock ip (set_file f (\<lambda>y. y\<lparr>f_off := ucast (isize (icache s ip))\<rparr>) s))
               else Inr s) (\<lambda>s.
             kbind (file_write_loop (nat n div nat WRITE_MAX + 2) f ip copy addr n 0 s x) (\<lambda>(i, s, x).
             Inr (if i = n then n else -1, s, x))))
      else Inl (Panic ''file_write''))"

end
