(* ===== verification/Proc.thy ===== *)
theory Proc
  imports Vm File
begin

text \<open>
  \<^verbatim>\<open>kernel/proc/proc.c\<close>, \<^verbatim>\<open>kernel/lib/sleeplock.c\<close> and the heap part of \<^verbatim>\<open>kernel/mem/uvm.c\<close>: the process
  table, creation, fork, exit and wait, sleep and wakeup, and the priority scheduler. The kernel
  state extends physical memory with the process table, its locks and the file system. A process
  pointer is an index into \<^verbatim>\<open>proc[]\<close>; trap frames live in their pages. \<^verbatim>\<open>swtch\<close> splits a function that
  gives up the CPU into the part before it and the part after it: the local variable \<^verbatim>\<open>origin\<close> of
  \<^verbatim>\<open>proc_sched\<close> that survives on the kernel stack in between is the field \<open>korigin\<close>, and the registers
  at the switch are an argument.
\<close>

section \<open>State\<close>

definition NPROC :: nat where [layout]: "NPROC = 64"
definition NOFILE :: nat where [layout]: "NOFILE = 16"
definition PRIORITY_MIN :: int where [layout]: "PRIORITY_MIN = 0"
definition PRIORITY_MAX :: int where [layout]: "PRIORITY_MAX = 15"
definition PRIORITY_DEFAULT :: int where [layout]: "PRIORITY_DEFAULT = 8"

datatype proc_state = UNUSED | RUNNABLE | RUNNING | SLEEPING | ZOMBIE

text \<open>What a process sleeps on: the address of a process, of the tick counter or of a sleep lock.\<close>

datatype chan = ProcChan nat | TicksChan | LockChan nat

record proc =
  plk :: spinlock
  pid :: int
  pstate :: proc_state
  sleep_space :: "chan option"
  xstate :: int
  killed :: bool
  parent :: "nat option"
  pgtbl :: uint64
  heap_top :: uint64
  ustack_pages :: uint64
  tf :: uint64
  kstack :: uint64
  pctx :: context_t
  ofile :: "nat \<Rightarrow> nat option"
  priority :: int
  priority_boost :: int

text \<open>Addresses that the linker assigns, and the generated program of the first process.\<close>

record ksyms =
  trampoline :: uint64
  fork_return_addr :: uint64
  trap_user_handler_addr :: uint64
  kernel_vector :: uint64
  user_vector :: uint64
  user_return :: uint64
  user_initcode :: uint64
  user_initcode_len :: uint64
  xstate_addr :: "nat \<Rightarrow> uint64"
  buf_addr :: "nat \<Rightarrow> uint64"
  stack_buf :: uint64
  etext :: uint64
  empty_literal :: uint64

record kst = pst +
  procs :: "nat \<Rightarrow> proc"
  proczero :: "nat option"
  nextpid :: int
  pid_lock :: spinlock
  wait_lock :: spinlock
  korigin :: "nat \<Rightarrow> bool"
  kfs :: filest
  ksym :: ksyms

definition set_proc :: "nat \<Rightarrow> (proc \<Rightarrow> proc) \<Rightarrow> 'a kst_scheme \<Rightarrow> 'a kst_scheme" where
  "set_proc i f s = s\<lparr>procs := (procs s)(i := f (procs s i))\<rparr>"

definition lift_fs :: "(filest \<Rightarrow> filest kres) \<Rightarrow> 'a kst_scheme \<Rightarrow> 'a kst_scheme kres" where
  "lift_fs f s = kbind (f (kfs s)) (\<lambda>fs. Inr (s\<lparr>kfs := fs\<rparr>))"

text \<open>The kernel's spin locks, taken and given back on the hart of the state.\<close>

definition plock :: "nat \<Rightarrow> 'a kst_scheme \<Rightarrow> 'a kst_scheme kres" where
  "plock i s = kbind (spinlock_acquire (plk (procs s i)) (khart s)) (\<lambda>(lk, h).
     Inr (set_proc i (\<lambda>p. p\<lparr>plk := lk\<rparr>) (s\<lparr>khart := h\<rparr>)))"

definition punlock :: "nat \<Rightarrow> 'a kst_scheme \<Rightarrow> 'a kst_scheme kres" where
  "punlock i s = kbind (spinlock_release (plk (procs s i)) (khart s)) (\<lambda>(lk, h).
     Inr (set_proc i (\<lambda>p. p\<lparr>plk := lk\<rparr>) (s\<lparr>khart := h\<rparr>)))"

definition wlock :: "'a kst_scheme \<Rightarrow> 'a kst_scheme kres" where
  "wlock s = kbind (spinlock_acquire (wait_lock s) (khart s)) (\<lambda>(lk, h). Inr (s\<lparr>wait_lock := lk, khart := h\<rparr>))"

definition wunlock :: "'a kst_scheme \<Rightarrow> 'a kst_scheme kres" where
  "wunlock s = kbind (spinlock_release (wait_lock s) (khart s)) (\<lambda>(lk, h). Inr (s\<lparr>wait_lock := lk, khart := h\<rparr>))"

text \<open>\<^verbatim>\<open>myproc()\<close> in a state; \<open>cur\<close> is its use as a pointer that is dereferenced.\<close>

definition myproc_s :: "'a kst_scheme \<Rightarrow> (nat option \<times> 'a kst_scheme) kres" where
  "myproc_s s = kbind (myproc (khart s)) (\<lambda>(p, h). Inr (p, s\<lparr>khart := h\<rparr>))"

definition cur :: "'a kst_scheme \<Rightarrow> (nat \<times> 'a kst_scheme) kres" where
  "cur s = kbind (myproc_s s) (\<lambda>(p, s). case p of None \<Rightarrow> Inl (Undef ''myproc'') | Some i \<Rightarrow> Inr (i, s))"

section \<open>Allocating and freeing processes\<close>

text \<open>\<^verbatim>\<open>nextpid\<close> is an \<^verbatim>\<open>int\<close> that nothing keeps from overflowing, which is undefined.\<close>

definition allocpid :: "'a kst_scheme \<Rightarrow> (int \<times> 'a kst_scheme) kres" where
  "allocpid s =
     kbind (spinlock_acquire (pid_lock s) (khart s)) (\<lambda>(lk, h).
     kguard (nextpid s < 2 ^ 31 - 1) (Undef ''allocpid'')
     (let pid = nextpid s; s = s\<lparr>nextpid := nextpid s + 1\<rparr>
      in kbind (spinlock_release lk h) (\<lambda>(lk, h). Inr (pid, s\<lparr>pid_lock := lk, khart := h\<rparr>))))"

definition proc_pgtbl_init :: "uint64 \<Rightarrow> 'a kst_scheme \<Rightarrow> (uint64 \<times> 'a kst_scheme) kres" where
  "proc_pgtbl_init trapframe s =
     kbind (pmem_alloc s) (\<lambda>(pagetable, s).
     if pagetable = 0 then Inr (0, s)
     else let s = s\<lparr>kmem := memset (kmem s) pagetable 0 (of_nat PGSIZE)\<rparr>
          in kbind (vm_mappages pagetable TRAMPOLINE (trampoline (ksym s)) (of_nat PGSIZE) (PTE_R OR PTE_X) s) (\<lambda>s.
             kbind (vm_mappages pagetable TRAPFRAME trapframe (of_nat PGSIZE) (PTE_R OR PTE_W) s) (\<lambda>s.
             Inr (pagetable, s))))"

definition proc_free :: "nat \<Rightarrow> 'a kst_scheme \<Rightarrow> 'a kst_scheme kres" where
  "proc_free i s =
     kbind (if tf (procs s i) \<noteq> 0 then pmem_free (tf (procs s i)) s else Inr s) (\<lambda>s.
     let s = set_proc i (\<lambda>p. p\<lparr>tf := 0\<rparr>) s
     in kbind (if pgtbl (procs s i) \<noteq> 0 then uvm_destroy_pgtbl (pgtbl (procs s i)) s else Inr s) (\<lambda>s.
        Inr (set_proc i (\<lambda>p. p\<lparr>pgtbl := 0, ustack_pages := 0, parent := None, sleep_space := None, killed := False,
          xstate := 0, pstate := UNUSED, priority := PRIORITY_DEFAULT, priority_boost := 0\<rparr>) s)))"

text \<open>The search of \<^verbatim>\<open>proc_alloc\<close> from index \<open>i\<close> with \<open>k\<close> slots left; it returns with the lock of the slot held.\<close>

fun proc_alloc_scan :: "nat \<Rightarrow> nat \<Rightarrow> 'a kst_scheme \<Rightarrow> (nat option \<times> 'a kst_scheme) kres" where
  "proc_alloc_scan 0 i s = Inr (None, s)"
| "proc_alloc_scan (Suc k) i s =
     kbind (plock i s) (\<lambda>s.
     if pstate (procs s i) = UNUSED then Inr (Some i, s)
     else kbind (punlock i s) (proc_alloc_scan k (Suc i)))"

definition proc_alloc :: "'a kst_scheme \<Rightarrow> (nat option \<times> 'a kst_scheme) kres" where
  "proc_alloc s =
     kbind (proc_alloc_scan NPROC 0 s) (\<lambda>(r, s).
     case r of
       None \<Rightarrow> Inr (None, s)
     | Some i \<Rightarrow>
         kbind (allocpid s) (\<lambda>(n, s).
         let s = set_proc i (\<lambda>p. p\<lparr>pid := n, priority := PRIORITY_DEFAULT, priority_boost := 0, pstate := RUNNABLE\<rparr>) s
         in kbind (pmem_alloc s) (\<lambda>(t, s).
            let s = set_proc i (\<lambda>p. p\<lparr>tf := t\<rparr>) s
            in if t = 0 then kbind (proc_free i s) (\<lambda>s. kbind (punlock i s) (\<lambda>s. Inr (None, s)))
               else kbind (proc_pgtbl_init t s) (\<lambda>(pt, s).
                 let s = set_proc i (\<lambda>p. p\<lparr>pgtbl := pt\<rparr>) s
                 in if pt = 0 then kbind (proc_free i s) (\<lambda>s. kbind (punlock i s) (\<lambda>s. Inr (None, s)))
                    else Inr (Some i, set_proc i (\<lambda>p. p\<lparr>pctx := zero_ctx\<lparr>ctx_ra := fork_return_addr (ksym s),
                      ctx_sp := kstack p + of_nat PGSIZE\<rparr>\<rparr>) s)))))"

definition proc_init :: "'a kst_scheme \<Rightarrow> 'a kst_scheme" where
  "proc_init s =
     fold (\<lambda>i. set_proc i (\<lambda>p. p\<lparr>plk := spinlock_init ''proc'', pstate := UNUSED, kstack := KSTACK i,
         priority := PRIORITY_DEFAULT, priority_boost := 0\<rparr>)) [0..<NPROC]
       (s\<lparr>pid_lock := spinlock_init ''nextpid'', wait_lock := spinlock_init ''wait_lock''\<rparr>)"

text \<open>Fields of the trap frame, by their offset in the page.\<close>

definition TF_kernel_satp :: uint64 where [layout]: "TF_kernel_satp = 0"
definition TF_kernel_sp :: uint64 where [layout]: "TF_kernel_sp = 8"
definition TF_kernel_trap :: uint64 where [layout]: "TF_kernel_trap = 16"
definition TF_epc :: uint64 where [layout]: "TF_epc = 24"
definition TF_kernel_hartid :: uint64 where [layout]: "TF_kernel_hartid = 32"
definition TF_sp :: uint64 where [layout]: "TF_sp = 48"
definition TF_a0 :: uint64 where [layout]: "TF_a0 = 112"
definition TF_a7 :: uint64 where [layout]: "TF_a7 = 168"
definition TF_SIZE :: nat where [layout]: "TF_SIZE = 288"

definition tf_get :: "nat \<Rightarrow> uint64 \<Rightarrow> 'a kst_scheme \<Rightarrow> uint64" where
  "tf_get i off s = load64 (kmem s) (tf (procs s i) + off)"

definition tf_set :: "nat \<Rightarrow> uint64 \<Rightarrow> uint64 \<Rightarrow> 'a kst_scheme \<Rightarrow> 'a kst_scheme" where
  "tf_set i off v s = s\<lparr>kmem := store64 (kmem s) (tf (procs s i) + off) v\<rparr>"

definition proc_create :: "uint64 \<Rightarrow> 'a kst_scheme \<Rightarrow> (int \<times> 'a kst_scheme) kres" where
  "proc_create entry s =
     kbind (proc_alloc s) (\<lambda>(r, s).
     kbind (pmem_alloc s) (\<lambda>(ustack_phys, s).
     case r of
       None \<Rightarrow> Inl (Undef ''proc_create'')
     | Some i \<Rightarrow>
         kbind (vm_mappages (pgtbl (procs s i)) (kstack (procs s i) - of_nat PGSIZE) ustack_phys (of_nat PGSIZE)
           (PTE_R OR PTE_W OR PTE_U) s) (\<lambda>s.
         kbind (pmem_alloc s) (\<lambda>(mem, s).
         let s = s\<lparr>kmem := memset (kmem s) mem 0 (of_nat PGSIZE)\<rparr>
         in kbind (vm_mappages (pgtbl (procs s i)) 0 mem (of_nat PGSIZE) (PTE_W OR PTE_R OR PTE_X OR PTE_U) s) (\<lambda>s.
            let s = s\<lparr>kmem := memmove (kmem s) mem entry (of_nat PGSIZE)\<rparr>;
                s = set_proc i (\<lambda>p. p\<lparr>ustack_pages := 1, heap_top := of_nat PGSIZE\<rparr>) s;
                s = tf_set i TF_sp (of_nat PGSIZE) (tf_set i TF_epc 0 s);
                s = set_proc i (\<lambda>p. p\<lparr>pstate := RUNNABLE\<rparr>) s
            in kbind (punlock i s) (\<lambda>s. Inr (pid (procs s i), s)))))))"

text \<open>The loop of \<^verbatim>\<open>proc_make_first\<close> that maps and fills the pages of the first program.\<close>

fun make_first_loop :: "nat \<Rightarrow> nat \<Rightarrow> uint64 \<Rightarrow> 'a kst_scheme \<Rightarrow> 'a kst_scheme kres" where
  "make_first_loop 0 i addr s = Inl (Spin ''proc_make_first'')"
| "make_first_loop (Suc fuel) i addr s =
     (if \<not> addr < user_initcode_len (ksym s) then Inr s
      else kbind (pmem_alloc s) (\<lambda>(mem, s).
        if mem = 0 then Inl (Panic ''proc_make_first: pmem_alloc failed'')
        else let s = s\<lparr>kmem := memset (kmem s) mem 0 (of_nat PGSIZE)\<rparr>;
                 remaining = user_initcode_len (ksym s) - addr;
                 copy_size = (if remaining > of_nat PGSIZE then of_nat PGSIZE else remaining)
             in kbind (vm_mappages (pgtbl (procs s i)) addr mem (of_nat PGSIZE) (PTE_W OR PTE_R OR PTE_X OR PTE_U) s) (\<lambda>s.
                let s = s\<lparr>kmem := memmove (kmem s) mem (user_initcode (ksym s) + addr) (ucast copy_size)\<rparr>
                in make_first_loop fuel i (addr + of_nat PGSIZE)
                     (set_proc i (\<lambda>p. p\<lparr>ustack_pages := ustack_pages p + 1\<rparr>) s))))"

definition proc_make_first :: "'a kst_scheme \<Rightarrow> 'a kst_scheme kres" where
  "proc_make_first s =
     kbind (proc_alloc s) (\<lambda>(r, s).
     let s = s\<lparr>proczero := r\<rparr>
     in case r of
          None \<Rightarrow> Inl (Undef ''proc_make_first'')
        | Some i \<Rightarrow>
            let s = set_proc i (\<lambda>p. p\<lparr>pid := 0, kstack := KSTACK 0\<rparr>) s
            in kbind (pmem_alloc s) (\<lambda>(ustack_phys, s).
               kbind (vm_mappages (pgtbl (procs s i)) (kstack (procs s i) - of_nat PGSIZE) ustack_phys (of_nat PGSIZE)
                 (PTE_R OR PTE_W OR PTE_U) s) (\<lambda>s.
               let s = set_proc i (\<lambda>p. p\<lparr>ustack_pages := 0\<rparr>) s
               in kbind (make_first_loop (Suc (Suc (unat (user_initcode_len (ksym s)) div PGSIZE))) i 0 s) (\<lambda>s.
                  let s = set_proc i (\<lambda>p. p\<lparr>heap_top := ustack_pages p * of_nat PGSIZE\<rparr>) s;
                      s = tf_set i TF_sp (ustack_pages (procs s i) * of_nat PGSIZE) (tf_set i TF_epc 0 s);
                      s = set_proc i (\<lambda>p. p\<lparr>pstate := RUNNABLE\<rparr>) s
                  in punlock i s))))"

section \<open>Switching and scheduling\<close>

definition proc_killed :: "nat \<Rightarrow> 'a kst_scheme \<Rightarrow> (bool \<times> 'a kst_scheme) kres" where
  "proc_killed i s =
     kbind (plock i s) (\<lambda>s. let k = killed (procs s i) in kbind (punlock i s) (\<lambda>s. Inr (k, s)))"

definition proc_setkilled :: "nat \<Rightarrow> 'a kst_scheme \<Rightarrow> 'a kst_scheme kres" where
  "proc_setkilled i s = kbind (plock i s) (\<lambda>s. punlock i (set_proc i (\<lambda>p. p\<lparr>killed := True\<rparr>) s))"

text \<open>\<^verbatim>\<open>proc_sched\<close> up to and including \<^verbatim>\<open>swtch\<close>, which saves the registers of the process and
  continues with those of the scheduler; and the part after it.\<close>

definition proc_sched_out :: "context_t \<Rightarrow> 'a kst_scheme \<Rightarrow> (context_t \<times> 'a kst_scheme) kres" where
  "proc_sched_out regs s =
     kbind (cur s) (\<lambda>(i, s).
     kguard (spinlock_holding (plk (procs s i)) (khart s)) (Panic ''sched p->lk'')
     (kguard (noff (mycpu (khart s)) = 1) (Panic ''sched locks'')
     (kguard (pstate (procs s i) \<noteq> RUNNING) (Panic ''sched running'')
     (kguard (\<not> intr_get (khart s)) (Panic ''sched interruptible'')
     (let s = s\<lparr>korigin := (korigin s)(i := origin (mycpu (khart s)))\<rparr>
      in Inr (cpu_ctx (mycpu (khart s)), set_proc i (\<lambda>p. p\<lparr>pctx := regs\<rparr>) s))))))"

definition proc_sched_in :: "nat \<Rightarrow> 'a kst_scheme \<Rightarrow> 'a kst_scheme" where
  "proc_sched_in i s = s\<lparr>khart := set_mycpu ((mycpu (khart s))\<lparr>origin := korigin s i\<rparr>) (khart s)\<rparr>"

definition proc_yield_out :: "context_t \<Rightarrow> 'a kst_scheme \<Rightarrow> (context_t \<times> 'a kst_scheme) kres" where
  "proc_yield_out regs s =
     kbind (cur s) (\<lambda>(i, s).
     kbind (plock i s) (\<lambda>s. proc_sched_out regs (set_proc i (\<lambda>p. p\<lparr>pstate := RUNNABLE\<rparr>) s)))"

definition proc_yield_in :: "nat \<Rightarrow> 'a kst_scheme \<Rightarrow> 'a kst_scheme kres" where
  "proc_yield_in i s = punlock i (proc_sched_in i s)"

definition effective_priority :: "proc \<Rightarrow> int" where
  "effective_priority p =
     (let eff = priority p + priority_boost p in if eff > PRIORITY_MAX then PRIORITY_MAX else eff)"

definition boost_one :: "nat option \<Rightarrow> nat \<Rightarrow> (nat \<Rightarrow> proc) \<Rightarrow> (nat \<Rightarrow> proc)" where
  "boost_one last_run idx ps =
     (if Some idx = last_run then ps
      else if pstate (ps idx) \<noteq> RUNNABLE then ps
      else let max_boost = PRIORITY_MAX - priority (ps idx)
           in if priority_boost (ps idx) < max_boost
              then ps(idx := (ps idx)\<lparr>priority_boost := priority_boost (ps idx) + 1\<rparr>) else ps)"

definition boost_waiting_processes :: "nat option \<Rightarrow> 'a kst_scheme \<Rightarrow> 'a kst_scheme" where
  "boost_waiting_processes last_run s = s\<lparr>procs := fold (boost_one last_run) [0..<NPROC] (procs s)\<rparr>"

text \<open>The scan of the scheduler from slot \<open>i\<close> with \<open>k\<close> slots left.\<close>

fun sched_scan :: "nat \<Rightarrow> nat \<Rightarrow> nat option \<Rightarrow> int \<Rightarrow> 'a kst_scheme \<Rightarrow> (nat option \<times> 'a kst_scheme) kres" where
  "sched_scan 0 i chosen best s = Inr (chosen, s)"
| "sched_scan (Suc k) i chosen best s =
     kbind (plock i s) (\<lambda>s.
     if pstate (procs s i) \<noteq> RUNNABLE then kbind (punlock i s) (sched_scan k (Suc i) chosen best)
     else let eff = effective_priority (procs s i);
              better = (case chosen of None \<Rightarrow> True
                | Some c \<Rightarrow> eff > best \<or> (eff = best \<and> pid (procs s i) < pid (procs s c)));
              chosen = (if better then Some i else chosen);
              best = (if better then eff else best)
          in kbind (punlock i s) (sched_scan k (Suc i) chosen best))"

text \<open>One round of \<^verbatim>\<open>proc_scheduler\<close> up to the switch to the chosen process (\<open>None\<close>: no process is
  runnable and the hart waits for an interrupt), and the part after the process switched back.\<close>

definition sched_enter :: "context_t \<Rightarrow> 'a kst_scheme \<Rightarrow> (nat option \<times> 'a kst_scheme) kres" where
  "sched_enter regs s =
     kbind (sched_scan NPROC 0 None (PRIORITY_MIN - 1) (s\<lparr>khart := intr_on (khart s)\<rparr>)) (\<lambda>(chosen, s).
     case chosen of
       None \<Rightarrow> Inr (None, s)
     | Some c \<Rightarrow>
         kbind (plock c s) (\<lambda>s.
         let s = set_proc c (\<lambda>p. p\<lparr>pstate := RUNNING, priority_boost := 0\<rparr>) s
         in Inr (Some c, s\<lparr>khart := set_mycpu ((mycpu (khart s))\<lparr>cpu_proc := Some c, cpu_ctx := regs\<rparr>) (khart s)\<rparr>)))"

definition sched_leave :: "nat \<Rightarrow> 'a kst_scheme \<Rightarrow> 'a kst_scheme kres" where
  "sched_leave c s =
     kbind (myproc_s s) (\<lambda>(last_run, s).
     let s = s\<lparr>khart := set_mycpu ((mycpu (khart s))\<lparr>cpu_proc := None\<rparr>) (khart s)\<rparr>
     in kbind (punlock c s) (\<lambda>s. Inr (boost_waiting_processes last_run s)))"

text \<open>\<^verbatim>\<open>fork_return\<close> releases the lock that the scheduler took; \<^verbatim>\<open>trap_user_return\<close> follows.\<close>

definition fork_return :: "'a kst_scheme \<Rightarrow> 'a kst_scheme kres" where
  "fork_return s = kbind (cur s) (\<lambda>(i, s). punlock i s)"

section \<open>Sleeping and waking\<close>

definition proc_sleep_out :: "chan \<Rightarrow> ('a kst_scheme \<Rightarrow> 'a kst_scheme kres) \<Rightarrow> context_t \<Rightarrow> 'a kst_scheme \<Rightarrow>
    (context_t \<times> 'a kst_scheme) kres" where
  "proc_sleep_out space unlk regs s =
     kbind (cur s) (\<lambda>(i, s).
     kbind (plock i s) (\<lambda>s.
     kbind (unlk s) (\<lambda>s.
     proc_sched_out regs (set_proc i (\<lambda>p. p\<lparr>sleep_space := Some space, pstate := SLEEPING\<rparr>) s))))"

definition proc_sleep_in :: "nat \<Rightarrow> ('a kst_scheme \<Rightarrow> 'a kst_scheme kres) \<Rightarrow> 'a kst_scheme \<Rightarrow> 'a kst_scheme kres" where
  "proc_sleep_in i relk s =
     (let s = set_proc i (\<lambda>p. p\<lparr>sleep_space := None\<rparr>) (proc_sched_in i s)
      in kbind (punlock i s) relk)"

definition proc_wakeup :: "chan \<Rightarrow> 'a kst_scheme \<Rightarrow> 'a kst_scheme kres" where
  "proc_wakeup space s =
     kfold (\<lambda>i s. kbind (myproc_s s) (\<lambda>(me, s).
       if Some i \<noteq> me then
         kbind (plock i s) (\<lambda>s.
         let s = (if pstate (procs s i) = SLEEPING \<and> sleep_space (procs s i) = Some space
                  then set_proc i (\<lambda>p. p\<lparr>pstate := RUNNABLE\<rparr>) s else s)
         in punlock i s)
       else Inr s)) [0..<NPROC] s"

definition proc_wakeup_one :: "nat option \<Rightarrow> 'a kst_scheme \<Rightarrow> 'a kst_scheme kres" where
  "proc_wakeup_one q s =
     (case q of
        None \<Rightarrow> Inl (Undef ''proc_wakeup_one'')
      | Some i \<Rightarrow>
          kguard (\<not> spinlock_holding (plk (procs s i)) (khart s)) (Panic ''proc_wakeup_one: lock'')
           (Inr (if pstate (procs s i) = SLEEPING \<and> sleep_space (procs s i) = Some (ProcChan i)
                 then set_proc i (\<lambda>p. p\<lparr>pstate := RUNNABLE\<rparr>) s else s)))"

section \<open>Fork, exit and wait\<close>

definition proc_fork :: "'a kst_scheme \<Rightarrow> (int \<times> 'a kst_scheme) kres" where
  "proc_fork s =
     kbind (cur s) (\<lambda>(i, s).
     kbind (proc_alloc s) (\<lambda>(r, s).
     case r of
       None \<Rightarrow> Inr (-1, s)
     | Some n \<Rightarrow>
         kbind (uvm_copy_pgtbl (pgtbl (procs s i)) (pgtbl (procs s n)) (heap_top (procs s i)) s) (\<lambda>s.
         let s = set_proc n (\<lambda>p. p\<lparr>ustack_pages := ustack_pages (procs s i)\<rparr>) s;
             s = s\<lparr>kmem := memmove (kmem s) (tf (procs s n)) (tf (procs s i)) (of_nat TF_SIZE)\<rparr>;
             s = tf_set n TF_a0 0 s
         in kbind (kfold (\<lambda>fd s.
                case ofile (procs s i) fd of
                  None \<Rightarrow> Inr s
                | Some f \<Rightarrow>
                    kbind (lift_fs (file_dup f) s) (\<lambda>s.
                    Inr (set_proc n (\<lambda>p. p\<lparr>ofile := (ofile p)(fd := Some f)\<rparr>) s))) [0..<NOFILE] s) (\<lambda>s.
            let npid = pid (procs s n)
            in kbind (punlock n s) (\<lambda>s.
               kbind (wlock s) (\<lambda>s.
               let s = set_proc n (\<lambda>p. p\<lparr>parent := Some i, priority := priority (procs s i),
                   priority_boost := priority_boost (procs s i)\<rparr>) s
               in kbind (wunlock s) (\<lambda>s.
                  kbind (plock n s) (\<lambda>s.
                  kbind (punlock n (set_proc n (\<lambda>p. p\<lparr>pstate := RUNNABLE\<rparr>) s)) (\<lambda>s. Inr (npid, s))))))))))"

definition proc_reparent :: "nat \<Rightarrow> 'a kst_scheme \<Rightarrow> 'a kst_scheme kres" where
  "proc_reparent q s =
     kfold (\<lambda>i s.
       if parent (procs s i) = Some q
       then proc_wakeup_one (proczero s) (set_proc i (\<lambda>p. p\<lparr>parent := proczero s\<rparr>) s)
       else Inr s) [0..<NPROC] s"

text \<open>\<^verbatim>\<open>proc_exit\<close> ends in the scheduler.\<close>

definition proc_exit :: "int \<Rightarrow> context_t \<Rightarrow> 'a kst_scheme \<Rightarrow> (context_t \<times> 'a kst_scheme) kres" where
  "proc_exit exit_state regs s =
     kbind (cur s) (\<lambda>(i, s).
     kguard (Some i \<noteq> proczero s) (Panic ''init exiting'')
     (kbind (kfold (\<lambda>fd s.
          case ofile (procs s i) fd of
            None \<Rightarrow> Inr s
          | Some f \<Rightarrow>
              kbind (lift_fs (file_close f) s) (\<lambda>s.
              Inr (set_proc i (\<lambda>p. p\<lparr>ofile := (ofile p)(fd := None)\<rparr>) s))) [0..<NOFILE] s) (\<lambda>s.
      kbind (wlock s) (\<lambda>s.
      kbind (proc_reparent i s) (\<lambda>s.
      kbind (proc_wakeup_one (parent (procs s i)) s) (\<lambda>s.
      kbind (plock i s) (\<lambda>s.
      let s = set_proc i (\<lambda>p. p\<lparr>xstate := exit_state, pstate := ZOMBIE\<rparr>) s
      in kbind (wunlock s) (proc_sched_out regs))))))))"

text \<open>The exit status is copied from the \<^verbatim>\<open>xstate\<close> field in the process table.\<close>

definition copyout_xstate :: "uint64 \<Rightarrow> uint64 \<Rightarrow> nat \<Rightarrow> 'a kst_scheme \<Rightarrow> 'a kst_scheme kres" where
  "copyout_xstate pt addr i s =
     (let src = xstate_addr (ksym s) i; v = word_of_int (xstate (procs s i)) :: uint32;
          m = (\<lambda>x. if unat (x - src) < 4 then ucast (drop_bit (8 * unat (x - src)) v) else kmem s x)
      in kbind (uvm_copyout pt addr src 4 (s\<lparr>kmem := m\<rparr>)) (\<lambda>(_, s). Inr s))"

text \<open>One scan of \<^verbatim>\<open>proc_wait\<close>: the pid of a child that has exited, or whether there are children.\<close>

fun wait_scan :: "nat \<Rightarrow> nat \<Rightarrow> nat \<Rightarrow> uint64 \<Rightarrow> bool \<Rightarrow> 'a kst_scheme \<Rightarrow> (int option \<times> bool \<times> 'a kst_scheme) kres" where
  "wait_scan 0 i me addr havekids s = Inr (None, havekids, s)"
| "wait_scan (Suc k) i me addr havekids s =
     (if parent (procs s i) = Some me then
        kbind (plock i s) (\<lambda>s.
        if pstate (procs s i) = ZOMBIE then
          let n = pid (procs s i)
          in kbind (if addr \<noteq> 0 then copyout_xstate (pgtbl (procs s me)) addr i s else Inr s) (\<lambda>s.
             kbind (proc_free i s) (\<lambda>s.
             kbind (punlock i s) (\<lambda>s.
             kbind (wunlock s) (\<lambda>s. Inr (Some n, True, s)))))
        else kbind (punlock i s) (wait_scan k (Suc i) me addr True))
      else wait_scan k (Suc i) me addr havekids s)"

text \<open>The body of its \<^verbatim>\<open>for(;;)\<close>: it returns a value, or the process goes to sleep.\<close>

definition wait_round :: "nat \<Rightarrow> uint64 \<Rightarrow> context_t \<Rightarrow> 'a kst_scheme \<Rightarrow> ((int + context_t) \<times> 'a kst_scheme) kres" where
  "wait_round me addr regs s =
     kbind (wait_scan NPROC 0 me addr False s) (\<lambda>(r, havekids, s).
     case r of
       Some n \<Rightarrow> Inr (Inl n, s)
     | None \<Rightarrow>
         kbind (if \<not> havekids then Inr (True, s) else proc_killed me s) (\<lambda>(stop, s).
         if stop then kbind (wunlock s) (\<lambda>s. Inr (Inl (-1), s))
         else kbind (proc_sleep_out (ProcChan me) wunlock regs s) (\<lambda>(c, s). Inr (Inr c, s))))"

definition proc_wait :: "uint64 \<Rightarrow> context_t \<Rightarrow> 'a kst_scheme \<Rightarrow> ((int + context_t) \<times> 'a kst_scheme) kres" where
  "proc_wait addr regs s = kbind (cur s) (\<lambda>(me, s). kbind (wlock s) (wait_round me addr regs))"

definition proc_wait_resume :: "nat \<Rightarrow> uint64 \<Rightarrow> context_t \<Rightarrow> 'a kst_scheme \<Rightarrow> ((int + context_t) \<times> 'a kst_scheme) kres" where
  "proc_wait_resume me addr regs s = kbind (proc_sleep_in me wlock s) (wait_round me addr regs)"

text \<open>\<^verbatim>\<open>proc_kill\<close> from slot \<open>i\<close> with \<open>k\<close> slots left.\<close>

fun kill_scan :: "nat \<Rightarrow> nat \<Rightarrow> int \<Rightarrow> 'a kst_scheme \<Rightarrow> (int \<times> 'a kst_scheme) kres" where
  "kill_scan 0 i n s = Inr (-1, s)"
| "kill_scan (Suc k) i n s =
     kbind (plock i s) (\<lambda>s.
     if pid (procs s i) = n then
       let s = set_proc i (\<lambda>p. p\<lparr>killed := True, pstate := if pstate p = SLEEPING then RUNNABLE else pstate p\<rparr>) s
       in kbind (punlock i s) (\<lambda>s. Inr (0, s))
     else kbind (punlock i s) (kill_scan k (Suc i) n))"

definition proc_kill :: "int \<Rightarrow> 'a kst_scheme \<Rightarrow> (int \<times> 'a kst_scheme) kres" where
  "proc_kill n s = kill_scan NPROC 0 n s"

definition proc_set_priority :: "int \<Rightarrow> 'a kst_scheme \<Rightarrow> (int \<times> 'a kst_scheme) kres" where
  "proc_set_priority prio s =
     (if prio < PRIORITY_MIN \<or> prio > PRIORITY_MAX then Inr (-1, s)
      else kbind (myproc_s s) (\<lambda>(me, s).
        case me of
          None \<Rightarrow> Inr (-1, s)
        | Some i \<Rightarrow> Inr (0, set_proc i (\<lambda>p. p\<lparr>priority := prio, priority_boost := 0\<rparr>) s)))"

definition proc_get_priority :: "'a kst_scheme \<Rightarrow> (int \<times> 'a kst_scheme) kres" where
  "proc_get_priority s =
     kbind (myproc_s s) (\<lambda>(me, s). Inr (case me of None \<Rightarrow> -1 | Some i \<Rightarrow> priority (procs s i), s))"

section \<open>The user heap\<close>

definition uvm_heap_ungrow :: "uint64 \<Rightarrow> uint64 \<Rightarrow> uint32 \<Rightarrow> 'a kst_scheme \<Rightarrow> (uint64 \<times> 'a kst_scheme) kres" where
  "uvm_heap_ungrow pt heap len s =
     (let new_heap_top = heap - ucast len
      in kbind (vm_unmappages pt new_heap_top (ucast len) True s) (\<lambda>s.
         kbind (cur s) (\<lambda>(i, s). Inr (new_heap_top, set_proc i (\<lambda>p. p\<lparr>heap_top := new_heap_top\<rparr>) s))))"

text \<open>The loop of \<^verbatim>\<open>uvm_heap_grow\<close>; the flag tells whether it ran to its end.\<close>

fun heap_grow_loop :: "nat \<Rightarrow> uint64 \<Rightarrow> uint64 \<Rightarrow> uint64 \<Rightarrow> uint64 \<Rightarrow> 'a kst_scheme \<Rightarrow> (bool \<times> 'a kst_scheme) kres" where
  "heap_grow_loop 0 pt heap a lim s = Inl (Spin ''uvm_heap_grow'')"
| "heap_grow_loop (Suc fuel) pt heap a lim s =
     (if \<not> a < lim then Inr (True, s)
      else kbind (pmem_alloc s) (\<lambda>(mem, s).
        if mem = 0 then kbind (uvm_heap_ungrow pt a (ucast (a - heap)) s) (\<lambda>(_, s). Inr (False, s))
        else let s = s\<lparr>kmem := memset (kmem s) mem 0 (of_nat PGSIZE)\<rparr>
             in kbind (vm_mappages pt a mem (of_nat PGSIZE) (PTE_W OR PTE_R OR PTE_U) s)
                  (heap_grow_loop fuel pt heap (a + of_nat PGSIZE) lim)))"

definition uvm_heap_grow :: "uint64 \<Rightarrow> uint64 \<Rightarrow> uint32 \<Rightarrow> 'a kst_scheme \<Rightarrow> (uint64 \<times> 'a kst_scheme) kres" where
  "uvm_heap_grow pt heap len s =
     (let heap = PG_ROUND_UP heap; new_heap_top = heap + ucast len
      in kbind (heap_grow_loop (Suc (Suc (unat len div PGSIZE))) pt heap heap new_heap_top s) (\<lambda>(ok, s).
         if \<not> ok then Inr (-1, s)
         else kbind (cur s) (\<lambda>(i, s). Inr (new_heap_top, set_proc i (\<lambda>p. p\<lparr>heap_top := new_heap_top\<rparr>) s))))"

section \<open>Sleep locks\<close>

record sleeplock =
  slocked :: bool
  slk :: spinlock
  sname :: string
  spid :: int

definition sleeplock_init :: "string \<Rightarrow> sleeplock" where
  "sleeplock_init name = \<lparr>slocked = False, slk = spinlock_init ''sleep lock'', sname = name, spid = -1\<rparr>"

text \<open>A sleep lock in a state that extends the kernel state by the lock with identity \<open>n\<close>.\<close>

record lkst = kst +
  slks :: "nat \<Rightarrow> sleeplock"

definition set_slk :: "nat \<Rightarrow> (sleeplock \<Rightarrow> sleeplock) \<Rightarrow> 'a lkst_scheme \<Rightarrow> 'a lkst_scheme" where
  "set_slk n f s = s\<lparr>slks := (slks s)(n := f (slks s n))\<rparr>"

definition slk_lock :: "nat \<Rightarrow> 'a lkst_scheme \<Rightarrow> 'a lkst_scheme kres" where
  "slk_lock n s = kbind (spinlock_acquire (slk (slks s n)) (khart s)) (\<lambda>(lk, h).
     Inr (set_slk n (\<lambda>x. x\<lparr>slk := lk\<rparr>) (s\<lparr>khart := h\<rparr>)))"

definition slk_unlock :: "nat \<Rightarrow> 'a lkst_scheme \<Rightarrow> 'a lkst_scheme kres" where
  "slk_unlock n s = kbind (spinlock_release (slk (slks s n)) (khart s)) (\<lambda>(lk, h).
     Inr (set_slk n (\<lambda>x. x\<lparr>slk := lk\<rparr>) (s\<lparr>khart := h\<rparr>)))"

text \<open>The loop of \<^verbatim>\<open>sleeplock_acquire\<close> with the spin lock held: take the lock, or sleep on it.\<close>

definition sleeplock_round :: "nat \<Rightarrow> context_t \<Rightarrow> 'a lkst_scheme \<Rightarrow> (context_t option \<times> 'a lkst_scheme) kres" where
  "sleeplock_round n regs s =
     (if slocked (slks s n)
      then kbind (proc_sleep_out (LockChan n) (slk_unlock n) regs s) (\<lambda>(c, s). Inr (Some c, s))
      else let s = set_slk n (\<lambda>x. x\<lparr>slocked := True\<rparr>) s
           in kbind (cur s) (\<lambda>(i, s).
              kbind (slk_unlock n (set_slk n (\<lambda>x. x\<lparr>spid := pid (procs s i)\<rparr>) s)) (\<lambda>s. Inr (None, s))))"

definition sleeplock_acquire :: "nat \<Rightarrow> context_t \<Rightarrow> 'a lkst_scheme \<Rightarrow> (context_t option \<times> 'a lkst_scheme) kres" where
  "sleeplock_acquire n regs s = kbind (slk_lock n s) (sleeplock_round n regs)"

definition sleeplock_resume :: "nat \<Rightarrow> nat \<Rightarrow> context_t \<Rightarrow> 'a lkst_scheme \<Rightarrow> (context_t option \<times> 'a lkst_scheme) kres" where
  "sleeplock_resume n i regs s = kbind (proc_sleep_in i (slk_lock n) s) (sleeplock_round n regs)"

definition sleeplock_release :: "nat \<Rightarrow> 'a lkst_scheme \<Rightarrow> 'a lkst_scheme kres" where
  "sleeplock_release n s =
     kbind (slk_lock n s) (\<lambda>s.
     kbind (proc_wakeup (LockChan n) (set_slk n (\<lambda>x. x\<lparr>slocked := False, spid := -1\<rparr>) s)) (slk_unlock n))"

definition sleeplock_holding :: "nat \<Rightarrow> 'a lkst_scheme \<Rightarrow> (bool \<times> 'a lkst_scheme) kres" where
  "sleeplock_holding n s =
     kbind (slk_lock n s) (\<lambda>s.
     kbind (if slocked (slks s n) then kbind (cur s) (\<lambda>(i, s). Inr (spid (slks s n) = pid (procs s i), s)) else Inr (False, s))
       (\<lambda>(r, s). kbind (slk_unlock n s) (\<lambda>s. Inr (r, s))))"

section \<open>Critical sections\<close>

definition idle :: "spinlock \<Rightarrow> bool" where
  "idle lk \<longleftrightarrow> \<not> locked lk \<and> cpuid lk = -1"

lemma idle_unlocked: "idle lk \<Longrightarrow> unlocked lk = lk"
  by (cases lk) (simp add: idle_def unlocked_def)

lemma idle_not_locked: "idle lk \<Longrightarrow> \<not> locked lk"
  by (simp add: idle_def)

text \<open>No lock of the process table is held.\<close>

definition quiet :: "'a kst_scheme \<Rightarrow> bool" where
  "quiet s \<longleftrightarrow> (\<forall>i < NPROC. idle (plk (procs s i))) \<and> cpu_ok (khart s)"

abbreviation hdone :: "'a kst_scheme \<Rightarrow> 'a kst_scheme" where
  "hdone s \<equiv> s\<lparr>khart := section_done (khart s)\<rparr>"

text \<open>\<open>held i s\<close> is the state inside a critical section of the lock of process \<open>i\<close>.\<close>

definition held :: "nat \<Rightarrow> 'a kst_scheme \<Rightarrow> 'a kst_scheme" where
  "held i s = set_proc i (\<lambda>p. p\<lparr>plk := (plk p)\<lparr>locked := True, cpuid := mycpuid (khart s)\<rparr>\<rparr>)
     (s\<lparr>khart := push_off (khart s)\<rparr>)"

lemma plock_idle: "idle (plk (procs s i)) \<Longrightarrow> plock i s = Inr (held i s)"
  by (simp add: plock_def held_def spinlock_acquire_free idle_not_locked set_proc_def)

lemma held_simps [simp]:
  "pstate (procs (held i s) j) = pstate (procs s j)" "pid (procs (held i s) j) = pid (procs s j)"
  "priority (procs (held i s) j) = priority (procs s j)"
  "priority_boost (procs (held i s) j) = priority_boost (procs s j)"
  "sleep_space (procs (held i s) j) = sleep_space (procs s j)" "killed (procs (held i s) j) = killed (procs s j)"
  by (simp_all add: held_def set_proc_def)

text \<open>A critical section that updates the process and keeps its lock.\<close>

lemma punlock_held:
  assumes "idle (plk (procs s i))" and "cpu_ok (khart s)" and "\<And>p. plk (f p) = plk p" "\<And>p x. f (p\<lparr>plk := x\<rparr>) = (f p)\<lparr>plk := x\<rparr>"
  shows "punlock i (set_proc i f (held i s)) = Inr (hdone (set_proc i f s))"
proof -
  have u: "unlocked (plk (procs s i)) = plk (procs s i)" using assms(1) by (rule idle_unlocked)
  have e: "(f p)\<lparr>plk := plk p\<rparr> = f p" for p by (subst assms(3) [symmetric]) simp
  show ?thesis
    using spinlock_release_acquired [OF assms(2), of "plk (procs s i)"] u
    by (simp add: punlock_def held_def set_proc_def assms(3,4) e)
qed

lemma punlock_held_id:
  assumes "idle (plk (procs s i))" and "cpu_ok (khart s)"
  shows "punlock i (held i s) = Inr (hdone s)"
  using punlock_held [OF assms, of "\<lambda>p. p"] by (simp add: set_proc_def)

lemma quiet_simps [simp]:
  "quiet (hdone s) = quiet s"
  "(\<And>p. plk (f p) = plk p) \<Longrightarrow> quiet (set_proc i f s) = quiet s"
  by (auto simp: quiet_def set_proc_def)

lemma quietD: "quiet s \<Longrightarrow> i < NPROC \<Longrightarrow> idle (plk (procs s i))" "quiet s \<Longrightarrow> cpu_ok (khart s)"
  by (simp_all add: quiet_def)

section \<open>The scan of the scheduler\<close>

text \<open>The choice as a function of the process table.\<close>

definition better :: "proc \<Rightarrow> proc \<Rightarrow> bool" where
  "better p q \<longleftrightarrow> effective_priority p > effective_priority q \<or>
     (effective_priority p = effective_priority q \<and> pid p < pid q)"

fun pick :: "nat \<Rightarrow> nat \<Rightarrow> nat option \<Rightarrow> (nat \<Rightarrow> proc) \<Rightarrow> nat option" where
  "pick 0 i c ps = c"
| "pick (Suc k) i c ps =
     pick k (Suc i) (if pstate (ps i) = RUNNABLE \<and> (case c of None \<Rightarrow> True | Some d \<Rightarrow> better (ps i) (ps d))
       then Some i else c) ps"

lemma sched_scan_pick:
  assumes "quiet s" and "i + k \<le> NPROC" and "\<And>d. c = Some d \<Longrightarrow> best = effective_priority (procs s d)"
  shows "sched_scan k i c best s = Inr (pick k i c (procs s), if k = 0 then s else hdone s)"
  using assms
proof (induction k arbitrary: i c best s)
  case 0
  then show ?case by simp
next
  case (Suc k)
  note q = quietD(1) [OF Suc.prems(1), of i] and ok = quietD(2) [OF Suc.prems(1)]
  have i: "i < NPROC" using Suc.prems(2) by simp
  have eff: "effective_priority (procs (held i s) i) = effective_priority (procs s i)"
    by (simp add: effective_priority_def)
  have b: "(case c of None \<Rightarrow> True | Some d \<Rightarrow> best < effective_priority (procs s i) \<or>
      (effective_priority (procs s i) = best \<and> pid (procs (held i s) i) < pid (procs (held i s) d))) =
    (case c of None \<Rightarrow> True | Some d \<Rightarrow> better (procs s i) (procs s d))"
    using Suc.prems(3) by (auto simp: better_def split: option.splits)
  have ih: "sched_scan k (Suc i) c' best' (hdone s) = Inr (pick k (Suc i) c' (procs s), hdone s)"
    if "\<And>d. c' = Some d \<Longrightarrow> best' = effective_priority (procs s d)" for c' best'
    using Suc.IH [of "hdone s" "Suc i" c' best'] Suc.prems(1,2) that by simp
  show ?case
    using ih [of c best] ih [of "Some i" "effective_priority (procs s i)"] Suc.prems(3)
    by (simp add: plock_idle [OF q [OF i]] punlock_held_id [OF q [OF i] ok] eff b Let_def)
qed

text \<open>The chosen process beats every runnable process.\<close>

definition best_of :: "(nat \<Rightarrow> proc) \<Rightarrow> nat \<Rightarrow> nat option \<Rightarrow> bool" where
  "best_of ps n c \<longleftrightarrow> (case c of
     None \<Rightarrow> \<forall>j < n. pstate (ps j) \<noteq> RUNNABLE
   | Some d \<Rightarrow> d < n \<and> pstate (ps d) = RUNNABLE \<and> (\<forall>j < n. pstate (ps j) = RUNNABLE \<longrightarrow> \<not> better (ps j) (ps d)))"

lemma better_trans: "\<not> better p q \<Longrightarrow> better r q \<Longrightarrow> \<not> better p r"
  by (auto simp: better_def)

lemma better_irrefl: "\<not> better p p"
  by (simp add: better_def)

lemma pick_best: "best_of ps i c \<Longrightarrow> best_of ps (i + k) (pick k i c ps)"
proof (induction k arbitrary: i c)
  case 0
  then show ?case by simp
next
  case (Suc k)
  let ?c = "if pstate (ps i) = RUNNABLE \<and> (case c of None \<Rightarrow> True | Some d \<Rightarrow> better (ps i) (ps d)) then Some i else c"
  have "best_of ps (Suc i) ?c"
  proof (cases c)
    case None
    then show ?thesis using Suc.prems by (auto simp: best_of_def less_Suc_eq better_irrefl)
  next
    case (Some d)
    then have "\<forall>j < i. pstate (ps j) = RUNNABLE \<longrightarrow> better (ps i) (ps d) \<longrightarrow> \<not> better (ps j) (ps i)"
      using Suc.prems better_trans by (auto simp: best_of_def)
    then show ?thesis using Suc.prems Some by (auto simp: best_of_def less_Suc_eq better_irrefl)
  qed
  then show ?case using Suc.IH [of "Suc i" ?c] by simp
qed

lemma sched_scan_best:
  assumes "quiet s"
  shows "\<exists>c. sched_scan NPROC 0 None (PRIORITY_MIN - 1) s = Inr (c, hdone s) \<and> best_of (procs s) NPROC c"
  using sched_scan_pick [OF assms, of 0 NPROC None] pick_best [of "procs s" 0 None NPROC]
  by (simp add: best_of_def layout)

section \<open>A concrete kernel state\<close>

definition proc0 :: proc where
  "proc0 = \<lparr>plk = spinlock_init ''proc'', pid = 0, pstate = UNUSED, sleep_space = None, xstate = 0, killed = False,
     parent = None, pgtbl = 0, heap_top = 0, ustack_pages = 0, tf = 0, kstack = 0, pctx = zero_ctx,
     ofile = (\<lambda>_. None), priority = PRIORITY_DEFAULT, priority_boost = 0\<rparr>"

definition boot_fs :: filest where
  "boot_fs = \<lparr>bufs = (\<lambda>_. zero_buf), dsk = (\<lambda>_ _. 0), dwrites = [], lg = lg boot_lst, sblk = boot_sb,
     icache = (\<lambda>_. \<lparr>idev = 0, inum = 0, iref = 0, ivalid = False, itype = 0, imajor = 0, iminor = 0, inlink = 0,
       isize = 0, iaddrs = (\<lambda>_. 0)\<rparr>),
     ftable = (\<lambda>_. \<lparr>f_type = FILE_NONE, f_ref = 0, f_readable = False, f_writable = False, f_append = False,
       f_ip = None, f_off = 0, f_major = 0\<rparr>)\<rparr>"

definition boot_syms :: ksyms where
  "boot_syms = \<lparr>trampoline = 0x80006000, fork_return_addr = 0x80001000, trap_user_handler_addr = 0x80002000,
     kernel_vector = 0x80003000, user_vector = 0x80006000, user_return = 0x80006090, user_initcode = 0x80008000,
     user_initcode_len = 51, xstate_addr = (\<lambda>i. 0x8000A000 + of_nat (4 * i)), buf_addr = (\<lambda>b. 0x80010000 + of_nat (BSIZE * b)),
     stack_buf = 0x8000B000, etext = 0x80007000, empty_literal = 0x8000C000\<rparr>"

definition boot_kst :: "(nat \<Rightarrow> proc) \<Rightarrow> kst" where
  "boot_kst ps = \<lparr>khart = hart0, kmem = (\<lambda>_. 0), ALLOC_BEGIN = 0x80020000, r_begin = 0, r_end = 0,
     r_lk = spinlock_init ''kern_pmem_lock'', allocable = 0, list_head = 0, procs = ps, proczero = None, nextpid = 1,
     pid_lock = spinlock_init ''nextpid'', wait_lock = spinlock_init ''wait_lock'', korigin = (\<lambda>_. False),
     kfs = boot_fs, ksym = boot_syms\<rparr>"

lemma boot_kst_simps [simp]:
  "procs (boot_kst ps) = ps" "khart (boot_kst ps) = hart0" "wait_lock (boot_kst ps) = spinlock_init ''wait_lock''"
  by (simp_all add: boot_kst_def)

lemma boot_quiet: "\<forall>i < NPROC. idle (plk (ps i)) \<Longrightarrow> quiet (boot_kst ps)"
  by (simp add: quiet_def)

lemma idle_init [simp]: "idle (spinlock_init name)"
  by (simp add: idle_def spinlock_init_def)

end
