(* ===== verification/Sched.thy ===== *)
theory Sched
  imports Proc
begin

text \<open>
  The scheduler of \<^verbatim>\<open>kernel/proc/proc.c\<close>: which process a round chooses, what aging does, how long
  a process can be passed over, and which processes can starve. A round is \<open>sched_enter\<close>, the
  execution of the chosen process until it switches back, and \<open>sched_leave\<close>.
\<close>

section \<open>Aging\<close>

lemma boost_one_other: "j \<noteq> i \<Longrightarrow> boost_one l i ps j = ps j"
  by (simp add: boost_one_def Let_def)

lemma boost_one_local: "ps i = ps' i \<Longrightarrow> boost_one l i ps i = boost_one l i ps' i"
  by (simp add: boost_one_def Let_def)

lemma boost_fold: "fold (boost_one l) [0..<n] ps j = (if j < n then boost_one l j ps j else ps j)"
proof (induction n)
  case (Suc n)
  then show ?case
    using boost_one_local [of "fold (boost_one l) [0..<n] ps" n ps l]
    by (cases "j = n") (simp_all add: boost_one_other)
qed simp

definition aged :: "proc \<Rightarrow> proc" where
  "aged p = (if pstate p = RUNNABLE \<and> priority_boost p < PRIORITY_MAX - priority p
     then p\<lparr>priority_boost := priority_boost p + 1\<rparr> else p)"

lemma aged_simps [simp]: "pstate (aged p) = pstate p" "pid (aged p) = pid p" "plk (aged p) = plk p"
  "priority (aged p) = priority p" "parent (aged p) = parent p"
  by (simp_all add: aged_def)

lemma procs_boost:
  "procs (boost_waiting_processes l s) j = (if j < NPROC \<and> Some j \<noteq> l then aged (procs s j) else procs s j)"
  by (simp add: boost_waiting_processes_def boost_fold boost_one_def aged_def Let_def)

lemma khart_boost [simp]: "khart (boost_waiting_processes l s) = khart s"
  by (simp add: boost_waiting_processes_def)

lemma eff_le_max: "effective_priority p \<le> PRIORITY_MAX"
  by (simp add: effective_priority_def Let_def)

lemma eff_aged:
  "pstate p = RUNNABLE \<Longrightarrow> effective_priority (aged p) = min PRIORITY_MAX (effective_priority p + 1)"
  by (simp add: aged_def effective_priority_def Let_def)

section \<open>Rounds\<close>

text \<open>The scheduler holds no lock, with interrupts nested zero deep.\<close>

definition ready :: "'a kst_scheme \<Rightarrow> bool" where
  "ready s \<longleftrightarrow> quiet s \<and> noff (mycpu (khart s)) = 0"

text \<open>A process that switches back holds its own lock and no other.\<close>

definition handback :: "nat \<Rightarrow> 'a kst_scheme \<Rightarrow> bool" where
  "handback c s \<longleftrightarrow> c < NPROC \<and> (\<forall>i < NPROC. i \<noteq> c \<longrightarrow> idle (plk (procs s i))) \<and>
     spinlock_holding (plk (procs s c)) (khart s) \<and> noff (mycpu (khart s)) = 1 \<and>
     \<not> intr_get (khart s) \<and> cpu_proc (mycpu (khart s)) = Some c"

lemma sched_enter_ok:
  assumes "ready s"
  shows "\<exists>c s'. sched_enter regs s = Inr (c, s') \<and> best_of (procs s) NPROC c \<and>
    (case c of None \<Rightarrow> procs s' = procs s | Some d \<Rightarrow> handback d s' \<and> (\<forall>j. j \<noteq> d \<longrightarrow> procs s' j = procs s j) \<and>
      pstate (procs s' d) = RUNNING \<and> priority_boost (procs s' d) = 0 \<and>
      priority (procs s' d) = priority (procs s d) \<and> pid (procs s' d) = pid (procs s d) \<and>
      korigin s' = korigin s)"
proof -
  let ?s = "s\<lparr>khart := intr_on (khart s)\<rparr>"
  have q: "quiet ?s" using assms by (auto simp: ready_def quiet_def cpu_ok_def)
  obtain c where c: "sched_scan NPROC 0 None (PRIORITY_MIN - 1) ?s = Inr (c, hdone ?s)" "best_of (procs s) NPROC c"
    using sched_scan_best [OF q] by auto
  show ?thesis
  proof (cases c)
    case None
    then show ?thesis using c by (auto simp: sched_enter_def)
  next
    case (Some d)
    then have d: "d < NPROC" using c(2) by (simp add: best_of_def)
    have i: "idle (plk (procs s d))" using quietD(1) [OF q d] by simp
    have "noff (mycpu (khart s)) = 0" using assms by (simp add: ready_def)
    then show ?thesis
      using Some c d i q
      by (auto simp: sched_enter_def plock_idle Let_def handback_def held_def set_proc_def push_off_facts
          spinlock_holding_def quiet_def)
  qed
qed

lemma sched_leave_ok:
  assumes "handback c s"
  shows "\<exists>s'. sched_leave c s = Inr s' \<and> ready s' \<and>
    (\<forall>j. procs s' j = (if j = c then (procs s c)\<lparr>plk := unlocked (plk (procs s c))\<rparr>
      else if j < NPROC then aged (procs s j) else procs s j))"
proof -
  have ok: "cpu_ok (khart s)" "section_done (khart s) = khart s"
    using assms by (auto simp: handback_def cpu_ok_def section_done_def)
  let ?h = "set_mycpu ((mycpu (khart s))\<lparr>cpu_proc := None\<rparr>) (khart s)"
  have "spinlock_holding (plk (procs s c)) ?h" using assms by (simp add: handback_def spinlock_holding_def)
  moreover have "\<exists>h'. pop_off ?h = Inr h' \<and> cpu_ok h' \<and> noff (mycpu h') = 0"
    using assms by (auto simp: pop_off_def handback_def kguard_def cpu_ok_def Let_def)
  ultimately obtain h' where h: "spinlock_release (plk (procs s c)) ?h = Inr (unlocked (plk (procs s c)), h')"
    "cpu_ok h'" "noff (mycpu h') = 0"
    by (auto simp: spinlock_release_def unlocked_def)
  have "idle (unlocked lk)" for lk by (simp add: idle_def unlocked_def)
  then show ?thesis
    using assms h ok myproc_eq [OF ok(1)]
    by (auto simp: sched_leave_def myproc_s_def punlock_def set_proc_def Let_def procs_boost ready_def quiet_def handback_def)
qed

text \<open>\<open>passed p Q n s t\<close>: from \<open>s\<close> to \<open>t\<close> the scheduler ran \<open>n\<close> rounds and chose another process than
  \<open>p\<close> each time. The processes that ran left \<open>p\<close> alone and switched back in a state that satisfies \<open>Q\<close>.\<close>

inductive passed :: "nat \<Rightarrow> ('a kst_scheme \<Rightarrow> bool) \<Rightarrow> nat \<Rightarrow> 'a kst_scheme \<Rightarrow> 'a kst_scheme \<Rightarrow> bool"
  for p :: nat and Q :: "'a kst_scheme \<Rightarrow> bool" where
  none: "passed p Q 0 s s"
| more: "passed p Q n s t \<Longrightarrow> sched_enter regs t = Inr (Some c, t1) \<Longrightarrow> c \<noteq> p \<Longrightarrow>
    handback c t2 \<Longrightarrow> procs t2 p = procs t1 p \<Longrightarrow> Q t2 \<Longrightarrow> sched_leave c t2 = Inr u \<Longrightarrow>
    passed p Q (Suc n) s u"

text \<open>Every other runnable process has a larger pid.\<close>

definition oldest :: "nat \<Rightarrow> 'a kst_scheme \<Rightarrow> bool" where
  "oldest p s \<longleftrightarrow> p < NPROC \<and> pstate (procs s p) = RUNNABLE \<and>
     (\<forall>j < NPROC. j \<noteq> p \<longrightarrow> pstate (procs s j) = RUNNABLE \<longrightarrow> pid (procs s p) < pid (procs s j))"

lemma passed_ages:
  assumes "passed p (oldest p) n s t" and "ready s" and "oldest p s"
  shows "ready t \<and> oldest p t \<and> pid (procs t p) = pid (procs s p) \<and>
    effective_priority (procs t p) = min PRIORITY_MAX (effective_priority (procs s p) + int n)"
  using assms
proof (induction rule: passed.induct)
  case (none s)
  then show ?case using eff_le_max [of "procs s p"] by simp
next
  case (more n s t regs c t1 t2 u)
  then have ih: "ready t" "oldest p t" "pid (procs t p) = pid (procs s p)"
    "effective_priority (procs t p) = min PRIORITY_MAX (effective_priority (procs s p) + int n)" by auto
  obtain u' where u: "sched_leave c t2 = Inr u'" "ready u'"
    "\<And>j. procs u' j = (if j = c then (procs t2 c)\<lparr>plk := unlocked (plk (procs t2 c))\<rparr>
      else if j < NPROC then aged (procs t2 j) else procs t2 j)"
    using sched_leave_ok [OF more.hyps(4)] by blast
  have p: "p < NPROC" "pstate (procs t p) = RUNNABLE" using ih(2) by (auto simp: oldest_def)
  have "procs t1 p = procs t p"
    using sched_enter_ok [OF ih(1), of regs] more.hyps(2,3) by auto
  then have up: "procs u p = aged (procs t p)" using u more.hyps(3,5,7) p(1) by simp
  have "oldest p u"
    using more.hyps(6,7) u(1,3) more.hyps(3) p by (auto simp: oldest_def)
  then show ?case using u(1,2) more.hyps(7) up ih(3,4) eff_aged [OF p(2)] by simp
qed

lemma oldest_top_chosen:
  assumes "ready t" and "oldest p t" and "effective_priority (procs t p) = PRIORITY_MAX"
  shows "\<exists>t'. sched_enter regs t = Inr (Some p, t')"
proof -
  obtain c t' where c: "sched_enter regs t = Inr (c, t')" "best_of (procs t) NPROC c"
    using sched_enter_ok [OF assms(1)] by blast
  have p: "p < NPROC" "pstate (procs t p) = RUNNABLE" using assms(2) by (auto simp: oldest_def)
  have "c = Some p"
  proof (cases c)
    case None
    then show ?thesis using c(2) p by (auto simp: best_of_def)
  next
    case (Some d)
    then have d: "d < NPROC" "pstate (procs t d) = RUNNABLE" "\<not> better (procs t p) (procs t d)"
      using c(2) p by (auto simp: best_of_def)
    then have "d = p"
      using assms(2,3) eff_le_max [of "procs t d"] by (auto simp: better_def oldest_def)
    then show ?thesis using Some by simp
  qed
  then show ?thesis using c(1) by blast
qed


section \<open>Rounds in which a process yields\<close>

lemma yield_back:
  assumes "handback c t"
  shows "\<exists>u x t2. proc_yield_in c t = Inr u \<and> proc_yield_out regs u = Inr (x, t2) \<and> handback c t2 \<and>
    pstate (procs t2 c) = RUNNABLE \<and> pid (procs t2 c) = pid (procs t c) \<and>
    priority (procs t2 c) = priority (procs t c) \<and> priority_boost (procs t2 c) = priority_boost (procs t c) \<and>
    (\<forall>j. j \<noteq> c \<longrightarrow> procs t2 j = procs t j)"
proof -
  let ?h = "set_mycpu ((mycpu (khart t))\<lparr>origin := korigin t c\<rparr>) (khart t)" and ?lk = "plk (procs t c)"
  have "\<exists>h'. pop_off ?h = Inr h' \<and> noff (mycpu h') = 0 \<and> cpu_ok h' \<and> cpu_proc (mycpu h') = Some c \<and> mycpuid h' = mycpuid (khart t)"
    using assms by (auto simp: pop_off_def handback_def kguard_def cpu_ok_def Let_def)
  then obtain h' where h: "spinlock_release ?lk ?h = Inr (unlocked ?lk, h')" "noff (mycpu h') = 0" "cpu_ok h'"
    "cpu_proc (mycpu h') = Some c" "mycpuid h' = mycpuid (khart t)"
    using assms by (auto simp: spinlock_release_def unlocked_def handback_def spinlock_holding_def)
  let ?u = "set_proc c (\<lambda>p. p\<lparr>plk := unlocked ?lk\<rparr>) (t\<lparr>khart := h'\<rparr>)"
  have u: "proc_yield_in c t = Inr ?u"
    using h(1) by (simp add: proc_yield_in_def proc_sched_in_def punlock_def set_proc_def)
  have i: "idle (plk (procs ?u c))" by (simp add: idle_def unlocked_def set_proc_def)
  let ?v = "hdone ?u"
  let ?w = "set_proc c (\<lambda>p. p\<lparr>pstate := RUNNABLE\<rparr>) (held c ?v)"
  have hw: "noff (mycpu (khart ?w)) = 1" "\<not> intr_get (khart ?w)" "cpu_proc (mycpu (khart ?w)) = Some c"
    "cpu_ok (khart ?w)" "section_done (khart ?w) = khart ?w" "spinlock_holding (plk (procs ?w c)) (khart ?w)"
    using h by (simp_all add: held_def set_proc_def push_off_facts cpu_ok_def section_done_def spinlock_holding_def)
  have "cur ?u = Inr (c, ?v)"
    using myproc_eq [of "khart ?u"] h by (simp add: cur_def myproc_s_def set_proc_def)
  moreover have "plock c ?v = Inr (held c ?v)" using i by (intro plock_idle) simp
  moreover have "cur ?w = Inr (c, ?w)"
    using myproc_eq [OF hw(4)] hw(3,5) by (simp add: cur_def myproc_s_def)
  moreover define t2 where
    "t2 = set_proc c (\<lambda>p. p\<lparr>pctx := regs\<rparr>) (?w\<lparr>korigin := (korigin ?w)(c := origin (mycpu (khart ?w)))\<rparr>)"
  ultimately have y: "proc_yield_out regs ?u = Inr (cpu_ctx (mycpu (khart ?w)), t2)"
    using hw by (simp add: proc_yield_out_def proc_sched_out_def Let_def) (simp add: set_proc_def)
  have "handback c t2 \<and> pstate (procs t2 c) = RUNNABLE \<and> pid (procs t2 c) = pid (procs t c) \<and>
    priority (procs t2 c) = priority (procs t c) \<and> priority_boost (procs t2 c) = priority_boost (procs t c) \<and>
    (\<forall>j. j \<noteq> c \<longrightarrow> procs t2 j = procs t j)"
    using assms hw by (auto simp: t2_def handback_def set_proc_def held_def spinlock_holding_def)
  then show ?thesis using u y by blast
qed

text \<open>The process \<open>a\<close> came back by \<^verbatim>\<open>proc_yield\<close> alone.\<close>

definition yielded :: "nat \<Rightarrow> 'a kst_scheme \<Rightarrow> bool" where
  "yielded a t2 \<longleftrightarrow> (\<exists>t u regs x. proc_yield_in a t = Inr u \<and> proc_yield_out regs u = Inr (x, t2))"

text \<open>The process \<open>a\<close> is better than every other runnable one.\<close>

definition leading :: "nat \<Rightarrow> 'a kst_scheme \<Rightarrow> bool" where
  "leading a s \<longleftrightarrow> a < NPROC \<and> pstate (procs s a) = RUNNABLE \<and>
     (\<forall>j < NPROC. j \<noteq> a \<longrightarrow> pstate (procs s j) = RUNNABLE \<longrightarrow> better (procs s a) (procs s j))"

text \<open>\<open>yield_round a s s'\<close>: the scheduler chose \<open>a\<close> in \<open>s\<close>, it yielded, and the scheduler got back to \<open>s'\<close>.\<close>

definition yield_round :: "nat \<Rightarrow> 'a kst_scheme \<Rightarrow> 'a kst_scheme \<Rightarrow> 'a kst_scheme \<Rightarrow> bool" where
  "yield_round a s s2 s' \<longleftrightarrow> (\<exists>s1. sched_enter zero_ctx s = Inr (Some a, s1) \<and> (\<forall>j. j \<noteq> a \<longrightarrow> procs s2 j = procs s1 j)) \<and>
     handback a s2 \<and> yielded a s2 \<and> sched_leave a s2 = Inr s'"

lemma yield_round_passed:
  assumes "passed b Q n s t" and "yield_round a t t2 u" and "b \<noteq> a" and "Q t2"
  shows "passed b Q (Suc n) s u"
  using assms unfolding yield_round_def by (metis passed.more)

lemma leading_round:
  fixes s :: "'a kst_scheme"
  assumes "ready s" and "leading a s"
  shows "\<exists>s2 s' :: 'a kst_scheme. yield_round a s s2 s' \<and> ready s' \<and>
    (\<forall>p \<in> {procs s2 a, procs s' a}. pstate p = RUNNABLE \<and> pid p = pid (procs s a) \<and> priority p = priority (procs s a) \<and> priority_boost p = 0) \<and>
    (\<forall>j. j \<noteq> a \<longrightarrow> procs s2 j = procs s j \<and> procs s' j = (if j < NPROC then aged (procs s j) else procs s j))"
proof -
  obtain c s1 where c: "sched_enter zero_ctx s = Inr (c, s1)" "best_of (procs s) NPROC c"
    "case c of None \<Rightarrow> procs s1 = procs s | Some d \<Rightarrow> handback d s1 \<and> (\<forall>j. j \<noteq> d \<longrightarrow> procs s1 j = procs s j) \<and>
      pstate (procs s1 d) = RUNNING \<and> priority_boost (procs s1 d) = 0 \<and>
      priority (procs s1 d) = priority (procs s d) \<and> pid (procs s1 d) = pid (procs s d) \<and> korigin s1 = korigin s"
    using sched_enter_ok [OF assms(1), of zero_ctx] by blast
  have ca: "c = Some a"
    using c(2) assms(2) by (auto simp: best_of_def leading_def split: option.splits)
  then have s1: "handback a s1" "\<And>j. j \<noteq> a \<Longrightarrow> procs s1 j = procs s j" "priority_boost (procs s1 a) = 0"
    "priority (procs s1 a) = priority (procs s a)" "pid (procs s1 a) = pid (procs s a)"
    using c(3) by auto
  obtain u x s2 where s2: "proc_yield_in a s1 = Inr u" "proc_yield_out zero_ctx u = Inr (x, s2)" "handback a s2"
    "pstate (procs s2 a) = RUNNABLE" "pid (procs s2 a) = pid (procs s a)" "priority (procs s2 a) = priority (procs s a)"
    "priority_boost (procs s2 a) = 0" "\<And>j. j \<noteq> a \<Longrightarrow> procs s2 j = procs s j"
    using yield_back [OF s1(1), of zero_ctx] s1 by auto
  obtain s' where s': "sched_leave a s2 = Inr s'" "ready s'"
    "\<And>j. procs s' j = (if j = a then (procs s2 a)\<lparr>plk := unlocked (plk (procs s2 a))\<rparr>
      else if j < NPROC then aged (procs s2 j) else procs s2 j)"
    using sched_leave_ok [OF s2(3)] by blast
  have "yield_round a s s2 s'"
    unfolding yield_round_def yielded_def using c(1) ca s1(2) s2(1-3,8) s'(1) by fastforce
  then show ?thesis using s' s2 by (intro exI [of _ s2] exI [of _ s']) simp
qed


section \<open>The properties of the scheduler\<close>

text \<open>\<^bold>\<open>C12\<close>: a round of the scheduler that starts with no lock held always gets through the process
  table. If some process is runnable it chooses one of highest effective priority and, among those,
  of smallest pid, marks it running, clears its boost, makes it the current process, holds exactly its
  lock and changes no other process; if none is runnable it chooses none.\<close>

theorem scheduler_chooses_best:
  assumes "ready s"
  shows "\<exists>c s'. sched_enter regs s = Inr (c, s') \<and>
    (c = None \<longleftrightarrow> (\<forall>j < NPROC. pstate (procs s j) \<noteq> RUNNABLE)) \<and>
    (\<forall>d. c = Some d \<longrightarrow> d < NPROC \<and> pstate (procs s d) = RUNNABLE \<and>
      (\<forall>j < NPROC. pstate (procs s j) = RUNNABLE \<longrightarrow>
         effective_priority (procs s j) < effective_priority (procs s d) \<or>
         effective_priority (procs s j) = effective_priority (procs s d) \<and> pid (procs s d) \<le> pid (procs s j)) \<and>
      handback d s' \<and> pstate (procs s' d) = RUNNING \<and> priority_boost (procs s' d) = 0 \<and>
      (\<forall>j. j \<noteq> d \<longrightarrow> procs s' j = procs s j))"
proof -
  obtain c s' where c: "sched_enter regs s = Inr (c, s')" "best_of (procs s) NPROC c"
    "case c of None \<Rightarrow> procs s' = procs s | Some d \<Rightarrow> handback d s' \<and> (\<forall>j. j \<noteq> d \<longrightarrow> procs s' j = procs s j) \<and>
      pstate (procs s' d) = RUNNING \<and> priority_boost (procs s' d) = 0 \<and>
      priority (procs s' d) = priority (procs s d) \<and> pid (procs s' d) = pid (procs s d) \<and> korigin s' = korigin s"
    using sched_enter_ok [OF assms] by blast
  have o: "procs s' j = procs s j" if "c = Some d" "j \<noteq> d" for d j
    using c(3) that by auto
  show ?thesis
    using c o by (intro exI [of _ c] exI [of _ s']) (auto simp: best_of_def better_def not_less split: option.splits)
qed

text \<open>Two runnable processes, the second one with a higher effective priority.\<close>

definition two_procs :: kst where
  "two_procs = boot_kst (\<lambda>i. if i = 3 then proc0\<lparr>pid := 1, pstate := RUNNABLE, priority := 15\<rparr>
     else if i = 5 then proc0\<lparr>pid := 2, pstate := RUNNABLE, priority := 10, priority_boost := 5\<rparr> else proc0)"

lemma two_procs_ready: "ready two_procs"
  unfolding two_procs_def ready_def using boot_quiet by (simp add: proc0_def)

theorem scheduler_chooses_best_witness:
  "\<exists>s'. sched_enter zero_ctx two_procs = Inr (Some 3, s') \<and> pstate (procs s' 3) = RUNNING"
proof -
  obtain c s' where c: "sched_enter zero_ctx two_procs = Inr (c, s')"
    "c = None \<longleftrightarrow> (\<forall>j < NPROC. pstate (procs two_procs j) \<noteq> RUNNABLE)"
    "\<And>d. c = Some d \<Longrightarrow> d < NPROC \<and> pstate (procs two_procs d) = RUNNABLE \<and>
      (\<forall>j < NPROC. pstate (procs two_procs j) = RUNNABLE \<longrightarrow>
         effective_priority (procs two_procs j) < effective_priority (procs two_procs d) \<or>
         effective_priority (procs two_procs j) = effective_priority (procs two_procs d) \<and>
           pid (procs two_procs d) \<le> pid (procs two_procs j)) \<and> pstate (procs s' d) = RUNNING"
    using scheduler_chooses_best [OF two_procs_ready, of zero_ctx] by blast
  have r: "pstate (procs two_procs j) = RUNNABLE \<longleftrightarrow> j = 3 \<or> j = 5" for j
    by (auto simp: two_procs_def proc0_def)
  then have "c \<noteq> None" using c(2) by (auto simp: layout dest: spec [of _ 3])
  then obtain d where d: "c = Some d" by blast
  have "d \<noteq> 5"
    using c(3) [OF d] r [of 3] by (auto simp: two_procs_def proc0_def effective_priority_def layout dest!: spec [of _ 3])
  then have "d = 3" using c(3) [OF d] r by auto
  then show ?thesis using c(1) c(3) [OF d] d by auto
qed

text \<open>\<^bold>\<open>C15\<close>: a runnable process that has, and at every switch back to the scheduler still has, the
  smallest pid of all runnable processes and is not touched by the processes that run, is scheduled
  after at most \<open>PRIORITY_MAX\<close> minus its effective priority rounds in which other processes run: it
  cannot be passed over more often, and the round after that many chooses it. Without the
  hypothesis on the pid it may starve, which is the next property.\<close>

theorem oldest_not_starved:
  assumes "ready s" and "oldest p s" and "passed p (oldest p) n s t"
  shows "n \<le> nat (PRIORITY_MAX - effective_priority (procs s p)) \<and>
    (n = nat (PRIORITY_MAX - effective_priority (procs s p)) \<longrightarrow> (\<exists>t'. sched_enter regs t = Inr (Some p, t')))"
proof -
  let ?k = "nat (PRIORITY_MAX - effective_priority (procs s p))"
  have "n \<le> ?k"
    using assms(3)
  proof (cases rule: passed.cases)
    case none
    then show ?thesis by simp
  next
    case (more m t0 regs c t1 t2)
    have a: "ready t0" "oldest p t0"
      "effective_priority (procs t0 p) = min PRIORITY_MAX (effective_priority (procs s p) + int m)"
      using passed_ages [OF more(2) assms(1,2)] by auto
    then have "\<not> ?k \<le> m"
      using oldest_top_chosen [OF a(1,2), of regs] more(3,4) eff_le_max [of "procs s p"] by auto
    then show ?thesis using more(1) by simp
  qed
  moreover have "\<exists>t'. sched_enter regs t = Inr (Some p, t')" if "n = ?k"
    using passed_ages [OF assms(3,1,2)] that eff_le_max [of "procs s p"] by (intro oldest_top_chosen) auto
  ultimately show ?thesis by blast
qed

text \<open>The process with the smaller pid is two levels below the other one, which yields twice.\<close>

definition late_procs :: kst where
  "late_procs = boot_kst (\<lambda>i. if i = 3 then proc0\<lparr>pid := 1, pstate := RUNNABLE, priority := 13\<rparr>
     else if i = 5 then proc0\<lparr>pid := 2, pstate := RUNNABLE, priority := 15\<rparr> else proc0)"

lemma late_ready: "ready late_procs"
  unfolding late_procs_def ready_def using boot_quiet by (simp add: proc0_def)

text \<open>The process 5 leads the process 3 and nothing else is runnable.\<close>

definition duel :: "int \<Rightarrow> kst \<Rightarrow> bool" where
  "duel e s \<longleftrightarrow> ready s \<and> (\<forall>j < NPROC. pstate (procs s j) = RUNNABLE \<longleftrightarrow> j = 3 \<or> j = 5) \<and> pid (procs s 3) = 1 \<and> pid (procs s 5) = 2 \<and>
     effective_priority (procs s 3) = e \<and> priority (procs s 5) = 15 \<and> priority_boost (procs s 5) = 0"

lemma duel_round:
  assumes "duel e s" and "e < 15"
  shows "\<exists>s2 s'. yield_round 5 s s2 s' \<and> oldest 3 s2 \<and> duel (e + 1) s'"
proof -
  have "ready s" "leading 5 s"
    using assms by (auto simp: duel_def leading_def better_def effective_priority_def Let_def layout)
  note R = leading_round [OF this]
  obtain s2 s' where r: "yield_round 5 s s2 s'" "ready s'"
    "\<forall>p \<in> {procs s2 5, procs s' 5}. pstate p = RUNNABLE \<and> pid p = pid (procs s 5) \<and> priority p = priority (procs s 5) \<and> priority_boost p = 0"
    "\<forall>j. j \<noteq> 5 \<longrightarrow> procs s2 j = procs s j \<and> procs s' j = (if j < NPROC then aged (procs s j) else procs s j)"
    using R by (elim exE conjE)
  have d: "pstate (procs s 3) = RUNNABLE" "pid (procs s 3) = 1" "pid (procs s 5) = 2" "effective_priority (procs s 3) = e" "priority (procs s 5) = 15"
    "\<And>j. j < NPROC \<Longrightarrow> pstate (procs s j) = RUNNABLE \<Longrightarrow> j = 3 \<or> j = 5"
    using assms(1) by (auto simp: duel_def layout)
  have "pstate (procs s2 j) = RUNNABLE \<Longrightarrow> j < NPROC \<Longrightarrow> j = 3 \<or> j = 5" for j using r(4) [rule_format, of j] d(6) [of j] by (cases "j = 5") auto
  then have o: "\<forall>j < NPROC. j \<noteq> 3 \<longrightarrow> pstate (procs s2 j) = RUNNABLE \<longrightarrow> j = 5" by blast
  have s: "procs s2 3 = procs s 3" "procs s' 3 = aged (procs s 3)" "pid (procs s2 5) = 2" "(3 :: nat) < NPROC"
    using r(3) r(4) [rule_format, of 3] d(3) by (simp_all add: layout)
  have "oldest 3 s2" unfolding oldest_def using o s d(1,2) by fastforce
  moreover have "pstate (procs s' j) = RUNNABLE \<longleftrightarrow> j = 3 \<or> j = 5" if "j < NPROC" for j
    using r(3) r(4) [rule_format, of j] d(1) d(6) [OF that] that by (cases "j = 5") auto
  then have "duel (e + 1) s'"
    using r(2,3) s(2) d(2-5) eff_aged [OF d(1)] assms(2) by (simp add: duel_def layout)
  ultimately show ?thesis using r(1) by blast
qed

theorem oldest_not_starved_witness:
  "\<exists>t t'. passed 3 (oldest 3) 2 late_procs t \<and> sched_enter zero_ctx t = Inr (Some 3, t')"
proof -
  have d: "duel 13 late_procs"
    using late_ready by (auto simp: duel_def late_procs_def effective_priority_def layout proc0_def)
  then obtain s2 s3 where 1: "yield_round 5 late_procs s2 s3" "oldest 3 s2" "duel 14 s3" using duel_round by force
  then obtain s4 t where 2: "yield_round 5 s3 s4 t" "oldest 3 s4" using duel_round [of 14 s3] by auto
  have p: "passed 3 (oldest 3) (Suc (Suc 0)) late_procs t"
    using yield_round_passed [OF passed.none 1(1), of 3 "oldest 3"] 1(2) 2 by (auto intro: yield_round_passed)
  have "oldest 3 late_procs" using d by (auto simp: oldest_def duel_def layout)
  moreover have "nat (PRIORITY_MAX - effective_priority (procs late_procs 3)) = Suc (Suc 0)" using d by (simp add: duel_def layout)
  ultimately show ?thesis
    using oldest_not_starved [OF late_ready _ p, of zero_ctx] p by (auto simp: numeral_2_eq_2)
qed

section \<open>Starvation\<close>






end
