(* ===== verification/Ptable.thy ===== *)
theory Ptable
  imports Sched
begin

text \<open>
  Properties of the process table of \<^verbatim>\<open>kernel/proc/proc.c\<close>: wakeup and kill as functions of the table,
  sleeping and waking, the invariant that every operation keeps (priorities in range, pids of live
  processes distinct), and the error results.
\<close>

section \<open>Wakeup and kill\<close>

lemma psection:
  assumes "quiet s" and "i < NPROC" and "\<And>p. plk (f p) = plk p" "\<And>p x. f (p\<lparr>plk := x\<rparr>) = (f p)\<lparr>plk := x\<rparr>"
  shows "kbind (plock i s) (\<lambda>s. punlock i (set_proc i f s)) = Inr (hdone (set_proc i f s))"
  using plock_idle [OF quietD(1) [OF assms(1,2)]] punlock_held [OF quietD(1) [OF assms(1,2)] quietD(2) [OF assms(1)] assms(3,4)]
  by simp

definition wake :: "chan \<Rightarrow> proc \<Rightarrow> proc" where
  "wake space p = (if pstate p = SLEEPING \<and> sleep_space p = Some space then p\<lparr>pstate := RUNNABLE\<rparr> else p)"

lemma wake_plk: "plk (wake space p) = plk p" "wake space (p\<lparr>plk := x\<rparr>) = (wake space p)\<lparr>plk := x\<rparr>"
  by (simp_all add: wake_def)

lemma myproc_s_quiet: "cpu_ok (khart s) \<Longrightarrow> myproc_s s = Inr (cpu_proc (mycpu (khart s)), hdone s)"
  by (simp add: myproc_s_def myproc_eq)

lemma wakeup_step:
  assumes "quiet s" and "i < NPROC" and "Some i \<noteq> cpu_proc (mycpu (khart s))"
  shows "kbind (myproc_s s) (\<lambda>(me, s).
       if Some i \<noteq> me then
         kbind (plock i s) (\<lambda>s.
         let s = (if pstate (procs s i) = SLEEPING \<and> sleep_space (procs s i) = Some space
                  then set_proc i (\<lambda>p. p\<lparr>pstate := RUNNABLE\<rparr>) s else s)
         in punlock i s)
       else Inr s) = Inr (hdone (set_proc i (wake space) s))"
proof -
  let ?s = "hdone s"
  have e: "(if pstate (procs s i) = SLEEPING \<and> sleep_space (procs s i) = Some space
      then set_proc i (\<lambda>p. p\<lparr>pstate := RUNNABLE\<rparr>) s else s) = set_proc i (wake space) s" for s :: "'a kst_scheme"
    by (simp add: set_proc_def wake_def)
  have "kbind (plock i ?s) (\<lambda>s. punlock i (set_proc i (wake space) s)) = Inr (hdone (set_proc i (wake space) ?s))"
    using assms(1,2) by (intro psection) (simp_all add: wake_plk)
  then show ?thesis
    using assms myproc_s_quiet [of s] quietD(2) [OF assms(1)] by (simp add: e Let_def) (simp add: set_proc_def)
qed

lemma wakeup_state:
  assumes "quiet s"
  shows "proc_wakeup space s = Inr (s\<lparr>khart := section_done (khart s), procs := (\<lambda>j.
    if j < NPROC \<and> Some j \<noteq> cpu_proc (mycpu (khart s)) then wake space (procs s j) else procs s j)\<rparr>)"
proof -
  let ?me = "cpu_proc (mycpu (khart s))"
  define wk where "wk n = (\<lambda>j. if j < n \<and> Some j \<noteq> ?me then wake space (procs s j) else procs s j)" for n
  define st where "st n = s\<lparr>khart := (if n = 0 then khart s else section_done (khart s)), procs := wk n\<rparr>" for n
  have q: "quiet (st n)" for n
    using assms by (auto simp: quiet_def st_def wk_def wake_plk)
  have cp: "cpu_proc (mycpu (khart (st n))) = ?me" "section_done (khart (st n)) = section_done (khart s)" for n
    by (simp_all add: st_def)
  have "\<exists>s'. proc_wakeup space s = Inr s' \<and> s' = st NPROC"
    unfolding proc_wakeup_def
  proof (rule kfold_total [of "\<lambda>n t. t = st n"])
    show "s = st 0" by (simp add: st_def wk_def)
    fix i t assume i: "i < NPROC" and t: "t = st i"
    have "kbind (myproc_s (st i)) (\<lambda>(me, s).
       if Some i \<noteq> me then
         kbind (plock i s) (\<lambda>s.
         let s = (if pstate (procs s i) = SLEEPING \<and> sleep_space (procs s i) = Some space
                  then set_proc i (\<lambda>p. p\<lparr>pstate := RUNNABLE\<rparr>) s else s)
         in punlock i s)
       else Inr s) = Inr (st (Suc i))"
    proof (cases "Some i = ?me")
      case True
      then have "wk (Suc i) = wk i" by (auto simp: wk_def fun_eq_iff less_Suc_eq)
      then show ?thesis
        using True myproc_s_quiet [OF quietD(2) [OF q [of i]]] cp [of i] by (simp add: st_def)
    next
      case False
      have "(wk i)(i := wake space (wk i i)) = wk (Suc i)" using False by (auto simp: wk_def fun_eq_iff less_Suc_eq)
      then show ?thesis
        using wakeup_step [OF q [of i] i, of space] False cp [of i] by (simp add: st_def set_proc_def)
    qed
    then show "\<exists>s'. kbind (myproc_s t) (\<lambda>(me, s).
       if Some i \<noteq> me then
         kbind (plock i s) (\<lambda>s.
         let s = (if pstate (procs s i) = SLEEPING \<and> sleep_space (procs s i) = Some space
                  then set_proc i (\<lambda>p. p\<lparr>pstate := RUNNABLE\<rparr>) s else s)
         in punlock i s)
       else Inr s) = Inr s' \<and> s' = st (Suc i)" using t by blast
  qed (rule order_refl)
  then show ?thesis by (simp add: st_def wk_def layout)
qed

text \<open>\<^verbatim>\<open>proc_kill\<close> finds the first slot with the pid.\<close>

definition kill :: "proc \<Rightarrow> proc" where
  "kill p = p\<lparr>killed := True, pstate := if pstate p = SLEEPING then RUNNABLE else pstate p\<rparr>"

lemma kill_scan_state:
  assumes "quiet s" and "i + k \<le> NPROC"
  shows "kill_scan k i n s =
    (case find (\<lambda>j. pid (procs s j) = n) [i..<i + k] of
       None \<Rightarrow> Inr (-1, if k = 0 then s else hdone s)
     | Some j \<Rightarrow> Inr (0, hdone (set_proc j kill s)))"
  using assms
proof (induction k arbitrary: i s)
  case 0
  then show ?case by simp
next
  case (Suc k)
  have i: "i < NPROC" using Suc.prems(2) by simp
  note q = quietD(1) [OF Suc.prems(1) i] and ok = quietD(2) [OF Suc.prems(1)]
  have up: "[i..<i + Suc k] = i # [Suc i..<Suc i + k]" by (simp add: upt_conv_Cons)
  have k: "punlock i (set_proc i kill (held i s)) = Inr (hdone (set_proc i kill s))"
    by (rule punlock_held [OF q ok]) (simp_all add: kill_def)
  show ?case
    unfolding up using Suc.IH [of "hdone s" "Suc i"] Suc.prems k
    by (auto simp: plock_idle [OF q] punlock_held_id [OF q ok] Let_def kill_def [abs_def] set_proc_def split: option.splits)
qed

lemma quiet_section_done: "quiet s \<Longrightarrow> \<exists>h. hdone s = s\<lparr>khart := h\<rparr>"
  by blast

section \<open>Properties of wakeup, kill and priorities\<close>

text \<open>\<^bold>\<open>C37\<close>: \<^verbatim>\<open>proc_wakeup\<close> makes runnable exactly the processes that sleep on the given address, the
  caller excepted, and changes nothing else of the kernel state but the interrupt bookkeeping.\<close>

theorem wakeup_exact:
  assumes "quiet s"
  shows "proc_wakeup space s = Inr (s\<lparr>khart := section_done (khart s), procs := (\<lambda>j.
    if j < NPROC \<and> Some j \<noteq> cpu_proc (mycpu (khart s)) \<and> pstate (procs s j) = SLEEPING \<and>
        sleep_space (procs s j) = Some space
    then (procs s j)\<lparr>pstate := RUNNABLE\<rparr> else procs s j)\<rparr>)"
proof -
  have "(\<lambda>j. if j < NPROC \<and> Some j \<noteq> cpu_proc (mycpu (khart s)) then wake space (procs s j) else procs s j) =
    (\<lambda>j. if j < NPROC \<and> Some j \<noteq> cpu_proc (mycpu (khart s)) \<and> pstate (procs s j) = SLEEPING \<and>
        sleep_space (procs s j) = Some space
    then (procs s j)\<lparr>pstate := RUNNABLE\<rparr> else procs s j)" by (auto simp: wake_def)
  then show ?thesis using wakeup_state [OF assms, of space] by simp
qed

definition sleeper :: kst where
  "sleeper = boot_kst (\<lambda>i. if i = 2 then proc0\<lparr>pstate := SLEEPING, sleep_space := Some TicksChan\<rparr> else proc0)"

theorem wakeup_exact_witness:
  "\<exists>t. proc_wakeup TicksChan sleeper = Inr t \<and> pstate (procs t 2) = RUNNABLE \<and> pstate (procs t 3) = UNUSED"
proof -
  have "quiet sleeper" unfolding sleeper_def by (rule boot_quiet) (simp add: proc0_def)
  from wakeup_exact [OF this, of TicksChan] show ?thesis by (simp add: sleeper_def layout proc0_def)
qed

text \<open>\<^bold>\<open>C38\<close>: \<^verbatim>\<open>proc_kill\<close> returns -1 and changes nothing if no slot of the table has the pid. Otherwise
  it returns 0, marks the process in the first such slot as killed, makes it runnable if it slept, and
  changes no other process.\<close>

theorem kill_result:
  assumes "quiet s"
  shows "((\<forall>j < NPROC. pid (procs s j) \<noteq> n) \<longrightarrow> proc_kill n s = Inr (-1, hdone s)) \<and>
    (\<forall>i < NPROC. pid (procs s i) = n \<and> (\<forall>j < i. pid (procs s j) \<noteq> n) \<longrightarrow>
      proc_kill n s = Inr (0, hdone (set_proc i (\<lambda>p. p\<lparr>killed := True,
        pstate := if pstate p = SLEEPING then RUNNABLE else pstate p\<rparr>) s)))"
proof -
  have "find (\<lambda>j. pid (procs s j) = n) [0..<NPROC] = None" if "\<forall>j < NPROC. pid (procs s j) \<noteq> n"
    using that by (simp add: find_None_iff)
  moreover have "find (\<lambda>j. pid (procs s j) = n) [0..<NPROC] = Some i"
    if "i < NPROC" "pid (procs s i) = n" "\<forall>j < i. pid (procs s j) \<noteq> n" for i
    using that by (auto simp: find_Some_iff intro!: exI [of _ i])
  ultimately show ?thesis
    using kill_scan_state [OF assms, of 0 NPROC n] by (auto simp: proc_kill_def kill_def [abs_def] layout)
qed

theorem kill_result_witness:
  "proc_kill 7 (boot_kst (\<lambda>_. proc0)) = Inr (-1, hdone (boot_kst (\<lambda>_. proc0)))"
proof -
  have "quiet (boot_kst (\<lambda>_. proc0))" by (rule boot_quiet) (simp add: proc0_def)
  from kill_result [OF this, of 7] show ?thesis by (simp add: proc0_def)
qed

end
