(* ===== verification/Procinv.thy ===== *)
theory Procinv
  imports Ptable
begin

text \<open>
  An invariant of the process table of \<^verbatim>\<open>kernel/proc/proc.c\<close>. A calculus of operations that keep the
  table (\<open>ok\<close>, \<open>okr\<close> and the rules in \<open>vc\<close>) covers locks, memory operations, wakeups and state changes;
  \<open>grow\<close> covers the creation of a process. The step relation \<open>kstep\<close> collects all operations on the
  table: the invariant holds in every reachable state, and states change as documented.
\<close>

section \<open>An invariant of the process table\<close>

definition prio_ok :: "proc \<Rightarrow> bool" where
  "prio_ok p \<longleftrightarrow> PRIORITY_MIN \<le> priority p \<and> 0 \<le> priority_boost p \<and> priority p + priority_boost p \<le> PRIORITY_MAX"

text \<open>Static and boosted priorities are in range, live processes have different pids, and the next
  pid is new and fits an \<^verbatim>\<open>int\<close>.\<close>

abbreviation live :: "'a kst_scheme \<Rightarrow> nat \<Rightarrow> bool" where
  "live s i \<equiv> pstate (procs s i) \<noteq> UNUSED"

definition ptab_ok :: "'a kst_scheme \<Rightarrow> bool" where
  "ptab_ok s \<longleftrightarrow> 0 < nextpid s \<and> nextpid s < 2 ^ 31 \<and>
     (\<forall>i < NPROC. prio_ok (procs s i) \<and> (live s i \<longrightarrow> 0 \<le> pid (procs s i) \<and> pid (procs s i) < nextpid s) \<and>
     (\<forall>j < NPROC. live s i \<longrightarrow> live s j \<longrightarrow> pid (procs s i) = pid (procs s j) \<longrightarrow> i = j))"

text \<open>The transitions that the comment on \<^verbatim>\<open>enum proc_state\<close> lists.\<close>

definition documented :: "(proc_state \<times> proc_state) set" where
  "documented = {(UNUSED, RUNNABLE), (RUNNABLE, RUNNING), (RUNNING, RUNNABLE), (RUNNING, SLEEPING),
     (SLEEPING, RUNNABLE), (RUNNING, ZOMBIE), (RUNNABLE, ZOMBIE), (ZOMBIE, UNUSED)}"

text \<open>Most operations create no process, change no pid and change the state of a process only by
  the transitions in \<open>A\<close>: \<open>keeps A\<close>. \<open>ok\<close> and \<open>okr\<close> say that a computation, if it returns, is
  such an operation.\<close>

definition pkeep :: "(proc_state \<times> proc_state) set \<Rightarrow> proc \<Rightarrow> proc \<Rightarrow> bool" where
  "pkeep A p q \<longleftrightarrow> pid q = pid p \<and> (pstate p, pstate q) \<in> A\<^sup>* \<and>
     (prio_ok p \<longrightarrow> prio_ok q)"

definition keeps :: "(proc_state \<times> proc_state) set \<Rightarrow> 'a kst_scheme \<Rightarrow> 'a kst_scheme \<Rightarrow> bool" where
  "keeps A s t \<longleftrightarrow> nextpid t = nextpid s \<and> (\<forall>i. pkeep A (procs s i) (procs t i))"

lemma pkeep_refl [simp]: "pkeep b p p"
  by (simp add: pkeep_def)

lemma pkeep_trans: "pkeep A p q \<Longrightarrow> pkeep A q r \<Longrightarrow> pkeep A p r"
  unfolding pkeep_def by (metis rtrancl_trans)

lemma pkeep_mono: "pkeep A p q \<Longrightarrow> A \<subseteq> B \<Longrightarrow> pkeep B p q"
  unfolding pkeep_def using rtrancl_mono [of A B] by blast

lemma pkeep_same: "pid q = pid p \<Longrightarrow> pstate q = pstate p \<Longrightarrow> (prio_ok p \<Longrightarrow> prio_ok q) \<Longrightarrow> pkeep A p q"
  by (simp add: pkeep_def)

lemma pkeep_step:
  "pid q = pid p \<Longrightarrow> (pstate p, pstate q) \<in> A \<Longrightarrow> (prio_ok p \<Longrightarrow> prio_ok q) \<Longrightarrow> pkeep A p q"
  by (auto simp: pkeep_def)

definition ok :: "(proc_state \<times> proc_state) set \<Rightarrow> 'a kst_scheme \<Rightarrow> 'a kst_scheme kres \<Rightarrow> bool" where
  "ok b s m \<longleftrightarrow> (\<forall>t. m = Inr t \<longrightarrow> keeps b s t)"

definition okr :: "(proc_state \<times> proc_state) set \<Rightarrow> 'a kst_scheme \<Rightarrow> ('r \<times> 'a kst_scheme) kres \<Rightarrow> bool" where
  "okr b s m \<longleftrightarrow> (\<forall>r t. m = Inr (r, t) \<longrightarrow> keeps b s t)"

lemma no_birth:
  assumes "(x, y) \<in> R\<^sup>*" and "\<forall>z. (UNUSED, z) \<notin> R" and "x = UNUSED"
  shows "y = UNUSED"
  using assms by (induction rule: rtrancl_induct) auto

lemma keeps_ptab:
  assumes "keeps A s t" and "\<forall>z. (UNUSED, z) \<notin> A" and "ptab_ok s"
  shows "ptab_ok t"
proof -
  have k: "nextpid t = nextpid s" "\<And>i. pid (procs t i) = pid (procs s i)"
    "\<And>i. prio_ok (procs s i) \<Longrightarrow> prio_ok (procs t i)" using assms(1) by (auto simp: keeps_def pkeep_def)
  have r: "(pstate (procs s i), pstate (procs t i)) \<in> A\<^sup>*" for i
    using assms(1) by (simp add: keeps_def pkeep_def)
  have l: "live t i \<Longrightarrow> live s i" for i
    using no_birth [OF r [of i]] assms(2) by auto
  show ?thesis using assms(3) k(3) l unfolding ptab_ok_def k(1,2) by meson
qed

lemma keeps_mono: "keeps A s t \<Longrightarrow> A \<subseteq> B \<Longrightarrow> keeps B s t"
  unfolding keeps_def using pkeep_mono by blast

lemma keeps_refl [simp]: "keeps b s s"
  by (simp add: keeps_def)

lemma keeps_trans: "keeps b s t \<Longrightarrow> keeps b t u \<Longrightarrow> keeps b s u"
  unfolding keeps_def using pkeep_trans by metis

lemma keeps_same: "procs t = procs s \<Longrightarrow> nextpid t = nextpid s \<Longrightarrow> keeps b s t"
  by (simp add: keeps_def)

lemma keeps_more: "pst.more t = pst.more s \<Longrightarrow> keeps b s t"
  by (cases s, cases t) (simp add: keeps_def kst.defs)

definition calm :: "(proc_state \<times> proc_state) set \<Rightarrow> (proc \<Rightarrow> proc) \<Rightarrow> bool" where
  "calm b f \<longleftrightarrow> (\<forall>p. pkeep b p (f p))"

lemma keeps_update: "pkeep b (procs s i) (f (procs s i)) \<Longrightarrow> keeps b s (set_proc i f s)"
  by (simp add: keeps_def set_proc_def)

lemma keeps_set_proc: "calm b f \<Longrightarrow> keeps b s (set_proc i f s)"
  by (rule keeps_update) (simp add: calm_def)

named_theorems vc \<open>rules for computations that keep the process table\<close>

lemma ok_rules [vc]:
  "ok b s (Inl e)" "okr b s (Inl e)"
  "keeps b s t \<Longrightarrow> ok b s (Inr t)" "keeps b s t \<Longrightarrow> okr b s (Inr (r, t))"
  "ok b s m \<Longrightarrow> (\<And>t. ok b t (f t)) \<Longrightarrow> ok b s (kbind m f)"
  "ok b s m \<Longrightarrow> (\<And>t. okr b t (g t)) \<Longrightarrow> okr b s (kbind m g)"
  "okr b s m' \<Longrightarrow> (\<And>r t. ok b t (h (r, t))) \<Longrightarrow> ok b s (kbind m' h)"
  "okr b s m' \<Longrightarrow> (\<And>r t. okr b t (h' (r, t))) \<Longrightarrow> okr b s (kbind m' h')"
  "(c \<Longrightarrow> ok b s x) \<Longrightarrow> (\<not> c \<Longrightarrow> ok b s y) \<Longrightarrow> ok b s (if c then x else y)"
  "(c \<Longrightarrow> okr b s x') \<Longrightarrow> (\<not> c \<Longrightarrow> okr b s y') \<Longrightarrow> okr b s (if c then x' else y')"
  "ok b s x \<Longrightarrow> ok b s (kguard c e x)" "okr b s x' \<Longrightarrow> okr b s (kguard c e x')"
  unfolding ok_def okr_def kguard_def using keeps_trans by (auto elim!: kbind_InrE) blast+

lemma ok_from:
  "keeps b s t \<Longrightarrow> ok b t m \<Longrightarrow> ok b s m" "keeps b s t \<Longrightarrow> okr b t m' \<Longrightarrow> okr b s m'"
  unfolding ok_def okr_def by (blast intro: keeps_trans)+

lemma ok_let [vc]:
  "keeps b s s' \<Longrightarrow> (\<And>t. ok b t (f t)) \<Longrightarrow> ok b s (let t = s' in f t)"
  "keeps b s s' \<Longrightarrow> (\<And>t. okr b t (g t)) \<Longrightarrow> okr b s (let t = s' in g t)"
  unfolding Let_def by (blast intro: ok_from)+

lemma ok_let_val [vc]:
  "ok b s (fi i) \<Longrightarrow> ok b s (let x = (i :: int) in fi x)" "okr b s (gi i) \<Longrightarrow> okr b s (let x = (i :: int) in gi x)"
  "ok b s (fb c) \<Longrightarrow> ok b s (let x = (c :: bool) in fb x)" "okr b s (gb c) \<Longrightarrow> okr b s (let x = (c :: bool) in gb x)"
  "ok b s (fo q) \<Longrightarrow> ok b s (let x = (q :: nat option) in fo x)" "okr b s (go q) \<Longrightarrow> okr b s (let x = (q :: nat option) in go x)"
  "ok b s (fw w) \<Longrightarrow> ok b s (let x = (w :: uint64) in fw x)" "ok b s (fv v) \<Longrightarrow> ok b s (let x = (v :: uint32) in fv x)"
  "ok b s (fm m) \<Longrightarrow> ok b s (let x = (m :: mem) in fm x)"
  unfolding Let_def .

lemma ok_prod [vc]: "ok b s (f a c) \<Longrightarrow> ok b s (case (a, c) of (x, y) \<Rightarrow> f x y)"
  "okr b s (g a c) \<Longrightarrow> okr b s (case (a, c) of (x, y) \<Rightarrow> g x y)"
  by simp_all

lemma ok_option [vc]:
  "ok b s x \<Longrightarrow> (\<And>a. ok b s (f a)) \<Longrightarrow> ok b s (case q of None \<Rightarrow> x | Some a \<Rightarrow> f a)"
  "okr b s y \<Longrightarrow> (\<And>a. okr b s (g a)) \<Longrightarrow> okr b s (case q of None \<Rightarrow> y | Some a \<Rightarrow> g a)"
  by (auto split: option.splits)

lemma ok_kfold: "(\<And>x s. x \<in> set xs \<Longrightarrow> ok b s (f x s)) \<Longrightarrow> ok b s (kfold f xs s)"
  by (induction xs arbitrary: s) (auto intro!: vc)

lemma lock_same:
  "plock i s = Inr t \<Longrightarrow> nextpid t = nextpid s \<and> (\<forall>j. \<exists>l. procs t j = (procs s j)\<lparr>plk := l\<rparr>)"
  "punlock i s = Inr t \<Longrightarrow> nextpid t = nextpid s \<and> (\<forall>j. \<exists>l. procs t j = (procs s j)\<lparr>plk := l\<rparr>)"
  "wlock s = Inr t \<Longrightarrow> nextpid t = nextpid s \<and> procs t = procs s"
  "wunlock s = Inr t \<Longrightarrow> nextpid t = nextpid s \<and> procs t = procs s"
  by (auto simp: plock_def punlock_def wlock_def wunlock_def set_proc_def elim!: kbind_InrE split: prod.splits if_splits)
    (metis proc.surjective proc.update_convs(1))+

lemma keeps_plk: "nextpid t = nextpid s \<and> (\<forall>j. \<exists>l. procs t j = (procs s j)\<lparr>plk := l\<rparr>) \<Longrightarrow> keeps A s t"
  unfolding keeps_def using pkeep_same [of "p\<lparr>plk := l\<rparr>" p A for p l] by (metis proc.select_convs proc.surjective proc.update_convs(1) prio_ok_def)

lemma ok_locks [vc]: "ok A s (plock i s)" "ok A s (punlock i s)" "ok A s (wlock s)" "ok A s (wunlock s)"
  unfolding ok_def by (blast dest: lock_same intro: keeps_plk keeps_same)+

lemma cur_same: "cur s = Inr (i, t) \<Longrightarrow> procs t = procs s \<and> nextpid t = nextpid s \<and> cpu_proc (mycpu (khart s)) = Some i"
  by (auto simp: cur_def myproc_s_def myproc_def Let_def push_off_facts elim!: kbind_InrE split: option.splits prod.splits)

lemma ok_myproc [vc]: "okr b s (myproc_s s)" "okr b s (cur s)"
  by (auto simp: okr_def myproc_s_def elim!: kbind_InrE intro!: keeps_same dest: cur_same split: prod.splits)

lemma ok_frame [vc]:
  "okr b s (pmem_alloc s)" "ok b s (pmem_free p s)" "ok b s (vm_mappages r va pa len perm s)" "ok b s (uvm_destroy_pgtbl r s)"
  "ok b s (uvm_copy_pgtbl r n h s)" "okr b s (uvm_copyout r dst src len' s)"
  by (auto simp: ok_def okr_def intro!: keeps_more dest: frame)

lemma ok_lift_fs [vc]: "ok b s (lift_fs f s)"
  by (auto simp: ok_def lift_fs_def elim!: kbind_InrE intro!: keeps_same)

lemma keeps_kmem [simp]: "keeps b s (s\<lparr>kmem := m\<rparr>)" "keeps b s (tf_set i off v s)"
  by (simp_all add: keeps_same tf_set_def)

lemma calm_simps [simp]:
  "calm b (\<lambda>p. p\<lparr>tf := t\<rparr>)" "calm b (\<lambda>p. p\<lparr>pctx := c\<rparr>)" "calm b (\<lambda>p. p\<lparr>killed := True\<rparr>)" "calm b (\<lambda>p. p\<lparr>pgtbl := g\<rparr>)"
  "calm b (\<lambda>p. p\<lparr>pctx := h p\<rparr>)"
  "calm b (\<lambda>p. p\<lparr>sleep_space := None\<rparr>)" "calm b (\<lambda>p. p\<lparr>parent := q\<rparr>)" "calm b (\<lambda>p. p\<lparr>ofile := (ofile p)(fd := f)\<rparr>)"
  "calm b (\<lambda>p. p\<lparr>ustack_pages := n\<rparr>)"
  by (auto simp: calm_def prio_ok_def layout intro: pkeep_same)

text \<open>The operations that wake processes.\<close>

abbreviation waking :: "(proc_state \<times> proc_state) set" where
  "waking \<equiv> {(SLEEPING, RUNNABLE)}"

lemma calm_wake [simp]: "waking \<subseteq> b \<Longrightarrow> calm b kill" "waking \<subseteq> b \<Longrightarrow> calm b (wake space)"
  by (auto simp: calm_def prio_ok_def kill_def wake_def layout intro: pkeep_same pkeep_step)

lemma ok_sched [vc]: "okr b s (proc_sched_out regs s)"
  unfolding proc_sched_out_def
  by (intro vc keeps_set_proc keeps_same) simp_all

lemma keeps_sched_in [simp]: "keeps b s (proc_sched_in i s)"
  by (simp add: keeps_same proc_sched_in_def)

lemma ok_wakeup_one [vc]:
  assumes "waking \<subseteq> b"
  shows "ok b s (proc_wakeup_one q s)"
proof -
  have "(if pstate (procs s i) = SLEEPING \<and> sleep_space (procs s i) = Some (ProcChan i)
      then set_proc i (\<lambda>p. p\<lparr>pstate := RUNNABLE\<rparr>) s else s) = set_proc i (wake (ProcChan i)) s" for i
    by (simp add: set_proc_def wake_def)
  then show ?thesis unfolding proc_wakeup_one_def using assms by (simp only:) (intro vc keeps_set_proc, simp)
qed

lemma ok_reparent [vc]:
  assumes "waking \<subseteq> b"
  shows "ok b s (proc_reparent q s)"
  unfolding proc_reparent_def
proof (rule ok_kfold)
  fix i and t :: "'a kst_scheme"
  have "keeps b t (set_proc i (\<lambda>p. p\<lparr>parent := proczero t\<rparr>) t)" by (rule keeps_set_proc) simp
  then show "ok b t (if parent (procs t i) = Some q
      then proc_wakeup_one (proczero t) (set_proc i (\<lambda>p. p\<lparr>parent := proczero t\<rparr>) t) else Inr t)"
    using ok_wakeup_one [OF assms] by (auto intro: vc ok_from(1))
qed

lemma ok_killed [vc]: "okr b s (proc_killed i s)" "ok b s (proc_setkilled i s)"
proof -
  show "okr b s (proc_killed i s)" unfolding proc_killed_def by (intro vc) simp_all
  have "ok b t (punlock i (set_proc i (\<lambda>p. p\<lparr>killed := True\<rparr>) t))" for t :: "'a kst_scheme"
    by (rule ok_from(1) [OF keeps_set_proc [where f = "\<lambda>p. p\<lparr>killed := True\<rparr>" and i = i]]) (simp, intro vc)
  then show "ok b s (proc_setkilled i s)" unfolding proc_setkilled_def by (intro vc)
qed

lemma ok_kill [vc]:
  assumes "waking \<subseteq> b"
  shows "okr b s (proc_kill n s)"
proof -
  have k: "set_proc i (\<lambda>p. p\<lparr>killed := True, pstate := if pstate p = SLEEPING then RUNNABLE else pstate p\<rparr>) t = set_proc i kill t"
    for i and t :: "'a kst_scheme" by (simp add: set_proc_def kill_def)
  have "okr b s (kill_scan k i n s)" for k i and s :: "'a kst_scheme"
  proof (induction k arbitrary: i s)
    case (Suc k)
    then show ?case unfolding kill_scan.simps k using assms by (intro vc keeps_set_proc) simp_all
  qed (auto intro: vc)
  then show ?thesis by (simp add: proc_kill_def)
qed

lemma ok_alloc_scan: "okr A s (proc_alloc_scan k i s)"
proof (induction k arbitrary: i s)
  case (Suc k)
  show ?case unfolding proc_alloc_scan.simps by (intro vc Suc) simp_all
qed (auto intro: vc)


section \<open>The operations of the process table\<close>

lemma kfold_same: "(\<And>x s t. f x s = Inr t \<Longrightarrow> P s t) \<Longrightarrow> (\<And>s. P s s) \<Longrightarrow> (\<And>s t u. P s t \<Longrightarrow> P t u \<Longrightarrow> P s u) \<Longrightarrow>
    kfold f xs s = Inr t \<Longrightarrow> P s t"
  by (induction xs arbitrary: s) (auto elim!: kbind_InrE, blast)

lemma okD: "ok A s m \<Longrightarrow> m = Inr t \<Longrightarrow> keeps A s t" "okr A s m' \<Longrightarrow> m' = Inr (r, t) \<Longrightarrow> keeps A s t"
  by (auto simp: ok_def okr_def)

lemma okI: "(\<And>t. m = Inr t \<Longrightarrow> keeps A s t) \<Longrightarrow> ok A s m" "(\<And>r t. m' = Inr (r, t) \<Longrightarrow> keeps A s t) \<Longrightarrow> okr A s m'"
  by (auto simp: ok_def okr_def)

lemma kbind_same: "m = Inr x \<Longrightarrow> kbind m f = f x"
  by simp

text \<open>The process that the current one is: it exists and runs.\<close>

definition running :: "'a kst_scheme \<Rightarrow> bool" where
  "running s \<longleftrightarrow> (\<forall>i. cpu_proc (mycpu (khart s)) = Some i \<longrightarrow> i < NPROC \<and> pstate (procs s i) = RUNNING)"

lemma keeps_switch:
  assumes "running s" and "cur s = Inr (i, s1)" and "plock i s1 = Inr s2" and "procs s3 = procs s2" "nextpid s3 = nextpid s2"
    and "\<And>p. pid (f p) = pid p" "\<And>p. pstate (f p) = x" "\<And>p. prio_ok (f p) = prio_ok p" and "(RUNNING, x) \<in> A"
  shows "keeps A s (set_proc i f s3)"
proof -
  have c: "procs s1 = procs s" "nextpid s1 = nextpid s" "pstate (procs s i) = RUNNING"
    using cur_same [OF assms(2)] assms(1) by (auto simp: running_def)
  have l: "nextpid s2 = nextpid s" "\<exists>l. procs s2 j = (procs s j)\<lparr>plk := l\<rparr>" for j
    using lock_same(1) [OF assms(3)] c by auto
  have "keeps A s s2" using lock_same(1) [OF assms(3)] c by (intro keeps_plk) simp
  moreover have "keeps A s2 s3" using assms(4,5) by (rule keeps_same)
  moreover have "keeps A s3 (set_proc i f s3)"
    using l(2) [of i] c(3) assms(4,6-9) by (intro keeps_update pkeep_step) auto
  ultimately show ?thesis by (blast intro: keeps_trans)
qed

lemma keeps_sched_out:
  assumes "running s" and "cur s = Inr (i, s1)" and "plock i s1 = Inr s2" and "procs s3 = procs s2" "nextpid s3 = nextpid s2"
    and "proc_sched_out regs (set_proc i f s3) = Inr (r, t)"
    and "\<And>p. pid (f p) = pid p" "\<And>p. pstate (f p) = x" "\<And>p. prio_ok (f p) = prio_ok p" and "(RUNNING, x) \<in> A"
  shows "keeps A s t"
  by (rule keeps_trans [OF keeps_switch [OF assms(1-5,7-10)] okD(2) [OF ok_sched assms(6)]])

lemma okr_yield:
  assumes "running s"
  shows "okr {(RUNNING, RUNNABLE)} s (proc_yield_out regs s)"
proof (rule okI)
  fix r t assume "proc_yield_out regs s = Inr (r, t)"
  then obtain i s1 s2 where s: "cur s = Inr (i, s1)" "plock i s1 = Inr s2"
    "proc_sched_out regs (set_proc i (\<lambda>p. p\<lparr>pstate := RUNNABLE\<rparr>) s2) = Inr (r, t)"
    unfolding proc_yield_out_def by (auto elim!: kbind_InrE)
  show "keeps {(RUNNING, RUNNABLE)} s t"
    by (rule keeps_sched_out [OF assms s(1,2) refl refl s(3)]) (auto simp: prio_ok_def)
qed

lemma okr_sleep:
  assumes "running s" and "\<And>s t. unlk s = Inr t \<Longrightarrow> procs t = procs s \<and> nextpid t = nextpid s"
  shows "okr {(RUNNING, SLEEPING)} s (proc_sleep_out space unlk regs s)"
proof (rule okI)
  fix r t assume "proc_sleep_out space unlk regs s = Inr (r, t)"
  then obtain i s1 s2 s3 where s: "cur s = Inr (i, s1)" "plock i s1 = Inr s2" "unlk s2 = Inr s3"
    "proc_sched_out regs (set_proc i (\<lambda>p. p\<lparr>sleep_space := Some space, pstate := SLEEPING\<rparr>) s3) = Inr (r, t)"
    unfolding proc_sleep_out_def by (auto elim!: kbind_InrE)
  show "keeps {(RUNNING, SLEEPING)} s t"
    by (rule keeps_sched_out [OF assms(1) s(1,2) _ _ s(4)]) (use assms(2) [OF s(3)] in \<open>auto simp: prio_ok_def\<close>)
qed

lemma wake_star: "(x, y) \<in> waking\<^sup>* \<Longrightarrow> y = x \<or> x = SLEEPING \<and> y = RUNNABLE"
  by (induction rule: rtrancl_induct) auto

lemma keeps_woken: "keeps waking s t \<Longrightarrow> pstate (procs t i) = pstate (procs s i) \<or>
    pstate (procs s i) = SLEEPING \<and> pstate (procs t i) = RUNNABLE"
  using wake_star by (auto simp: keeps_def pkeep_def)

lemma pkeep_state: "pkeep {} p q \<Longrightarrow> pstate q = pstate p"
  by (simp add: pkeep_def)

lemma keeps_state: "keeps {} s t \<Longrightarrow> pstate (procs t i) = pstate (procs s i)"
  by (simp add: keeps_def pkeep_def)

lemma ok_close_files: "ok A s (kfold (\<lambda>fd s. case ofile (procs s i) fd of None \<Rightarrow> Inr s
    | Some f \<Rightarrow> kbind (lift_fs (file_close f) s) (\<lambda>s. Inr (set_proc i (\<lambda>p. p\<lparr>ofile := (ofile p)(fd := None)\<rparr>) s))) fds s)"
  by (rule ok_kfold) (intro vc keeps_set_proc, simp_all)

lemma okr_exit:
  assumes "running s"
  shows "okr (insert (RUNNING, ZOMBIE) waking) s (proc_exit x regs s)"
proof (rule okI)
  fix r t assume e: "proc_exit x regs s = Inr (r, t)"
  then obtain i s1 s2 s3 s4 s5 s6 s7 where s: "cur s = Inr (i, s1)"
    "kfold (\<lambda>fd s. case ofile (procs s i) fd of None \<Rightarrow> Inr s
    | Some f \<Rightarrow> kbind (lift_fs (file_close f) s) (\<lambda>s. Inr (set_proc i (\<lambda>p. p\<lparr>ofile := (ofile p)(fd := None)\<rparr>) s))) [0..<NOFILE] s1 = Inr s2"
    "wlock s2 = Inr s3" "proc_reparent i s3 = Inr s4" "proc_wakeup_one (parent (procs s4 i)) s4 = Inr s5"
    "plock i s5 = Inr s6" "wunlock (set_proc i (\<lambda>p. p\<lparr>xstate := x, pstate := ZOMBIE\<rparr>) s6) = Inr s7"
    "proc_sched_out regs s7 = Inr (r, t)"
    unfolding proc_exit_def Let_def by (auto elim!: kbind_InrE simp: kguard_def split: if_splits)
  have k: "keeps waking s s1" "keeps waking s1 s2" "keeps waking s2 s3" "keeps waking s3 s4" "keeps waking s4 s5" "keeps waking s5 s6"
    using okD(2) [OF ok_myproc(2) s(1)] okD(1) [OF ok_close_files s(2)] okD(1) [OF ok_locks(3) s(3)] okD(1) [OF ok_reparent [OF order_refl] s(4)]
      okD(1) [OF ok_wakeup_one [OF order_refl] s(5)] okD(1) [OF ok_locks(1) s(6)] by blast+
  then have k6: "keeps waking s s6" by (blast intro: keeps_trans)
  have "pstate (procs s i) = RUNNING" using assms cur_same [OF s(1)] by (auto simp: running_def)
  then have "pstate (procs s6 i) = RUNNING" using keeps_woken [OF k6, of i] by auto
  then have "keeps (insert (RUNNING, ZOMBIE) waking) s6 (set_proc i (\<lambda>p. p\<lparr>xstate := x, pstate := ZOMBIE\<rparr>) s6)"
    by (intro keeps_update pkeep_step) (auto simp: prio_ok_def)
  then show "keeps (insert (RUNNING, ZOMBIE) waking) s t"
    using keeps_mono [OF k6, of "insert (RUNNING, ZOMBIE) waking"] okD(1) [OF ok_locks(4) s(7)] okD(2) [OF ok_sched s(8)]
    by (blast intro: keeps_trans)
qed


text \<open>Freeing and allocating slots.\<close>

lemma more_same: "pst.more t = pst.more s \<Longrightarrow> procs t = procs s \<and> nextpid t = nextpid (s :: 'a kst_scheme)"
  by (cases s, cases t) simp

lemma proc_free_procs:
  assumes "proc_free i s = Inr t"
  shows "nextpid t = nextpid s" "procs t = (procs s)(i := (procs s i)\<lparr>tf := 0, pgtbl := 0, ustack_pages := 0, parent := None,
    sleep_space := None, killed := False, xstate := 0, pstate := UNUSED, priority := PRIORITY_DEFAULT, priority_boost := 0\<rparr>)"
proof -
  obtain s1 s2 where s: "(if tf (procs s i) \<noteq> 0 then pmem_free (tf (procs s i)) s else Inr s) = Inr s1"
    "(if pgtbl (procs (set_proc i (\<lambda>p. p\<lparr>tf := 0\<rparr>) s1) i) \<noteq> 0 then
       uvm_destroy_pgtbl (pgtbl (procs (set_proc i (\<lambda>p. p\<lparr>tf := 0\<rparr>) s1) i)) (set_proc i (\<lambda>p. p\<lparr>tf := 0\<rparr>) s1)
      else Inr (set_proc i (\<lambda>p. p\<lparr>tf := 0\<rparr>) s1)) = Inr s2"
    "t = set_proc i (\<lambda>p. p\<lparr>pgtbl := 0, ustack_pages := 0, parent := None, sleep_space := None, killed := False,
          xstate := 0, pstate := UNUSED, priority := PRIORITY_DEFAULT, priority_boost := 0\<rparr>) s2"
    using assms unfolding proc_free_def Let_def by (blast elim!: kbind_InrE dest: sum.inject(2) [THEN iffD1])
  have "procs s1 = procs s \<and> nextpid s1 = nextpid s"
    using s(1) more_same by (auto dest: frame split: if_splits)
  moreover have "procs s2 = procs (set_proc i (\<lambda>p. p\<lparr>tf := 0\<rparr>) s1) \<and> nextpid s2 = nextpid s1"
    using s(2) by (auto simp: set_proc_def dest!: frame more_same split: if_splits)
  ultimately show "nextpid t = nextpid s" "procs t = (procs s)(i := (procs s i)\<lparr>tf := 0, pgtbl := 0, ustack_pages := 0, parent := None,
    sleep_space := None, killed := False, xstate := 0, pstate := UNUSED, priority := PRIORITY_DEFAULT, priority_boost := 0\<rparr>)"
    using s(3) by (simp_all add: set_proc_def)
qed

lemma keeps_free:
  assumes "proc_free i s = Inr t" and "pstate (procs s i) = ZOMBIE"
  shows "keeps {(ZOMBIE, UNUSED)} s t"
  using proc_free_procs [OF assms(1)] assms(2)
  by (auto simp: keeps_def prio_ok_def layout intro: pkeep_step)

lemma copyout_same: "copyout_xstate pt addr i s = Inr t \<Longrightarrow> procs t = procs s \<and> nextpid t = nextpid s"
  unfolding copyout_xstate_def Let_def by (auto elim!: kbind_InrE dest!: uvm_copyout_more more_same)

lemma keeps_wait_scan: "wait_scan k i me addr h s = Inr (r, h', t) \<Longrightarrow> keeps {(ZOMBIE, UNUSED)} s t"
proof (induction k arbitrary: i h s)
  case (Suc k)
  show ?case
  proof (cases "parent (procs s i) = Some me")
    case True
    then obtain s1 where s1: "plock i s = Inr s1" "(if pstate (procs s1 i) = ZOMBIE then
          let n = pid (procs s1 i)
          in kbind (if addr \<noteq> 0 then copyout_xstate (pgtbl (procs s1 me)) addr i s1 else Inr s1) (\<lambda>s.
             kbind (proc_free i s) (\<lambda>s.
             kbind (punlock i s) (\<lambda>s.
             kbind (wunlock s) (\<lambda>s. Inr (Some n, True, s)))))
        else kbind (punlock i s1) (wait_scan k (Suc i) me addr True)) = Inr (r, h', t)"
      using Suc.prems by (auto elim!: kbind_InrE)
    note k1 = okD(1) [OF ok_locks(1) s1(1), of "{(ZOMBIE, UNUSED)}"]
    show ?thesis
    proof (cases "pstate (procs s1 i) = ZOMBIE")
      case z: True
      then obtain s2 s3 s4 where s: "(if addr \<noteq> 0 then copyout_xstate (pgtbl (procs s1 me)) addr i s1 else Inr s1) = Inr s2"
        "proc_free i s2 = Inr s3" "punlock i s3 = Inr s4" "wunlock s4 = Inr t"
        using s1(2) by (auto simp: Let_def elim!: kbind_InrE)
      have c: "procs s2 = procs s1" "nextpid s2 = nextpid s1" using s(1) by (auto dest: copyout_same split: if_splits)
      show ?thesis
        using k1 keeps_same [OF c] keeps_free [OF s(2)] c(1) z okD(1) [OF ok_locks(2) s(3)] okD(1) [OF ok_locks(4) s(4)]
        by (metis keeps_trans)
    next
      case False
      then obtain s2 where s2: "punlock i s1 = Inr s2" "wait_scan k (Suc i) me addr True s2 = Inr (r, h', t)"
        using s1(2) by (auto elim!: kbind_InrE)
      show ?thesis using k1 okD(1) [OF ok_locks(2) s2(1)] Suc.IH [OF s2(2)] by (blast intro: keeps_trans)
    qed
  next
    case False
    then show ?thesis using Suc.prems Suc.IH by auto
  qed
qed simp


text \<open>\<open>grow x v n s t\<close>: the free slot \<open>n\<close> has become a process in state \<open>x\<close> with pid \<open>v\<close>, or is free again.\<close>

definition grow :: "proc_state \<Rightarrow> int \<Rightarrow> nat \<Rightarrow> 'a kst_scheme \<Rightarrow> 'a kst_scheme \<Rightarrow> bool" where
  "grow x v n s t \<longleftrightarrow> n < NPROC \<and> nextpid s < nextpid t \<and> nextpid t < 2 ^ 31 \<and> pstate (procs s n) = UNUSED \<and> pstate (procs t n) = x \<and>
     (x = UNUSED \<or> x = RUNNABLE \<and> pid (procs t n) = v) \<and> prio_ok (procs t n) \<and>
     (\<forall>j. j \<noteq> n \<longrightarrow> pkeep {} (procs s j) (procs t j))"

lemma pkeep_live: "pkeep {} p q \<Longrightarrow> (pstate q \<noteq> UNUSED) = (pstate p \<noteq> UNUSED)"
  by (simp add: pkeep_state)

lemma grow_ptab:
  assumes "grow x v n s t" and "ptab_ok s" and "v = nextpid s \<or> v = 0 \<and> (\<forall>j < NPROC. \<not> live s j)"
  shows "ptab_ok t"
proof -
  have n: "n < NPROC" "nextpid s < nextpid t" "prio_ok (procs t n)" "live t n \<Longrightarrow> pid (procs t n) = v" "nextpid t < 2 ^ 31"
    using assms(1) by (auto simp: grow_def)
  have v: "0 \<le> v" "0 < nextpid s" "v \<le> nextpid s" using assms(2,3) by (auto simp: ptab_ok_def)
  have o: "pid (procs t j) = pid (procs s j)" "live t j \<longleftrightarrow> live s j" "prio_ok (procs s j) \<Longrightarrow> prio_ok (procs t j)"
    if "j \<noteq> n" for j using assms(1) that pkeep_live [of "procs s j" "procs t j"] by (auto simp: grow_def pkeep_def)
  have old: "v = nextpid s" "pid (procs t j) < nextpid s" "0 \<le> pid (procs t j)" if "j < NPROC" "j \<noteq> n" "live t j" for j
    using that o [of j] assms(2,3) by (auto simp: ptab_ok_def)
  have "prio_ok (procs t j)" if "j < NPROC" for j using that o [of j] n assms(2) by (cases "j = n") (auto simp: ptab_ok_def)
  moreover have "0 \<le> pid (procs t j) \<and> pid (procs t j) < nextpid t" if "j < NPROC" "live t j" for j
    using that old [of j] n v by (cases "j = n") auto
  moreover have "0 < nextpid t" using n(2) v(2) by simp
  moreover have "i = j" if "i < NPROC" "j < NPROC" "live t i" "live t j" "pid (procs t i) = pid (procs t j)" for i j
  proof (cases "i = n \<or> j = n")
    case True
    then show ?thesis using that old [of i] old [of j] n(4) by (metis less_irrefl)
  next
    case False
    then show ?thesis using that o [of i] o [of j] assms(2) by (auto simp: ptab_ok_def)
  qed
  ultimately show ?thesis using n(5) unfolding ptab_ok_def by blast
qed

lemma grow_before: "keeps {} s s1 \<Longrightarrow> grow x v n s1 t \<Longrightarrow> grow x v n s t"
  unfolding grow_def keeps_def using pkeep_trans pkeep_live by metis

lemma grow_after:
  assumes "grow x v n s t" and "keeps {} t u"
  shows "grow x v n s u"
proof -
  have "pstate (procs u n) = x" using keeps_state [OF assms(2), of n] assms(1) by (auto simp: grow_def)
  moreover have "nextpid u = nextpid t" "pid (procs u n) = pid (procs t n)" "prio_ok (procs t n) \<Longrightarrow> prio_ok (procs u n)"
    using assms(2) by (auto simp: keeps_def pkeep_def)
  moreover have "pkeep {} (procs s j) (procs u j)" if "j \<noteq> n" for j
    using assms that by (auto simp: grow_def keeps_def intro: pkeep_trans)
  ultimately show ?thesis using assms(1) by (simp add: grow_def)
qed

lemma grow_set:
  assumes "grow x v n s t" and "pid (f (procs t n)) = pid (procs t n)" and "pstate (f (procs t n)) = x"
    and "prio_ok (f (procs t n))"
  shows "grow x v n s (set_proc n f t)"
  using assms by (auto simp: grow_def set_proc_def)

lemma grow_step: "grow x v n s t \<Longrightarrow> ok {} t m \<Longrightarrow> m = Inr u \<Longrightarrow> grow x v n s u"
  "grow x v n s t \<Longrightarrow> okr {} t m' \<Longrightarrow> m' = Inr (r, u) \<Longrightarrow> grow x v n s u"
  by (blast intro: grow_after okD)+

lemma alloc_scan_slot: "proc_alloc_scan k i s = Inr (Some n, t) \<Longrightarrow> n < i + k \<and> pstate (procs t n) = UNUSED"
  by (induction k arbitrary: i s) (auto elim!: kbind_InrE split: if_splits, fastforce)

lemma allocpid_same: "allocpid s = Inr (n, t) \<Longrightarrow> n = nextpid s \<and> nextpid t = nextpid s + 1 \<and> procs t = procs s \<and> nextpid t < 2 ^ 31"
  unfolding allocpid_def Let_def by (auto simp: kguard_Inr_iff elim!: kbind_InrE)

lemma ok_pgtbl_init [vc]: "okr A s (proc_pgtbl_init t s)"
  unfolding proc_pgtbl_init_def by (intro vc) simp_all


lemma grow_free:
  assumes "grow x v n s t" and "proc_free n t = Inr u"
  shows "grow UNUSED v n s u"
  using assms(1) proc_free_procs [OF assms(2)] by (auto simp: grow_def prio_ok_def layout)

lemma grow_tf: "grow x v n s t \<Longrightarrow> grow x v n s (set_proc n (\<lambda>p. p\<lparr>tf := u\<rparr>) t)"
  "grow x v n s t \<Longrightarrow> grow x v n s (set_proc n (\<lambda>p. p\<lparr>pgtbl := w\<rparr>) t)"
  "grow x v n s t \<Longrightarrow> grow x v n s (set_proc n (\<lambda>p. p\<lparr>pctx := c p\<rparr>) t)"
  by (auto simp: grow_def set_proc_def prio_ok_def)

lemma alloc_grow:
  assumes "proc_alloc s = Inr (r, t)"
  shows "case r of None \<Rightarrow> keeps {} s t \<or> (\<exists>n. grow UNUSED (nextpid s) n s t) | Some n \<Rightarrow> grow RUNNABLE (nextpid s) n s t"
proof -
  obtain q s1 where s1: "proc_alloc_scan NPROC 0 s = Inr (q, s1)" using assms by (auto simp: proc_alloc_def elim!: kbind_InrE)
  have k1: "keeps {} s s1" using okD(2) [OF ok_alloc_scan s1] .
  then have np: "nextpid s1 = nextpid s" by (simp add: keeps_def)
  show ?thesis
  proof (cases q)
    case None
    then show ?thesis using assms s1 k1 by (simp add: proc_alloc_def)
  next
    case (Some n)
    let ?new = "\<lambda>p. p\<lparr>pid := nextpid s1, priority := PRIORITY_DEFAULT, priority_boost := 0, pstate := RUNNABLE\<rparr>"
    obtain m s2 where s2: "allocpid s1 = Inr (m, s2)" using assms s1 Some by (auto simp: proc_alloc_def elim!: kbind_InrE)
    have a: "m = nextpid s1" "nextpid s2 = nextpid s1 + 1" "procs s2 = procs s1" "nextpid s2 < 2 ^ 31" using allocpid_same [OF s2] by auto
    have n: "n < NPROC" "pstate (procs s1 n) = UNUSED" using alloc_scan_slot [OF s1 [unfolded Some]] by auto
    have g3: "grow RUNNABLE (nextpid s) n s (set_proc n ?new s2)"
      by (rule grow_before [OF k1]) (use n a np in \<open>auto simp: grow_def set_proc_def prio_ok_def layout\<close>)
    obtain v s4 where s4: "pmem_alloc (set_proc n ?new s2) = Inr (v, s4)"
      using assms s1 Some s2 a(1) by (auto simp: proc_alloc_def Let_def elim!: kbind_InrE)
    note g4 = grow_tf(1) [OF grow_step(2) [OF g3 ok_frame(1) s4], of v]
    show ?thesis
    proof (cases "v = 0")
      case True
      obtain s5 s6 where "proc_free n (set_proc n (\<lambda>p. p\<lparr>tf := v\<rparr>) s4) = Inr s5" "punlock n s5 = Inr s6" "r = None" "t = s6"
        using assms s1 Some s2 a(1) s4 True by (auto simp: proc_alloc_def Let_def elim!: kbind_InrE)
      then show ?thesis using grow_step(1) [OF grow_free [OF g4] ok_locks(2)] by auto
    next
      case False
      obtain w s5 where s5: "proc_pgtbl_init v (set_proc n (\<lambda>p. p\<lparr>tf := v\<rparr>) s4) = Inr (w, s5)"
        using assms s1 Some s2 a(1) s4 False by (auto simp: proc_alloc_def Let_def elim!: kbind_InrE)
      note g5 = grow_tf(2) [OF grow_step(2) [OF g4 ok_pgtbl_init s5], of w]
      show ?thesis
      proof (cases "w = 0")
        case True
        obtain s6 s7 where "proc_free n (set_proc n (\<lambda>p. p\<lparr>pgtbl := w\<rparr>) s5) = Inr s6" "punlock n s6 = Inr s7" "r = None" "t = s7"
          using assms s1 Some s2 a(1) s4 False s5 True by (auto simp: proc_alloc_def Let_def elim!: kbind_InrE)
        then show ?thesis using grow_step(1) [OF grow_free [OF g5] ok_locks(2)] by auto
      next
        case w: False
        then show ?thesis
          using assms s1 Some s2 a(1) s4 False s5 grow_tf(3) [OF g5] by (auto simp: proc_alloc_def Let_def)
      qed
    qed
  qed
qed


lemma grow_keeps: "grow x v n s t \<Longrightarrow> keeps {} t u \<Longrightarrow> ok {} u m \<Longrightarrow> m = Inr w \<Longrightarrow> grow x v n s w"
  by (blast intro: grow_after okD keeps_trans)

lemma ok_dup_files: "ok A s (kfold (\<lambda>fd s. case ofile (procs s i) fd of None \<Rightarrow> Inr s
    | Some f \<Rightarrow> kbind (lift_fs (file_dup f) s) (\<lambda>s. Inr (set_proc n (\<lambda>p. p\<lparr>ofile := (ofile p)(fd := Some f)\<rparr>) s))) fds s)"
  by (rule ok_kfold) (intro vc keeps_set_proc, simp_all)

lemma fork_grow:
  assumes "proc_fork s = Inr (r, t)" and "running s" and "ptab_ok s"
  shows "keeps {} s t \<or> (\<exists>x n. grow x (nextpid s) n s t)"
proof -
  obtain i s1 q s2 where s: "cur s = Inr (i, s1)" "proc_alloc s1 = Inr (q, s2)"
    using assms(1) by (auto simp: proc_fork_def elim!: kbind_InrE)
  have i: "i < NPROC" using cur_same [OF s(1)] assms(2) by (auto simp: running_def)
  have k1: "keeps {} s s1" using okD(2) [OF ok_myproc(2) s(1)] .
  then have np: "nextpid s1 = nextpid s" by (simp add: keeps_def)
  show ?thesis
  proof (cases q)
    case None
    then have "keeps {} s1 t \<or> (\<exists>n. grow UNUSED (nextpid s1) n s1 t)"
      using alloc_grow [OF s(2)] s assms(1) by (simp add: proc_fork_def)
    then show ?thesis using k1 grow_before [OF k1] np by (metis keeps_trans)
  next
    case (Some n)
    have g2: "grow RUNNABLE (nextpid s) n s s2" using grow_before [OF k1] alloc_grow [OF s(2)] Some np by simp
    let ?tf = "\<lambda>s. tf_set n TF_a0 0 (s\<lparr>kmem := memmove (kmem s) (tf (procs s n)) (tf (procs s i)) (of_nat TF_SIZE)\<rparr>)"
    obtain s3 s4 s5 s6 s7 s8 where f:
      "uvm_copy_pgtbl (pgtbl (procs s2 i)) (pgtbl (procs s2 n)) (heap_top (procs s2 i)) s2 = Inr s3"
      "kfold (\<lambda>fd s. case ofile (procs s i) fd of None \<Rightarrow> Inr s
        | Some f \<Rightarrow> kbind (lift_fs (file_dup f) s) (\<lambda>s. Inr (set_proc n (\<lambda>p. p\<lparr>ofile := (ofile p)(fd := Some f)\<rparr>) s)))
        [0..<NOFILE] (?tf (set_proc n (\<lambda>p. p\<lparr>ustack_pages := ustack_pages (procs s3 i)\<rparr>) s3)) = Inr s4"
      "punlock n s4 = Inr s5" "wlock s5 = Inr s6"
      "wunlock (set_proc n (\<lambda>p. p\<lparr>parent := Some i, priority := priority (procs s6 i), priority_boost := priority_boost (procs s6 i)\<rparr>) s6) = Inr s7"
      "plock n s7 = Inr s8" "punlock n (set_proc n (\<lambda>p. p\<lparr>pstate := RUNNABLE\<rparr>) s8) = Inr t"
      using assms(1) s Some by (simp add: proc_fork_def Let_def) (elim kbind_InrE, auto)
    have "keeps {} s3 (set_proc n (\<lambda>p. p\<lparr>ustack_pages := ustack_pages (procs s3 i)\<rparr>) s3)" by (rule keeps_set_proc) simp
    then have "keeps {} s3 (?tf (set_proc n (\<lambda>p. p\<lparr>ustack_pages := ustack_pages (procs s3 i)\<rparr>) s3))"
      by (blast intro: keeps_trans keeps_kmem)
    then have g4: "grow RUNNABLE (nextpid s) n s s4"
      using grow_keeps [OF grow_step(1) [OF g2 ok_frame(5) f(1)] _ ok_dup_files f(2)] by blast
    have g6: "grow RUNNABLE (nextpid s) n s s6"
      using grow_step(1) [OF grow_step(1) [OF g4 ok_locks(2) f(3)] ok_locks(3) f(4)] .
    have "prio_ok (procs s6 i)" using grow_ptab [OF g6 assms(3)] i by (simp add: ptab_ok_def)
    then have "grow RUNNABLE (nextpid s) n s (set_proc n (\<lambda>p. p\<lparr>parent := Some i, priority := priority (procs s6 i), priority_boost := priority_boost (procs s6 i)\<rparr>) s6)"
      using g6 by (intro grow_set) (auto simp: grow_def prio_ok_def)
    then have g8: "grow RUNNABLE (nextpid s) n s s8"
      using grow_step(1) [OF _ ok_locks(4) f(5)] grow_step(1) [OF _ ok_locks(1) f(6)] by blast
    then have "grow RUNNABLE (nextpid s) n s (set_proc n (\<lambda>p. p\<lparr>pstate := RUNNABLE\<rparr>) s8)"
      by (intro grow_set) (auto simp: grow_def prio_ok_def)
    then show ?thesis using grow_step(1) [OF _ ok_locks(2) f(7)] by blast
  qed
qed

lemma sched_scan_chosen:
  assumes "sched_scan k i c b s = Inr (Some n, t)" and "\<And>d. c = Some d \<Longrightarrow> pstate (procs s d) = RUNNABLE"
  shows "keeps {} s t \<and> pstate (procs t n) = RUNNABLE"
  using assms
proof (induction k arbitrary: i c b s)
  case (Suc k)
  obtain s1 s2 where s: "plock i s = Inr s1" "punlock i s1 = Inr s2"
    using Suc.prems(1) by (auto simp: Let_def elim!: kbind_InrE split: if_splits)
  have k: "keeps {} s s2" using okD(1) [OF ok_locks(1) s(1)] okD(1) [OF ok_locks(2) s(2)] by (rule keeps_trans)
  have st: "pstate (procs s1 d) = pstate (procs s d)" "pstate (procs s2 d) = pstate (procs s d)" for d
    using lock_same(1) [OF s(1)] lock_same(2) [OF s(2)] by (metis proc.select_convs(3) proc.surjective proc.update_convs(1))+
  have ih: "sched_scan k (Suc i) c' b' s2 = Inr (Some n, t) \<Longrightarrow> (\<And>d. c' = Some d \<Longrightarrow> pstate (procs s d) = RUNNABLE) \<Longrightarrow>
      keeps {} s t \<and> pstate (procs t n) = RUNNABLE" for c' b'
    using Suc.IH [of "Suc i" c' b' s2] st k by (metis keeps_trans)
  show ?case
    using Suc.prems s st by (auto simp: Let_def split: if_splits intro!: ih)
qed simp


lemma lock_cpu:
  "spinlock_acquire lk h = Inr (lk', h') \<Longrightarrow> cpu_proc (mycpu h') = cpu_proc (mycpu h)"
  "pop_off h = Inr h' \<Longrightarrow> cpu_proc (mycpu h') = cpu_proc (mycpu h)"
  "spinlock_release lk h = Inr (lk', h') \<Longrightarrow> cpu_proc (mycpu h') = cpu_proc (mycpu h)"
proof -
  show "spinlock_acquire lk h = Inr (lk', h') \<Longrightarrow> cpu_proc (mycpu h') = cpu_proc (mycpu h)"
    by (auto simp: spinlock_acquire_def Let_def push_off_facts split: if_splits)
  show "cpu_proc (mycpu h') = cpu_proc (mycpu h)" if "pop_off h = Inr h'" for h h'
    using that by (auto simp: pop_off_def kguard_def Let_def split: if_splits)
  then show "spinlock_release lk h = Inr (lk', h') \<Longrightarrow> cpu_proc (mycpu h') = cpu_proc (mycpu h)"
    by (auto simp: spinlock_release_def elim!: kbind_InrE split: if_splits)
qed

text \<open>Operations that only take and release locks leave the current process running.\<close>

definition steady :: "'a kst_scheme \<Rightarrow> 'a kst_scheme \<Rightarrow> bool" where
  "steady s t \<longleftrightarrow> cpu_proc (mycpu (khart t)) = cpu_proc (mycpu (khart s)) \<and>
     (\<forall>i. pstate (procs s i) = RUNNING \<longrightarrow> pstate (procs t i) = RUNNING)"

lemma steady_running: "steady s t \<Longrightarrow> running s \<Longrightarrow> running t"
  by (simp add: steady_def running_def)

lemma steady_refl [simp]: "steady s s"
  by (simp add: steady_def)

lemma steady_trans: "steady s t \<Longrightarrow> steady t u \<Longrightarrow> steady s u"
  by (simp add: steady_def)

lemma steady_locks:
  "plock i s = Inr t \<Longrightarrow> steady s t" "punlock i s = Inr t \<Longrightarrow> steady s t"
  "wlock s = Inr t \<Longrightarrow> steady s t" "wunlock s = Inr t \<Longrightarrow> steady s t"
  by (auto simp: steady_def plock_def punlock_def wlock_def wunlock_def set_proc_def elim!: kbind_InrE dest: lock_cpu)

lemma steady_cur: "myproc_s s = Inr (q, t) \<Longrightarrow> steady s t" "cur s = Inr (i, t) \<Longrightarrow> steady s t"
  by (auto simp: steady_def myproc_s_def cur_def myproc_def Let_def push_off_facts
      elim!: kbind_InrE dest!: lock_cpu split: option.splits)

lemma steady_killed: "proc_killed i s = Inr (k, t) \<Longrightarrow> steady s t"
  unfolding proc_killed_def Let_def by (auto elim!: kbind_InrE dest!: steady_locks intro: steady_trans)

lemma steady_wait_scan: "wait_scan k i me addr h s = Inr (None, h', t) \<Longrightarrow> steady s t"
proof (induction k arbitrary: i h s)
  case (Suc k)
  then show ?case
    by (auto simp: Let_def elim!: kbind_InrE split: if_splits dest!: steady_locks Suc.IH)
      (blast intro: steady_trans)
qed (simp add: steady_def)

lemma okr_mono: "okr A s m \<Longrightarrow> A \<subseteq> B \<Longrightarrow> okr B s m" "ok A s m' \<Longrightarrow> A \<subseteq> B \<Longrightarrow> ok B s m'"
  unfolding okr_def ok_def using keeps_mono by blast+

lemma okr_wait_round:
  assumes "running s"
  shows "okr {(ZOMBIE, UNUSED), (RUNNING, SLEEPING)} s (wait_round me addr regs s)"
proof (rule okI)
  let ?A = "{(ZOMBIE, UNUSED), (RUNNING, SLEEPING)}"
  fix x t assume w: "wait_round me addr regs s = Inr (x, t)"
  then obtain r h s1 where s1: "wait_scan NPROC 0 me addr False s = Inr (r, h, s1)"
    by (auto simp: wait_round_def elim!: kbind_InrE)
  have k1: "keeps ?A s s1" using keeps_mono [OF keeps_wait_scan [OF s1]] by blast
  show "keeps ?A s t"
  proof (cases r)
    case None
    obtain stop s2 where s2: "(if \<not> h then Inr (True, s1) else proc_killed me s1) = Inr (stop, s2)"
      using w s1 None by (auto simp: wait_round_def elim!: kbind_InrE)
    have k2: "keeps ?A s1 s2" "steady s1 s2"
      using s2 okD(2) [OF ok_killed(1)] by (auto dest: steady_killed split: if_splits)
    have "running s2" using assms steady_wait_scan [OF s1 [unfolded None]] k2(2) by (blast intro: steady_running)
    then have "okr ?A s2 (proc_sleep_out (ProcChan me) wunlock regs s2)"
      by (rule okr_mono(1) [OF okr_sleep]) (auto dest: lock_same)
    then have "keeps ?A s2 t"
      using w s1 None s2 okD(1) [OF ok_locks(4)] by (auto simp: wait_round_def elim!: kbind_InrE dest: okD split: if_splits)
    then show ?thesis using k1 k2 by (blast intro: keeps_trans)
  next
    case (Some n)
    then show ?thesis using w s1 k1 by (simp add: wait_round_def)
  qed
qed

lemma okr_wait:
  assumes "running s"
  shows "okr {(ZOMBIE, UNUSED), (RUNNING, SLEEPING)} s (proc_wait addr regs s)"
proof (rule okI)
  fix x t assume "proc_wait addr regs s = Inr (x, t)"
  then obtain me s1 s2 where s: "cur s = Inr (me, s1)" "wlock s1 = Inr s2" "wait_round me addr regs s2 = Inr (x, t)"
    by (auto simp: proc_wait_def elim!: kbind_InrE)
  have "running s2" using assms steady_cur(2) [OF s(1)] steady_locks(3) [OF s(2)] by (blast intro: steady_running)
  then show "keeps {(ZOMBIE, UNUSED), (RUNNING, SLEEPING)} s t"
    using okD(2) [OF ok_myproc(2) s(1)] okD(1) [OF ok_locks(3) s(2)] okD(2) [OF okr_wait_round s(3)] by (blast intro: keeps_trans)
qed

lemma ok_sleep_in: "(\<And>t. ok A t (relk t)) \<Longrightarrow> ok A s (proc_sleep_in i relk s)"
  unfolding proc_sleep_in_def
  by (intro vc keeps_trans [OF keeps_sched_in keeps_set_proc]) simp_all

lemma okr_wait_resume:
  assumes "running s"
  shows "okr {(ZOMBIE, UNUSED), (RUNNING, SLEEPING)} s (proc_wait_resume me addr regs s)"
proof (rule okI)
  fix x t assume "proc_wait_resume me addr regs s = Inr (x, t)"
  then obtain s1 where s: "proc_sleep_in me wlock s = Inr s1" "wait_round me addr regs s1 = Inr (x, t)"
    by (auto simp: proc_wait_resume_def elim!: kbind_InrE)
  let ?s = "set_proc me (\<lambda>p. p\<lparr>sleep_space := None\<rparr>) (proc_sched_in me s)"
  have "steady s ?s" by (simp add: steady_def set_proc_def proc_sched_in_def)
  moreover obtain s2 where "punlock me ?s = Inr s2" "wlock s2 = Inr s1"
    using s(1) by (auto simp: proc_sleep_in_def Let_def elim!: kbind_InrE)
  ultimately have "running s1" using assms by (blast intro: steady_running dest: steady_locks)
  then show "keeps {(ZOMBIE, UNUSED), (RUNNING, SLEEPING)} s t"
    using okD(1) [OF ok_sleep_in [OF ok_locks(3)] s(1)] okD(2) [OF okr_wait_round s(2)] by (blast intro: keeps_trans)
qed


lemma okr_enter: "okr {(RUNNABLE, RUNNING)} s (sched_enter regs s)"
proof (rule okI)
  let ?A = "{(RUNNABLE, RUNNING)}"
  fix r t assume e: "sched_enter regs s = Inr (r, t)"
  let ?s = "s\<lparr>khart := intr_on (khart s)\<rparr>"
  obtain c s1 where s1: "sched_scan NPROC 0 None (PRIORITY_MIN - 1) ?s = Inr (c, s1)"
    using e by (auto simp: sched_enter_def elim!: kbind_InrE)
  have k0: "keeps A s ?s" for A by (rule keeps_same) simp_all
  show "keeps ?A s t"
  proof (cases c)
    case None
    have scan: "okr A s (sched_scan k i c b s)" for A k i c b and s :: "'a kst_scheme"
      by (induction k arbitrary: i c b s) (auto simp: Let_def intro!: vc)
    have "keeps ?A ?s s1" by (rule okD(2) [OF scan s1])
    moreover have "t = s1" using e s1 None by (simp add: sched_enter_def)
    ultimately show ?thesis using k0 by (blast intro: keeps_trans)
  next
    case (Some n)
    note n = sched_scan_chosen [OF s1 [unfolded Some]]
    obtain s2 where s2: "plock n s1 = Inr s2" using e s1 Some by (auto simp: sched_enter_def elim!: kbind_InrE)
    let ?s3 = "set_proc n (\<lambda>p. p\<lparr>pstate := RUNNING, priority_boost := 0\<rparr>) s2"
    have "pstate (procs s2 n) = RUNNABLE"
      using n lock_same(1) [OF s2] by (metis option.distinct(1) proc.select_convs(3) proc.surjective proc.update_convs(1))
    then have "keeps ?A s2 ?s3" by (intro keeps_update pkeep_step) (auto simp: prio_ok_def)
    moreover have "keeps ?A ?s3 t"
      using e s1 Some s2 by (auto simp: sched_enter_def Let_def intro!: keeps_same)
    moreover have "keeps ?A s s2"
      using k0 keeps_mono [of "{}", OF n [THEN conjunct1]] okD(1) [OF ok_locks(1) s2] by (blast intro: keeps_trans)
    ultimately show ?thesis by (blast intro: keeps_trans)
  qed
qed

lemma ok_leave: "ok A s (sched_leave c s)"
proof -
  have "keeps A t (boost_waiting_processes l t)" for l and t :: "'a kst_scheme"
    unfolding keeps_def procs_boost
    by (auto simp: boost_waiting_processes_def aged_def prio_ok_def intro!: pkeep_same)
  moreover have "keeps A t (t\<lparr>khart := h\<rparr>)" for h and t :: "'a kst_scheme" by (rule keeps_same) simp_all
  ultimately show ?thesis unfolding sched_leave_def by (intro vc)
qed

lemma okr_set_priority: "okr A s (proc_set_priority n s)"
  unfolding proc_set_priority_def
  by (intro vc keeps_update pkeep_same) (auto simp: prio_ok_def)

lemma ok_yield_in: "ok A s (proc_yield_in i s)"
  unfolding proc_yield_in_def by (rule ok_from(1) [OF keeps_sched_in]) (rule vc)

lemma ok_wakeup: "waking \<subseteq> A \<Longrightarrow> ok A s (proc_wakeup space s)"
proof -
  have w: "(if pstate (procs s i) = SLEEPING \<and> sleep_space (procs s i) = Some space
      then set_proc i (\<lambda>p. p\<lparr>pstate := RUNNABLE\<rparr>) s else s) = set_proc i (wake space) s" for i and s :: "'a kst_scheme"
    by (simp add: set_proc_def wake_def)
  show "waking \<subseteq> A \<Longrightarrow> ?thesis" unfolding proc_wakeup_def w by (rule ok_kfold) (intro vc keeps_set_proc, simp_all)
qed

lemma grow_runnable: "grow RUNNABLE v n s t \<Longrightarrow> grow RUNNABLE v n s (set_proc n (\<lambda>p. p\<lparr>pstate := RUNNABLE\<rparr>) t)"
  by (intro grow_set) (auto simp: grow_def prio_ok_def)

lemma keeps_heap: "keeps A s (set_proc n (\<lambda>p. p\<lparr>ustack_pages := u p, heap_top := h p\<rparr>) s)"
  "keeps A s (set_proc n (\<lambda>p. p\<lparr>heap_top := h p\<rparr>) s)" "keeps A s (set_proc n (\<lambda>p. p\<lparr>ustack_pages := u p\<rparr>) s)"
  by (auto intro!: keeps_update pkeep_same simp: prio_ok_def)

lemma create_grow:
  assumes "proc_create entry s = Inr (r, t)"
  shows "\<exists>n. grow RUNNABLE (nextpid s) n s t"
proof -
  obtain q s1 v s2 where s: "proc_alloc s = Inr (q, s1)" "pmem_alloc s1 = Inr (v, s2)" "q \<noteq> None"
    using assms by (auto simp: proc_create_def elim!: kbind_InrE split: option.splits)
  then obtain n where n: "q = Some n" by blast
  obtain s3 m s4 s5 where f:
    "vm_mappages (pgtbl (procs s2 n)) (kstack (procs s2 n) - of_nat PGSIZE) v (of_nat PGSIZE) (PTE_R OR PTE_W OR PTE_U) s2 = Inr s3"
    "pmem_alloc s3 = Inr (m, s4)"
    "vm_mappages (pgtbl (procs s4 n)) 0 m (of_nat PGSIZE) (PTE_W OR PTE_R OR PTE_X OR PTE_U)
       (s4\<lparr>kmem := memset (kmem s4) m 0 (of_nat PGSIZE)\<rparr>) = Inr s5"
    using assms s n by (auto simp: proc_create_def Let_def elim!: kbind_InrE)
  have "grow RUNNABLE (nextpid s) n s s2" using grow_step(2) [OF _ ok_frame(1) s(2)] alloc_grow [OF s(1)] n by auto
  then have "grow RUNNABLE (nextpid s) n s s4"
    using grow_step(1) [OF _ ok_frame(3) f(1)] grow_step(2) [OF _ ok_frame(1) f(2)] by blast
  then have g5: "grow RUNNABLE (nextpid s) n s s5"
    using grow_keeps [OF _ keeps_kmem(1) ok_frame(3) f(3)] by blast
  let ?s6 = "tf_set n TF_sp (of_nat PGSIZE) (tf_set n TF_epc 0 (set_proc n (\<lambda>p. p\<lparr>ustack_pages := 1, heap_top := of_nat PGSIZE\<rparr>)
     (s5\<lparr>kmem := memmove (kmem s5) m entry (of_nat PGSIZE)\<rparr>)))"
  have "keeps {} s5 ?s6"
    by (rule keeps_trans [OF keeps_trans [OF keeps_trans [OF keeps_kmem(1) keeps_heap(1)] keeps_kmem(2)] keeps_kmem(2)])
  then have g: "grow RUNNABLE (nextpid s) n s (set_proc n (\<lambda>p. p\<lparr>pstate := RUNNABLE\<rparr>) ?s6)"
    using grow_after [OF g5] by (blast intro: grow_runnable)
  obtain s7 where "punlock n (set_proc n (\<lambda>p. p\<lparr>pstate := RUNNABLE\<rparr>) ?s6) = Inr s7" "t = s7"
    using assms s n f by (auto simp: proc_create_def Let_def elim!: kbind_InrE)
  then show ?thesis using grow_step(1) [OF g ok_locks(2)] by blast
qed

lemma ok_first_loop: "ok A s (make_first_loop fuel i addr s)"
proof (induction fuel arbitrary: addr s)
  case (Suc fuel)
  have "ok A t (make_first_loop fuel i a (set_proc i (\<lambda>p. p\<lparr>ustack_pages := ustack_pages p + 1\<rparr>) t))" for a and t :: "'a kst_scheme"
    using ok_from(1) [OF keeps_heap(3) Suc] .
  then show ?case unfolding make_first_loop.simps by (intro vc) simp_all
qed (auto intro: vc)

lemma ksym_set_proc [simp]: "ksym (set_proc i f s) = ksym s"
  by (simp add: set_proc_def)

lemma first_grow:
  assumes "proc_make_first s = Inr t"
  shows "\<exists>n. grow RUNNABLE 0 n s t"
proof -
  obtain q s1 where s: "proc_alloc s = Inr (q, s1)" "q \<noteq> None"
    using assms by (auto simp: proc_make_first_def Let_def elim!: kbind_InrE split: option.splits)
  then obtain n where n: "q = Some n" by blast
  let ?s2 = "set_proc n (\<lambda>p. p\<lparr>pid := 0, kstack := KSTACK 0\<rparr>) (s1\<lparr>proczero := Some n\<rparr>)"
  have g2: "grow RUNNABLE 0 n s ?s2"
    using alloc_grow [OF s(1)] n by (auto simp: grow_def set_proc_def prio_ok_def)
  obtain v s3 s4 s5 where f: "pmem_alloc ?s2 = Inr (v, s3)"
    "vm_mappages (pgtbl (procs s3 n)) (kstack (procs s3 n) - of_nat PGSIZE) v (of_nat PGSIZE) (PTE_R OR PTE_W OR PTE_U) s3 = Inr s4"
    "make_first_loop (Suc (Suc (unat (user_initcode_len (ksym s4)) div PGSIZE))) n 0 (set_proc n (\<lambda>p. p\<lparr>ustack_pages := 0\<rparr>) s4) = Inr s5"
    using assms s n by (auto simp: proc_make_first_def Let_def simp del: make_first_loop.simps elim!: kbind_InrE)
  have "grow RUNNABLE 0 n s s4"
    using grow_step(1) [OF grow_step(2) [OF g2 ok_frame(1) f(1)] ok_frame(3) f(2)] .
  then have g5: "grow RUNNABLE 0 n s s5"
    using grow_keeps [OF _ keeps_heap(3) ok_first_loop f(3)] by blast
  let ?s6 = "set_proc n (\<lambda>p. p\<lparr>heap_top := ustack_pages p * of_nat PGSIZE\<rparr>) s5"
  let ?s7 = "tf_set n TF_sp (ustack_pages (procs ?s6 n) * of_nat PGSIZE) (tf_set n TF_epc 0 ?s6)"
  have "keeps {} s5 ?s7"
    by (rule keeps_trans [OF keeps_trans [OF keeps_heap(2) keeps_kmem(2)] keeps_kmem(2)])
  then have "grow RUNNABLE 0 n s (set_proc n (\<lambda>p. p\<lparr>pstate := RUNNABLE\<rparr>) ?s7)"
    using grow_after [OF g5] by (blast intro: grow_runnable)
  moreover have "punlock n (set_proc n (\<lambda>p. p\<lparr>pstate := RUNNABLE\<rparr>) ?s7) = Inr t"
    using assms s n f by (simp add: proc_make_first_def Let_def del: make_first_loop.simps)
  ultimately show ?thesis using grow_step(1) [OF _ ok_locks(2)] by blast
qed

section \<open>Properties of the process table\<close>

text \<open>What the processes and the scheduler do to the process table, and for each operation the transitions that it may make a process
  take: \<open>KWait\<close> is both parts of \<^verbatim>\<open>proc_wait\<close>, \<open>KResume\<close> the end of \<^verbatim>\<open>proc_yield\<close> and \<^verbatim>\<open>proc_sleep\<close>, \<open>KMark\<close> is \<^verbatim>\<open>proc_setkilled\<close>.\<close>

datatype kop = KFork | KCreate | KFirst | KExit | KWait | KYield | KSleep | KResume | KWakeup | KKill | KMark | KPriority | KEnter | KLeave

fun moves :: "kop \<Rightarrow> (proc_state \<times> proc_state) set" where
  "moves KFork = {(UNUSED, RUNNABLE)}"
| "moves KCreate = {(UNUSED, RUNNABLE)}"
| "moves KFirst = {(UNUSED, RUNNABLE)}"
| "moves KExit = {(RUNNING, ZOMBIE), (SLEEPING, RUNNABLE)}"
| "moves KWait = {(ZOMBIE, UNUSED), (RUNNING, SLEEPING)}"
| "moves KYield = {(RUNNING, RUNNABLE)}"
| "moves KSleep = {(RUNNING, SLEEPING)}"
| "moves KWakeup = {(SLEEPING, RUNNABLE)}"
| "moves KKill = {(SLEEPING, RUNNABLE)}"
| "moves KEnter = {(RUNNABLE, RUNNING)}"
| "moves KResume = {}"
| "moves KMark = {}"
| "moves KPriority = {}"
| "moves KLeave = {}"

text \<open>A process runs an operation while it is the current process of the hart; the lock given to \<^verbatim>\<open>proc_sleep\<close> is not part of the table.\<close>

inductive kstep :: "kop \<Rightarrow> 'a kst_scheme \<Rightarrow> 'a kst_scheme \<Rightarrow> bool" where
  fork: "running s \<Longrightarrow> proc_fork s = Inr (r, t) \<Longrightarrow> kstep KFork s t"
| create: "proc_create entry s = Inr (r, t) \<Longrightarrow> kstep KCreate s t"
| first: "\<forall>i < NPROC. \<not> live s i \<Longrightarrow> proc_make_first s = Inr t \<Longrightarrow> kstep KFirst s t"
| exit: "running s \<Longrightarrow> proc_exit x regs s = Inr (c, t) \<Longrightarrow> kstep KExit s t"
| wait: "running s \<Longrightarrow> proc_wait addr regs s = Inr (v, t) \<Longrightarrow> kstep KWait s t"
| rewait: "running s \<Longrightarrow> proc_wait_resume i addr regs s = Inr (v, t) \<Longrightarrow> kstep KWait s t"
| yield: "running s \<Longrightarrow> proc_yield_out regs s = Inr (c, t) \<Longrightarrow> kstep KYield s t"
| yielded: "proc_yield_in i s = Inr t \<Longrightarrow> kstep KResume s t"
| sleep: "running s \<Longrightarrow> (\<And>s t. unlk s = Inr t \<Longrightarrow> procs t = procs s \<and> nextpid t = nextpid s) \<Longrightarrow>
    proc_sleep_out space unlk regs s = Inr (c, t) \<Longrightarrow> kstep KSleep s t"
| slept: "(\<And>s t. relk s = Inr t \<Longrightarrow> procs t = procs s \<and> nextpid t = nextpid s) \<Longrightarrow>
    proc_sleep_in i relk s = Inr t \<Longrightarrow> kstep KResume s t"
| wakeup: "proc_wakeup space s = Inr t \<Longrightarrow> kstep KWakeup s t"
| kill: "proc_kill n s = Inr (v, t) \<Longrightarrow> kstep KKill s t"
| setkilled: "proc_setkilled i s = Inr t \<Longrightarrow> kstep KMark s t"
| priority: "proc_set_priority n s = Inr (v, t) \<Longrightarrow> kstep KPriority s t"
| enter: "sched_enter regs s = Inr (q, t) \<Longrightarrow> kstep KEnter s t"
| leave: "sched_leave i s = Inr t \<Longrightarrow> kstep KLeave s t"

text \<open>Creation makes at most one process; every other operation keeps to its transitions.\<close>

lemma kstep_kept:
  assumes "kstep op s t"
  shows "op \<in> {KFork, KCreate, KFirst} \<and> (ptab_ok s \<longrightarrow> keeps {} s t \<or>
      (\<exists>x v n. grow x v n s t \<and> (v = nextpid s \<or> v = 0 \<and> (\<forall>j < NPROC. \<not> live s j)))) \<or>
    op \<notin> {KFork, KCreate, KFirst} \<and> keeps (moves op) s t"
  using assms
proof cases
  case (sleep unlk space regs c)
  have "keeps {(RUNNING, SLEEPING)} s t" by (rule okD(2) [OF okr_sleep [OF sleep(2)] sleep(4)]) (use sleep(3) in blast)+
  then show ?thesis using sleep(1) by simp
next
  case (slept relk i)
  have "ok {} t (relk t)" for t using slept(2) by (auto simp: ok_def intro: keeps_same)
  then show ?thesis using okD(1) [OF ok_sleep_in slept(3)] slept(1) by auto
next
  case (fork r)
  then show ?thesis using fork_grow [OF fork(3,2)] by blast
next
  case first
  then show ?thesis using first_grow [OF first(3)] by blast
qed (auto dest: create_grow okD(2) [OF okr_exit] okD(2) [OF okr_wait] okD(2) [OF okr_wait_resume] okD(2) [OF okr_yield]
    okD(1) [OF ok_yield_in] okD(1) [OF ok_wakeup [OF order_refl]] okD(2) [OF ok_kill [OF order_refl]] okD(1) [OF ok_killed(2)]
    okD(2) [OF okr_set_priority] okD(2) [OF okr_enter] okD(1) [OF ok_leave])

lemma kstep_ptab: "kstep op s t \<Longrightarrow> ptab_ok s \<Longrightarrow> ptab_ok t"
  by (drule kstep_kept) (cases op; auto dest: grow_ptab keeps_ptab)

definition ksteps :: "'a kst_scheme \<Rightarrow> 'a kst_scheme \<Rightarrow> bool" where
  "ksteps = (\<lambda>s t. \<exists>op. kstep op s t)\<^sup>*\<^sup>*"

lemma proc_init_state:
  "procs (proc_init s) i = (if i < NPROC then (procs s i)\<lparr>plk := spinlock_init ''proc'', pstate := UNUSED, kstack := KSTACK i,
     priority := PRIORITY_DEFAULT, priority_boost := 0\<rparr> else procs s i)" "nextpid (proc_init s) = nextpid s"
proof -
  let ?f = "\<lambda>i p. p\<lparr>plk := spinlock_init ''proc'', pstate := UNUSED, kstack := KSTACK i, priority := PRIORITY_DEFAULT, priority_boost := 0\<rparr>"
  have "procs (fold (\<lambda>i. set_proc i (?f i)) [0..<n] s) i = (if i < n then ?f i (procs s i) else procs s i) \<and>
      nextpid (fold (\<lambda>i. set_proc i (?f i)) [0..<n] s) = nextpid s" for n and s :: "'a kst_scheme"
    by (induction n) (auto simp: set_proc_def)
  then show "procs (proc_init s) i = (if i < NPROC then ?f i (procs s i) else procs s i)" "nextpid (proc_init s) = nextpid s"
    by (simp_all add: proc_init_def)
qed

lemma ptab_ok_init: "0 < nextpid s \<Longrightarrow> nextpid s < 2 ^ 31 \<Longrightarrow> ptab_ok (proc_init s)"
  by (simp add: ptab_ok_def proc_init_state prio_ok_def layout)

text \<open>\<^bold>\<open>C13\<close>: whatever the processes and the scheduler do after \<^verbatim>\<open>proc_init\<close> (fork, creation, exit, wait, sleep,
  wakeup, kill, yield, priorities, rounds of the scheduler, in any order), the static priority and the priority with
  its boost stay in range, the pids of live processes differ, are not negative and are below the next pid, and the next pid fits
  an \<^verbatim>\<open>int\<close>. Pids are never used again; when they run out, the increment in \<^verbatim>\<open>allocpid\<close> overflows, which is undefined.\<close>

theorem ptab_invariant:
  assumes "ksteps s t" and "ptab_ok s \<or> (\<exists>s0. s = proc_init s0 \<and> 0 < nextpid s0 \<and> nextpid s0 < 2 ^ 31)"
  shows "nextpid t < 2 ^ 31 \<and> (\<forall>i < NPROC. PRIORITY_MIN \<le> priority (procs t i) \<and> 0 \<le> priority_boost (procs t i) \<and>
    priority (procs t i) + priority_boost (procs t i) \<le> PRIORITY_MAX \<and>
    (pstate (procs t i) \<noteq> UNUSED \<longrightarrow> 0 \<le> pid (procs t i) \<and> pid (procs t i) < nextpid t \<and>
      (\<forall>j < NPROC. pstate (procs t j) \<noteq> UNUSED \<and> pid (procs t j) = pid (procs t i) \<longrightarrow> j = i))) \<and>
    (nextpid t = 2 ^ 31 - 1 \<longrightarrow> (\<forall>r u. allocpid t \<noteq> Inr (r, u)))"
proof -
  have "ptab_ok s" using assms(2) ptab_ok_init by blast
  with assms(1) have "ptab_ok t" unfolding ksteps_def by (induction rule: rtranclp_induct) (auto intro: kstep_ptab)
  then show ?thesis using allocpid_same [of t] unfolding ptab_ok_def prio_ok_def by fastforce
qed

definition three_pids :: kst where
  "three_pids = two_procs\<lparr>nextpid := 3\<rparr>"

lemma three_pids_ptab: "ptab_ok three_pids"
  by (auto simp: ptab_ok_def three_pids_def two_procs_def prio_ok_def layout proc0_def)

lemma three_pids_step: "\<exists>t. kstep KEnter three_pids t"
proof -
  have "ready three_pids" using two_procs_ready by (simp add: ready_def quiet_def three_pids_def)
  then show ?thesis using sched_enter_ok [of three_pids zero_ctx] kstep.enter by blast
qed

theorem ptab_invariant_witness:
  "\<exists>t. kstep KEnter three_pids t \<and> nextpid t < 2 ^ 31 \<and> priority (procs t 5) + priority_boost (procs t 5) \<le> PRIORITY_MAX"
proof -
  obtain t where t: "kstep KEnter three_pids t" using three_pids_step by blast
  then have "ksteps three_pids t" unfolding ksteps_def by blast
  then show ?thesis using ptab_invariant [of three_pids t] three_pids_ptab t by (auto simp: layout)
qed

lemma moves_star: "(x, y) \<in> (moves op)\<^sup>* \<Longrightarrow> x = y \<or> (x, y) \<in> moves op"
  by (erule rtrancl_induct) (cases op; auto)+

text \<open>\<^bold>\<open>C14\<close>: every operation leaves the state of a process alone or takes it along one transition of its own list (\<open>moves\<close>): creation from
  \<^verbatim>\<open>UNUSED\<close> to \<^verbatim>\<open>RUNNABLE\<close>, \<^verbatim>\<open>proc_exit\<close> from \<^verbatim>\<open>RUNNING\<close> to \<^verbatim>\<open>ZOMBIE\<close> while waking parents, and so on; a live process keeps its pid. The lists together are
  the transitions that the comment on \<^verbatim>\<open>enum proc_state\<close> documents, but for one: no operation takes a process from \<^verbatim>\<open>RUNNABLE\<close> to \<^verbatim>\<open>ZOMBIE\<close>.\<close>

theorem proc_states_documented:
  assumes "kstep op s t" and "ptab_ok s"
  shows "(pstate (procs t i) = pstate (procs s i) \<or> (pstate (procs s i), pstate (procs t i)) \<in> moves op) \<and>
    (pstate (procs s i) \<noteq> UNUSED \<longrightarrow> pid (procs t i) = pid (procs s i)) \<and>
    (\<Union>op. moves op) = documented - {(RUNNABLE, ZOMBIE)}"
proof -
  have u: "(\<Union>op. moves op) = documented - {(RUNNABLE, ZOMBIE)}"
  proof (rule set_eqI)
    fix x :: "proc_state \<times> proc_state"
    have "x \<in> documented - {(RUNNABLE, ZOMBIE)} \<Longrightarrow> x \<in> moves KFork \<union> moves KExit \<union> moves KWait \<union> moves KYield \<union> moves KEnter"
      by (auto simp: documented_def)
    moreover have "x \<in> moves op \<Longrightarrow> x \<in> documented - {(RUNNABLE, ZOMBIE)}" for op by (cases op) (auto simp: documented_def)
    ultimately show "x \<in> (\<Union>op. moves op) \<longleftrightarrow> x \<in> documented - {(RUNNABLE, ZOMBIE)}" by blast
  qed
  consider x v n where "op \<in> {KFork, KCreate, KFirst}" "grow x v n s t" | "keeps {} s t" | "keeps (moves op) s t"
    using kstep_kept [OF assms(1)] assms(2) by blast
  then show ?thesis
  proof cases
    case (1 x v n)
    then show ?thesis using u by (cases "i = n") (auto simp: grow_def pkeep_def)
  next
    case 2
    then show ?thesis using u by (simp add: keeps_def pkeep_def)
  next
    case 3
    then show ?thesis using u moves_star [of "pstate (procs s i)" "pstate (procs t i)" op] by (auto simp: keeps_def pkeep_def)
  qed
qed

theorem proc_states_documented_witness:
  "\<exists>t. kstep KEnter three_pids t \<and> pstate (procs t 5) \<in> {RUNNABLE, RUNNING} \<and> pid (procs t 5) = 2"
proof -
  obtain t where t: "kstep KEnter three_pids t" using three_pids_step by blast
  have "pstate (procs three_pids 5) = RUNNABLE" "pid (procs three_pids 5) = 2"
    by (simp_all add: three_pids_def two_procs_def)
  then show ?thesis using t proc_states_documented [OF t three_pids_ptab, of 5] by auto
qed

end
