(* ===== verification/Syscall.thy ===== *)
theory Syscall
  imports Proc Console
begin

text \<open>
  \<^verbatim>\<open>kernel/syscall/\<close>: the fetching of arguments (\<^verbatim>\<open>syscall.c\<close>), the process and heap calls (\<^verbatim>\<open>sysfunc.c\<close>),
  the file calls (\<^verbatim>\<open>sysfile.c\<close>) and the dispatcher, together with the tick counter of
  \<^verbatim>\<open>kernel/dev/timer.c\<close> that \<^verbatim>\<open>sys_sleep\<close> waits on. A call returns its 64-bit value, or gives up the CPU:
  then the result is the context the hart continues with, and the resumption of the call is a
  definition of its own. Kernel buffers that are copied to or from user space (path names, \<^verbatim>\<open>struct stat\<close>,
  the data of a cached block) are placed in memory at the address \<open>ksyms\<close> gives them.
\<close>

section \<open>The tick counter\<close>

record sysst = kst +
  ticks :: uint64
  tlk :: spinlock
  kcon :: con

text \<open>Output on the console, which runs on the hart of the kernel.\<close>

definition lift_con :: "(con \<Rightarrow> con kres) \<Rightarrow> 'a sysst_scheme \<Rightarrow> 'a sysst_scheme kres" where
  "lift_con f s = kbind (f ((kcon s)\<lparr>chart := khart s\<rparr>)) (\<lambda>c. Inr (s\<lparr>kcon := c, khart := chart c\<rparr>))"

definition timer_create :: "'a sysst_scheme \<Rightarrow> 'a sysst_scheme" where
  "timer_create s = s\<lparr>tlk := spinlock_init ''time'', ticks := 0\<rparr>"

definition tlock :: "'a sysst_scheme \<Rightarrow> 'a sysst_scheme kres" where
  "tlock s = kbind (spinlock_acquire (tlk s) (khart s)) (\<lambda>(lk, h). Inr (s\<lparr>tlk := lk, khart := h\<rparr>))"

definition tunlock :: "'a sysst_scheme \<Rightarrow> 'a sysst_scheme kres" where
  "tunlock s = kbind (spinlock_release (tlk s) (khart s)) (\<lambda>(lk, h). Inr (s\<lparr>tlk := lk, khart := h\<rparr>))"

definition timer_update :: "'a sysst_scheme \<Rightarrow> 'a sysst_scheme kres" where
  "timer_update s = kbind (tlock s) (\<lambda>s. tunlock (s\<lparr>ticks := ticks s + 1\<rparr>))"

definition timer_get_ticks :: "'a sysst_scheme \<Rightarrow> uint64" where
  "timer_get_ticks s = ticks s"

section \<open>Arguments\<close>

definition arg_raw :: "int \<Rightarrow> 'a kst_scheme \<Rightarrow> (uint64 \<times> 'a kst_scheme) kres" where
  "arg_raw n s =
     kbind (cur s) (\<lambda>(i, s).
     if 0 \<le> n \<and> n \<le> 5 then Inr (tf_get i (TF_a0 + 8 * word_of_int n) s, s)
     else Inl (Panic ''arg_raw: illegal arg num''))"

definition arg_int :: "int \<Rightarrow> 'a kst_scheme \<Rightarrow> (int \<times> 'a kst_scheme) kres" where
  "arg_int n s = kbind (arg_raw n s) (\<lambda>(v, s). Inr (to_int v, s))"

definition arg_uint32 :: "int \<Rightarrow> 'a kst_scheme \<Rightarrow> (uint32 \<times> 'a kst_scheme) kres" where
  "arg_uint32 n s = kbind (arg_raw n s) (\<lambda>(v, s). Inr (ucast v, s))"

definition arg_uint64 :: "int \<Rightarrow> 'a kst_scheme \<Rightarrow> (uint64 \<times> 'a kst_scheme) kres" where
  "arg_uint64 n s = arg_raw n s"

definition arg_str :: "int \<Rightarrow> uint64 \<Rightarrow> int \<Rightarrow> 'a kst_scheme \<Rightarrow> 'a kst_scheme kres" where
  "arg_str n buf maxlen s =
     kbind (cur s) (\<lambda>(i, s).
     kbind (arg_uint64 n s) (\<lambda>(addr, s). uvm_copyin_str (pgtbl (procs s i)) buf addr (word_of_int maxlen) s))"

text \<open>The check of a descriptor that \<^verbatim>\<open>arg_fd\<close>, \<^verbatim>\<open>sys_fstat\<close> and \<^verbatim>\<open>sys_dup\<close> share.\<close>

definition fd_file :: "int \<Rightarrow> 'a kst_scheme \<Rightarrow> (nat option \<times> 'a kst_scheme) kres" where
  "fd_file fd s =
     (if fd < 0 \<or> fd \<ge> int NOFILE then Inr (None, s)
      else kbind (cur s) (\<lambda>(i, s). Inr (ofile (procs s i) (nat fd), s)))"

definition arg_fd :: "int \<Rightarrow> 'a kst_scheme \<Rightarrow> ((int \<times> nat) option \<times> 'a kst_scheme) kres" where
  "arg_fd n s =
     kbind (arg_int n s) (\<lambda>(fd, s).
     kbind (fd_file fd s) (\<lambda>(f, s). Inr (case f of None \<Rightarrow> None | Some f \<Rightarrow> Some (fd, f), s)))"

section \<open>Process and heap calls\<close>

type_synonym sysret = "uint64 + context_t"

definition sys_test :: "'a sysst_scheme \<Rightarrow> (uint64 \<times> 'a sysst_scheme) kres" where
  "sys_test s = kbind (lift_con (printf (Some (cstr ''.\<newline>'')) []) s) (\<lambda>s. Inr (0, s))"

text \<open>\<^verbatim>\<open>sys_print\<close> copies the message over the string literal \<^verbatim>\<open>""\<close> and what the linker placed behind it, and uses it as
  a format without arguments. \<open>kstring\<close> reads a string of less than \<open>n\<close> bytes; without an end in the 256 bytes
  copied \<^verbatim>\<open>printf\<close> runs on into unknown memory.\<close>

fun kstring :: "nat \<Rightarrow> uint64 \<Rightarrow> mem \<Rightarrow> uint8 list option" where
  "kstring 0 a m = None"
| "kstring (Suc n) a m = (if m a = 0 then Some [] else map_option (Cons (m a)) (kstring n (a + 1) m))"

definition sys_print :: "'a sysst_scheme \<Rightarrow> (uint64 \<times> 'a sysst_scheme) kres" where
  "sys_print s =
     (let message = empty_literal (ksym s)
      in kbind (arg_str 0 message 256 s) (\<lambda>s.
         case kstring 256 message (kmem s) of
           None \<Rightarrow> Inl (Undef ''sys_print'')
         | Some fmt \<Rightarrow> kbind (lift_con (printf (Some fmt) []) s) (\<lambda>s. Inr (0, s))))"

definition sys_brk :: "'a kst_scheme \<Rightarrow> (uint64 \<times> 'a kst_scheme) kres" where
  "sys_brk s =
     kbind (cur s) (\<lambda>(i, s).
     let pt = pgtbl (procs s i)
     in kbind (arg_uint64 0 s) (\<lambda>(new_heap_top, s).
        kbind (cur s) (\<lambda>(i, s).
        let old_heap_top = heap_top (procs s i)
        in if new_heap_top = 0 then Inr (old_heap_top, s)
           else if new_heap_top > old_heap_top
           then uvm_heap_grow pt old_heap_top (ucast (new_heap_top - old_heap_top)) s
           else uvm_heap_ungrow pt old_heap_top (ucast (old_heap_top - new_heap_top)) s)))"

definition sys_fork :: "'a kst_scheme \<Rightarrow> (uint64 \<times> 'a kst_scheme) kres" where
  "sys_fork s = kbind (proc_fork s) (\<lambda>(r, s). Inr (word_of_int r, s))"

definition wait_ret :: "(int + context_t) \<times> 'a kst_scheme \<Rightarrow> (sysret \<times> 'a kst_scheme) kres" where
  "wait_ret = (\<lambda>(r, s). Inr (case r of Inl v \<Rightarrow> Inl (word_of_int v) | Inr c \<Rightarrow> Inr c, s))"

definition sys_wait :: "context_t \<Rightarrow> 'a kst_scheme \<Rightarrow> (sysret \<times> 'a kst_scheme) kres" where
  "sys_wait regs s = kbind (arg_uint64 0 s) (\<lambda>(p, s). kbind (proc_wait p regs s) wait_ret)"

definition sys_exit :: "context_t \<Rightarrow> 'a kst_scheme \<Rightarrow> (sysret \<times> 'a kst_scheme) kres" where
  "sys_exit regs s =
     kbind (arg_int 0 s) (\<lambda>(n, s). kbind (proc_exit n regs s) (\<lambda>(c, s). Inr (Inr c, s)))"

text \<open>The loop of \<^verbatim>\<open>sys_sleep\<close> with the lock of the counter held; \<^verbatim>\<open>n\<close> is compared as an unsigned number.\<close>

definition sleep_round :: "uint64 \<Rightarrow> int \<Rightarrow> context_t \<Rightarrow> 'a sysst_scheme \<Rightarrow> (sysret \<times> 'a sysst_scheme) kres" where
  "sleep_round ticks0 n regs s =
     (if timer_get_ticks s - ticks0 < word_of_int n then
        kbind (cur s) (\<lambda>(i, s).
        kbind (proc_killed i s) (\<lambda>(k, s).
        if k then kbind (tunlock s) (\<lambda>s. Inr (Inl (-1), s))
        else kbind (proc_sleep_out TicksChan tunlock regs s) (\<lambda>(c, s). Inr (Inr c, s))))
      else kbind (tunlock s) (\<lambda>s. Inr (Inl 0, s)))"

definition sys_sleep :: "context_t \<Rightarrow> 'a sysst_scheme \<Rightarrow> (sysret \<times> 'a sysst_scheme) kres" where
  "sys_sleep regs s =
     kbind (arg_int 0 s) (\<lambda>(n, s).
     kbind (tlock s) (\<lambda>s. sleep_round (timer_get_ticks s) n regs s))"

definition sys_sleep_resume :: "nat \<Rightarrow> uint64 \<Rightarrow> int \<Rightarrow> context_t \<Rightarrow> 'a sysst_scheme \<Rightarrow> (sysret \<times> 'a sysst_scheme) kres" where
  "sys_sleep_resume i ticks0 n regs s = kbind (proc_sleep_in i tlock s) (sleep_round ticks0 n regs)"

definition sys_kill :: "'a kst_scheme \<Rightarrow> (uint64 \<times> 'a kst_scheme) kres" where
  "sys_kill s = kbind (arg_int 0 s) (\<lambda>(n, s). kbind (proc_kill n s) (\<lambda>(r, s). Inr (word_of_int r, s)))"

definition sys_getpid :: "'a kst_scheme \<Rightarrow> (uint64 \<times> 'a kst_scheme) kres" where
  "sys_getpid s = kbind (cur s) (\<lambda>(i, s). Inr (word_of_int (pid (procs s i)), s))"

definition sys_setprior :: "'a kst_scheme \<Rightarrow> (uint64 \<times> 'a kst_scheme) kres" where
  "sys_setprior s =
     kbind (arg_int 0 s) (\<lambda>(prio, s). kbind (proc_set_priority prio s) (\<lambda>(r, s). Inr (word_of_int r, s)))"

definition sys_getprior :: "'a kst_scheme \<Rightarrow> (uint64 \<times> 'a kst_scheme) kres" where
  "sys_getprior s = kbind (proc_get_priority s) (\<lambda>(r, s). Inr (word_of_int r, s))"

definition sys_yield :: "context_t \<Rightarrow> 'a kst_scheme \<Rightarrow> (sysret \<times> 'a kst_scheme) kres" where
  "sys_yield regs s = kbind (proc_yield_out regs s) (\<lambda>(c, s). Inr (Inr c, s))"

definition sys_yield_resume :: "nat \<Rightarrow> 'a kst_scheme \<Rightarrow> (uint64 \<times> 'a kst_scheme) kres" where
  "sys_yield_resume i s = kbind (proc_yield_in i s) (\<lambda>s. Inr (0, s))"

section \<open>Moving data between files and user memory\<close>

definition spill :: "uint64 \<Rightarrow> bytes \<Rightarrow> nat \<Rightarrow> mem \<Rightarrow> mem" where
  "spill a d n m = (\<lambda>x. if unat (x - a) < n then d (unat (x - a)) else m x)"

text \<open>The branches \<^verbatim>\<open>if(user_dst)\<close> of \<^verbatim>\<open>readi\<close> and \<^verbatim>\<open>if(user_src)\<close> of \<^verbatim>\<open>writei\<close>.\<close>

definition ucopy_out :: "'a kst_scheme copy_out" where
  "ucopy_out bp dst off m d s =
     kbind (cur s) (\<lambda>(i, s).
     let a = buf_addr (ksym s) bp
     in kbind (uvm_copyout (pgtbl (procs s i)) dst (a + of_nat off) (ucast m) (s\<lparr>kmem := spill a d BSIZE (kmem s)\<rparr>))
          (\<lambda>(r, s). Inr (\<not> r < 0, s)))"

definition ucopy_in :: "'a kst_scheme copy_in" where
  "ucopy_in bp src off m d s =
     kbind (cur s) (\<lambda>(i, s).
     let a = buf_addr (ksym s) bp
     in kbind (uvm_copyin (pgtbl (procs s i)) (a + of_nat off) src (ucast m) (s\<lparr>kmem := spill a d BSIZE (kmem s)\<rparr>))
          (\<lambda>(r, s). Inr (\<not> r < 0, (\<lambda>j. if j < BSIZE then kmem s (a + of_nat j) else d j), s)))"

definition fs_io :: "(filest \<Rightarrow> 'a kst_scheme \<Rightarrow> (int \<times> filest \<times> 'a kst_scheme) kres) \<Rightarrow> 'a kst_scheme \<Rightarrow>
    (int \<times> 'a kst_scheme) kres" where
  "fs_io f s = kbind (f (kfs s) s) (\<lambda>(r, fs, s). Inr (r, s\<lparr>kfs := fs\<rparr>))"

definition lift_fsr :: "(filest \<Rightarrow> ('r \<times> filest) kres) \<Rightarrow> 'a kst_scheme \<Rightarrow> ('r \<times> 'a kst_scheme) kres" where
  "lift_fsr f s = kbind (f (kfs s)) (\<lambda>(r, fs). Inr (r, s\<lparr>kfs := fs\<rparr>))"

text \<open>A path name: 128 bytes from user space into the \<open>k\<close>-th buffer on the stack, the last one set to NUL.\<close>

definition fetch_path :: "nat \<Rightarrow> uint64 \<Rightarrow> 'a kst_scheme \<Rightarrow> (bytes option \<times> 'a kst_scheme) kres" where
  "fetch_path k path_ptr s =
     kbind (cur s) (\<lambda>(i, s).
     let a = stack_buf (ksym s) + of_nat (k * MAXPATH)
     in kbind (uvm_copyin (pgtbl (procs s i)) a path_ptr (of_nat MAXPATH) s) (\<lambda>(r, s).
        Inr (if r < 0 then None else Some (\<lambda>j. if j < 127 then kmem s (a + of_nat j) else 0), s)))"

section \<open>File calls\<close>

fun isdirempty_loop :: "nat \<Rightarrow> nat \<Rightarrow> uint64 \<Rightarrow> bytes \<Rightarrow> 'a fsst_scheme \<Rightarrow> (bool \<times> 'a fsst_scheme) kres" where
  "isdirempty_loop 0 dp off de s = Inl (Spin ''isdirempty'')"
| "isdirempty_loop (Suc fuel) dp off de s =
     (if \<not> off < ucast (isize (icache s dp)) then Inr (True, s)
      else kbind (read_dirent dp off ''isdirempty: readi'' de s) (\<lambda>(de, s).
        if de_inum de \<noteq> 0 then Inr (False, s)
        else isdirempty_loop fuel dp (off + of_nat SIZEOF_DIRENT) de s))"

definition isdirempty :: "nat \<Rightarrow> 'a fsst_scheme \<Rightarrow> (bool \<times> 'a fsst_scheme) kres" where
  "isdirempty dp s =
     isdirempty_loop (unat (isize (icache s dp)) div SIZEOF_DIRENT + 2) dp (of_nat (2 * SIZEOF_DIRENT)) (\<lambda>_. 0) s"

text \<open>\<^verbatim>\<open>fdalloc\<close> from descriptor \<open>fd\<close> with \<open>k\<close> left.\<close>

fun fdalloc_loop :: "nat \<Rightarrow> nat \<Rightarrow> nat \<Rightarrow> nat \<Rightarrow> 'a kst_scheme \<Rightarrow> int \<times> 'a kst_scheme" where
  "fdalloc_loop 0 fd i f s = (-1, s)"
| "fdalloc_loop (Suc k) fd i f s =
     (if ofile (procs s i) fd = None then (int fd, set_proc i (\<lambda>p. p\<lparr>ofile := (ofile p)(fd := Some f)\<rparr>) s)
      else fdalloc_loop k (Suc fd) i f s)"

definition fdalloc :: "nat \<Rightarrow> 'a kst_scheme \<Rightarrow> (int \<times> 'a kst_scheme) kres" where
  "fdalloc f s = kbind (cur s) (\<lambda>(i, s). Inr (fdalloc_loop NOFILE 0 i f s))"

definition create :: "bytes \<Rightarrow> uint16 \<Rightarrow> uint16 \<Rightarrow> uint16 \<Rightarrow> 'a fsst_scheme \<Rightarrow> (nat option \<times> 'a fsst_scheme) kres" where
  "create path type major minor s =
     kbind (nameiparent path (\<lambda>_. 0) s) (\<lambda>(r, name, s).
     case r of
       None \<Rightarrow> Inr (None, s)
     | Some dp \<Rightarrow>
         kbind (ilock dp s) (\<lambda>s.
         kbind (dirlookup dp name s) (\<lambda>(r, _, s).
         case r of
           Some ip \<Rightarrow>
             kbind (iunlockput dp s) (\<lambda>s.
             kbind (ilock ip s) (\<lambda>s.
             if type = T_FILE \<and> (itype (icache s ip) = T_FILE \<or> itype (icache s ip) = T_DEVICE) then Inr (Some ip, s)
             else kbind (iunlockput ip s) (\<lambda>s. Inr (None, s))))
         | None \<Rightarrow>
             kbind (ialloc (idev (icache s dp)) type s) (\<lambda>(ip, s).
             kbind (ilock ip s) (\<lambda>s.
             kbind (iupdate ip (set_ino ip (\<lambda>x. x\<lparr>imajor := major, iminor := minor, inlink := 1\<rparr>) s)) (\<lambda>s.
             kbind (if type = T_DIR then
                 kbind (iupdate dp (set_ino dp (\<lambda>x. x\<lparr>inlink := inlink x + 1\<rparr>) s)) (\<lambda>s.
                 kbind (dirlink ip (chars ''.'') (inum (icache s ip)) s) (\<lambda>(r, s).
                 kguard (\<not> r < 0) (Panic ''create: dots'')
                 (kbind (dirlink ip (chars ''..'') (inum (icache s dp)) s) (\<lambda>(r, s).
                  kguard (\<not> r < 0) (Panic ''create: dots'') (Inr s)))))
               else Inr s) (\<lambda>s.
             kbind (dirlink dp name (inum (icache s ip)) s) (\<lambda>(r, s).
             kguard (\<not> r < 0) (Panic ''create: dirlink'')
              (kbind (iunlockput dp s) (\<lambda>s. Inr (Some ip, s)))))))))))"

definition O_RDONLY :: uint32 where [layout]: "O_RDONLY = 0"
definition O_WRONLY :: uint32 where [layout]: "O_WRONLY = 1"
definition O_RDWR :: uint32 where [layout]: "O_RDWR = 2"
definition O_CREATE :: uint32 where [layout]: "O_CREATE = 0x200"
definition O_APPEND :: uint32 where [layout]: "O_APPEND = 0x800"

text \<open>The part of \<^verbatim>\<open>sys_open\<close> that finds or creates the inode, inside the transaction; \<open>None\<close> after
  the transaction has been ended with an error.\<close>

definition open_inode :: "bytes \<Rightarrow> uint32 \<Rightarrow> filest \<Rightarrow> (nat option \<times> filest) kres" where
  "open_inode path omode s =
     (if omode AND O_CREATE \<noteq> 0 then
        kbind (create path T_FILE 0 0 s) (\<lambda>(r, s).
        case r of None \<Rightarrow> kbind (end_op s) (\<lambda>s. Inr (None, s)) | Some ip \<Rightarrow> Inr (Some ip, s))
      else
        kbind (namei path s) (\<lambda>(r, s).
        case r of
          None \<Rightarrow> kbind (end_op s) (\<lambda>s. Inr (None, s))
        | Some ip \<Rightarrow>
            kbind (ilock ip s) (\<lambda>s.
            if itype (icache s ip) = T_DIR \<and> omode \<noteq> O_RDONLY
            then kbind (iunlockput ip s) (\<lambda>s. kbind (end_op s) (\<lambda>s. Inr (None, s)))
            else Inr (Some ip, s))))"

definition open_file :: "nat \<Rightarrow> nat \<Rightarrow> uint32 \<Rightarrow> 'a filest_scheme \<Rightarrow> 'a filest_scheme" where
  "open_file f ip omode s =
     (let s = (if itype (icache s ip) = T_DEVICE
               then set_file f (\<lambda>x. x\<lparr>f_type := FILE_DEVICE, f_major := imajor (icache s ip)\<rparr>) s
               else set_file f (\<lambda>x. x\<lparr>f_type := FILE_INODE, f_off := 0\<rparr>) s)
      in set_file f (\<lambda>x. x\<lparr>f_ip := Some ip, f_readable := omode AND O_WRONLY = 0,
           f_writable := (omode AND O_WRONLY \<noteq> 0 \<or> omode AND O_RDWR \<noteq> 0), f_append := omode AND O_APPEND \<noteq> 0\<rparr>) s)"

definition sys_open :: "'a kst_scheme \<Rightarrow> (uint64 \<times> 'a kst_scheme) kres" where
  "sys_open s =
     kbind (arg_uint32 1 s) (\<lambda>(omode, s).
     kbind (arg_uint64 0 s) (\<lambda>(path_ptr, s).
     kbind (fetch_path 0 path_ptr s) (\<lambda>(r, s).
     case r of
       None \<Rightarrow> Inr (-1, s)
     | Some path \<Rightarrow>
         kbind (lift_fs begin_op s) (\<lambda>s.
         kbind (lift_fsr (open_inode path omode) s) (\<lambda>(r, s).
         case r of
           None \<Rightarrow> Inr (-1, s)
         | Some ip \<Rightarrow>
             (case alloc_file (kfs s) of
                (None, fs) \<Rightarrow>
                  kbind (lift_fs (iunlockput ip) (s\<lparr>kfs := fs\<rparr>)) (\<lambda>s.
                  kbind (lift_fs end_op s) (\<lambda>s. Inr (-1, s)))
              | (Some f, fs) \<Rightarrow>
                  kbind (fdalloc f (s\<lparr>kfs := fs\<rparr>)) (\<lambda>(fd, s).
                  if fd < 0 then
                    kbind (lift_fs (file_close f) s) (\<lambda>s.
                    kbind (lift_fs (iunlockput ip) s) (\<lambda>s.
                    kbind (lift_fs end_op s) (\<lambda>s. Inr (-1, s))))
                  else
                    let s = s\<lparr>kfs := open_file f ip omode (kfs s)\<rparr>
                    in kbind (lift_fs (iunlock ip) s) (\<lambda>s.
                       kbind (lift_fs end_op s) (\<lambda>s. Inr (word_of_int fd, s))))))))))"

definition sys_close :: "'a kst_scheme \<Rightarrow> (uint64 \<times> 'a kst_scheme) kres" where
  "sys_close s =
     kbind (arg_fd 0 s) (\<lambda>(r, s).
     case r of
       None \<Rightarrow> Inr (-1, s)
     | Some (fd, f) \<Rightarrow>
         kbind (cur s) (\<lambda>(i, s).
         let s = set_proc i (\<lambda>p. p\<lparr>ofile := (ofile p)(nat fd := None)\<rparr>) s
         in kbind (lift_fs (file_close f) s) (\<lambda>s. Inr (0, s))))"

definition sys_read :: "'a kst_scheme \<Rightarrow> (uint64 \<times> 'a kst_scheme) kres" where
  "sys_read s =
     kbind (arg_fd 0 s) (\<lambda>(r, s).
     case r of
       None \<Rightarrow> Inr (-1, s)
     | Some (_, f) \<Rightarrow>
         kbind (arg_int 2 s) (\<lambda>(n, s).
         kbind (arg_uint64 1 s) (\<lambda>(p, s).
         kbind (fs_io (file_read f ucopy_out p n) s) (\<lambda>(r, s). Inr (word_of_int r, s)))))"

definition sys_write :: "'a kst_scheme \<Rightarrow> (uint64 \<times> 'a kst_scheme) kres" where
  "sys_write s =
     kbind (arg_fd 0 s) (\<lambda>(r, s).
     case r of
       None \<Rightarrow> Inr (-1, s)
     | Some (_, f) \<Rightarrow>
         kbind (arg_int 2 s) (\<lambda>(n, s).
         kbind (arg_uint64 1 s) (\<lambda>(p, s).
         kbind (fs_io (file_write f ucopy_in p n) s) (\<lambda>(r, s). Inr (word_of_int r, s)))))"

definition sys_mkdir :: "'a kst_scheme \<Rightarrow> (uint64 \<times> 'a kst_scheme) kres" where
  "sys_mkdir s =
     kbind (arg_uint64 0 s) (\<lambda>(path_ptr, s).
     kbind (fetch_path 0 path_ptr s) (\<lambda>(r, s).
     case r of
       None \<Rightarrow> Inr (-1, s)
     | Some path \<Rightarrow>
         kbind (lift_fs begin_op s) (\<lambda>s.
         kbind (lift_fsr (create path T_DIR 0 0) s) (\<lambda>(r, s).
         case r of
           None \<Rightarrow> kbind (lift_fs end_op s) (\<lambda>s. Inr (-1, s))
         | Some ip \<Rightarrow>
             kbind (lift_fs (iunlockput ip) s) (\<lambda>s.
             kbind (lift_fs end_op s) (\<lambda>s. Inr (0, s)))))))"

text \<open>The body of \<^verbatim>\<open>sys_unlink\<close> between \<^verbatim>\<open>begin_op\<close> and the final \<^verbatim>\<open>end_op\<close> of each path: whether it succeeded.\<close>

definition unlink_path :: "bytes \<Rightarrow> 'a fsst_scheme \<Rightarrow> (bool \<times> 'a fsst_scheme) kres" where
  "unlink_path path s =
     kbind (nameiparent path (\<lambda>_. 0) s) (\<lambda>(r, name, s).
     case r of
       None \<Rightarrow> Inr (False, s)
     | Some dp \<Rightarrow>
         kbind (ilock dp s) (\<lambda>s.
         if strncmp name (chars ''.'') (of_nat DIRSIZ) = 0 \<or> strncmp name (chars ''..'') (of_nat DIRSIZ) = 0
         then kbind (iunlockput dp s) (\<lambda>s. Inr (False, s))
         else kbind (dirlookup dp name s) (\<lambda>(r, off, s).
           case r of
             None \<Rightarrow> kbind (iunlockput dp s) (\<lambda>s. Inr (False, s))
           | Some ip \<Rightarrow>
               kbind (ilock ip s) (\<lambda>s.
               kguard (\<not> sint (inlink (icache s ip)) < 1) (Panic ''unlink: nlink < 1'')
               (kbind (if itype (icache s ip) = T_DIR then isdirempty ip s else Inr (True, s)) (\<lambda>(emp, s).
                if \<not> emp then kbind (iunlockput ip s) (\<lambda>s. kbind (iunlockput dp s) (\<lambda>s. Inr (False, s)))
                else
                  kbind (writei dp kcopy_in 0 off (of_nat SIZEOF_DIRENT) s (\<lambda>_. 0)) (\<lambda>(r, s, _).
                  kguard (r = int SIZEOF_DIRENT) (Panic ''unlink: writei'')
                  (kbind (if itype (icache s ip) = T_DIR
                          then iupdate dp (set_ino dp (\<lambda>x. x\<lparr>inlink := inlink x - 1\<rparr>) s) else Inr s) (\<lambda>s.
                   kbind (iunlockput dp s) (\<lambda>s.
                   kbind (iupdate ip (set_ino ip (\<lambda>x. x\<lparr>inlink := inlink x - 1\<rparr>) s)) (\<lambda>s.
                   kbind (iunlockput ip s) (\<lambda>s. Inr (True, s)))))))))))))"

definition sys_unlink :: "'a kst_scheme \<Rightarrow> (uint64 \<times> 'a kst_scheme) kres" where
  "sys_unlink s =
     kbind (arg_uint64 0 s) (\<lambda>(path_ptr, s).
     kbind (fetch_path 0 path_ptr s) (\<lambda>(r, s).
     case r of
       None \<Rightarrow> Inr (-1, s)
     | Some path \<Rightarrow>
         kbind (lift_fs begin_op s) (\<lambda>s.
         kbind (lift_fsr (unlink_path path) s) (\<lambda>(ok, s).
         kbind (lift_fs end_op s) (\<lambda>s. Inr (if ok then 0 else -1, s))))))"

definition sys_fstat :: "'a kst_scheme \<Rightarrow> (uint64 \<times> 'a kst_scheme) kres" where
  "sys_fstat s =
     kbind (arg_int 0 s) (\<lambda>(fd, s).
     kbind (arg_uint64 1 s) (\<lambda>(st_addr, s).
     kbind (fd_file fd s) (\<lambda>(r, s).
     case r of
       None \<Rightarrow> Inr (-1, s)
     | Some f \<Rightarrow>
         if f_type (ftable (kfs s) f) \<noteq> FILE_INODE then Inr (-1, s)
         else (case f_ip (ftable (kfs s) f) of
             None \<Rightarrow> Inl (Panic ''ilock'')
           | Some ip \<Rightarrow>
               kbind (lift_fs (ilock ip) s) (\<lambda>s.
               let a = stack_buf (ksym s); st = stati ip (view (kmem s) a) (kfs s)
               in kbind (lift_fs (iunlock ip) s) (\<lambda>s.
                  kbind (cur s) (\<lambda>(i, s).
                  kbind (uvm_copyout (pgtbl (procs s i)) st_addr a 32 (s\<lparr>kmem := spill a st 32 (kmem s)\<rparr>)) (\<lambda>(r, s).
                  Inr (if r < 0 then -1 else 0, s)))))))))"

definition sys_dup :: "'a kst_scheme \<Rightarrow> (uint64 \<times> 'a kst_scheme) kres" where
  "sys_dup s =
     kbind (arg_int 0 s) (\<lambda>(fd, s).
     kbind (fd_file fd s) (\<lambda>(r, s).
     case r of
       None \<Rightarrow> Inr (-1, s)
     | Some f \<Rightarrow>
         kbind (fdalloc f s) (\<lambda>(newfd, s).
         if newfd < 0 then Inr (-1, s)
         else kbind (lift_fs (file_dup f) s) (\<lambda>s. Inr (word_of_int newfd, s)))))"

text \<open>\<^verbatim>\<open>bad:\<close> in \<^verbatim>\<open>sys_link\<close>, up to its \<^verbatim>\<open>end_op\<close>.\<close>

definition link_undo :: "nat \<Rightarrow> 'a fsst_scheme \<Rightarrow> (bool \<times> 'a fsst_scheme) kres" where
  "link_undo ip s =
     kbind (ilock ip s) (\<lambda>s.
     kbind (iupdate ip (set_ino ip (\<lambda>x. x\<lparr>inlink := inlink x - 1\<rparr>) s)) (\<lambda>s.
     kbind (iunlockput ip s) (\<lambda>s. Inr (False, s))))"

definition link_path :: "bytes \<Rightarrow> bytes \<Rightarrow> 'a fsst_scheme \<Rightarrow> (bool \<times> 'a fsst_scheme) kres" where
  "link_path oldpath newpath s =
     kbind (namei oldpath s) (\<lambda>(r, s).
     case r of
       None \<Rightarrow> Inr (False, s)
     | Some ip \<Rightarrow>
         kbind (ilock ip s) (\<lambda>s.
         if itype (icache s ip) = T_DIR then kbind (iunlockput ip s) (\<lambda>s. Inr (False, s))
         else
           kbind (iupdate ip (set_ino ip (\<lambda>x. x\<lparr>inlink := inlink x + 1\<rparr>) s)) (\<lambda>s.
           kbind (iunlock ip s) (\<lambda>s.
           kbind (nameiparent newpath (\<lambda>_. 0) s) (\<lambda>(r, name, s).
           case r of
             None \<Rightarrow> link_undo ip s
           | Some dp \<Rightarrow>
               kbind (ilock dp s) (\<lambda>s.
               kbind (if idev (icache s dp) \<noteq> idev (icache s ip) then Inr (-1, s)
                      else dirlink dp name (inum (icache s ip)) s) (\<lambda>(r, s).
               if r < 0 then kbind (iunlockput dp s) (link_undo ip)
               else kbind (iunlockput dp s) (\<lambda>s. kbind (iput ip s) (\<lambda>s. Inr (True, s))))))))))"

definition sys_link :: "'a kst_scheme \<Rightarrow> (uint64 \<times> 'a kst_scheme) kres" where
  "sys_link s =
     kbind (arg_uint64 0 s) (\<lambda>(oldpath_ptr, s).
     kbind (arg_uint64 1 s) (\<lambda>(newpath_ptr, s).
     kbind (fetch_path 0 oldpath_ptr s) (\<lambda>(r, s).
     case r of
       None \<Rightarrow> Inr (-1, s)
     | Some oldpath \<Rightarrow>
         kbind (fetch_path 1 newpath_ptr s) (\<lambda>(r, s).
         case r of
           None \<Rightarrow> Inr (-1, s)
         | Some newpath \<Rightarrow>
             kbind (lift_fs begin_op s) (\<lambda>s.
             kbind (lift_fsr (link_path oldpath newpath) s) (\<lambda>(ok, s).
             kbind (lift_fs end_op s) (\<lambda>s. Inr (if ok then 0 else -1, s))))))))"

section \<open>The dispatcher\<close>

definition ret :: "(uint64 \<times> 'a) kres \<Rightarrow> (sysret \<times> 'a) kres" where
  "ret m = kbind m (\<lambda>(v, s). Inr (Inl v, s))"

text \<open>The table \<^verbatim>\<open>syscalls[]\<close>.\<close>

definition syscalls :: "int \<Rightarrow>
    (context_t \<Rightarrow> 'a sysst_scheme \<Rightarrow> (sysret \<times> 'a sysst_scheme) kres) option" where
  "syscalls num =
     (if num = 0 then Some (\<lambda>_ s. ret (sys_test s))
      else if num = 1 then Some (\<lambda>_ s. ret (sys_print s))
      else if num = 2 then Some (\<lambda>_ s. ret (sys_brk s))
      else if num = 3 then Some (\<lambda>_ s. ret (sys_open s))
      else if num = 4 then Some (\<lambda>_ s. ret (sys_close s))
      else if num = 5 then Some (\<lambda>_ s. ret (sys_fork s))
      else if num = 6 then Some sys_wait
      else if num = 7 then Some sys_exit
      else if num = 8 then Some sys_sleep
      else if num = 9 then Some (\<lambda>_ s. ret (sys_kill s))
      else if num = 10 then Some (\<lambda>_ s. ret (sys_getpid s))
      else if num = 11 then Some (\<lambda>_ s. ret (sys_read s))
      else if num = 12 then Some (\<lambda>_ s. ret (sys_write s))
      else if num = 13 then Some (\<lambda>_ s. ret (sys_mkdir s))
      else if num = 14 then Some (\<lambda>_ s. ret (sys_link s))
      else if num = 15 then Some (\<lambda>_ s. ret (sys_unlink s))
      else if num = 16 then Some (\<lambda>_ s. ret (sys_fstat s))
      else if num = 17 then Some (\<lambda>_ s. ret (sys_dup s))
      else if num = 18 then Some (\<lambda>_ s. ret (sys_setprior s))
      else if num = 19 then Some (\<lambda>_ s. ret (sys_getprior s))
      else if num = 20 then Some sys_yield
      else None)"

text \<open>\<^verbatim>\<open>syscall\<close>: the value goes into the \<^verbatim>\<open>a0\<close> of the caller; a call that has given up the CPU
  stores its value when it returns.\<close>

definition syscall :: "context_t \<Rightarrow> 'a sysst_scheme \<Rightarrow>
    (context_t option \<times> 'a sysst_scheme) kres" where
  "syscall regs s =
     kbind (cur s) (\<lambda>(i, s).
     let num = to_int (tf_get i TF_a7 s)
     in case syscalls num of
       None \<Rightarrow>
         kbind (lift_con (printf (Some (cstr ''proc %d : unknown sys call %d\<newline>'')) [VInt (pid (procs s i)), VInt num]) s) (\<lambda>s.
         Inr (None, tf_set i TF_a0 (-1) s))
     | Some f \<Rightarrow>
         kbind (f regs s) (\<lambda>(r, s).
         case r of
           Inl v \<Rightarrow> Inr (None, tf_set i TF_a0 v s)
         | Inr c \<Rightarrow> Inr (Some c, s)))"

end
