(* ===== verification/Filetab.thy ===== *)
theory Filetab
  imports Syscall Fsblk
begin

text \<open>
  The table of open files as a typed store: every entry is free, or open with a positive count, and a file of type
  \<^verbatim>\<open>FILE_INODE\<close> always has an inode. The file system below leaves the table alone (the frame lemmas \<open>rest\<close>).
\<close>

named_theorems rest \<open>operations of the file system that keep what lies outside its own state\<close>

lemma rest_simps [simp]:
  "fsst.more (set_ino i f s) = fsst.more s" "fsst.more (set_lg g s) = fsst.more s" "fsst.more (set_data b d s) = fsst.more s"
  "fsst.more (upd_buf b h s) = fsst.more s"
  for s :: "'a fsst_scheme"
  by (simp_all add: set_ino_def set_lg_def set_data_def upd_buf_def)

lemma rest_bio: "bio.more t = bio.more s \<Longrightarrow> fsst.more t = fsst.more s" for s t :: "'a fsst_scheme"
  by (cases s; cases t) simp

lemma bread_rest [rest]: "bread d b s = Inr (i, t) \<Longrightarrow> fsst.more t = fsst.more s" for s t :: "'a fsst_scheme"
  by (rule rest_bio) (rule bread_more)

lemma brelse_rest [rest]: "brelse b s = Inr t \<Longrightarrow> fsst.more t = fsst.more s" for s t :: "'a fsst_scheme"
  by (rule rest_bio) (auto simp: brelse_def kguard_Inr_iff Let_def split: if_splits)

lemma bwrite_rest [rest]: "bwrite b s = Inr t \<Longrightarrow> fsst.more t = fsst.more s" for s t :: "'a fsst_scheme"
  by (rule rest_bio) (auto simp: bwrite_def kguard_Inr_iff disk_rw_def Let_def)

lemma pin_rest [simp]: "fsst.more (bpin b s) = fsst.more s" "fsst.more (bunpin b s) = fsst.more s" for s :: "'a fsst_scheme"
  by (simp_all add: bpin_def bunpin_def)

lemma begin_op_rest [rest]: "begin_op s = Inr t \<Longrightarrow> fsst.more t = fsst.more s" for s t :: "'a fsst_scheme"
  by (auto simp: begin_op_def split: if_splits)

lemma write_head_rest [rest]: "write_head s = Inr t \<Longrightarrow> fsst.more t = fsst.more s" for s t :: "'a fsst_scheme"
  by (auto simp: write_head_def Let_def dest!: rest elim!: kbind_InrE)

lemma write_log_rest [rest]: "write_log s = Inr t \<Longrightarrow> fsst.more t = fsst.more s" for s t :: "'a fsst_scheme"
  unfolding write_log_def by (erule kfold_inv) (auto dest!: rest elim!: kbind_InrE)

lemma install_trans_rest [rest]: "install_trans b s = Inr t \<Longrightarrow> fsst.more t = fsst.more s" for s t :: "'a fsst_scheme"
  unfolding install_trans_def by (erule kfold_inv) (auto dest!: rest elim!: kbind_InrE split: if_splits)

lemma end_op_rest [rest]: "end_op s = Inr t \<Longrightarrow> fsst.more t = fsst.more s" for s t :: "'a fsst_scheme"
  by (auto simp: end_op_def commit_def Let_def kguard_Inr_iff dest!: rest elim!: kbind_InrE split: if_splits)

lemma log_write_rest [rest]: "log_write b s = Inr t \<Longrightarrow> fsst.more t = fsst.more s" for s t :: "'a fsst_scheme"
  by (auto simp: log_write_def Let_def kguard_Inr_iff split: if_splits)

lemma fs_alloc_loop_rest: "fs_alloc_loop k d b s = Inr (a, t) \<Longrightarrow> fsst.more t = fsst.more s"
proof (induction k arbitrary: b s)
  case (Suc k)
  then show ?case by (auto simp: kguard_Inr_iff dest!: rest Suc.IH elim!: kbind_InrE split: if_splits option.splits)
qed simp

lemma fs_alloc_rest [rest]: "fs_alloc d s = Inr (a, t) \<Longrightarrow> fsst.more t = fsst.more s"
  unfolding fs_alloc_def by (rule fs_alloc_loop_rest)

lemma fs_free_rest [rest]: "fs_free d b s = Inr t \<Longrightarrow> fsst.more t = fsst.more s"
  by (auto simp: fs_free_def Let_def kguard_Inr_iff dest!: rest elim!: kbind_InrE)

lemma ilock_rest [rest]: "ilock ip s = Inr t \<Longrightarrow> fsst.more t = fsst.more s"
  by (auto simp: ilock_def Let_def kguard_Inr_iff dest!: rest elim!: kbind_InrE split: if_splits)

lemma iunlock_rest [rest]: "iunlock ip s = Inr t \<Longrightarrow> fsst.more t = fsst.more s"
  by (auto simp: iunlock_def kguard_Inr_iff)

lemma iupdate_rest [rest]: "iupdate ip s = Inr t \<Longrightarrow> fsst.more t = fsst.more s"
  by (auto simp: iupdate_def Let_def dest!: rest elim!: kbind_InrE)

lemma bmap_rest [rest]: "bmap ip bn s = Inr (a, t) \<Longrightarrow> fsst.more t = fsst.more s"
  by (auto simp: bmap_def Let_def dest!: rest elim!: kbind_InrE split: if_splits)

lemma kfold_rest:
  fixes s t :: "'a fsst_scheme"
  assumes "kfold f xs s = Inr t" and "\<And>x u v. f x u = Inr v \<Longrightarrow> fsst.more v = fsst.more u"
  shows "fsst.more t = fsst.more s"
  by (rule kfold_inv [OF assms(1)]) (use assms(2) in auto)

text \<open>The two loops of \<^verbatim>\<open>itrunc\<close>.\<close>

lemma itrunc_rest [rest]:
  assumes "itrunc ip s = Inr t"
  shows "fsst.more t = fsst.more s"
proof -
  let ?f = "\<lambda>bp j s. let a = (le_load 4 (bdata (bufs s bp)) (4 * j) :: uint32)
    in if a \<noteq> 0 then fs_free (to_int (idev (icache s ip))) (ucast a) s else Inr s"
  obtain u where u: "kfold (\<lambda>i s. if iaddrs (icache s ip) i \<noteq> 0 then
           kbind (fs_free (to_int (idev (icache s ip))) (ucast (iaddrs (icache s ip) i)) s) (\<lambda>s.
           Inr (set_ino ip (\<lambda>x. x\<lparr>iaddrs := (iaddrs x)(i := 0)\<rparr>) s)) else Inr s) [0..<NDIRECT] s = Inr u"
    and t: "fsst.more t = fsst.more u \<or>
      (\<exists>bp v w. fsst.more v = fsst.more u \<and> kfold (?f bp) [0..<NINDIRECT] v = Inr w \<and> fsst.more t = fsst.more w)"
    using assms unfolding itrunc_def by (elim kbind_InrE, auto dest!: rest elim!: kbind_InrE split: if_splits) blast
  have u': "fsst.more u = fsst.more s" by (rule kfold_rest [OF u]) (auto dest!: rest elim!: kbind_InrE split: if_splits)
  have w: "fsst.more w = fsst.more v" if "kfold (?f bp) [0..<NINDIRECT] v = Inr w" for bp v w
    by (rule kfold_rest [OF that]) (auto simp: Let_def dest!: rest split: if_splits)
  from t show ?thesis by (elim disjE exE conjE) (simp_all add: u' w)
qed

lemma iput_rest [rest]: "iput ip s = Inr t \<Longrightarrow> fsst.more t = fsst.more s"
  by (auto simp: iput_def dest!: rest elim!: kbind_InrE split: if_splits)

lemma readi_loop_rest: "readi_loop k ip copy dst off n tot s x = Inr (a, t, y) \<Longrightarrow> fsst.more t = fsst.more s"
proof (induction k arbitrary: dst off tot s x)
  case (Suc k)
  then show ?case by (auto simp: Let_def dest!: rest Suc.IH elim!: kbind_InrE split: if_splits)
qed simp

lemma readi_rest [rest]: "readi ip copy dst off n s x = Inr (a, t, y) \<Longrightarrow> fsst.more t = fsst.more s"
  by (auto simp: readi_def Let_def simp del: readi_loop.simps dest: readi_loop_rest split: if_splits)

lemma writei_loop_rest: "writei_loop k ip copy src off n tot s x = Inr (a, b, t, y) \<Longrightarrow> fsst.more t = fsst.more s"
proof (induction k arbitrary: src off tot s x)
  case (Suc k)
  then show ?case by (auto simp: Let_def dest!: rest Suc.IH elim!: kbind_InrE split: if_splits)
qed simp

lemma writei_rest [rest]: "writei ip copy src off n s x = Inr (a, t, y) \<Longrightarrow> fsst.more t = fsst.more s"
  by (auto simp: writei_def Let_def simp del: writei_loop.simps dest!: writei_loop_rest rest elim!: kbind_InrE split: if_splits)

section \<open>Well-typed entries\<close>

definition file_ok :: "File \<Rightarrow> bool" where
  "file_ok x \<longleftrightarrow> 0 \<le> f_ref x \<and> (f_ref x = 0 \<longrightarrow> f_type x = FILE_NONE) \<and> (f_type x = FILE_INODE \<longrightarrow> f_ip x \<noteq> None)"

definition ftab_ok :: "'a filest_scheme \<Rightarrow> bool" where
  "ftab_ok s \<longleftrightarrow> (\<forall>f < NFILE. file_ok (ftable s f))"

lemma ftable_rest: "fsst.more t = fsst.more s \<Longrightarrow> ftable t = ftable s" for s t :: "'a filest_scheme"
  by (cases s; cases t) simp

lemmas tab_rest = rest [THEN ftable_rest]

lemma ftab_ok_set: "ftab_ok s \<Longrightarrow> (file_ok (ftable s f) \<Longrightarrow> file_ok (g (ftable s f))) \<Longrightarrow> ftab_ok (set_file f g s)"
  by (auto simp: ftab_ok_def set_file_def)

lemma ftab_ok_same: "ftable t = ftable s \<Longrightarrow> ftab_ok s \<Longrightarrow> ftab_ok t"
  by (simp add: ftab_ok_def)

lemma file_init_state:
  "ftable (file_init s) f = (if f < NFILE then (ftable s f)\<lparr>f_ref := 0, f_type := FILE_NONE\<rparr> else ftable s f)" "icache (file_init s) = icache s"
proof -
  have "ftable (fold (\<lambda>i. set_file i (\<lambda>x. x\<lparr>f_ref := 0, f_type := FILE_NONE\<rparr>)) xs s) f =
      (if f \<in> set xs then (ftable s f)\<lparr>f_ref := 0, f_type := FILE_NONE\<rparr> else ftable s f) \<and>
    icache (fold (\<lambda>i. set_file i (\<lambda>x. x\<lparr>f_ref := 0, f_type := FILE_NONE\<rparr>)) xs s) = icache s" for xs
    by (induction xs arbitrary: s) (auto simp: set_file_def)
  from this [of "[0..<NFILE]"]
  show "ftable (file_init s) f = (if f < NFILE then (ftable s f)\<lparr>f_ref := 0, f_type := FILE_NONE\<rparr> else ftable s f)" "icache (file_init s) = icache s"
    by (simp_all add: file_init_def)
qed

lemma file_init_ok: "ftab_ok (file_init s)"
  by (simp add: ftab_ok_def file_init_state file_ok_def)

lemma alloc_file_loop_ok: "alloc_file_loop k i s = (r, t) \<Longrightarrow> ftab_ok s \<Longrightarrow> ftab_ok t"
  by (induction k arbitrary: i) (auto intro!: ftab_ok_set simp: file_ok_def split: if_splits)

lemma file_dup_ok: "file_dup f s = Inr t \<Longrightarrow> ftab_ok s \<Longrightarrow> ftab_ok t"
  by (auto intro!: ftab_ok_set simp: file_dup_def kguard_Inr_iff file_ok_def)

lemmas tab_defs = ftab_ok_def file_ok_def set_file_def

lemma file_close_ok: "file_close f s = Inr t \<Longrightarrow> ftab_ok s \<Longrightarrow> ftab_ok t"
  by (auto simp: file_close_def kguard_Inr_iff Let_def tab_defs dest!: tab_rest elim!: kbind_InrE split: if_splits option.splits)

lemma file_read_ok: "file_read f copy addr n s x = Inr (r, t, y) \<Longrightarrow> ftab_ok s \<Longrightarrow> ftab_ok t"
  by (auto simp: file_read_def Let_def tab_defs dest!: tab_rest elim!: kbind_InrE split: if_splits option.splits)

lemma set_off_ok: "ftab_ok s \<Longrightarrow> ftab_ok (set_file f (\<lambda>y. y\<lparr>f_off := g y\<rparr>) s)"
  by (auto simp: tab_defs)

lemma file_write_loop_ok: "file_write_loop k f ip copy addr n i s x = Inr (r, t, y) \<Longrightarrow> ftab_ok s \<Longrightarrow> ftab_ok t"
proof (induction k arbitrary: i s x)
  case (Suc k)
  from Suc.prems show ?case
    by (auto simp: Let_def dest!: tab_rest elim!: kbind_InrE split: if_splits)
      ((erule Suc.IH)?, simp add: tab_defs)+
qed simp

lemma file_write_ok: "file_write f copy addr n s x = Inr (r, t, y) \<Longrightarrow> ftab_ok s \<Longrightarrow> ftab_ok t"
  by (auto simp: file_write_def Let_def simp del: file_write_loop.simps dest!: tab_rest elim!: kbind_InrE split: if_splits option.splits)
    (erule file_write_loop_ok, force simp: tab_defs)+

lemma open_file_ok: "1 \<le> f_ref (ftable s f) \<Longrightarrow> ftab_ok s \<Longrightarrow> ftab_ok (open_file f ip omode s)"
  by (auto simp: open_file_def Let_def tab_defs)

text \<open>The operations on the table: those of \<^verbatim>\<open>file.c\<close>, the end of \<^verbatim>\<open>sys_open\<close> on a file it has allocated, and everything
  the file system does in between.\<close>

inductive fstep :: "filest \<Rightarrow> filest \<Rightarrow> bool" where
  f_alloc: "alloc_file s = (r, t) \<Longrightarrow> fstep s t"
| f_dup: "file_dup f s = Inr t \<Longrightarrow> fstep s t"
| f_close: "file_close f s = Inr t \<Longrightarrow> fstep s t"
| f_read: "file_read f (copy :: sysst copy_out) addr n s x = Inr (v, t, y) \<Longrightarrow> fstep s t"
| f_write: "file_write f (copy' :: sysst copy_in) addr n s x = Inr (v, t, y) \<Longrightarrow> fstep s t"
| f_open: "1 \<le> f_ref (ftable s f) \<Longrightarrow> fstep s (open_file f ip omode s)"
| f_other: "fsst.more t = fsst.more s \<Longrightarrow> fstep s t"

lemma fstep_ok: "fstep s t \<Longrightarrow> ftab_ok s \<Longrightarrow> ftab_ok t"
proof (induction rule: fstep.induct)
  case (f_alloc s r t)
  then show ?case using alloc_file_loop_ok by (auto simp: alloc_file_def)
next
  case (f_other t s)
  then show ?case using ftable_rest ftab_ok_same by blast
qed (auto dest: file_dup_ok file_close_ok file_read_ok file_write_ok intro: open_file_ok)

text \<open>\<^bold>\<open>C28\<close>: the table of open files is well-typed. From the state \<^verbatim>\<open>file_init\<close> leaves, in whatever order files are
  allocated, opened, duplicated, read, written and closed and whatever the file system does in between, no reference
  count is negative, an unreferenced entry has type \<^verbatim>\<open>FILE_NONE\<close>, and an entry of type \<^verbatim>\<open>FILE_INODE\<close> has an inode.\<close>

theorem file_table_typed:
  assumes "fstep\<^sup>*\<^sup>* (file_init s) t" and "f < NFILE"
  shows "0 \<le> f_ref (ftable t f) \<and> (f_ref (ftable t f) = 0 \<longrightarrow> f_type (ftable t f) = FILE_NONE) \<and>
    (f_type (ftable t f) = FILE_INODE \<longrightarrow> f_ip (ftable t f) \<noteq> None)"
proof -
  have "ftab_ok t" using assms(1) by (induction rule: rtranclp_induct) (auto intro: file_init_ok fstep_ok)
  then show ?thesis using assms(2) by (simp add: ftab_ok_def file_ok_def)
qed

text \<open>A file that is allocated, opened on an inode and duplicated.\<close>

theorem file_table_typed_witness:
  "\<exists>t. fstep\<^sup>*\<^sup>* (file_init boot_fs) t \<and> f_ref (ftable t 0) = 2 \<and> f_type (ftable t 0) = FILE_INODE \<and>
    (f_type (ftable t 0) = FILE_INODE \<longrightarrow> f_ip (ftable t 0) \<noteq> None)"
proof -
  let ?s = "file_init boot_fs"
  let ?a = "snd (alloc_file ?s)"
  let ?o = "open_file 0 3 0 ?a"
  let ?t = "set_file 0 (\<lambda>x. x\<lparr>f_ref := f_ref x + 1\<rparr>) ?o"
  have a: "f_ref (ftable ?a 0) = 1" "icache ?a = icache boot_fs"
    by (simp_all add: alloc_file_def NFILE_def eval_nat_numeral set_file_def file_init_state)
  have o: "f_ref (ftable ?o 0) = 1" "f_type (ftable ?o 0) = FILE_INODE"
    using a by (simp_all add: open_file_def Let_def set_file_def boot_fs_def T_DEVICE_def)
  have "fstep ?s ?a" by (rule f_alloc [of ?s "fst (alloc_file ?s)"]) simp
  moreover have "fstep ?a ?o" using a(1) by (intro f_open) simp
  moreover have "fstep ?o ?t" using o(1) by (intro f_dup [of 0]) (simp add: file_dup_def kguard_def)
  ultimately have st: "fstep\<^sup>*\<^sup>* ?s ?t" by (meson converse_rtranclp_into_rtranclp rtranclp.rtrancl_refl)
  have "f_ref (ftable ?t 0) = 2" "f_type (ftable ?t 0) = FILE_INODE" using o by (simp_all add: set_file_def)
  then show ?thesis using st file_table_typed [OF st, of 0] by (intro exI [of _ ?t]) (simp add: NFILE_def)
qed

end
