(* ===== verification/Machine.thy ===== *)
theory Machine
  imports Vm
begin

text \<open>
  The machine below the kernel: the control and status registers with their accessors of
  \<^verbatim>\<open>include/riscv.h\<close>, the start in machine mode (\<^verbatim>\<open>kernel/boot/start.c\<close>, \<^verbatim>\<open>timer_init\<close> of
  \<^verbatim>\<open>kernel/dev/timer.c\<close>) and the interrupt controller (\<^verbatim>\<open>kernel/dev/plic.c\<close>). A register is a field, an
  accessor reads or writes it. \<^verbatim>\<open>sstatus\<close> and \<^verbatim>\<open>tp\<close> belong to the hart of the spin locks.
\<close>

section \<open>Control and status registers\<close>

record csrs =
  csr_mhartid :: uint64
  csr_mstatus :: uint64
  csr_mepc :: uint64
  csr_sip :: uint64
  csr_sie :: uint64
  csr_mie :: uint64
  csr_sepc :: uint64
  csr_medeleg :: uint64
  csr_mideleg :: uint64
  csr_stvec :: uint64
  csr_mtvec :: uint64
  csr_satp :: uint64
  csr_sscratch :: uint64
  csr_mscratch :: uint64
  csr_scause :: uint64
  csr_stval :: uint64
  csr_mcounteren :: uint64
  csr_time :: uint64
  csr_pmpcfg0 :: uint64
  csr_pmpaddr0 :: uint64

definition r_mhartid :: "csrs \<Rightarrow> uint64" where "r_mhartid c = csr_mhartid c"
definition r_mstatus :: "csrs \<Rightarrow> uint64" where "r_mstatus c = csr_mstatus c"
definition r_sip :: "csrs \<Rightarrow> uint64" where "r_sip c = csr_sip c"
definition r_sie :: "csrs \<Rightarrow> uint64" where "r_sie c = csr_sie c"
definition r_mie :: "csrs \<Rightarrow> uint64" where "r_mie c = csr_mie c"
definition r_sepc :: "csrs \<Rightarrow> uint64" where "r_sepc c = csr_sepc c"
definition r_medeleg :: "csrs \<Rightarrow> uint64" where "r_medeleg c = csr_medeleg c"
definition r_mideleg :: "csrs \<Rightarrow> uint64" where "r_mideleg c = csr_mideleg c"
definition r_stvec :: "csrs \<Rightarrow> uint64" where "r_stvec c = csr_stvec c"
definition r_satp :: "csrs \<Rightarrow> uint64" where "r_satp c = csr_satp c"
definition r_scause :: "csrs \<Rightarrow> uint64" where "r_scause c = csr_scause c"
definition r_stval :: "csrs \<Rightarrow> uint64" where "r_stval c = csr_stval c"
definition r_mcounteren :: "csrs \<Rightarrow> uint64" where "r_mcounteren c = csr_mcounteren c"
definition r_time :: "csrs \<Rightarrow> uint64" where "r_time c = csr_time c"

definition w_mstatus :: "uint64 \<Rightarrow> csrs \<Rightarrow> csrs" where "w_mstatus x c = c\<lparr>csr_mstatus := x\<rparr>"
definition w_mepc :: "uint64 \<Rightarrow> csrs \<Rightarrow> csrs" where "w_mepc x c = c\<lparr>csr_mepc := x\<rparr>"
definition w_sip :: "uint64 \<Rightarrow> csrs \<Rightarrow> csrs" where "w_sip x c = c\<lparr>csr_sip := x\<rparr>"
definition w_sie :: "uint64 \<Rightarrow> csrs \<Rightarrow> csrs" where "w_sie x c = c\<lparr>csr_sie := x\<rparr>"
definition w_mie :: "uint64 \<Rightarrow> csrs \<Rightarrow> csrs" where "w_mie x c = c\<lparr>csr_mie := x\<rparr>"
definition w_sepc :: "uint64 \<Rightarrow> csrs \<Rightarrow> csrs" where "w_sepc x c = c\<lparr>csr_sepc := x\<rparr>"
definition w_medeleg :: "uint64 \<Rightarrow> csrs \<Rightarrow> csrs" where "w_medeleg x c = c\<lparr>csr_medeleg := x\<rparr>"
definition w_mideleg :: "uint64 \<Rightarrow> csrs \<Rightarrow> csrs" where "w_mideleg x c = c\<lparr>csr_mideleg := x\<rparr>"
definition w_stvec :: "uint64 \<Rightarrow> csrs \<Rightarrow> csrs" where "w_stvec x c = c\<lparr>csr_stvec := x\<rparr>"
definition w_mtvec :: "uint64 \<Rightarrow> csrs \<Rightarrow> csrs" where "w_mtvec x c = c\<lparr>csr_mtvec := x\<rparr>"
definition w_satp :: "uint64 \<Rightarrow> csrs \<Rightarrow> csrs" where "w_satp x c = c\<lparr>csr_satp := x\<rparr>"
definition w_sscratch :: "uint64 \<Rightarrow> csrs \<Rightarrow> csrs" where "w_sscratch x c = c\<lparr>csr_sscratch := x\<rparr>"
definition w_mscratch :: "uint64 \<Rightarrow> csrs \<Rightarrow> csrs" where "w_mscratch x c = c\<lparr>csr_mscratch := x\<rparr>"
definition w_mcounteren :: "uint64 \<Rightarrow> csrs \<Rightarrow> csrs" where "w_mcounteren x c = c\<lparr>csr_mcounteren := x\<rparr>"
definition w_pmpcfg0 :: "uint64 \<Rightarrow> csrs \<Rightarrow> csrs" where "w_pmpcfg0 x c = c\<lparr>csr_pmpcfg0 := x\<rparr>"
definition w_pmpaddr0 :: "uint64 \<Rightarrow> csrs \<Rightarrow> csrs" where "w_pmpaddr0 x c = c\<lparr>csr_pmpaddr0 := x\<rparr>"

definition r_sstatus :: "hart \<Rightarrow> uint64" where "r_sstatus h = sstatus h"
definition w_sstatus :: "uint64 \<Rightarrow> hart \<Rightarrow> hart" where "w_sstatus x h = h\<lparr>sstatus := x\<rparr>"
definition r_tp :: "hart \<Rightarrow> uint64" where "r_tp h = tp h"
definition w_tp :: "uint64 \<Rightarrow> hart \<Rightarrow> hart" where "w_tp x h = h\<lparr>tp := x\<rparr>"

lemmas csr_defs = r_mhartid_def r_mstatus_def r_sip_def r_sie_def r_mie_def r_sepc_def r_medeleg_def r_mideleg_def r_stvec_def r_satp_def r_scause_def r_stval_def r_mcounteren_def r_time_def w_mstatus_def w_mepc_def w_sip_def w_sie_def w_mie_def w_sepc_def w_medeleg_def w_mideleg_def w_stvec_def w_mtvec_def w_satp_def w_sscratch_def w_mscratch_def w_mcounteren_def w_pmpcfg0_def w_pmpaddr0_def r_sstatus_def w_sstatus_def r_tp_def w_tp_def

definition MSTATUS_MPP_MASK :: uint64 where [layout]: "MSTATUS_MPP_MASK = push_bit 11 3"
definition MSTATUS_MPP_S :: uint64 where [layout]: "MSTATUS_MPP_S = push_bit 11 1"
definition MSTATUS_MIE :: uint64 where [layout]: "MSTATUS_MIE = push_bit 3 1"
definition SSTATUS_SPP :: uint64 where [layout]: "SSTATUS_SPP = push_bit 8 1"
definition SSTATUS_SPIE :: uint64 where [layout]: "SSTATUS_SPIE = push_bit 5 1"
definition SIE_SEIE :: uint64 where [layout]: "SIE_SEIE = push_bit 9 1"
definition SIE_STIE :: uint64 where [layout]: "SIE_STIE = push_bit 5 1"
definition SIE_SSIE :: uint64 where [layout]: "SIE_SSIE = push_bit 1 1"
definition MIE_MTIE :: uint64 where [layout]: "MIE_MTIE = push_bit 7 1"

section \<open>The start in machine mode\<close>

definition NCPU :: int where [layout]: "NCPU = 1"
definition CLINT_MTIMECMP :: "int \<Rightarrow> uint64" where "CLINT_MTIMECMP hartid = CLINT_BASE + 0x4000 + 8 * word_of_int hartid"
definition INTERVAL :: uint64 where [layout]: "INTERVAL = 1000000"

text \<open>The registers, the clock of the CLINT and the scratch areas of the timer interrupt handler; the
  addresses are those of the linker.\<close>

record mst =
  mcsr :: csrs
  mhart :: hart
  mtime :: uint64
  mtimecmp :: "uint64 \<Rightarrow> uint64"
  scratch :: "int \<Rightarrow> nat \<Rightarrow> uint64"
  scratch_addr :: "int \<Rightarrow> uint64"
  timer_vector_addr :: uint64
  main_addr :: uint64

definition timer_init :: "mst \<Rightarrow> mst kres" where
  "timer_init m =
     (let id = to_int (r_mhartid (mcsr m));
          m = m\<lparr>mtimecmp := (mtimecmp m)(CLINT_MTIMECMP id := mtime m + INTERVAL)\<rparr>
      in kguard (0 \<le> id \<and> id < NCPU) (Undef ''timer_init'')
         (let m = m\<lparr>scratch := (scratch m)(id := (scratch m id)(3 := CLINT_MTIMECMP id, 4 := INTERVAL))\<rparr>;
              c = w_mscratch (scratch_addr m id) (mcsr m);
              c = w_mtvec (timer_vector_addr m) c;
              c = w_mstatus (r_mstatus c OR MSTATUS_MIE) c;
              c = w_mie (r_mie c OR MIE_MTIE) c
          in Inr (m\<lparr>mcsr := c\<rparr>)))"

text \<open>\<^verbatim>\<open>start\<close> up to its \<^verbatim>\<open>mret\<close>, which continues at \<^verbatim>\<open>mepc\<close> in the mode of the field MPP of \<^verbatim>\<open>mstatus\<close>.\<close>

definition start :: "mst \<Rightarrow> mst kres" where
  "start m =
     (let c = w_satp 0 (mcsr m);
          x = r_mstatus c; x = x AND NOT MSTATUS_MPP_MASK; x = x OR MSTATUS_MPP_S;
          c = w_mstatus x c;
          c = w_mepc (main_addr m) c;
          c = w_medeleg 0xffff c;
          c = w_mideleg 0xffff c;
          c = w_sie (r_sie c OR SIE_SEIE OR SIE_STIE OR SIE_SSIE) c;
          c = w_pmpaddr0 0x3fffffffffffff c;
          c = w_pmpcfg0 0xf c
      in kbind (timer_init (m\<lparr>mcsr := c\<rparr>)) (\<lambda>m.
         let id = to_int (r_mhartid (mcsr m))
         in Inr (m\<lparr>mhart := w_tp (word_of_int id) (mhart m)\<rparr>)))"

section \<open>The interrupt controller\<close>

definition UART_IRQ :: int where [layout]: "UART_IRQ = 10"
definition VIRTIO_BASE_IRQ :: int where [layout]: "VIRTIO_BASE_IRQ = 1"
definition PLIC_PRIORITY :: "int \<Rightarrow> uint64" where "PLIC_PRIORITY n = PLIC_BASE + word_of_int n * 4"
definition PLIC_SENABLE :: "int \<Rightarrow> uint64" where "PLIC_SENABLE h = PLIC_BASE + 0x2080 + word_of_int h * 0x100"
definition PLIC_SPRIORITY :: "int \<Rightarrow> uint64" where "PLIC_SPRIORITY h = PLIC_BASE + 0x201000 + word_of_int h * 0x2000"
definition PLIC_SCLAIM :: "int \<Rightarrow> uint64" where "PLIC_SCLAIM h = PLIC_BASE + 0x201004 + word_of_int h * 0x2000"

text \<open>The writes to its registers in order, and what the next reads of the claim register will return;
  without a pending interrupt it reads 0.\<close>

record plic =
  plic_w :: "(uint64 \<times> uint32) list"
  claims :: "uint32 list"

definition plic_init :: "plic \<Rightarrow> plic" where
  "plic_init p = p\<lparr>plic_w := plic_w p @ [(PLIC_PRIORITY UART_IRQ, 1)]\<rparr>"

definition plic_inithart :: "hart \<Rightarrow> plic \<Rightarrow> plic" where
  "plic_inithart h p =
     (let hartid = mycpuid h
      in p\<lparr>plic_w := plic_w p @ [(PLIC_SENABLE hartid, push_bit (nat UART_IRQ) 1), (PLIC_SPRIORITY hartid, 0)]\<rparr>)"

definition plic_claim :: "plic \<Rightarrow> int \<times> plic" where
  "plic_claim p = (case claims p of [] \<Rightarrow> (0, p) | v # vs \<Rightarrow> (to_int v, p\<lparr>claims := vs\<rparr>))"

definition plic_complete :: "hart \<Rightarrow> int \<Rightarrow> plic \<Rightarrow> plic" where
  "plic_complete h irq p = p\<lparr>plic_w := plic_w p @ [(PLIC_SCLAIM (mycpuid h), word_of_int irq)]\<rparr>"

end
