(* ===== verification/Trap.thy ===== *)
theory Trap
  imports Machine Syscall Ptable
begin

text \<open>
  \<^verbatim>\<open>kernel/trap/trap_kernel.c\<close> and \<^verbatim>\<open>kernel/trap/trap_user.c\<close>: interrupts and exceptions in the kernel, traps
  from user space and the return to it. The state adds the control registers and the interrupt
  controller to that of the system calls. A handler that gives up the CPU ends in the context the hart
  continues with; the rest of the handler, which runs when the process is scheduled again, is a
  definition of its own. The vectors in assembly (\<^verbatim>\<open>trap.S\<close>, \<^verbatim>\<open>trampoline.S\<close>) only save and restore the
  general registers around them.
\<close>

section \<open>Interrupts in the kernel\<close>

record trapst = sysst +
  csr :: csrs
  kplic :: plic

definition interrupt_info :: "string list" where
  "interrupt_info =
     [''U-mode software interrupt'', ''S-mode software interrupt'', ''reserved-1'', ''M-mode software interrupt'',
      ''U-mode timer interrupt'', ''S-mode timer interrupt'', ''reserved-2'', ''M-mode timer interrupt'',
      ''U-mode external interrupt'', ''S-mode external interrupt'', ''reserved-3'', ''M-mode external interrupt'',
      ''reserved-4'', ''reserved-5'', ''reserved-6'', ''reserved-7'']"

definition exception_info :: "string list" where
  "exception_info =
     [''Instruction address misaligned'', ''Instruction access fault'', ''Illegal instruction'', ''Breakpoint'',
      ''Load address misaligned'', ''Load access fault'', ''Store/AMO address misaligned'', ''Store/AMO access fault'',
      ''Environment call from U-mode'', ''Environment call from S-mode'', ''reserved-1'', ''Environment call from M-mode'',
      ''Instruction page fault'', ''Load page fault'', ''reserved-2'', ''Store/AMO page fault'']"

definition trap_kernel_init :: "'a sysst_scheme \<Rightarrow> 'a sysst_scheme" where
  "trap_kernel_init s = timer_create s"

definition trap_kernel_inithart :: "'a trapst_scheme \<Rightarrow> 'a trapst_scheme" where
  "trap_kernel_inithart s = s\<lparr>csr := w_stvec (kernel_vector (ksym s)) (csr s)\<rparr>"

definition say :: "string \<Rightarrow> varg list \<Rightarrow> 'a sysst_scheme \<Rightarrow> 'a sysst_scheme kres" where
  "say fmt args = lift_con (printf (Some (cstr fmt)) args)"

definition external_interrupt_handler :: "'a trapst_scheme \<Rightarrow> 'a trapst_scheme kres" where
  "external_interrupt_handler s =
     (let (irq, p) = plic_claim (kplic s); s = s\<lparr>kplic := p\<rparr>
      in kbind (if irq = 0 then Inr s
                else if irq = UART_IRQ then lift_con uart_intr s
                else if irq = VIRTIO_BASE_IRQ then Inr s
                else say ''unexpected interrupt irq=%d\<newline>'' [VInt irq] s) (\<lambda>s.
         Inr (if irq \<noteq> 0 then s\<lparr>kplic := plic_complete (khart s) irq (kplic s)\<rparr> else s)))"

definition timer_interrupt_handler :: "'a trapst_scheme \<Rightarrow> 'a trapst_scheme kres" where
  "timer_interrupt_handler s =
     kbind (if mycpuid (khart s) = 0 then kbind (timer_update s) (proc_wakeup TicksChan) else Inr s) (\<lambda>s.
     Inr (s\<lparr>csr := w_sip (r_sip (csr s) AND NOT 2) (csr s)\<rparr>))"

text \<open>The registers that the messages before a panic show.\<close>

definition say_cause :: "uint64 \<Rightarrow> uint64 \<Rightarrow> uint64 \<Rightarrow> 'a sysst_scheme \<Rightarrow> 'a sysst_scheme kres" where
  "say_cause scause sepc stval s =
     kbind (say ''scause %p\<newline>'' [VPtr scause] s) (say ''sepc=%p stval=%p\<newline>'' [VPtr sepc, VPtr stval])"

definition trap_id_of :: "uint64 \<Rightarrow> nat" where
  "trap_id_of scause = unat (scause AND 0xf)"

definition is_interrupt :: "uint64 \<Rightarrow> bool" where
  "is_interrupt scause \<longleftrightarrow> scause AND push_bit 63 1 \<noteq> 0"

text \<open>The end of \<^verbatim>\<open>trap_kernel_handler\<close>, also after a switch: the registers of this trap come back.\<close>

definition trap_kernel_finish :: "uint64 \<Rightarrow> uint64 \<Rightarrow> 'a trapst_scheme \<Rightarrow> 'a trapst_scheme" where
  "trap_kernel_finish sepc sst s = s\<lparr>csr := w_sepc sepc (csr s), khart := w_sstatus sst (khart s)\<rparr>"

definition trap_kernel_handler :: "context_t \<Rightarrow> 'a trapst_scheme \<Rightarrow> (context_t option \<times> 'a trapst_scheme) kres" where
  "trap_kernel_handler regs s =
     (let sepc = r_sepc (csr s); sst = r_sstatus (khart s); scause = r_scause (csr s); stval = r_stval (csr s)
      in kguard (sst AND SSTATUS_SPP \<noteq> 0) (Panic ''trap_kernel_handler: not from s-mode'')
         (kguard (\<not> intr_get (khart s)) (Panic ''trap_kernel_handler: interreput enabled'')
         (let trap_id = trap_id_of scause
          in if is_interrupt scause then
               if trap_id = 1 then
                 kbind (timer_interrupt_handler s) (\<lambda>s.
                 kbind (myproc_s s) (\<lambda>(me, s).
                 kbind (case me of None \<Rightarrow> Inr (False, s)
                        | Some _ \<Rightarrow> kbind (cur s) (\<lambda>(i, s). Inr (pstate (procs s i) = RUNNING, s))) (\<lambda>(y, s).
                 if y then kbind (proc_yield_out regs s) (\<lambda>(c, s). Inr (Some c, s))
                 else Inr (None, trap_kernel_finish sepc sst s))))
               else if trap_id = 9 then
                 kbind (external_interrupt_handler s) (\<lambda>s. Inr (None, trap_kernel_finish sepc sst s))
               else
                 kbind (say ''activated interrupt: %s\<newline>'' [VStr (Some (cstr (interrupt_info ! trap_id)))] s) (\<lambda>s.
                 kbind (say_cause scause sepc stval s) (\<lambda>s. Inl (Panic ''kerneltrap: not recognized'')))
             else
               kbind (say ''activated exception: %s\<newline>'' [VStr (Some (cstr (exception_info ! trap_id)))] s) (\<lambda>s.
               kbind (say_cause scause sepc stval s) (\<lambda>s. Inl (Panic ''kerneltrap: Exception\<newline>''))))))"

definition trap_kernel_resume :: "nat \<Rightarrow> uint64 \<Rightarrow> uint64 \<Rightarrow> 'a trapst_scheme \<Rightarrow> 'a trapst_scheme kres" where
  "trap_kernel_resume i sepc sst s = kbind (proc_yield_in i s) (\<lambda>s. Inr (trap_kernel_finish sepc sst s))"

section \<open>Traps from user space\<close>

text \<open>A trap ends in user space, by a call of \<^verbatim>\<open>user_return\<close> in the trampoline with the trap frame and the page
  table, or in another context.\<close>

datatype utrap = ToUser uint64 uint64 uint64 | Switched context_t

definition trap_user_return :: "'a trapst_scheme \<Rightarrow> (utrap \<times> 'a trapst_scheme) kres" where
  "trap_user_return s =
     kbind (cur s) (\<lambda>(i, s).
     let s = s\<lparr>khart := intr_off (khart s)\<rparr>;
         trampoline_uservec = TRAMPOLINE + (user_vector (ksym s) - trampoline (ksym s));
         s = s\<lparr>csr := w_stvec trampoline_uservec (csr s)\<rparr>;
         s = tf_set i TF_kernel_satp (r_satp (csr s)) s;
         s = tf_set i TF_kernel_sp (kstack (procs s i) + of_nat PGSIZE) s;
         s = tf_set i TF_kernel_trap (trap_user_handler_addr (ksym s)) s;
         s = tf_set i TF_kernel_hartid (r_tp (khart s)) s;
         x = r_sstatus (khart s); x = x AND NOT SSTATUS_SPP; x = x OR SSTATUS_SPIE;
         s = s\<lparr>khart := w_sstatus x (khart s)\<rparr>;
         s = s\<lparr>csr := w_sepc (tf_get i TF_epc s) (csr s)\<rparr>;
         satp = MAKE_SATP (pgtbl (procs s i));
         trampoline_userret = TRAMPOLINE + (user_return (ksym s) - trampoline (ksym s))
     in Inr (ToUser trampoline_userret TRAPFRAME satp, s))"

definition exit_minus_1 :: "context_t \<Rightarrow> 'a trapst_scheme \<Rightarrow> (utrap \<times> 'a trapst_scheme) kres" where
  "exit_minus_1 regs s = kbind (proc_exit (-1) regs s) (\<lambda>(c, s). Inr (Switched c, s))"

text \<open>The end of \<^verbatim>\<open>trap_user_handler\<close> for process \<open>i\<close>, also after a switch.\<close>

definition trap_user_finish :: "nat \<Rightarrow> context_t \<Rightarrow> 'a trapst_scheme \<Rightarrow> (utrap \<times> 'a trapst_scheme) kres" where
  "trap_user_finish i regs s =
     kbind (proc_killed i s) (\<lambda>(k, s). if k then exit_minus_1 regs s else trap_user_return s)"

definition trap_user_handler :: "context_t \<Rightarrow> 'a trapst_scheme \<Rightarrow>
    (utrap \<times> 'a trapst_scheme) kres" where
  "trap_user_handler regs s =
     (let sepc = r_sepc (csr s); sst = r_sstatus (khart s); scause = r_scause (csr s); stval = r_stval (csr s)
      in kbind (myproc_s s) (\<lambda>(p, s).
         kguard (sst AND SSTATUS_SPP = 0) (Panic ''trap_user_handler: not from u-mode'')
         (let s = s\<lparr>csr := w_stvec (kernel_vector (ksym s)) (csr s)\<rparr>
          in case p of
               None \<Rightarrow> Inl (Undef ''trap_user_handler'')
             | Some i \<Rightarrow>
                 let s = tf_set i TF_epc sepc s; trap_id = trap_id_of scause;
                     info = (if is_interrupt scause then interrupt_info ! trap_id else exception_info ! trap_id);
                     say_all = (\<lambda>s. kbind (say ''            trap id: %d trap info: %s\<newline>''
                         [VInt (int trap_id), VStr (Some (cstr info))] s) (\<lambda>s.
                       kbind (say ''            scause %p\<newline>'' [VPtr scause] s)
                         (say ''            sepc=%p stval=%p\<newline>'' [VPtr sepc, VPtr stval])))
                 in if scause = 8 then
                      kbind (proc_killed i s) (\<lambda>(k, s).
                      if k then exit_minus_1 regs s
                      else let s = tf_set i TF_epc (tf_get i TF_epc s + 4) s;
                               s = s\<lparr>khart := intr_on (khart s)\<rparr>
                           in kbind (syscall regs s) (\<lambda>(r, s).
                              case r of Some c \<Rightarrow> Inr (Switched c, s) | None \<Rightarrow> trap_user_finish i regs s))
                    else if is_interrupt scause then
                      if trap_id = 1 then
                        kbind (timer_interrupt_handler s) (\<lambda>s.
                        kbind (proc_yield_out regs s) (\<lambda>(c, s). Inr (Switched c, s)))
                      else if trap_id = 9 then kbind (external_interrupt_handler s) (trap_user_finish i regs)
                      else
                        kbind (say ''usertrap(): unexpected interrupt at pid=%d\<newline>'' [VInt (pid (procs s i))] s) (\<lambda>s.
                        kbind (say_all s) (\<lambda>s. Inl (Panic ''usertrap: unexpected interrupt'')))
                    else
                      kbind (say ''usertrap(): exception at pid=%d\<newline>'' [VInt (pid (procs s i))] s) (\<lambda>s.
                      kbind (say_all s) (\<lambda>s. Inl (Panic ''usertrap: unexpected exception''))))))"

definition trap_user_resume :: "nat \<Rightarrow> context_t \<Rightarrow> 'a trapst_scheme \<Rightarrow> (utrap \<times> 'a trapst_scheme) kres" where
  "trap_user_resume i regs s = kbind (proc_yield_in i s) (trap_user_finish i regs)"

section \<open>The timer\<close>

lemma timer_update_state:
  assumes "idle (tlk s)" "cpu_ok (khart s)"
  shows "timer_update s = Inr (s\<lparr>ticks := ticks s + 1, khart := section_done (khart s)\<rparr>)"
proof -
  have "unlocked (tlk s) = tlk s" using assms(1) by (rule idle_unlocked)
  then show ?thesis
    using spinlock_acquire_free [OF idle_not_locked [OF assms(1)]] spinlock_release_acquired [OF assms(2), of "tlk s"]
    by (simp add: timer_update_def tlock_def tunlock_def)
qed

lemma timer_handler_state:
  assumes "quiet s" "idle (tlk s)" "mycpuid (khart s) = 0"
  shows "timer_interrupt_handler s = Inr (s\<lparr>ticks := ticks s + 1, khart := section_done (khart s), procs := (\<lambda>j.
      if j < NPROC \<and> Some j \<noteq> cpu_proc (mycpu (khart s)) then wake TicksChan (procs s j) else procs s j),
    csr := (csr s)\<lparr>csr_sip := csr_sip (csr s) AND NOT 2\<rparr>\<rparr>)"
proof -
  have "quiet (s\<lparr>ticks := ticks s + 1, khart := section_done (khart s)\<rparr>)" using assms(1) by (simp add: quiet_def)
  from wakeup_state [OF this, of TicksChan] show ?thesis
    using timer_update_state [OF assms(2)] quietD(2) [OF assms(1)] assms(3)
    by (simp add: timer_interrupt_handler_def w_sip_def r_sip_def cong: if_cong)
qed

text \<open>A process that gives up the CPU outside every critical section.\<close>

lemma yield_out_state:
  assumes q: "quiet u" "c < NPROC" and h: "noff (mycpu (khart u)) = 0" "cpu_proc (mycpu (khart u)) = Some c"
  shows "\<exists>t. proc_yield_out regs u = Inr (cpu_ctx (mycpu (khart u)), t) \<and> handback c t \<and> pctx (procs t c) = regs \<and>
    pstate (procs t c) = RUNNABLE \<and> (\<forall>j. j \<noteq> c \<longrightarrow> procs t j = procs u j) \<and>
    t = u\<lparr>khart := khart t, procs := procs t, korigin := korigin t\<rparr>"
proof -
  note i = quietD(1) [OF q] and h = quietD(2) [OF q(1)] h
  let ?v = "hdone u"
  let ?w = "set_proc c (\<lambda>p. p\<lparr>pstate := RUNNABLE\<rparr>) (held c ?v)"
  have hw: "noff (mycpu (khart ?w)) = 1" "\<not> intr_get (khart ?w)" "cpu_proc (mycpu (khart ?w)) = Some c"
    "cpu_ok (khart ?w)" "section_done (khart ?w) = khart ?w" "spinlock_holding (plk (procs ?w c)) (khart ?w)"
    using h by (simp_all add: held_def set_proc_def push_off_facts cpu_ok_def section_done_def spinlock_holding_def)
  have ctx: "cpu_ctx (mycpu (khart ?w)) = cpu_ctx (mycpu (khart u))"
    by (simp add: held_def set_proc_def push_off_def section_done_def Let_def)
  have "cur u = Inr (c, ?v)" using myproc_eq [OF h(1)] h(3) by (simp add: cur_def myproc_s_def)
  moreover have "plock c ?v = Inr (held c ?v)" using i by (intro plock_idle) simp
  moreover have "cur ?w = Inr (c, ?w)" using myproc_eq [OF hw(4)] hw(3,5) by (simp add: cur_def myproc_s_def)
  moreover define t where
    "t = set_proc c (\<lambda>p. p\<lparr>pctx := regs\<rparr>) (?w\<lparr>korigin := (korigin ?w)(c := origin (mycpu (khart ?w)))\<rparr>)"
  ultimately have "proc_yield_out regs u = Inr (cpu_ctx (mycpu (khart ?w)), t)"
    using hw by (simp add: proc_yield_out_def proc_sched_out_def Let_def) (simp add: set_proc_def)
  moreover have "handback c t" using hw q by (auto simp: t_def handback_def set_proc_def held_def spinlock_holding_def quiet_def)
  moreover have "pctx (procs t c) = regs \<and> pstate (procs t c) = RUNNABLE \<and> (\<forall>j. j \<noteq> c \<longrightarrow> procs t j = procs u j) \<and>
      t = u\<lparr>khart := khart t, procs := procs t, korigin := korigin t\<rparr>"
    by (auto simp: t_def set_proc_def held_def)
  ultimately show ?thesis unfolding ctx by blast
qed

text \<open>\<^bold>\<open>C21\<close>: the timer interrupt in the kernel. It advances the tick counter by one, makes exactly the processes runnable
  that sleep on it (the running one excepted) and acknowledges the interrupt. Without a running process the
  handler returns with the program counter and the status of the interrupted code; a running process outside
  every critical section is preempted: it becomes runnable with its registers saved, and the hart goes on in
  the scheduler, which takes the lock of the process over.\<close>

theorem timer_interrupt_preempts:
  assumes s: "quiet s" "idle (tlk s)" "mycpuid (khart s) = 0"
    and c: "csr_scause (csr s) = push_bit 63 1 + 1" "sstatus (khart s) AND SSTATUS_SPP \<noteq> 0" "\<not> intr_get (khart s)"
    and w: "woken = (\<lambda>j. if j < NPROC \<and> Some j \<noteq> cpu_proc (mycpu (khart s)) then wake TicksChan (procs s j) else procs s j)"
  shows "(cpu_proc (mycpu (khart s)) = None \<longrightarrow> (\<exists>t. trap_kernel_handler regs s = Inr (None, t) \<and> ticks t = ticks s + 1 \<and>
      procs t = woken \<and> csr_sip (csr t) = csr_sip (csr s) AND NOT 2 \<and> csr_sepc (csr t) = csr_sepc (csr s) \<and>
      sstatus (khart t) = sstatus (khart s))) \<and>
    (\<forall>i. cpu_proc (mycpu (khart s)) = Some i \<and> i < NPROC \<and> pstate (procs s i) = RUNNING \<and> noff (mycpu (khart s)) = 0 \<longrightarrow>
      (\<exists>t. trap_kernel_handler regs s = Inr (Some (cpu_ctx (mycpu (khart s))), t) \<and> ticks t = ticks s + 1 \<and>
        (\<forall>j. j \<noteq> i \<longrightarrow> procs t j = woken j) \<and> pstate (procs t i) = RUNNABLE \<and> pctx (procs t i) = regs \<and>
        csr_sip (csr t) = csr_sip (csr s) AND NOT 2 \<and> handback i t))"
    (is "?idle \<and> (\<forall>i. ?run i \<longrightarrow> ?switch i)")
proof -
  define u where "u = s\<lparr>ticks := ticks s + 1, khart := section_done (khart s), procs := woken,
    csr := (csr s)\<lparr>csr_sip := csr_sip (csr s) AND NOT 2\<rparr>\<rparr>"
  have f: "ticks u = ticks s + 1" "procs u = woken" "csr_sip (csr u) = csr_sip (csr s) AND NOT 2"
    "csr_sepc (csr u) = csr_sepc (csr s)" "khart u = section_done (khart s)"
    by (simp_all add: u_def)
  have id: "is_interrupt (csr_scause (csr s))" "trap_id_of (csr_scause (csr s)) = 1"
    by (simp_all add: c(1) is_interrupt_def trap_id_of_def)
  have u: "timer_interrupt_handler s = Inr u" unfolding u_def w by (rule timer_handler_state [OF s])
  have q: "quiet u" using s(1) by (auto simp: quiet_def w f wake_plk)
  have m: "myproc_s u = Inr (cpu_proc (mycpu (khart s)), u)"
    using myproc_s_quiet [OF quietD(2) [OF q]] f(5) by (simp add: u_def)
  have h: "trap_kernel_handler regs s = kbind (case cpu_proc (mycpu (khart s)) of None \<Rightarrow> Inr (False, u)
      | Some _ \<Rightarrow> kbind (cur u) (\<lambda>(i, s). Inr (pstate (procs s i) = RUNNING, s))) (\<lambda>(y, t).
      if y then kbind (proc_yield_out regs t) (\<lambda>(c, t). Inr (Some c, t))
      else Inr (None, trap_kernel_finish (csr_sepc (csr s)) (sstatus (khart s)) t))"
    using u m id c(2,3) by (simp add: trap_kernel_handler_def csr_defs)
  have "?switch i" if p: "?run i" for i
  proof -
    obtain t where t: "proc_yield_out regs u = Inr (cpu_ctx (mycpu (khart u)), t)" "handback i t" "pctx (procs t i) = regs"
      "pstate (procs t i) = RUNNABLE" "\<forall>j. j \<noteq> i \<longrightarrow> procs t j = woken j" "t = u\<lparr>khart := khart t, procs := procs t, korigin := korigin t\<rparr>"
      using yield_out_state [OF q, of i regs] p f by auto
    have g: "ticks t = ticks s + 1" "csr_sip (csr t) = csr_sip (csr s) AND NOT 2"
      using arg_cong [OF t(6), of ticks] arg_cong [OF t(6), of csr] f by simp_all
    have "pstate (woken i) = RUNNING" using p by (simp add: w)
    moreover have "cur u = Inr (i, u)" using m p by (simp add: cur_def)
    moreover have "cpu_ctx (mycpu (khart u)) = cpu_ctx (mycpu (khart s))" by (simp add: section_done_def f)
    ultimately have "trap_kernel_handler regs s = Inr (Some (cpu_ctx (mycpu (khart s))), t)" using h t(1) p f by simp
    then show ?thesis using t g by blast
  qed
  moreover have ?idle using h f by (simp add: trap_kernel_finish_def csr_defs)
  ultimately show ?thesis by blast
qed

text \<open>A concrete state: the locks are free, the console takes 200 characters.\<close>

definition csrs0 :: csrs where
  "csrs0 = \<lparr>csr_mhartid = 0, csr_mstatus = 0, csr_mepc = 0, csr_sip = 0, csr_sie = 0, csr_mie = 0, csr_sepc = 0,
     csr_medeleg = 0, csr_mideleg = 0, csr_stvec = 0, csr_mtvec = 0, csr_satp = 0, csr_sscratch = 0, csr_mscratch = 0,
     csr_scause = 0, csr_stval = 0, csr_mcounteren = 0, csr_time = 0, csr_pmpcfg0 = 0, csr_pmpaddr0 = 0\<rparr>"

definition con0 :: con where
  "con0 = \<lparr>chart = hart0, lsr_reads = replicate 200 0x60, rhr_reads = [], uart_w = [], print_lk = spinlock_init ''pr'', pr_locking = True\<rparr>"

definition trap0 :: "hart \<Rightarrow> mem \<Rightarrow> (nat \<Rightarrow> proc) \<Rightarrow> csrs \<Rightarrow> trapst" where
  "trap0 h m ps c = \<lparr>khart = h, kmem = m, ALLOC_BEGIN = 0x80020000, r_begin = 0, r_end = 0,
     r_lk = spinlock_init ''kern_pmem_lock'', allocable = 0, list_head = 0, procs = ps, proczero = None, nextpid = 1,
     pid_lock = spinlock_init ''nextpid'', wait_lock = spinlock_init ''wait_lock'', korigin = (\<lambda>_. False),
     kfs = boot_fs, ksym = boot_syms, ticks = 0, tlk = spinlock_init ''time'', kcon = con0, csr = c,
     kplic = \<lparr>plic_w = [], claims = []\<rparr>\<rparr>"

lemma trap0_simps [simp]:
  "khart (trap0 h m ps c) = h" "procs (trap0 h m ps c) = ps" "csr (trap0 h m ps c) = c" "tlk (trap0 h m ps c) = spinlock_init ''time''"
  "ticks (trap0 h m ps c) = 0" "kmem (trap0 h m ps c) = m" "kcon (trap0 h m ps c) = con0" "ksym (trap0 h m ps c) = boot_syms"
  by (simp_all add: trap0_def)

definition hart_s :: hart where
  "hart_s = hart0\<lparr>sstatus := 0x100\<rparr>"

lemma hart_s_simps [simp]: "mycpuid hart_s = 0" "cpu_proc (mycpu hart_s) = None" "\<not> intr_get hart_s" "cpu_ok hart_s" "sstatus hart_s = 0x100"
  by (simp_all add: hart_s_def hart0_def mycpuid_def mycpu_def intr_get_def SSTATUS_SIE_def cpu_ok_def)

theorem timer_interrupt_preempts_witness:
  "\<exists>t. trap_kernel_handler zero_ctx (trap0 hart_s (\<lambda>_. 0) ((\<lambda>_. proc0)(4 := proc0\<lparr>pstate := SLEEPING, sleep_space := Some TicksChan\<rparr>))
      (csrs0\<lparr>csr_scause := push_bit 63 1 + 1, csr_sip := 2\<rparr>)) = Inr (None, t) \<and>
    ticks t = 1 \<and> pstate (procs t 4) = RUNNABLE \<and> csr_sip (csr t) = 0"
proof -
  let ?ps = "(\<lambda>_. proc0)(4 := proc0\<lparr>pstate := SLEEPING, sleep_space := Some TicksChan\<rparr>)"
  let ?s = "trap0 hart_s (\<lambda>_. 0) ?ps (csrs0\<lparr>csr_scause := push_bit 63 1 + 1, csr_sip := 2\<rparr>)"
  have q: "quiet ?s" by (simp add: quiet_def proc0_def)
  obtain t where "trap_kernel_handler zero_ctx ?s = Inr (None, t)" "ticks t = ticks ?s + 1"
      "procs t = (\<lambda>j. if j < NPROC \<and> Some j \<noteq> cpu_proc (mycpu (khart ?s)) then wake TicksChan (procs ?s j) else procs ?s j)"
      "csr_sip (csr t) = csr_sip (csr ?s) AND NOT 2"
    using timer_interrupt_preempts [OF q _ _ _ _ _ refl, of zero_ctx] by (auto simp: SSTATUS_SPP_def)
  then show ?thesis by (intro exI [of _ t]) (simp add: wake_def NPROC_def)
qed

end
