(* ===== verification/Utrap.thy ===== *)
theory Utrap
  imports Trap
begin

text \<open>
  A system call from the \<^verbatim>\<open>ecall\<close> in user space to the instruction after it: the trap handler, the
  dispatcher and the return of \<^verbatim>\<open>kernel/trap/trap_user.c\<close> and \<^verbatim>\<open>kernel/syscall/syscall.c\<close> together.
\<close>

section \<open>The trap frame\<close>

text \<open>The \<open>k\<close>-th 64-bit field of a trap frame.\<close>

definition slot :: "nat \<Rightarrow> uint64" where
  "slot k = of_nat (8 * k)"

lemma slots: "TF_kernel_satp = slot 0" "TF_kernel_sp = slot 1" "TF_kernel_trap = slot 2" "TF_epc = slot 3"
  "TF_kernel_hartid = slot 4" "TF_a0 = slot 14" "TF_a7 = slot 21"
  by (simp_all add: slot_def layout)

lemma slot_apart:
  assumes "j < 36" "k < 36" "j \<noteq> k" and "unat (x - (a + slot j)) < 8"
  shows "\<not> unat (x - (a + slot k)) < 8"
proof
  define d where "d = unat (x - (a + slot j))"
  define e where "e = unat (x - (a + slot k))"
  assume "unat (x - (a + slot k)) < 8"
  then have "d < 8" "e < 8" using assms(4) by (simp_all add: d_def e_def)
  have "x - a = of_nat (8 * j + d)" "x - a = of_nat (8 * k + e)"
    by (simp_all add: d_def e_def slot_def algebra_simps)
  then have "(of_nat (8 * j + d) :: uint64) = of_nat (8 * k + e)" by simp
  from arg_cong [OF this, of unat] have "8 * j + d = 8 * k + e"
    using assms(1,2) \<open>d < 8\<close> \<open>e < 8\<close> by (simp add: unat_of_nat_small del: of_nat_add of_nat_mult)
  then show False using assms(3) \<open>d < 8\<close> \<open>e < 8\<close> by presburger
qed

lemma tf_get_set:
  "tf_get i (slot j) (tf_set i (slot j) v s) = v"
  "j < 36 \<Longrightarrow> k < 36 \<Longrightarrow> j \<noteq> k \<Longrightarrow> tf_get i (slot j) (tf_set i (slot k) v s) = tf_get i (slot j) s"
  by (simp add: tf_get_def tf_set_def)
    (auto simp: tf_get_def tf_set_def store64_def intro!: load64_cong dest: slot_apart)

lemma tf_set_simps [simp]:
  "procs (tf_set i off v s) = procs s" "khart (tf_set i off v s) = khart s" "ksym (tf_set i off v s) = ksym s"
  by (simp_all add: tf_set_def)

lemma tf_set_more [simp]:
  "csr (tf_set i off v s) = csr s" "kcon (tf_set i off v s) = kcon s"
  by (simp_all add: tf_set_def)

lemma tf_get_frame [simp]:
  "tf_get i off (s\<lparr>khart := h\<rparr>) = tf_get i off s"
  by (simp add: tf_get_def)

lemma tf_get_frame_more [simp]:
  "tf_get i off (s\<lparr>csr := c\<rparr>) = tf_get i off s"
  "tf_get i off (s\<lparr>kcon := d\<rparr>) = tf_get i off s"
  by (simp_all add: tf_get_def)

section \<open>The return to user space\<close>

text \<open>What \<^verbatim>\<open>sret\<close> in the trampoline finds: user mode with interrupts on after it, off until then, the saved program
  counter, and the trap vector of user space.\<close>

definition user_ready :: "nat \<Rightarrow> 'a trapst_scheme \<Rightarrow> bool" where
  "user_ready i t \<longleftrightarrow> \<not> bit (sstatus (khart t)) 8 \<and> bit (sstatus (khart t)) 5 \<and> \<not> intr_get (khart t) \<and>
     csr_sepc (csr t) = tf_get i TF_epc t \<and> csr_stvec (csr t) = TRAMPOLINE + (user_vector (ksym t) - trampoline (ksym t))"

definition to_user :: "nat \<Rightarrow> 'a trapst_scheme \<Rightarrow> utrap" where
  "to_user i s = ToUser (TRAMPOLINE + (user_return (ksym s) - trampoline (ksym s))) TRAPFRAME (MAKE_SATP (pgtbl (procs s i)))"

lemma cur_quiet: "cpu_ok (khart s) \<Longrightarrow> cpu_proc (mycpu (khart s)) = Some i \<Longrightarrow> cur s = Inr (i, hdone s)"
  by (simp add: cur_def myproc_s_quiet)

lemma user_return_state:
  assumes "cpu_ok (khart s)" "cpu_proc (mycpu (khart s)) = Some i"
  shows "\<exists>t. trap_user_return s = Inr (to_user i s, t) \<and> user_ready i t \<and> procs t = procs s \<and> kcon t = kcon s \<and>
    (\<forall>k. k = 3 \<or> 5 \<le> k \<and> k < 36 \<longrightarrow> tf_get i (slot k) t = tf_get i (slot k) s)"
proof -
  obtain t where t: "trap_user_return s = Inr (to_user i s, t)"
    using cur_quiet [OF assms] by (simp add: trap_user_return_def Let_def to_user_def)
  have "user_ready i t \<and> procs t = procs s \<and> kcon t = kcon s \<and> (\<forall>k. k = 3 \<or> 5 \<le> k \<and> k < 36 \<longrightarrow> tf_get i (slot k) t = tf_get i (slot k) s)"
    using t cur_quiet [OF assms]
    by (auto simp: trap_user_return_def Let_def user_ready_def csr_defs slots tf_get_set intr_get_iff intr_off_def bit_simps
        SSTATUS_SPP_def SSTATUS_SPIE_def bit_SIE bit_2_iff bit_push_bit_iff)
  then show ?thesis using t by blast
qed

section \<open>System calls\<close>

lemma killed_quiet: "quiet s \<Longrightarrow> i < NPROC \<Longrightarrow> proc_killed i s = Inr (killed (procs s i), hdone s)"
  by (simp add: proc_killed_def plock_idle quietD punlock_held_id Let_def)

text \<open>The state in which the dispatcher runs.\<close>

definition ecall_state :: "nat \<Rightarrow> 'a trapst_scheme \<Rightarrow> 'a trapst_scheme" where
  "ecall_state i s =
     (let t = hdone s;
          t = t\<lparr>csr := w_stvec (kernel_vector (ksym t)) (csr t)\<rparr>;
          t = tf_set i TF_epc (csr_sepc (csr s) + 4) (tf_set i TF_epc (csr_sepc (csr s)) t)
      in t\<lparr>khart := intr_on (khart t)\<rparr>)"

text \<open>A process in user mode whose \<^verbatim>\<open>ecall\<close> has trapped.\<close>

definition ecall_trapped :: "nat \<Rightarrow> 'a trapst_scheme \<Rightarrow> bool" where
  "ecall_trapped i s \<longleftrightarrow> quiet s \<and> i < NPROC \<and> cpu_proc (mycpu (khart s)) = Some i \<and> noff (mycpu (khart s)) = 0 \<and>
     \<not> killed (procs s i) \<and> sstatus (khart s) AND SSTATUS_SPP = 0 \<and> csr_scause (csr s) = 8"

lemma ecall_state_simps:
  assumes "ecall_trapped i s"
  shows "quiet (ecall_state i s)" "procs (ecall_state i s) = procs s" "cpu_proc (mycpu (khart (ecall_state i s))) = Some i"
    "noff (mycpu (khart (ecall_state i s))) = 0" "ksym (ecall_state i s) = ksym s" "kcon (ecall_state i s) = kcon s"
    "tf_get i TF_epc (ecall_state i s) = csr_sepc (csr s) + 4"
    "k < 36 \<Longrightarrow> k \<noteq> 3 \<Longrightarrow> tf_get i (slot k) (ecall_state i s) = tf_get i (slot k) s"
  using assms by (simp_all add: ecall_state_def ecall_trapped_def Let_def quiet_def cpu_ok_def slots tf_get_set)

lemma ecall_enter:
  assumes "ecall_trapped i s"
  shows "trap_user_handler regs s = kbind (syscall regs (ecall_state i s)) (\<lambda>(r, s).
    case r of Some c \<Rightarrow> Inr (Switched c, s) | None \<Rightarrow> trap_user_finish i regs s)"
proof -
  let ?t = "tf_set i TF_epc (csr_sepc (csr s)) ((hdone s)\<lparr>csr := w_stvec (kernel_vector (ksym s)) (csr s)\<rparr>)"
  have s: "quiet s" "i < NPROC" "cpu_proc (mycpu (khart s)) = Some i" "\<not> killed (procs s i)"
    "sstatus (khart s) AND SSTATUS_SPP = 0" "csr_scause (csr s) = 8" using assms by (simp_all add: ecall_trapped_def)
  have q: "quiet ?t" using s(1) by (simp add: quiet_def)
  have e: "hdone ?t = ?t" by (simp add: tf_set_def)
  have "proc_killed i ?t = Inr (False, ?t)" using killed_quiet [OF q s(2), unfolded e] s(4) by simp
  moreover have "tf_get i TF_epc ?t = csr_sepc (csr s)" by (simp add: slots tf_get_set)
  ultimately show ?thesis
    using s myproc_s_quiet [OF quietD(2) [OF s(1)]] by (simp add: trap_user_handler_def ecall_state_def Let_def csr_defs)
qed

text \<open>The end of the trap, from the state in which the value has been stored.\<close>

lemma ecall_finish:
  assumes "quiet u" "i < NPROC" "cpu_proc (mycpu (khart u)) = Some i" "\<not> killed (procs u i)"
  shows "\<exists>t. trap_user_finish i regs u = Inr (to_user i u, t) \<and> user_ready i t \<and> procs t = procs u \<and>
    (\<forall>k. k = 3 \<or> 5 \<le> k \<and> k < 36 \<longrightarrow> tf_get i (slot k) t = tf_get i (slot k) u)"
proof -
  have "proc_killed i u = Inr (False, hdone u)" using killed_quiet [OF assms(1,2)] assms(4) by simp
  moreover have "to_user i (hdone u) = to_user i u" by (simp add: to_user_def)
  ultimately show ?thesis
    using user_return_state [of "hdone u" i] quietD(2) [OF assms(1)] assms(3) by (auto simp: trap_user_finish_def)
qed

text \<open>The message for an unknown call fits on the console.\<close>

lemma unknown_text:
  assumes "- (2 ^ 31) \<le> n" "n < 2 ^ 31" "- (2 ^ 31) \<le> m" "m < 2 ^ 31"
  shows "\<exists>out. format (cstr ''proc %d : unknown sys call %d\<newline>'') [VInt n, VInt m] = Some out \<and> length out \<le> 100"
proof -
  have l: "length (int_text k) \<le> 11" if "- (2 ^ 31) \<le> k" "k < 2 ^ 31" for k
  proof -
    have "length (num_text 10 (nat \<bar>k\<bar>)) \<le> 10" using that by (intro num_text_length) auto
    then show ?thesis by (cases "k < 0") (simp_all add: int_text_def)
  qed
  show ?thesis using assms l [of n] l [of m] by (simp add: cstr_def conv_text_def)
qed

lemma to_int_range: "- (2 ^ 31) \<le> to_int w" "to_int w < 2 ^ 31"
  using sint_ge [of "ucast w :: uint32"] sint_lt [of "ucast w :: uint32"] by (simp_all add: to_int_def)

lemma syscalls_None: "num < 0 \<or> 20 < num \<Longrightarrow> syscalls num = None"
  by (auto simp: syscalls_def)

lemma syscall_unknown:
  assumes u: "quiet u" "cpu_proc (mycpu (khart u)) = Some i" and n: "to_int (tf_get i TF_a7 u) < 0 \<or> 20 < to_int (tf_get i TF_a7 u)"
    and c: "\<not> locked (print_lk (kcon u))" "100 \<le> tx_room (kcon u)" and p: "- (2 ^ 31) \<le> pid (procs u i)" "pid (procs u i) < 2 ^ 31"
  shows "\<exists>d h. syscall regs u = Inr (None, tf_set i TF_a0 (-1) (u\<lparr>kcon := d, khart := h\<rparr>)) \<and> h = section_done (khart u)"
proof -
  obtain out where o: "format (cstr ''proc %d : unknown sys call %d\<newline>'') [VInt (pid (procs u i)), VInt (to_int (tf_get i TF_a7 u))] = Some out"
      "length out \<le> 100"
    using unknown_text [OF p to_int_range] by blast
  let ?c = "(kcon u)\<lparr>chart := section_done (khart u)\<rparr>"
  obtain d where d: "printf (Some (cstr ''proc %d : unknown sys call %d\<newline>'')) [VInt (pid (procs u i)), VInt (to_int (tf_get i TF_a7 u))] ?c = Inr d"
      "chart d = section_done (khart u)"
    using printf_state [OF o(1), of ?c] o(2) c quietD(2) [OF u(1)] by (auto simp: tx_room_def)
  then show ?thesis
    using cur_quiet [OF quietD(2) [OF u(1)] u(2)] n 
    by (intro exI [of _ d]) (simp add: syscall_def Let_def lift_con_def syscalls_None)
qed

lemma syscall_getpid:
  assumes u: "quiet u" "cpu_proc (mycpu (khart u)) = Some i" and n: "to_int (tf_get i TF_a7 u) = 10"
  shows "syscall regs u = Inr (None, tf_set i TF_a0 (word_of_int (pid (procs u i))) (hdone u))"
  using cur_quiet [OF quietD(2) [OF u(1)] u(2)] cur_quiet [of "hdone u" i] quietD(2) [OF u(1)] u(2) n
  by (simp add: syscall_def syscalls_def ret_def sys_getpid_def Let_def)

text \<open>The trap around a call that returns the value \<open>v\<close>.\<close>

lemma ecall_value:
  assumes s: "ecall_trapped i s"
    and d: "syscall regs (ecall_state i s) = Inr (None, tf_set i TF_a0 v ((ecall_state i s)\<lparr>kcon := d, khart := section_done (khart (ecall_state i s))\<rparr>))"
  shows "\<exists>t. trap_user_handler regs s = Inr (to_user i s, t) \<and> user_ready i t \<and> procs t = procs s \<and>
    tf_get i TF_a0 t = v \<and> tf_get i TF_epc t = csr_sepc (csr s) + 4 \<and>
    (\<forall>k. 5 \<le> k \<and> k < 36 \<and> k \<noteq> 14 \<longrightarrow> tf_get i (slot k) t = tf_get i (slot k) s)"
proof -
  let ?u = "ecall_state i s"
  note e = ecall_state_simps [OF s]
  let ?w = "tf_set i TF_a0 v (?u\<lparr>kcon := d, khart := section_done (khart ?u)\<rparr>)"
  have w: "quiet ?w" "cpu_proc (mycpu (khart ?w)) = Some i" "procs ?w = procs s" "ksym ?w = ksym s"
    using e by (simp_all add: quiet_def)
  have i: "i < NPROC" "\<not> killed (procs ?w i)" using s w(3) by (simp_all add: ecall_trapped_def)
  obtain t where t: "trap_user_finish i regs ?w = Inr (to_user i ?w, t)" "user_ready i t" "procs t = procs s"
      "\<forall>k. k = 3 \<or> 5 \<le> k \<and> k < 36 \<longrightarrow> tf_get i (slot k) t = tf_get i (slot k) ?w"
    using ecall_finish [OF w(1) i(1) w(2) i(2), of regs] w(3) by auto
  have f: "tf_get i (slot k) ?w = (if k = 14 then v else tf_get i (slot k) ?u)" if "k < 36" for k
    using that by (simp add: slots tf_get_set)
  have "tf_get i TF_a0 t = v" "tf_get i TF_epc t = csr_sepc (csr s) + 4"
    using t(4) [rule_format, of 14] t(4) [rule_format, of 3] f [of 14] f [of 3] e(7) by (simp_all add: slots)
  moreover have "tf_get i (slot k) t = tf_get i (slot k) s" if "5 \<le> k" "k < 36" "k \<noteq> 14" for k
    using t(4) [rule_format, of k] f [of k] e(8) [of k] that by simp
  moreover have "to_user i ?w = to_user i s" using w by (simp add: to_user_def)
  ultimately show ?thesis using ecall_enter [OF s] d t(1-3) by auto
qed

lemma ecall_a7: "ecall_trapped i s \<Longrightarrow> tf_get i TF_a7 (ecall_state i s) = tf_get i TF_a7 s"
  using ecall_state_simps(8) [of i s 21] by (simp add: slots)

text \<open>\<^bold>\<open>C20\<close>: a system call returns to the instruction after it. When a process that has not been killed traps with
  \<^verbatim>\<open>ecall\<close>, an unknown call number gives -1 and \<^verbatim>\<open>getpid\<close> gives the pid in \<^verbatim>\<open>a0\<close>; the saved program counter is the
  address after the \<^verbatim>\<open>ecall\<close>, every other user register in the trap frame is unchanged, the process table too,
  and the trampoline is entered with the page table of the process and the hart set up for user mode.\<close>

theorem ecall_returns:
  assumes s: "ecall_trapped i s" and num: "num = to_int (tf_get i TF_a7 s)"
    and v: "num = 10 \<and> v = word_of_int (pid (procs s i)) \<or> (num < 0 \<or> 20 < num) \<and> v = -1"
    and c: "\<not> locked (print_lk (kcon s))" "100 \<le> tx_room (kcon s)" and p: "- (2 ^ 31) \<le> pid (procs s i)" "pid (procs s i) < 2 ^ 31"
  shows "\<exists>t. trap_user_handler regs s = Inr (to_user i s, t) \<and> user_ready i t \<and> procs t = procs s \<and>
    tf_get i TF_a0 t = v \<and> tf_get i TF_epc t = csr_sepc (csr s) + 4 \<and>
    (\<forall>k. 5 \<le> k \<and> k < 36 \<and> k \<noteq> 14 \<longrightarrow> tf_get i (slot k) t = tf_get i (slot k) s)"
proof -
  let ?u = "ecall_state i s"
  note e = ecall_state_simps [OF s]
  have n: "to_int (tf_get i TF_a7 ?u) = num" using ecall_a7 [OF s] num by simp
  obtain d where "syscall regs ?u = Inr (None, tf_set i TF_a0 v (?u\<lparr>kcon := d, khart := section_done (khart ?u)\<rparr>))"
  proof (cases "num = 10")
    case True
    then show ?thesis
      using v syscall_getpid [OF e(1,3), of regs] n e(2,6) by (intro that [of "kcon ?u"]) (simp add: tf_set_def)
  next
    case False
    then show ?thesis using v syscall_unknown [OF e(1,3), of regs] n c p e(2,6) by (auto intro: that)
  qed
  then show ?thesis by (rule ecall_value [OF s])
qed

text \<open>Process 2, with pid 7, has called \<^verbatim>\<open>getpid\<close> at address 0x40.\<close>

definition hart_u :: hart where
  "hart_u = hart0\<lparr>sstatus := 0, cpus := (\<lambda>_. \<lparr>noff = 0, origin = False, cpu_proc = Some 2, cpu_ctx = zero_ctx\<rparr>)\<rparr>"

lemma hart_u_simps [simp]: "cpu_proc (mycpu hart_u) = Some 2" "cpu_ok hart_u" "sstatus hart_u = 0" "noff (mycpu hart_u) = 0"
  by (simp_all add: hart_u_def hart0_def mycpu_def cpu_ok_def)

definition getpid_state :: trapst where
  "getpid_state = trap0 hart_u (store64 (\<lambda>_. 0) (0x81000000 + TF_a7) 10)
     ((\<lambda>_. proc0)(2 := proc0\<lparr>pstate := RUNNING, pid := 7, tf := 0x81000000\<rparr>)) (csrs0\<lparr>csr_scause := 8, csr_sepc := 0x40\<rparr>)"

theorem ecall_returns_witness:
  "\<exists>t. trap_user_handler zero_ctx getpid_state = Inr (to_user 2 getpid_state, t) \<and>
    tf_get 2 TF_a0 t = 7 \<and> csr_sepc (csr t) = 0x44"
proof -
  let ?s = getpid_state
  have s: "ecall_trapped 2 ?s"
    by (simp add: ecall_trapped_def getpid_state_def quiet_def proc0_def NPROC_def)
  have n: "10 = to_int (tf_get 2 TF_a7 ?s)"
    by (simp add: getpid_state_def tf_get_def to_int_def)
  have c: "\<not> locked (print_lk (kcon ?s))" "100 \<le> tx_room (kcon ?s)"
    by (simp_all add: getpid_state_def con0_def tx_room_def spinlock_init_def LSR_TX_IDLE_def)
  have p: "pid (procs ?s 2) = 7" "csr_sepc (csr ?s) = 0x40" by (simp_all add: getpid_state_def)
  obtain t where "trap_user_handler zero_ctx ?s = Inr (to_user 2 ?s, t)" "user_ready 2 t"
      "tf_get 2 TF_a0 t = 7" "tf_get 2 TF_epc t = 0x44"
    using ecall_returns [OF s n, of 7 zero_ctx] c p by auto
  then show ?thesis by (intro exI [of _ t]) (simp add: user_ready_def)
qed

end
