(* ===== verification/User.thy ===== *)
theory User
  imports Utrap
begin

text \<open>
  \<^verbatim>\<open>user/syscall_arch.h\<close>, \<^verbatim>\<open>user/syscall_num.h\<close> and \<^verbatim>\<open>user/syscall_wrap.h\<close>: the user side of the system calls. The
  argument registers \<^verbatim>\<open>a0\<close> to \<^verbatim>\<open>a7\<close> are a function of their number, and \<^verbatim>\<open>ecall\<close> is a parameter: the value that
  the kernel leaves in \<^verbatim>\<open>a0\<close> for the registers at the trap. The last section connects the wrappers with the
  dispatcher of the kernel.
\<close>

section \<open>Calls\<close>

type_synonym uregs = "nat \<Rightarrow> uint64"

definition SYS_test :: uint64 where "SYS_test = 0"
definition SYS_print :: uint64 where "SYS_print = 1"
definition SYS_brk :: uint64 where "SYS_brk = 2"
definition SYS_open :: uint64 where "SYS_open = 3"
definition SYS_close :: uint64 where "SYS_close = 4"
definition SYS_fork :: uint64 where "SYS_fork = 5"
definition SYS_wait :: uint64 where "SYS_wait = 6"
definition SYS_exit :: uint64 where "SYS_exit = 7"
definition SYS_sleep :: uint64 where "SYS_sleep = 8"
definition SYS_kill :: uint64 where "SYS_kill = 9"
definition SYS_getpid :: uint64 where "SYS_getpid = 10"
definition SYS_read :: uint64 where "SYS_read = 11"
definition SYS_write :: uint64 where "SYS_write = 12"
definition SYS_mkdir :: uint64 where "SYS_mkdir = 13"
definition SYS_link :: uint64 where "SYS_link = 14"
definition SYS_unlink :: uint64 where "SYS_unlink = 15"
definition SYS_fstat :: uint64 where "SYS_fstat = 16"
definition SYS_dup :: uint64 where "SYS_dup = 17"
definition SYS_setprior :: uint64 where "SYS_setprior = 18"
definition SYS_getprior :: uint64 where "SYS_getprior = 19"
definition SYS_yield :: uint64 where "SYS_yield = 20"

lemmas sysnums = SYS_test_def SYS_print_def SYS_brk_def SYS_open_def SYS_close_def SYS_fork_def SYS_wait_def SYS_exit_def SYS_sleep_def SYS_kill_def SYS_getpid_def SYS_read_def SYS_write_def SYS_mkdir_def SYS_link_def SYS_unlink_def SYS_fstat_def SYS_dup_def SYS_setprior_def SYS_getprior_def SYS_yield_def

definition usyscall0 :: "(uregs \<Rightarrow> uint64) \<Rightarrow> uregs \<Rightarrow> uint64 \<Rightarrow> uint64" where
  "usyscall0 ecall r n = ecall (r(7 := n))"

definition usyscall1 :: "(uregs \<Rightarrow> uint64) \<Rightarrow> uregs \<Rightarrow> uint64 \<Rightarrow> uint64 \<Rightarrow> uint64" where
  "usyscall1 ecall r n a = ecall (r(7 := n, 0 := a))"

definition usyscall2 :: "(uregs \<Rightarrow> uint64) \<Rightarrow> uregs \<Rightarrow> uint64 \<Rightarrow> uint64 \<Rightarrow> uint64 \<Rightarrow> uint64" where
  "usyscall2 ecall r n a b = ecall (r(7 := n, 0 := a, 1 := b))"

definition usyscall3 :: "(uregs \<Rightarrow> uint64) \<Rightarrow> uregs \<Rightarrow> uint64 \<Rightarrow> uint64 \<Rightarrow> uint64 \<Rightarrow> uint64 \<Rightarrow> uint64" where
  "usyscall3 ecall r n a b c = ecall (r(7 := n, 0 := a, 1 := b, 2 := c))"

definition usyscall4 :: "(uregs \<Rightarrow> uint64) \<Rightarrow> uregs \<Rightarrow> uint64 \<Rightarrow> uint64 \<Rightarrow> uint64 \<Rightarrow> uint64 \<Rightarrow> uint64 \<Rightarrow> uint64" where
  "usyscall4 ecall r n a b c d = ecall (r(7 := n, 0 := a, 1 := b, 2 := c, 3 := d))"

definition usyscall5 :: "(uregs \<Rightarrow> uint64) \<Rightarrow> uregs \<Rightarrow> uint64 \<Rightarrow> uint64 \<Rightarrow> uint64 \<Rightarrow> uint64 \<Rightarrow> uint64 \<Rightarrow> uint64 \<Rightarrow> uint64" where
  "usyscall5 ecall r n a b c d e = ecall (r(7 := n, 0 := a, 1 := b, 2 := c, 3 := d, 4 := e))"

definition usyscall6 :: "(uregs \<Rightarrow> uint64) \<Rightarrow> uregs \<Rightarrow> uint64 \<Rightarrow> uint64 \<Rightarrow> uint64 \<Rightarrow> uint64 \<Rightarrow> uint64 \<Rightarrow> uint64 \<Rightarrow> uint64 \<Rightarrow> uint64" where
  "usyscall6 ecall r n a b c d e f = ecall (r(7 := n, 0 := a, 1 := b, 2 := c, 3 := d, 4 := e, 5 := f))"

text \<open>The wrappers: pointers go into the registers as they are, integers are extended with their sign, and the
  result is cut to an \<^verbatim>\<open>int\<close>.\<close>

definition sys_test_u :: "(uregs \<Rightarrow> uint64) \<Rightarrow> uregs \<Rightarrow> uint64" where
  "sys_test_u ecall r = usyscall0 ecall r SYS_test"

definition sys_print_u :: "(uregs \<Rightarrow> uint64) \<Rightarrow> uregs \<Rightarrow> uint64 \<Rightarrow> int" where
  "sys_print_u ecall r str = to_int (usyscall1 ecall r SYS_print str)"

definition sys_brk_u :: "(uregs \<Rightarrow> uint64) \<Rightarrow> uregs \<Rightarrow> int \<Rightarrow> int" where
  "sys_brk_u ecall r sz = to_int (usyscall1 ecall r SYS_open (word_of_int sz))"

definition sys_open_u :: "(uregs \<Rightarrow> uint64) \<Rightarrow> uregs \<Rightarrow> uint64 \<Rightarrow> int \<Rightarrow> int" where
  "sys_open_u ecall r dir state = to_int (usyscall2 ecall r SYS_open dir (word_of_int state))"

definition sys_close_u :: "(uregs \<Rightarrow> uint64) \<Rightarrow> uregs \<Rightarrow> int \<Rightarrow> int" where
  "sys_close_u ecall r fd = to_int (usyscall1 ecall r SYS_close (word_of_int fd))"

definition sys_fork_u :: "(uregs \<Rightarrow> uint64) \<Rightarrow> uregs \<Rightarrow> int" where
  "sys_fork_u ecall r = to_int (usyscall0 ecall r SYS_fork)"

definition sys_wait_u :: "(uregs \<Rightarrow> uint64) \<Rightarrow> uregs \<Rightarrow> uint64 \<Rightarrow> int" where
  "sys_wait_u ecall r addr = to_int (usyscall1 ecall r SYS_wait addr)"

definition sys_exit_u :: "(uregs \<Rightarrow> uint64) \<Rightarrow> uregs \<Rightarrow> int \<Rightarrow> int" where
  "sys_exit_u ecall r n = to_int (usyscall1 ecall r SYS_exit (word_of_int n))"

definition sys_sleep_u :: "(uregs \<Rightarrow> uint64) \<Rightarrow> uregs \<Rightarrow> int \<Rightarrow> int" where
  "sys_sleep_u ecall r n = to_int (usyscall1 ecall r SYS_sleep (word_of_int n))"

definition sys_kill_u :: "(uregs \<Rightarrow> uint64) \<Rightarrow> uregs \<Rightarrow> int \<Rightarrow> int" where
  "sys_kill_u ecall r n = to_int (usyscall1 ecall r SYS_kill (word_of_int n))"

definition sys_getpid_u :: "(uregs \<Rightarrow> uint64) \<Rightarrow> uregs \<Rightarrow> int" where
  "sys_getpid_u ecall r = to_int (usyscall0 ecall r SYS_getpid)"

definition sys_read_u :: "(uregs \<Rightarrow> uint64) \<Rightarrow> uregs \<Rightarrow> int \<Rightarrow> uint64 \<Rightarrow> int \<Rightarrow> int" where
  "sys_read_u ecall r fd buf sz = to_int (usyscall3 ecall r SYS_read (word_of_int fd) buf (word_of_int sz))"

definition sys_write_u :: "(uregs \<Rightarrow> uint64) \<Rightarrow> uregs \<Rightarrow> int \<Rightarrow> uint64 \<Rightarrow> int \<Rightarrow> int" where
  "sys_write_u ecall r fd msg len = to_int (usyscall3 ecall r SYS_write (word_of_int fd) msg (word_of_int len))"

definition sys_mkdir_u :: "(uregs \<Rightarrow> uint64) \<Rightarrow> uregs \<Rightarrow> uint64 \<Rightarrow> int" where
  "sys_mkdir_u ecall r dir = to_int (usyscall1 ecall r SYS_mkdir dir)"

definition sys_link_u :: "(uregs \<Rightarrow> uint64) \<Rightarrow> uregs \<Rightarrow> uint64 \<Rightarrow> uint64 \<Rightarrow> int" where
  "sys_link_u ecall r f1 f2 = to_int (usyscall2 ecall r SYS_link f1 f2)"

definition sys_unlink_u :: "(uregs \<Rightarrow> uint64) \<Rightarrow> uregs \<Rightarrow> uint64 \<Rightarrow> int" where
  "sys_unlink_u ecall r fd = to_int (usyscall1 ecall r SYS_unlink fd)"

definition sys_fstat_u :: "(uregs \<Rightarrow> uint64) \<Rightarrow> uregs \<Rightarrow> int \<Rightarrow> uint64 \<Rightarrow> int" where
  "sys_fstat_u ecall r fs addr = to_int (usyscall2 ecall r SYS_fstat (word_of_int fs) addr)"

definition sys_dup_u :: "(uregs \<Rightarrow> uint64) \<Rightarrow> uregs \<Rightarrow> int \<Rightarrow> int" where
  "sys_dup_u ecall r fs = to_int (usyscall1 ecall r SYS_dup (word_of_int fs))"

definition sys_setpriority_u :: "(uregs \<Rightarrow> uint64) \<Rightarrow> uregs \<Rightarrow> int \<Rightarrow> int" where
  "sys_setpriority_u ecall r prior = to_int (usyscall1 ecall r SYS_setprior (word_of_int prior))"

definition sys_getpriority_u :: "(uregs \<Rightarrow> uint64) \<Rightarrow> uregs \<Rightarrow> int" where
  "sys_getpriority_u ecall r = to_int (usyscall0 ecall r SYS_getprior)"

definition sys_yield_u :: "(uregs \<Rightarrow> uint64) \<Rightarrow> uregs \<Rightarrow> int" where
  "sys_yield_u ecall r = to_int (usyscall0 ecall r SYS_yield)"

section \<open>From user space to the kernel and back\<close>

text \<open>The trampoline stores the argument registers in the trap frame before it enters the trap handler, and loads \<^verbatim>\<open>a0\<close>
  from it on the way back.\<close>

definition uservec :: "nat \<Rightarrow> uregs \<Rightarrow> 'a trapst_scheme \<Rightarrow> 'a trapst_scheme" where
  "uservec i r s = fold (\<lambda>k s. tf_set i (slot (14 + k)) (r k) s) [0..<8] s"

definition kernel_ecall :: "context_t \<Rightarrow> nat \<Rightarrow> 'a trapst_scheme \<Rightarrow> uregs \<Rightarrow> uint64" where
  "kernel_ecall ctx i s r =
     (case trap_user_handler ctx (uservec i r s) of Inr (ToUser _ _ _, t) \<Rightarrow> tf_get i TF_a0 t | _ \<Rightarrow> 0)"

lemma uservec_simps [simp]:
  "procs (uservec i r s) = procs s" "khart (uservec i r s) = khart s" "csr (uservec i r s) = csr s" "kcon (uservec i r s) = kcon s"
  by (simp_all add: uservec_def upt_rec)

lemma upt8: "[0..<8] = [0, 1, 2, 3, 4, 5, 6, 7]"
  by (simp add: upt_rec)

lemma cut_word: "(ucast (word_of_int x :: uint64) :: uint32) = word_of_int x"
  by (rule bit_word_eqI) (simp add: bit_simps)

lemma uservec_a7: "tf_get i TF_a7 (uservec i r s) = r 7"
  by (simp add: uservec_def slots upt8 tf_get_set)

text \<open>\<^bold>\<open>C17\<close>: \<^verbatim>\<open>getpid\<close> from the wrapper in user space through the trap, the dispatcher and the handler back to the wrapper: it
  returns the pid of the running process, whatever the other registers hold.\<close>

theorem getpid_end_to_end:
  assumes s: "ecall_trapped i s" and p: "- (2 ^ 31) \<le> pid (procs s i)" "pid (procs s i) < 2 ^ 31"
  shows "sys_getpid_u (kernel_ecall ctx i s) r = pid (procs s i)"
proof -
  let ?s = "uservec i (r(7 := SYS_getpid)) s"
  have t: "ecall_trapped i ?s" using s by (simp add: ecall_trapped_def quiet_def)
  note e = ecall_state_simps [OF t]
  have "to_int (tf_get i TF_a7 (ecall_state i ?s)) = 10"
    using ecall_a7 [OF t] by (simp add: uservec_a7 SYS_getpid_def to_int_def)
  from syscall_getpid [OF e(1,3) this] ecall_value [OF t, of ctx "word_of_int (pid (procs s i))" "kcon s"]
  have "kernel_ecall ctx i s (r(7 := SYS_getpid)) = word_of_int (pid (procs s i))"
    using e(2,6) by (auto simp: kernel_ecall_def to_user_def tf_set_def)
  then show ?thesis using p by (simp add: sys_getpid_u_def usyscall0_def to_int_def cut_word sint_word_of_int_small)
qed

theorem getpid_end_to_end_witness:
  "sys_getpid_u (kernel_ecall zero_ctx 2 getpid_state) (\<lambda>_. 0) = 7"
proof -
  have "ecall_trapped 2 getpid_state" by (simp add: ecall_trapped_def getpid_state_def quiet_def proc0_def NPROC_def)
  moreover have "pid (procs getpid_state 2) = 7" by (simp add: getpid_state_def)
  ultimately show ?thesis using getpid_end_to_end [of 2 getpid_state zero_ctx "\<lambda>_. 0"] by simp
qed

text \<open>The wrapper of \<^verbatim>\<open>brk\<close> passes the number of \<^verbatim>\<open>open\<close>: the kernel runs \<^verbatim>\<open>sys_open\<close> with the size as a path.\<close>

lemma brk_wrapper_opens:
  "sys_brk_u ecall r sz = to_int (ecall (r(7 := 3, 0 := word_of_int sz)))"
  "syscalls (to_int (3 :: uint64)) = Some (\<lambda>_ s. ret (sys_open s))"
  by (simp_all add: sys_brk_u_def usyscall1_def SYS_open_def to_int_def syscalls_def)

end
