(* ===== verification/Fd.thy ===== *)
theory Fd
  imports User
begin

text \<open>
  Descriptors: \<^verbatim>\<open>sys_dup\<close> and \<^verbatim>\<open>sys_close\<close> of \<^verbatim>\<open>kernel/syscall/sysfile.c\<close> on the descriptors of the running process and
  the reference counts of the table of open files.
\<close>

lemma fdalloc_loop_find:
  "fdalloc_loop k j i f s =
    (case find (\<lambda>fd. ofile (procs s i) fd = None) [j..<j + k] of
       None \<Rightarrow> (-1, s)
     | Some fd \<Rightarrow> (int fd, set_proc i (\<lambda>p. p\<lparr>ofile := (ofile p)(fd := Some f)\<rparr>) s))"
  by (induction k arbitrary: j) (simp_all add: upt_conv_Cons del: upt_Suc)

text \<open>The hart runs process \<open>i\<close> outside of critical sections.\<close>

definition runs :: "nat \<Rightarrow> 'a kst_scheme \<Rightarrow> bool" where
  "runs i s \<longleftrightarrow> cpu_ok (khart s) \<and> cpu_proc (mycpu (khart s)) = Some i"

lemma runs_cur: "runs i s \<Longrightarrow> cur s = Inr (i, hdone s)"
  by (simp add: runs_def cur_def myproc_s_quiet)

lemma arg_int_0: "runs i s \<Longrightarrow> arg_int 0 s = Inr (to_int (tf_get i TF_a0 s), hdone s)"
  by (simp add: arg_int_def arg_raw_def runs_cur)

definition open_fd :: "nat \<Rightarrow> 'a kst_scheme \<Rightarrow> int \<Rightarrow> nat option" where
  "open_fd i s fd = (if fd < 0 \<or> int NOFILE \<le> fd then None else ofile (procs s i) (nat fd))"

lemma set_proc_frame [simp]: "kfs (set_proc i f s) = kfs s" "khart (set_proc i f s) = khart s" "kmem (set_proc i f s) = kmem s"
  by (simp_all add: set_proc_def)

lemma sys_dup_eq:
  assumes r: "runs i s" and fd: "fd = to_int (tf_get i TF_a0 s)"
  shows "sys_dup s = (case open_fd i s fd of
      None \<Rightarrow> Inr (-1, hdone s)
    | Some f \<Rightarrow> (case find (\<lambda>j. ofile (procs s i) j = None) [0..<NOFILE] of
        None \<Rightarrow> Inr (-1, hdone s)
      | Some j \<Rightarrow> kbind (file_dup f (kfs s)) (\<lambda>fs.
          Inr (of_nat j, (set_proc i (\<lambda>p. p\<lparr>ofile := (ofile p)(j := Some f)\<rparr>) (hdone s))\<lparr>kfs := fs\<rparr>))))"
proof -
  have h: "runs i (hdone s)" using r by (simp add: runs_def)
  have d: "fdalloc f (hdone s) = Inr (fdalloc_loop NOFILE 0 i f (hdone s))" for f
    using runs_cur [OF h] by (simp add: fdalloc_def)
  have f: "fd_file fd (hdone s) = Inr (open_fd i s fd, hdone s)"
    using runs_cur [OF h] by (simp add: fd_file_def open_fd_def)
  show ?thesis
    using arg_int_0 [OF r] f d fd
    by (auto simp: sys_dup_def fdalloc_loop_find lift_fs_def kbind_assoc split: option.splits)
qed

lemma sys_close_eq:
  assumes r: "runs i s" and fd: "open_fd i s (to_int (tf_get i TF_a0 s)) = Some f"
  shows "sys_close s = kbind (file_close f (kfs s)) (\<lambda>fs.
    Inr (0, (set_proc i (\<lambda>p. p\<lparr>ofile := (ofile p)(nat (to_int (tf_get i TF_a0 s)) := None)\<rparr>) (hdone s))\<lparr>kfs := fs\<rparr>))"
proof -
  have h: "runs i (hdone s)" using r by (simp add: runs_def)
  have "fd_file (to_int (tf_get i TF_a0 s)) (hdone s) = Inr (Some f, hdone s)"
    using runs_cur [OF h] fd by (auto simp: fd_file_def open_fd_def split: if_splits)
  then show ?thesis
    using arg_int_0 [OF r] runs_cur [OF h] by (simp add: sys_close_def arg_fd_def Let_def lift_fs_def kbind_assoc)
qed

lemma file_dup_close:
  assumes "1 \<le> f_ref (ftable fs f)"
  shows "file_dup f fs = Inr (set_file f (\<lambda>x. x\<lparr>f_ref := f_ref x + 1\<rparr>) fs)"
    "file_close f (set_file f (\<lambda>x. x\<lparr>f_ref := f_ref x + 1\<rparr>) fs) = Inr fs"
  using assms by (simp_all add: file_dup_def file_close_def kguard_def set_file_def Let_def)

text \<open>\<^bold>\<open>C29\<close>: \<^verbatim>\<open>sys_dup\<close>. A descriptor that is out of range or not open, and a full table of descriptors, give -1 and change
  neither the processes nor the files. Otherwise the lowest free descriptor is returned; it refers to the same file,
  whose reference count is one higher, and nothing else changes. Closing the descriptor returned then gives 0 and restores
  the descriptors of all processes, the table of open files and the file system.\<close>

theorem dup_close_roundtrip:
  fixes s :: "'a kst_scheme"
  assumes r: "runs i s" and fd: "fd = to_int (tf_get i TF_a0 s)" and c: "\<forall>f. open_fd i s fd = Some f \<longrightarrow> 1 \<le> f_ref (ftable (kfs s) f)"
  shows "case (open_fd i s fd, find (\<lambda>j. ofile (procs s i) j = None) [0..<NOFILE]) of
    (Some f, Some j) \<Rightarrow> \<exists>t u. sys_dup s = Inr (of_nat j, t) \<and>
      procs t = (procs s)(i := (procs s i)\<lparr>ofile := (ofile (procs s i))(j := Some f)\<rparr>) \<and>
      kfs t = set_file f (\<lambda>x. x\<lparr>f_ref := f_ref x + 1\<rparr>) (kfs s) \<and>
      sys_close (tf_set i TF_a0 (of_nat j) t) = Inr (0, u) \<and> procs u = procs s \<and> kfs u = kfs s
  | _ \<Rightarrow> \<exists>t. sys_dup s = Inr (-1, t) \<and> procs t = procs s \<and> kfs t = kfs s"
proof (cases "open_fd i s fd")
  case None
  then show ?thesis using sys_dup_eq [OF r fd] by simp
next
  case f: (Some f)
  show ?thesis
  proof (cases "find (\<lambda>j. ofile (procs s i) j = None) [0..<NOFILE]")
    case None
    then show ?thesis using sys_dup_eq [OF r fd] f by simp
  next
    case (Some j)
    then have j: "j < NOFILE" "ofile (procs s i) j = None" by (auto simp: find_Some_iff)
    let ?fs = "set_file f (\<lambda>x. x\<lparr>f_ref := f_ref x + 1\<rparr>) (kfs s)"
    let ?t = "(set_proc i (\<lambda>p. p\<lparr>ofile := (ofile p)(j := Some f)\<rparr>) (hdone s))\<lparr>kfs := ?fs\<rparr>"
    let ?v = "tf_set i TF_a0 (of_nat j) ?t"
    note dc = file_dup_close [OF c [rule_format, OF f]]
    have d: "sys_dup s = Inr (of_nat j, ?t)" using sys_dup_eq [OF r fd] f Some dc(1) by simp
    have u: "unat (of_nat j :: uint64) = j" using j(1) by (intro unat_of_nat_small) (simp add: NOFILE_def)
    have "to_int (of_nat j :: uint64) = int (unat (of_nat j :: uint64))"
      by (rule to_int_small) (use u j(1) in \<open>simp add: NOFILE_def\<close>)
    then have a: "to_int (tf_get i TF_a0 ?v) = int j" unfolding u by (simp add: tf_get_def tf_set_def)
    have v: "runs i ?v" using r by (simp add: runs_def)
    have o: "open_fd i ?v (int j) = Some f" using j(1) by (simp add: open_fd_def set_proc_def)
    have k: "kfs ?v = ?fs" by (simp add: tf_set_def)
    have "sys_close ?v = Inr (0, (set_proc i (\<lambda>p. p\<lparr>ofile := (ofile p)(j := None)\<rparr>) (hdone ?v))\<lparr>kfs := kfs s\<rparr>)"
      using sys_close_eq [OF v] a o k dc(2) by simp
    moreover have "(ofile (procs s i))(j := None) = ofile (procs s i)" using j(2) by auto
    ultimately show ?thesis using d f Some by (simp add: set_proc_def)
  qed
qed

text \<open>A process with descriptors 0 and 2 open on file 5 that duplicates descriptor 2.\<close>

definition dup_state :: trapst where
  "dup_state = (trap0 hart_u (store64 (\<lambda>_. 0) (0x81000000 + TF_a0) 2)
     ((\<lambda>_. proc0)(2 := proc0\<lparr>tf := 0x81000000, ofile := [0 \<mapsto> 5, 2 \<mapsto> 5]\<rparr>)) csrs0)
     \<lparr>kfs := set_file 5 (\<lambda>x. x\<lparr>f_ref := 2\<rparr>) boot_fs\<rparr>"

theorem dup_close_roundtrip_witness:
  "\<exists>t u. sys_dup dup_state = Inr (1, t) \<and> ofile (procs t 2) 1 = Some 5 \<and> f_ref (ftable (kfs t) 5) = 3 \<and>
    sys_close (tf_set 2 TF_a0 1 t) = Inr (0, u) \<and> procs u = procs dup_state \<and> kfs u = kfs dup_state"
proof -
  have r: "runs 2 dup_state" by (simp add: runs_def dup_state_def)
  have fd: "2 = to_int (tf_get 2 TF_a0 dup_state)" by (simp add: dup_state_def tf_get_def to_int_def)
  have o: "open_fd 2 dup_state 2 = Some 5" "f_ref (ftable (kfs dup_state) 5) = 2"
    by (simp_all add: open_fd_def dup_state_def NOFILE_def set_file_def)
  have "find (\<lambda>j. ofile (procs dup_state 2) j = None) [0..<NOFILE] = Some 1"
    by (simp add: dup_state_def NOFILE_def upt_rec)
  with dup_close_roundtrip [OF r fd] o show ?thesis by (auto simp: set_file_def)
qed

end
