(* ===== verification/Boot.thy ===== *)
theory Boot
  imports Trap Kvm Virtio
begin

text \<open>
  The start of the kernel in supervisor mode: \<^verbatim>\<open>main\<close> of \<^verbatim>\<open>kernel/boot/main.c\<close>, which composes the initialisation of all
  components, with \<^verbatim>\<open>vm_print\<close>, \<^verbatim>\<open>kvm_init\<close> and \<^verbatim>\<open>kvm_inithart\<close> of \<^verbatim>\<open>kernel/mem/kvm.c\<close>. The variable \<^verbatim>\<open>kernel_pagetable\<close> is passed
  from the one to the other.
\<close>

text \<open>\<^verbatim>\<open>vm_print\<close> with \<open>d\<close> levels below: one line for an entry, indented by its level.\<close>

definition print_pte :: "nat \<Rightarrow> nat \<Rightarrow> uint64 \<Rightarrow> uint64 \<Rightarrow> 'a trapst_scheme \<Rightarrow> 'a trapst_scheme kres" where
  "print_pte level i pte pa s =
     kbind (kfold (\<lambda>k. say ''    '' []) [0..<level] s) (say ''%d: pte %p, pa %p\<newline>'' [VInt (int i), VPtr pte, VPtr pa])"

fun vm_print_helper :: "nat \<Rightarrow> uint64 \<Rightarrow> 'a trapst_scheme \<Rightarrow> 'a trapst_scheme kres" where
  "vm_print_helper 0 pt s =
     kfold (\<lambda>i s.
       let pte = pt + 8 * of_nat i; pa = PTE2PA (load64 (kmem s) pte)
       in if pte \<noteq> 0 \<and> pa \<noteq> 0 then print_pte 2 i pte pa s else Inr s) [0..<512] s"
| "vm_print_helper (Suc d) pt s =
     kfold (\<lambda>i s.
       let pte = pt + 8 * of_nat i; pa = PTE2PA (load64 (kmem s) pte)
       in if pte \<noteq> 0 \<and> pa \<noteq> 0 then kbind (print_pte (1 - d) i pte pa s) (vm_print_helper d pa) else Inr s) [0..<512] s"

definition vm_print :: "uint64 \<Rightarrow> 'a trapst_scheme \<Rightarrow> 'a trapst_scheme kres" where
  "vm_print pt s = vm_print_helper 2 pt s"

text \<open>The model has no translation cache, so flushing it has no effect.\<close>

definition sfence_vma :: "csrs \<Rightarrow> csrs" where
  "sfence_vma c = c"

definition kvm_init :: "'a trapst_scheme \<Rightarrow> (uint64 \<times> 'a trapst_scheme) kres" where
  "kvm_init s = kvm_create (etext (ksym s)) (trampoline (ksym s)) s"

definition kvm_inithart :: "uint64 \<Rightarrow> 'a trapst_scheme \<Rightarrow> 'a trapst_scheme" where
  "kvm_inithart kernel_pagetable s =
     (let s = s\<lparr>csr := sfence_vma (csr s)\<rparr>;
          s = s\<lparr>csr := w_satp (MAKE_SATP kernel_pagetable) (csr s)\<rparr>
      in s\<lparr>csr := sfence_vma (csr s)\<rparr>)"

text \<open>\<^verbatim>\<open>fs_init\<close> starts with \<^verbatim>\<open>bio_init\<close>, which sets up the disk driver \<open>v\<close> on a page of its own. It prints three lines when it formats the
  disk; the console and the disk do not depend on each other, so they are printed first.\<close>

definition fs_init_said :: "'d mmio \<Rightarrow> int \<Rightarrow> 'a trapst_scheme \<Rightarrow> 'd vst \<Rightarrow> ('a trapst_scheme \<times> 'd vst) kres" where
  "fs_init_said io dev s v =
     kbind (virtio_disk_init io s v) (\<lambda>(s, v).
     kbind (if sb_magic (sb_load (dsk (kfs s) 1)) \<noteq> FSMAGIC
            then kbind (say ''fs_init: creating new filesystem\<newline>'' [] s) (\<lambda>s.
                 kbind (say ''fs_init: superblock written\<newline>'' [] s)
                   (say ''  size=%d nblocks=%d ninodes=%d\<newline>'' [VInt (to_int (sb_size new_sb)), VInt (to_int (sb_nblocks new_sb)), VInt (to_int (sb_ninodes new_sb))]))
            else Inr s) (\<lambda>s.
     kbind (lift_fs (\<lambda>f. fs_init dev f) s) (\<lambda>s. Inr (s, v))))"

text \<open>\<^verbatim>\<open>main\<close> up to the call of \<^verbatim>\<open>proc_scheduler\<close>, whose rounds are \<open>sched_enter\<close> and \<open>sched_leave\<close>.\<close>

definition main :: "'d mmio \<Rightarrow> 'd vst \<Rightarrow> 'a trapst_scheme \<Rightarrow> ('a trapst_scheme \<times> 'd vst) kres" where
  "main io v s =
     (let s = s\<lparr>kcon := print_init (kcon s)\<rparr>;
          s = pmem_init s
      in kbind (kvm_init s) (\<lambda>(kernel_pagetable, s).
         let s = kvm_inithart kernel_pagetable s;
             s = proc_init s;
             s = trap_kernel_init s;
             s = trap_kernel_inithart s;
             s = s\<lparr>kplic := plic_init (kplic s)\<rparr>;
             s = s\<lparr>kplic := plic_inithart (khart s) (kplic s)\<rparr>
         in kbind (fs_init_said io 1 s v) (\<lambda>(s, v).
            let s = s\<lparr>kfs := file_init (kfs s)\<rparr>
            in kbind (say ''Hello OS\<newline>'' [] s) (\<lambda>s. kbind (proc_make_first s) (\<lambda>s. Inr (s, v))))))"

lemma ksym_more: "pst.more s = pst.more t \<Longrightarrow> ksym s = ksym t"
  by (cases s; cases t) simp

text \<open>\<^bold>\<open>C8\<close>: the kernel's address space. If the linker placed the end of the code at a page boundary and left 137 pages,
  the boot sequence \<^verbatim>\<open>pmem_init\<close>, \<^verbatim>\<open>kvm_init\<close>, \<^verbatim>\<open>kvm_inithart\<close> switches paging on with a table that maps, below \<^verbatim>\<open>MAXVA\<close>,
  exactly: the device registers and the memory from \<^verbatim>\<open>etext\<close> to \<^verbatim>\<open>PHYSTOP\<close> to themselves, readable and writable; the code to
  itself, readable and executable; the trampoline; and 64 kernel stacks on different pages that are neither free
  nor part of the table. No page is both writable and executable, and the page below every stack is unmapped.\<close>

theorem kernel_address_space:
  fixes s :: "'a trapst_scheme"
  assumes b: "base_ok (ALLOC_BEGIN s)" "cpu_ok (khart s)" "unat (ALLOC_BEGIN s) + 137 * PGSIZE \<le> unat PHYSTOP"
    and e: "unat (etext (ksym s)) = e * PGSIZE" "KERNEL_BASE < etext (ksym s)" "etext (ksym s) < PHYSTOP"
  shows "\<exists>r t stk ps. kvm_init (pmem_init s) = Inr (r, t) \<and> vm_inv t r ps \<and>
    csr_satp (csr (kvm_inithart r t)) = SATP_SV39 OR drop_bit 12 r \<and> kmem (kvm_inithart r t) = kmem t \<and>
    (\<forall>va < MAXVA. leaf (kmem t) r va = kernel_map e (trampoline (ksym s)) stk (unat va div PGSIZE)) \<and>
    inj_on stk {0..<64} \<and> (\<forall>p < 64. page_ok (ALLOC_BEGIN s) (stk p) \<and> stk p \<notin> pt_pages (kmem t) r \<union> set ps) \<and>
    (\<forall>va < MAXVA. \<not> (bit (leaf (kmem t) r va) 2 \<and> bit (leaf (kmem t) r va) 3)) \<and>
    (\<forall>p < 64. leaf (kmem t) r (KSTACK p) = pte_of (stk p) (PTE_R OR PTE_W) \<and> leaf (kmem t) r (KSTACK p - of_nat PGSIZE) = 0)"
proof -
  obtain qs where qs: "pool (pmem_init s) qs" "137 \<le> length qs" using pmem_init_room [OF b] by blast
  have k: "ksym (pmem_init s) = ksym s" "ALLOC_BEGIN (pmem_init s) = ALLOC_BEGIN s"
    using ksym_more [OF pmem_init_more [of s]] by (simp_all add: pmem_init_base)
  then have ok: "page_ok (ALLOC_BEGIN s) q" if "q \<in> set qs" for q using pmem.pool_pages [OF qs(1)] that by auto
  obtain r t stk ps where t: "kvm_create (etext (ksym s)) (trampoline (ksym s)) (pmem_init s) = Inr (r, t)" "vm_inv t r ps"
    "\<forall>va < MAXVA. leaf (kmem t) r va = kernel_map e (trampoline (ksym s)) stk (unat va div PGSIZE)"
    "inj_on stk {0..<64}" "\<forall>p \<in> {0..<64}. stk p \<in> set qs \<and> stk p \<notin> pt_pages (kmem t) r \<union> set ps"
    "\<forall>va < MAXVA. \<not> (bit (leaf (kmem t) r va) 2 \<and> bit (leaf (kmem t) r va) 3)"
    "\<forall>p < 64. leaf (kmem t) r (KSTACK p) = pte_of (stk p) (PTE_R OR PTE_W) \<and> leaf (kmem t) r (KSTACK p - of_nat PGSIZE) = 0"
    using kvm_create_map [OF qs e] by blast
  have "\<forall>p < 64. page_ok (ALLOC_BEGIN s) (stk p) \<and> stk p \<notin> pt_pages (kmem t) r \<union> set ps" using t(5) ok by simp
  moreover have "kvm_init (pmem_init s) = Inr (r, t)" using t(1) k(1) by (simp add: kvm_init_def)
  moreover have "csr_satp (csr (kvm_inithart r t)) = SATP_SV39 OR drop_bit 12 r" "kmem (kvm_inithart r t) = kmem t"
    by (simp_all add: kvm_inithart_def sfence_vma_def w_satp_def MAKE_SATP_def Let_def)
  ultimately show ?thesis using t(2-4,6,7) by blast
qed

theorem kernel_address_space_witness:
  "\<exists>r t. kvm_init (pmem_init (trap0 hart0 (\<lambda>_. 0) (\<lambda>_. proc0) csrs0)) = Inr (r, t) \<and>
    csr_satp (csr (kvm_inithart r t)) = SATP_SV39 OR drop_bit 12 r \<and>
    leaf (kmem t) r 0x80000000 = pte_of 0x80000000 (PTE_R OR PTE_X) \<and> leaf (kmem t) r 0x80007008 = pte_of 0x80007000 (PTE_R OR PTE_W) \<and>
    leaf (kmem t) r 0 = 0 \<and> leaf (kmem t) r (KSTACK 3 - of_nat PGSIZE) = 0"
proof -
  let ?s = "trap0 hart0 (\<lambda>_. 0) (\<lambda>_. proc0) csrs0"
  have "base_ok (ALLOC_BEGIN ?s)" "cpu_ok (khart ?s)" "unat (ALLOC_BEGIN ?s) + 137 * PGSIZE \<le> unat PHYSTOP"
    "unat (etext (ksym ?s)) = 0x80007 * PGSIZE" "KERNEL_BASE < etext (ksym ?s)" "etext (ksym ?s) < PHYSTOP"
    by (simp_all add: base_ok_def trap0_def boot_syms_def layout)
  from kernel_address_space [OF this] obtain r t stk where
    t: "kvm_init (pmem_init ?s) = Inr (r, t)" "csr_satp (csr (kvm_inithart r t)) = SATP_SV39 OR drop_bit 12 r"
      "\<And>va. va < MAXVA \<Longrightarrow> leaf (kmem t) r va = kernel_map 0x80007 (trampoline (ksym ?s)) stk (unat va div PGSIZE)"
      "leaf (kmem t) r (KSTACK 3 - of_nat PGSIZE) = 0"
    by auto
  have "find (\<lambda>p. 0 = stack_page p) [0..<64] = None" by (auto simp: find_None_iff stack_page_def)
  then show ?thesis using t by (intro exI [of _ r] exI [of _ t]) (simp add: kernel_map_def device_page_def layout)
qed

end
