(* ===== verification/Uvmcopy.thy ===== *)
theory Uvmcopy
  imports Kvm
begin

text \<open>
  \<^verbatim>\<open>uvm_copy_pgtbl\<close> of \<^verbatim>\<open>kernel/mem/uvm.c\<close>, by which a fork copies the address space of the caller: it maps a fresh page with
  the same contents behind every page below the heap top, and writes nowhere else.
\<close>

section \<open>Pages outside the new table\<close>

lemma from_pool_page:
  assumes fp: "from_pool r s ps t qs" and inv: "vm_inv s r ps" and p: "page_ok (ALLOC_BEGIN s) p"
    and np: "p \<notin> pt_pages (kmem s) r \<union> (set ps - set qs)" and x: "in_page p x"
  shows "kmem t x = kmem s x"
proof -
  have "\<not> in_page q x" if "q \<in> pt_pages (kmem s) r \<union> (set ps - set qs)" for q
    using that np x in_page_unique [OF p _ x, of "ALLOC_BEGIN s" q] vm_invD(4,5) [OF inv, of q] by auto
  then show ?thesis using fp by (auto simp: from_pool_def)
qed

lemma built_write:
  assumes b: "built k P s r ps M" and eq: "\<And>p x. p \<in> pt_pages (kmem s) r \<union> set ps \<Longrightarrow> in_page p x \<Longrightarrow> m x = kmem s x"
  shows "built k P (s\<lparr>kmem := m\<rparr>) r ps M" and "pt_pages m r = pt_pages (kmem s) r"
proof -
  have inv: "vm_inv s r ps" using b by (simp add: built_def)
  have w: "vm_inv (s\<lparr>kmem := m\<rparr>) r ps" "\<And>va. leaf m r va = leaf (kmem s) r va" "pt_pages m r = pt_pages (kmem s) r"
    using vm_inv_write [OF inv, of m] eq by blast+
  have "node m r is = node (kmem s) r is" if "is \<in> paths" for "is"
    using eq by (intro node_cong(1) [OF vm_invD(2) [OF inv] _ that]) blast
  then have "{is \<in> P. node m r is = None} = {is \<in> P. node (kmem s) r is = None}" if "P \<subseteq> paths" using that by auto
  then have "pt_room k P m r ps" using b by (simp add: built_def pt_room_def)
  then show "built k P (s\<lparr>kmem := m\<rparr>) r ps M" using b w(1,2) by (simp add: built_def)
  show "pt_pages m r = pt_pages (kmem s) r" by (rule w(3))
qed

lemma in_page_offset: "k < PGSIZE \<Longrightarrow> in_page p (p + of_nat k)"
  by (simp add: in_page_def unat_of_nat_small layout)

section \<open>Copying a page\<close>

lemma copy_page:
  fixes s :: "'a pst_scheme"
  assumes b: "built (Suc j) P s r ps M" and k: "k < 2 ^ 26" "ktables k \<subseteq> P" "M k = 0"
  shows "\<exists>p s1 t ps'. pmem_alloc s = Inr (p, s1) \<and> p \<noteq> 0 \<and>
    vm_mappages r (of_nat (k * PGSIZE)) p (of_nat PGSIZE) perm
      (s1\<lparr>kmem := memmove (kmem s1) p (PTE2PA e) (of_nat PGSIZE)\<rparr>) = Inr t \<and>
    built j P t r ps' (M(k := pte_of p perm)) \<and> from_pool r s ps t ps' \<and>
    p \<in> set ps \<and> p \<notin> pt_pages (kmem t) r \<union> set ps' \<and>
    (\<forall>i < PGSIZE. kmem t (p + of_nat i) = kmem s (PTE2PA e + of_nat i))"
proof -
  obtain p ps1 s1 where 1: "ps = p # ps1" "pmem_alloc s = Inr (p, s1)" "p \<noteq> 0" "built j P s1 r ps1 M" "kmem s1 = kmem s"
    "p \<notin> pt_pages (kmem s) r" "p \<notin> set ps1" "ALLOC_BEGIN s1 = ALLOC_BEGIN s" "pst.more s1 = pst.more s"
    using take_page [OF b] by blast
  have inv: "vm_inv s r ps" "vm_inv s1 r ps1" using b 1(4) by (simp_all add: built_def)
  have pk: "page_ok (ALLOC_BEGIN s) p" using vm_invD(4) [OF inv(1), of p] 1(1) by simp
  let ?m = "memmove (kmem s1) p (PTE2PA e) (of_nat PGSIZE)"
  have u: "unat (of_nat PGSIZE :: uint32) = PGSIZE" by (simp add: layout)
  have m: "?m = moved (kmem s) p (PTE2PA e) PGSIZE"
    using memmove_moved [of "PTE2PA e" "of_nat PGSIZE" p] PTE2PA_aligned [of e] page_ok_bound [OF pk] 1(5) by (simp add: u)
  have eq: "?m x = kmem s1 x" if "q \<in> pt_pages (kmem s1) r \<union> set ps1" "in_page q x" for q x
  proof -
    have "q \<noteq> p" "page_ok (ALLOC_BEGIN s) q" using that(1) 1(5-8) vm_invD(4,5) [OF inv(2), of q] by auto
    then have "\<not> in_page p x" using in_page_unique [OF pk _ _ that(2)] by blast
    then show ?thesis using m 1(5) by (simp add: moved_def in_page_def)
  qed
  let ?s = "s1\<lparr>kmem := ?m\<rparr>"
  have w: "built j P ?s r ps1 M" "pt_pages ?m r = pt_pages (kmem s1) r"
    using built_write [OF 1(4), of ?m] eq by blast+
  have fk: "unat (of_nat (k * PGSIZE) :: uint64) = k * PGSIZE" using k(1) by (intro unat_of_nat_small) (simp add: layout)
  obtain t ps' where t: "vm_mappages r (of_nat (k * PGSIZE)) p (of_nat (1 * PGSIZE)) perm ?s = Inr t"
    "built j P t r ps' (region k 1 p perm M)" "from_pool r ?s ps1 t ps'"
    using map_region [OF w(1) fk, of 1 p perm] k by (auto simp: le_less_Suc_eq)
  have iv: "vm_inv ?s r ps1" using w(1) by (simp add: built_def)
  have pt: "pt_pages (kmem ?s) r = pt_pages (kmem s) r" using w(2) 1(5) by simp
  have np: "p \<notin> pt_pages (kmem t) r \<union> set ps'" using t(3) pt 1(6,7) by (auto simp: from_pool_def)
  have "kmem t (p + of_nat i) = kmem s (PTE2PA e + of_nat i)" if "i < PGSIZE" for i
  proof -
    have "kmem t (p + of_nat i) = kmem ?s (p + of_nat i)"
      using from_pool_page [OF t(3) iv _ _ in_page_offset [OF that]] pk np pt 1(6-8) by simp
    then show ?thesis using m in_page_offset [OF that, of p] by (simp add: moved_def in_page_def)
  qed
  moreover have "from_pool r s ps t ps'"
  proof -
    have "kmem t x = kmem s x" if x: "\<forall>q \<in> pt_pages (kmem s) r \<union> (set ps - set ps'). \<not> in_page q x" for x
    proof -
      have "\<not> in_page p x" using x 1(1) np by auto
      then have "kmem ?s x = kmem s x" using m by (simp add: moved_def in_page_def)
      moreover have "kmem t x = kmem ?s x" using t(3) x pt 1(1,7) by (auto simp: from_pool_def)
      ultimately show ?thesis by simp
    qed
    then show ?thesis using t(3) pt 1(1,7-9) np by (auto simp: from_pool_def)
  qed
  moreover have "region k 1 p perm M = M(k := pte_of p perm)" by (rule ext) (simp add: region_one del: One_nat_def)
  ultimately show ?thesis using 1(1-3) t(1,2) np by (intro exI [of _ p] exI [of _ s1] exI [of _ t] exI [of _ ps']) auto
qed

section \<open>Copying the address space\<close>

text \<open>The entry behind user page \<open>k\<close> of a table, and the flags that the variable \<^verbatim>\<open>uint8 flags\<close> keeps of it.\<close>

definition user_pte :: "mem \<Rightarrow> uint64 \<Rightarrow> nat \<Rightarrow> uint64" where
  "user_pte m r k = leaf m r (of_nat (k * PGSIZE))"

definition copied_flags :: "uint64 \<Rightarrow> uint64" where
  "copied_flags e = ucast (ucast (PTE_FLAGS e) :: uint8)"

text \<open>The caller maps the pages from \<open>k\<close> to \<open>n\<close>; its table and these pages are neither free nor part of the new table.\<close>

definition user_space :: "'a pst_scheme \<Rightarrow> uint64 \<Rightarrow> uint64 \<Rightarrow> uint64 list \<Rightarrow> nat \<Rightarrow> nat \<Rightarrow> bool" where
  "user_space s old new ps k n \<longleftrightarrow> pt_ok (ALLOC_BEGIN s) (kmem s) old \<and>
     pt_pages (kmem s) old \<inter> (pt_pages (kmem s) new \<union> set ps) = {} \<and>
     (\<forall>q. k \<le> q \<and> q < n \<longrightarrow> bit (user_pte (kmem s) old q) 0 \<and> page_ok (ALLOC_BEGIN s) (PTE2PA (user_pte (kmem s) old q)) \<and>
        PTE2PA (user_pte (kmem s) old q) \<notin> pt_pages (kmem s) new \<union> set ps)"

text \<open>The pages \<open>cp q\<close> hold what was behind the pages of the caller.\<close>

definition same_contents :: "mem \<Rightarrow> mem \<Rightarrow> uint64 \<Rightarrow> (nat \<Rightarrow> uint64) \<Rightarrow> nat \<Rightarrow> nat \<Rightarrow> bool" where
  "same_contents m m' old cp k n \<longleftrightarrow>
     (\<forall>q \<in> {k..<n}. \<forall>i < PGSIZE. m' (cp q + of_nat i) = m (PTE2PA (user_pte m old q) + of_nat i))"

lemma user_space_kept:
  assumes us: "user_space s old new ps k n" and inv: "vm_inv s new ps" and fp: "from_pool new s ps t qs"
  shows "user_space t old new qs (Suc k) n" and "user_pte (kmem t) old q = user_pte (kmem s) old q"
    and "k \<le> q \<Longrightarrow> q < n \<Longrightarrow> i < PGSIZE \<Longrightarrow>
      kmem t (PTE2PA (user_pte (kmem s) old q) + of_nat i) = kmem s (PTE2PA (user_pte (kmem s) old q) + of_nat i)"
proof -
  have ok: "pt_ok (ALLOC_BEGIN s) (kmem s) old" using us by (simp add: user_space_def)
  have eq: "kmem t x = kmem s x" if p: "p \<in> pt_pages (kmem s) old" "in_page p x" for p x
    using p us pt_okD(1) [OF ok] by (intro from_pool_page [OF fp inv _ _ p(2)]) (auto simp: user_space_def pt_pages_def)
  note nc = node_cong [OF ok eq]
  have pp: "pt_pages (kmem t) old = pt_pages (kmem s) old" using nc(1) by (auto simp: pt_pages_def)
  show up: "user_pte (kmem t) old q = user_pte (kmem s) old q" for q by (simp add: user_pte_def nc(2))
  have "pt_ok (ALLOC_BEGIN t) (kmem t) old" using ok nc(1) fp unfolding pt_ok_def by (simp add: from_pool_def)
  moreover have "pt_pages (kmem t) new \<union> set qs \<subseteq> pt_pages (kmem s) new \<union> set ps" using fp by (auto simp: from_pool_def)
  moreover have "ALLOC_BEGIN t = ALLOC_BEGIN s" using fp by (simp add: from_pool_def)
  ultimately show "user_space t old new qs (Suc k) n" using us unfolding user_space_def pp up by (auto 0 3)
  show "kmem t (PTE2PA (user_pte (kmem s) old q) + of_nat i) = kmem s (PTE2PA (user_pte (kmem s) old q) + of_nat i)"
    if "k \<le> q" "q < n" "i < PGSIZE"
    using that us by (intro from_pool_page [OF fp inv _ _ in_page_offset [OF that(3)]]) (auto simp: user_space_def)
qed

lemma user_pte_found:
  assumes inv: "vm_inv s old ps" and v: "bit (user_pte (kmem s) old k) 0"
  shows "\<exists>pte. vm_getpte old (of_nat (k * PGSIZE)) False s = Inr (pte, s) \<and> pte \<noteq> 0 \<and>
    load64 (kmem s) pte = user_pte (kmem s) old k"
proof -
  let ?va = "of_nat (k * PGSIZE) :: uint64"
  obtain p where p: "node (kmem s) old [px ?va 2, px ?va 1] = Some p"
    using v by (auto simp: user_pte_def leaf_def simp del: node.simps of_nat_mult split: option.splits)
  have "vm_getpte old ?va False s = Inr (p + 8 * of_nat (px ?va 0), s)" by (simp only: vm_getpte_lookup p option.case)
  then show ?thesis using pte_address_nonzero [OF inv p] leaf_entry [OF p] by (simp add: user_pte_def del: of_nat_mult)
qed

text \<open>The loop from page \<open>k\<close>.\<close>

definition copied_map :: "mem \<Rightarrow> uint64 \<Rightarrow> (nat \<Rightarrow> uint64) \<Rightarrow> nat \<Rightarrow> nat \<Rightarrow> (nat \<Rightarrow> uint64) \<Rightarrow> nat \<Rightarrow> uint64" where
  "copied_map m old cp k n M q = (if k \<le> q \<and> q < n then pte_of (cp q) (copied_flags (user_pte m old q)) else M q)"

lemma copy_loop:
  fixes s :: "'a pst_scheme"
  assumes "built j P s new ps M" and "k + j = n" and "n \<le> 2 ^ 26" and "j < fuel"
    and "\<And>q. k \<le> q \<Longrightarrow> q < n \<Longrightarrow> ktables q \<subseteq> P \<and> M q = 0" and "user_space s old new ps k n"
    and "\<And>q. q \<le> n \<Longrightarrow> of_nat (q * PGSIZE) < h \<longleftrightarrow> q < n"
  shows "\<exists>t ps' cp. uvm_copy_pgtbl_loop fuel old new (of_nat (k * PGSIZE)) h s = Inr t \<and>
    built 0 P t new ps' (copied_map (kmem s) old cp k n M) \<and> from_pool new s ps t ps' \<and>
    inj_on cp {k..<n} \<and> (\<forall>q \<in> {k..<n}. cp q \<in> set ps \<and> cp q \<notin> pt_pages (kmem t) new \<union> set ps') \<and>
    same_contents (kmem s) (kmem t) old cp k n"
  using assms
proof (induction j arbitrary: fuel k s ps M)
  case 0
  have "uvm_copy_pgtbl_loop fuel old new (of_nat (k * PGSIZE)) h s = Inr s"
    using 0(2,4) 0(7) [of k] by (cases fuel) (simp_all del: of_nat_mult)
  moreover have "copied_map (kmem s) old cp k n M = M" for cp using 0(2) by (auto simp: copied_map_def fun_eq_iff)
  ultimately show ?case using 0(1,2) by (intro exI [of _ s] exI [of _ ps] exI [of _ "\<lambda>_. 0"]) (auto simp: from_pool_def same_contents_def)
next
  case (Suc j)
  obtain f where f: "fuel = Suc f" using Suc.prems(4) by (cases fuel) auto
  let ?e = "user_pte (kmem s) old k"
  have inv: "vm_inv s new ps" using Suc.prems(1) by (simp add: built_def)
  have v: "bit ?e 0" and iv: "vm_inv s old ps"
    using Suc.prems(2,6) vm_invD(1) [OF inv] by (auto simp: user_space_def vm_inv_def)
  obtain pte where pte: "vm_getpte old (of_nat (k * PGSIZE)) False s = Inr (pte, s)" "pte \<noteq> 0" "load64 (kmem s) pte = ?e"
    using user_pte_found [OF iv v] by blast
  obtain p s1 t ps1 where 1: "pmem_alloc s = Inr (p, s1)" "p \<noteq> 0"
    "vm_mappages new (of_nat (k * PGSIZE)) p (of_nat PGSIZE) (copied_flags ?e)
       (s1\<lparr>kmem := memmove (kmem s1) p (PTE2PA ?e) (of_nat PGSIZE)\<rparr>) = Inr t"
    "built j P t new ps1 (M(k := pte_of p (copied_flags ?e)))" "from_pool new s ps t ps1" "p \<in> set ps"
    "p \<notin> pt_pages (kmem t) new \<union> set ps1" "\<forall>i < PGSIZE. kmem t (p + of_nat i) = kmem s (PTE2PA ?e + of_nat i)"
    using copy_page [OF Suc.prems(1), of k "copied_flags ?e" ?e] Suc.prems(2,3,5) by auto
  note uk = user_space_kept [OF Suc.prems(6) inv 1(5)]
  have pr: "Suc k + j = n" "j < f" "\<And>q. Suc k \<le> q \<Longrightarrow> q < n \<Longrightarrow> ktables q \<subseteq> P \<and> (M(k := pte_of p (copied_flags ?e))) q = 0"
    using Suc.prems(2,4,5) f by simp_all
  obtain u ps' cp where 2: "uvm_copy_pgtbl_loop f old new (of_nat (Suc k * PGSIZE)) h t = Inr u"
    "built 0 P u new ps' (copied_map (kmem t) old cp (Suc k) n (M(k := pte_of p (copied_flags ?e))))" "from_pool new t ps1 u ps'"
    "inj_on cp {Suc k..<n}" "\<forall>q \<in> {Suc k..<n}. cp q \<in> set ps1 \<and> cp q \<notin> pt_pages (kmem u) new \<union> set ps'"
    "same_contents (kmem t) (kmem u) old cp (Suc k) n"
    using Suc.IH [OF 1(4) pr(1) Suc.prems(3) pr(2,3) uk(1) Suc.prems(7)] by blast
  let ?cp = "cp(k := p)"
  have I: "{k..<n} = insert k {Suc k..<n}" using Suc.prems(2) by auto
  have "uvm_copy_pgtbl_loop fuel old new (of_nat (k * PGSIZE)) h s = Inr u"
  proof -
    have "of_nat (k * PGSIZE) < h" using Suc.prems(2,7) by simp
    moreover have "?e AND PTE_V \<noteq> 0" using v flag_bits(1) by blast
    moreover have "of_nat (k * PGSIZE) + of_nat PGSIZE = (of_nat (Suc k * PGSIZE) :: uint64)" by simp
    ultimately show ?thesis
      using pte 1(1-3) 2(1) by (simp add: f Let_def copied_flags_def del: of_nat_mult of_nat_add)
  qed
  moreover have cm: "copied_map (kmem t) old cp (Suc k) n (M(k := pte_of p (copied_flags ?e))) = copied_map (kmem s) old ?cp k n M"
    using Suc.prems(2) uk(2) by (auto simp: copied_map_def fun_eq_iff)
  moreover have "from_pool new s ps u ps'" by (rule from_pool_trans [OF 1(5) 2(3)])
  moreover have sub: "set ps1 \<subseteq> set ps" using 1(5) by (simp add: from_pool_def)
  moreover have pu: "p \<notin> pt_pages (kmem u) new \<union> set ps'" using 2(3) 1(7) by (auto simp: from_pool_def)
  moreover have "inj_on ?cp {k..<n}" unfolding I using 2(4,5) 1(7) by (auto simp: inj_on_def)
  moreover have "same_contents (kmem s) (kmem u) old ?cp k n"
  proof -
    have iu: "vm_inv t new ps1" using 1(4) by (simp add: built_def)
    have "page_ok (ALLOC_BEGIN t) p" using vm_invD(4) [OF inv 1(6)] 1(5) by (simp add: from_pool_def)
    then have "kmem u (p + of_nat i) = kmem s (PTE2PA ?e + of_nat i)" if "i < PGSIZE" for i
      using from_pool_page [OF 2(3) iu _ _ in_page_offset [OF that]] 1(7,8) that by auto
    then show ?thesis using 2(6) uk(2,3) unfolding same_contents_def I by auto
  qed
  moreover have "\<forall>q \<in> {k..<n}. ?cp q \<in> set ps \<and> ?cp q \<notin> pt_pages (kmem u) new \<union> set ps'"
    unfolding I using 2(5) sub 1(6) pu by auto
  moreover have "built 0 P u new ps' (copied_map (kmem s) old ?cp k n M)" using 2(2) unfolding cm .
  ultimately show ?case by blast
qed

lemma pages_below:
  assumes n: "n = (unat h + PGSIZE - 1) div PGSIZE" "n \<le> 2 ^ 26" and q: "q \<le> n"
  shows "of_nat (q * PGSIZE) < (h :: uint64) \<longleftrightarrow> q < n"
proof -
  have "unat (of_nat (q * PGSIZE) :: uint64) = q * PGSIZE" using n(2) q by (intro unat_of_nat_small) (simp add: layout)
  moreover have "q * PGSIZE < unat h \<longleftrightarrow> q < n" unfolding n(1) by (simp add: layout) linarith
  ultimately show ?thesis by (simp add: word_less_nat_alt del: of_nat_mult)
qed

lemma uvm_copy_ok:
  fixes s :: "'a pst_scheme"
  assumes b: "built n P s new ps M" and P: "\<And>q. q < n \<Longrightarrow> ktables q \<subseteq> P \<and> M q = 0" and us: "user_space s old new ps 0 n"
    and n: "n = (unat h + PGSIZE - 1) div PGSIZE" "n \<le> 2 ^ 26"
  shows "\<exists>t ps' cp. uvm_copy_pgtbl old new h s = Inr t \<and> built 0 P t new ps' (copied_map (kmem s) old cp 0 n M) \<and> from_pool new s ps t ps' \<and>
    inj_on cp {0..<n} \<and> (\<forall>q \<in> {0..<n}. cp q \<in> set ps \<and> cp q \<notin> pt_pages (kmem t) new \<union> set ps') \<and>
    same_contents (kmem s) (kmem t) old cp 0 n"
proof -
  have f: "n < Suc (Suc (unat h div PGSIZE))" unfolding n(1) by (simp add: layout)
  have "uvm_copy_pgtbl old new h s = uvm_copy_pgtbl_loop (Suc (Suc (unat h div PGSIZE))) old new (of_nat (0 * PGSIZE)) h s"
    by (simp add: uvm_copy_pgtbl_def)
  then show ?thesis using copy_loop [OF b _ n(2) f _ us pages_below [OF n]] P by auto
qed

end
