(* ===== verification/Fork.thy ===== *)
theory Fork
  imports Procinv Utrap Uvmcopy
begin

text \<open>
  \<^verbatim>\<open>proc_fork\<close> of \<^verbatim>\<open>kernel/proc/proc.c\<close> as a whole: with enough free pages it succeeds, and the child has the address space, the
  trap frame, the open files and the priority of the caller, while no other process notices. The frame is \<open>others n\<close>: outside
  slot \<open>n\<close> an operation touches the locks of the processes only.
\<close>

section \<open>Operations on one slot\<close>

definition others :: "nat \<Rightarrow> 'a kst_scheme \<Rightarrow> 'a kst_scheme \<Rightarrow> bool" where
  "others n s t \<longleftrightarrow> (\<forall>j. j \<noteq> n \<longrightarrow> (\<exists>l. procs t j = (procs s j)\<lparr>plk := l\<rparr>))"

definition relocked :: "'a kst_scheme \<Rightarrow> 'a kst_scheme \<Rightarrow> bool" where
  "relocked s t \<longleftrightarrow> (\<forall>j. \<exists>l. procs t j = (procs s j)\<lparr>plk := l\<rparr>)"

lemma plk_trans: "\<exists>l. q = (p :: proc)\<lparr>plk := l\<rparr> \<Longrightarrow> \<exists>l. r = q\<lparr>plk := l\<rparr> \<Longrightarrow> \<exists>l. r = p\<lparr>plk := l\<rparr>"
  by auto

lemma plk_refl: "\<exists>l. p = (p :: proc)\<lparr>plk := l\<rparr>"
  by (rule exI [of _ "plk p"]) simp

lemma relocked_same: "procs t = procs s \<Longrightarrow> relocked s t"
  by (simp add: relocked_def plk_refl)

lemma relocked_trans: "relocked s t \<Longrightarrow> relocked t u \<Longrightarrow> relocked s u"
  unfolding relocked_def using plk_trans by blast

lemma others_trans: "others n s t \<Longrightarrow> others n t u \<Longrightarrow> others n s u"
  unfolding others_def using plk_trans by blast

lemma relocked_others: "relocked s t \<Longrightarrow> others n s t"
  by (simp add: relocked_def others_def)

lemma others_set: "others n s (set_proc n f s)"
  by (simp add: others_def set_proc_def plk_refl)

lemma relockedD:
  assumes "relocked s t"
  shows "\<exists>l. procs t j = (procs s j)\<lparr>plk := l\<rparr>"
  using assms by (simp add: relocked_def)

lemma relocked_locks:
  "plock i s = Inr t \<Longrightarrow> relocked s t" "punlock i s = Inr t \<Longrightarrow> relocked s t"
  "wlock s = Inr t \<Longrightarrow> relocked s t" "wunlock s = Inr t \<Longrightarrow> relocked s t"
  by (auto simp: relocked_def plk_refl dest: lock_same)

lemma relocked_cur: "cur s = Inr (i, t) \<Longrightarrow> relocked s t"
  by (rule relocked_same) (simp add: cur_same)

lemma relocked_more: "pst.more t = pst.more s \<Longrightarrow> relocked s t"
  using more_same by (blast intro: relocked_same)

lemma relocked_alloc_scan: "proc_alloc_scan k i s = Inr (r, t) \<Longrightarrow> relocked s t"
proof (induction k arbitrary: i s)
  case (Suc k)
  then obtain s1 where s1: "plock i s = Inr s1" by (auto elim!: kbind_InrE)
  show ?case
  proof (cases "pstate (procs s1 i) = UNUSED")
    case True
    then show ?thesis using Suc.prems s1 by (simp add: relocked_locks)
  next
    case False
    then obtain s2 where "punlock i s1 = Inr s2" "proc_alloc_scan k (Suc i) s2 = Inr (r, t)"
      using Suc.prems s1 by (auto elim!: kbind_InrE)
    then show ?thesis using Suc.IH relocked_locks(1,2) s1 by (blast intro: relocked_trans)
  qed
qed (simp add: relocked_same)

lemma relocked_pgtbl_init: "proc_pgtbl_init v s = Inr (w, t) \<Longrightarrow> relocked s t"
  unfolding proc_pgtbl_init_def Let_def
  by (auto intro!: relocked_more dest!: frame elim!: kbind_InrE split: if_splits)

text \<open>The slot that \<^verbatim>\<open>proc_alloc\<close> returns.\<close>

lemma alloc_others:
  assumes "proc_alloc s = Inr (Some n, t)"
  shows "others n s t" and "killed (procs t n) = killed (procs s n)" "ofile (procs t n) = ofile (procs s n)"
proof -
  let ?new = "\<lambda>m p. p\<lparr>pid := m, priority := PRIORITY_DEFAULT, priority_boost := 0, pstate := RUNNABLE\<rparr>"
  obtain q s1 where s1: "proc_alloc_scan NPROC 0 s = Inr (q, s1)" using assms by (auto simp: proc_alloc_def elim!: kbind_InrE)
  obtain i where q: "q = Some i" using assms s1 by (cases q) (simp_all add: proc_alloc_def)
  obtain m s2 where s2: "allocpid s1 = Inr (m, s2)" using assms s1 q by (auto simp: proc_alloc_def elim!: kbind_InrE)
  obtain v s3 where s3: "pmem_alloc (set_proc i (?new m) s2) = Inr (v, s3)"
    using assms s1 q s2 by (auto simp: proc_alloc_def Let_def elim!: kbind_InrE)
  have v: "v \<noteq> 0" using assms s1 q s2 s3 by (auto simp: proc_alloc_def Let_def elim!: kbind_InrE)
  obtain w s4 where s4: "proc_pgtbl_init v (set_proc i (\<lambda>p. p\<lparr>tf := v\<rparr>) s3) = Inr (w, s4)"
    using assms s1 q s2 s3 v by (auto simp: proc_alloc_def Let_def elim!: kbind_InrE)
  have t: "i = n" "t = set_proc n (\<lambda>p. p\<lparr>pctx := zero_ctx\<lparr>ctx_ra := fork_return_addr (ksym (set_proc n (\<lambda>p. p\<lparr>pgtbl := w\<rparr>) s4)),
      ctx_sp := kstack p + of_nat PGSIZE\<rparr>\<rparr>) (set_proc n (\<lambda>p. p\<lparr>pgtbl := w\<rparr>) s4)"
    using assms s1 q s2 s3 v s4 by (auto simp: proc_alloc_def Let_def elim!: kbind_InrE split: if_splits)
  have r1: "relocked s s2" using relocked_alloc_scan [OF s1] allocpid_same [OF s2] by (blast intro: relocked_trans relocked_same)
  have r3: "procs s3 = procs (set_proc i (?new m) s2)" using s3 more_same frame by blast
  have r4: "relocked (set_proc i (\<lambda>p. p\<lparr>tf := v\<rparr>) s3) s4" by (rule relocked_pgtbl_init [OF s4])
  have "others n s2 s3" using r3 t(1) by (simp add: others_def set_proc_def plk_refl)
  moreover have "others n s3 s4" using others_trans [OF others_set relocked_others [OF r4 [unfolded t(1)]]] .
  moreover have "others n s4 t" using t(2) others_trans [OF others_set others_set] by blast
  ultimately show "others n s t" using relocked_others [OF r1] by (blast intro: others_trans)
  show "killed (procs t n) = killed (procs s n)" "ofile (procs t n) = ofile (procs s n)"
    using relockedD [OF r1, of n] relockedD [OF r4, of n] r3 t by (auto simp: set_proc_def)
qed

section \<open>The child\<close>

definition dup_files :: "nat \<Rightarrow> nat \<Rightarrow> nat list \<Rightarrow> 'a kst_scheme \<Rightarrow> 'a kst_scheme kres" where
  "dup_files i n = kfold (\<lambda>fd s.
     case ofile (procs s i) fd of
       None \<Rightarrow> Inr s
     | Some f \<Rightarrow>
         kbind (lift_fs (file_dup f) s) (\<lambda>s. Inr (set_proc n (\<lambda>p. p\<lparr>ofile := (ofile p)(fd := Some f)\<rparr>) s)))"

definition merged :: "(nat \<rightharpoonup> nat) \<Rightarrow> nat list \<Rightarrow> (nat \<rightharpoonup> nat) \<Rightarrow> nat \<rightharpoonup> nat" where
  "merged a fds b fd = (if fd \<in> set fds \<and> a fd \<noteq> None then a fd else b fd)"

lemma dup_files_procs:
  assumes "dup_files i n fds s = Inr t" and "i \<noteq> n"
  shows "procs t = (procs s)(n := (procs s n)\<lparr>ofile := merged (ofile (procs s i)) fds (ofile (procs s n))\<rparr>) \<and>
    kmem t = kmem s \<and> nextpid t = nextpid s"
  using assms
proof (induction fds arbitrary: s)
  case Nil
  have "merged a [] b = b" for a b by (rule ext) (simp add: merged_def)
  then show ?case using Nil by (simp add: dup_files_def)
next
  case (Cons fd fds)
  show ?case
  proof (cases "ofile (procs s i) fd")
    case None
    have "merged (ofile (procs s i)) (fd # fds) b = merged (ofile (procs s i)) fds b" for b
      using None by (auto simp: merged_def fun_eq_iff)
    then show ?thesis using Cons None by (simp add: dup_files_def)
  next
    case (Some f)
    then obtain s1 where s1: "lift_fs (file_dup f) s = Inr s1"
      "dup_files i n fds (set_proc n (\<lambda>p. p\<lparr>ofile := (ofile p)(fd := Some f)\<rparr>) s1) = Inr t"
      using Cons.prems(1) by (auto simp: dup_files_def elim!: kbind_InrE)
    have p: "procs s1 = procs s" "kmem s1 = kmem s" "nextpid s1 = nextpid s"
      using s1(1) by (auto simp: lift_fs_def elim!: kbind_InrE)
    have m: "merged (ofile (procs s i)) fds (\<lambda>a. if a = fd then Some f else b a) = merged (ofile (procs s i)) (fd # fds) b" for b
      using Some by (auto simp: merged_def fun_eq_iff)
    show ?thesis using Cons.IH [OF s1(2)] Cons.prems(2) p by (auto simp: set_proc_def fun_upd_def m)
  qed
qed

text \<open>What the process in slot \<open>q\<close> has from the one in slot \<open>p\<close> after the fork.\<close>

definition child_of :: "nat \<Rightarrow> nat \<Rightarrow> 'a kst_scheme \<Rightarrow> 'a kst_scheme \<Rightarrow> bool" where
  "child_of i n s t \<longleftrightarrow> pid (procs t n) = nextpid s \<and> pstate (procs t n) = RUNNABLE \<and> parent (procs t n) = Some i \<and>
     priority (procs t n) = priority (procs s i) \<and> priority_boost (procs t n) = priority_boost (procs s i) \<and>
     ustack_pages (procs t n) = ustack_pages (procs s i) \<and>
     ofile (procs t n) = merged (ofile (procs s i)) [0..<NOFILE] (ofile (procs s n)) \<and> tf_get n TF_a0 t = 0"

lemma set_proc_kmem [simp]: "kmem (set_proc n f s) = kmem s"
  by (simp add: set_proc_def)

lemma lock_kmem:
  "plock i s = Inr t \<Longrightarrow> kmem t = kmem s" "punlock i s = Inr t \<Longrightarrow> kmem t = kmem s"
  "wlock s = Inr t \<Longrightarrow> kmem t = kmem s" "wunlock s = Inr t \<Longrightarrow> kmem t = kmem s"
  by (auto simp: plock_def punlock_def wlock_def wunlock_def set_proc_def elim!: kbind_InrE)

lemma fork_child:
  assumes "proc_fork s = Inr (r, t)" and "cpu_proc (mycpu (khart s)) = Some i" and "pstate (procs s i) \<noteq> UNUSED"
    and "r \<noteq> -1"
  shows "\<exists>n < NPROC. n \<noteq> i \<and> pstate (procs s n) = UNUSED \<and> r = nextpid s \<and> child_of i n s t \<and> others n s t"
proof -
  let ?tf = "\<lambda>n s. tf_set n TF_a0 0 (s\<lparr>kmem := memmove (kmem s) (tf (procs s n)) (tf (procs s i)) (of_nat TF_SIZE)\<rparr>)"
  obtain s1 where s1: "cur s = Inr (i, s1)"
    using assms(1,2) cur_same [of s] unfolding proc_fork_def by (elim kbind_InrE) (metis option.inject surj_pair)
  then obtain q s2 where s: "cur s = Inr (i, s1)" "proc_alloc s1 = Inr (q, s2)"
    using assms(1) by (auto simp: proc_fork_def elim: kbind_InrE)
  obtain n where q: "q = Some n" using assms(1,4) s by (cases q) (auto simp: proc_fork_def)
  obtain s3 s4 s5 s6 s7 s8 where f:
    "uvm_copy_pgtbl (pgtbl (procs s2 i)) (pgtbl (procs s2 n)) (heap_top (procs s2 i)) s2 = Inr s3"
    "dup_files i n [0..<NOFILE] (?tf n (set_proc n (\<lambda>p. p\<lparr>ustack_pages := ustack_pages (procs s3 i)\<rparr>) s3)) = Inr s4"
    "punlock n s4 = Inr s5" "wlock s5 = Inr s6"
    "wunlock (set_proc n (\<lambda>p. p\<lparr>parent := Some i, priority := priority (procs s6 i), priority_boost := priority_boost (procs s6 i)\<rparr>) s6) = Inr s7"
    "plock n s7 = Inr s8" "punlock n (set_proc n (\<lambda>p. p\<lparr>pstate := RUNNABLE\<rparr>) s8) = Inr t" "r = pid (procs s4 n)"
    using assms(1) s q by (simp add: proc_fork_def Let_def dup_files_def) (elim kbind_InrE, auto)
  have c: "procs s1 = procs s" "nextpid s1 = nextpid s" using cur_same [OF s(1)] by auto
  have g: "n < NPROC" "pstate (procs s n) = UNUSED" "pstate (procs s2 n) = RUNNABLE" "pid (procs s2 n) = nextpid s"
    using alloc_grow [OF s(2)] q c by (auto simp: grow_def)
  then have ni: "n \<noteq> i" using assms(3) by auto
  note a = alloc_others [OF s(2) [unfolded q]]
  obtain l where i2: "procs s2 i = (procs s i)\<lparr>plk := l\<rparr>" using a(1) ni c unfolding others_def by metis
  have c3: "procs s3 = procs s2" using more_same [OF uvm_copy_pgtbl_more [OF f(1)]] by simp
  have p4: "procs s4 = (procs s2)(n := (procs s2 n)\<lparr>ustack_pages := ustack_pages (procs s i),
      ofile := merged (ofile (procs s i)) [0..<NOFILE] (ofile (procs s n))\<rparr>)"
    "load64 (kmem s4) (tf (procs s2 n) + TF_a0) = 0"
    using dup_files_procs [OF f(2)] ni c3 i2 a(3) c by (simp_all add: set_proc_def tf_set_def)
  have r6: "relocked s4 s6" using f(3,4) relocked_locks by (blast intro: relocked_trans)
  obtain m where i6: "procs s6 i = (procs s i)\<lparr>plk := m\<rparr>" using relockedD [OF r6, of i] p4(1) ni i2 by auto
  let ?kid = "\<lambda>p. p\<lparr>parent := Some i, priority := priority (procs s i), priority_boost := priority_boost (procs s i)\<rparr>"
  have r8: "relocked (set_proc n ?kid s6) s8" using relocked_trans [OF relocked_locks(4) [OF f(5)] relocked_locks(1) [OF f(6)]] i6 by simp
  have rt: "relocked (set_proc n (\<lambda>p. p\<lparr>pstate := RUNNABLE\<rparr>) s8) t" using relocked_locks(2) [OF f(7)] .
  have kt: "kmem t = kmem s4" using lock_kmem f(3-7) by (metis set_proc_kmem)
  have "child_of i n s t"
    using relockedD [OF r6, of n] relockedD [OF r8, of n] relockedD [OF rt, of n] p4 kt g(4)
    by (auto simp: child_of_def set_proc_def tf_get_def)
  moreover have "others n s t"
  proof -
    have "others n s s2" using a(1) c by (simp add: others_def)
    moreover have "others n s2 s4" using p4(1) by (simp add: others_def plk_refl)
    moreover have "others n s4 s8" using relocked_others [OF r6] relocked_others [OF r8] others_set by (blast intro: others_trans)
    moreover have "others n s8 t" using relocked_others [OF rt] others_set by (blast intro: others_trans)
    ultimately show ?thesis by (blast intro: others_trans)
  qed
  moreover have "r = nextpid s" using f(8) p4(1) g(4) by simp
  ultimately show ?thesis using g(1,2) ni by blast
qed

section \<open>Allocating pages inside a critical section\<close>

text \<open>The page allocator takes and gives back its lock; when a lock is held already, the hart is afterwards as it was.\<close>

definition nested :: "'a pst_scheme \<Rightarrow> bool" where
  "nested s \<longleftrightarrow> cpu_ok (khart s) \<and> 0 < noff (mycpu (khart s))"

definition hart_kept :: "'a pst_scheme \<Rightarrow> 'a pst_scheme \<Rightarrow> bool" where
  "hart_kept s t \<longleftrightarrow> (nested s \<longrightarrow> khart t = khart s)"

lemma hart_kept_same: "khart t = khart s \<Longrightarrow> hart_kept s t"
  by (simp add: hart_kept_def)

lemma hart_kept_trans: "hart_kept s t \<Longrightarrow> hart_kept t u \<Longrightarrow> hart_kept s u"
  by (auto simp: hart_kept_def nested_def)

lemma section_nested: "cpu_ok h \<Longrightarrow> 0 < noff (mycpu h) \<Longrightarrow> section_done h = h"
  by (simp add: section_done_def)

lemma hart_kept_section:
  assumes "spinlock_acquire lk (khart s) = Inr (lk1, h1)" and "spinlock_release lk1 h1 = Inr (lk2, h2)" and "khart t = h2"
  shows "hart_kept s t"
proof -
  have "\<not> locked lk" using assms(1) by (auto simp: spinlock_acquire_def Let_def split: if_splits)
  then have "h2 = section_done (khart s)" if "nested s"
    using assms(1,2) that spinlock_release_acquired [of "khart s" lk] by (simp add: spinlock_acquire_free nested_def)
  then show ?thesis using assms(3) section_nested by (auto simp: hart_kept_def nested_def)
qed

named_theorems harts \<open>operations that keep the hart inside a critical section\<close>

lemma pmem_alloc_hart [harts]: "pmem_alloc s = Inr (p, t) \<Longrightarrow> hart_kept s t"
  unfolding pmem_alloc_def Let_def
  by (auto elim!: kbind_InrE split: prod.splits if_splits) (erule hart_kept_section, assumption, simp)+

lemma pmem_free_hart [harts]: "pmem_free p s = Inr t \<Longrightarrow> hart_kept s t"
  unfolding pmem_free_def Let_def
  by (auto simp: kguard_Inr_iff push_page_def elim!: kbind_InrE split: prod.splits) (erule hart_kept_section, assumption, simp)

lemma hart_kept_kmem [simp]: "hart_kept s (s\<lparr>kmem := m\<rparr>)" "hart_kept (s\<lparr>kmem := m\<rparr>) t = hart_kept s t"
  by (simp_all add: hart_kept_def nested_def)

lemma vm_getpte_loop_hart: "vm_getpte_loop l r va alloc s = Inr (p, t) \<Longrightarrow> hart_kept s t"
proof (induction l r va alloc s arbitrary: p rule: vm_getpte_loop.induct)
  case (2 l r va alloc s)
  then show ?case
    by (fastforce simp: Let_def hart_kept_same dest: pmem_alloc_hart elim!: kbind_InrE intro: hart_kept_trans split: if_splits)
qed (auto simp: hart_kept_same)

lemma vm_getpte_hart [harts]: "vm_getpte r va alloc s = Inr (p, t) \<Longrightarrow> hart_kept s t"
  unfolding vm_getpte_def by (rule vm_getpte_loop_hart)

lemma vm_mappages_loop_hart: "vm_mappages_loop k r a l pa perm s = Inr t \<Longrightarrow> hart_kept s t"
proof (induction k r a l pa perm s rule: vm_mappages_loop.induct)
  case (2 k r a l pa perm s)
  then show ?case
    by (fastforce simp: Let_def dest: vm_getpte_hart elim!: kbind_InrE intro: hart_kept_trans split: if_splits)
qed auto

lemma vm_mappages_hart [harts]: "vm_mappages r va pa len perm s = Inr t \<Longrightarrow> hart_kept s t"
  by (auto simp: vm_mappages_def Let_def simp del: vm_mappages_loop.simps dest: vm_mappages_loop_hart split: if_splits)

lemma vm_unmappages_loop_hart: "vm_unmappages_loop k r a l fr s = Inr t \<Longrightarrow> hart_kept s t"
proof (induction k arbitrary: a s)
  case (Suc k)
  then show ?case
    by (auto simp: hart_kept_same dest!: harts elim!: kbind_InrE split: if_splits)
      (metis (no_types) hart_kept_trans hart_kept_kmem(2))+
qed simp

lemma vm_unmappages_hart [harts]: "vm_unmappages r va len fr s = Inr t \<Longrightarrow> hart_kept s t"
  by (auto simp: vm_unmappages_def Let_def hart_kept_same simp del: vm_unmappages_loop.simps dest: vm_unmappages_loop_hart split: if_splits)

lemma uvm_copy_loop_hart: "uvm_copy_pgtbl_loop k r n va h s = Inr t \<Longrightarrow> hart_kept s t"
proof (induction k arbitrary: va s)
  case (Suc k)
  then show ?case
    by (auto simp: Let_def hart_kept_same dest!: harts Suc.IH elim!: kbind_InrE split: if_splits) (meson hart_kept_trans)+
qed simp

lemma proc_pgtbl_init_hart [harts]: "proc_pgtbl_init v s = Inr (w, t) \<Longrightarrow> hart_kept s t"
  unfolding proc_pgtbl_init_def Let_def
  by (auto dest!: harts elim!: kbind_InrE split: if_splits) (meson hart_kept_trans)

section \<open>A new process\<close>

lemma set_proc_pst [simp]:
  "khart (set_proc i f s) = khart s" "ALLOC_BEGIN (set_proc i f s) = ALLOC_BEGIN s" "pool (set_proc i f s) ps = pool s ps"
  "vm_inv (set_proc i f s) r ps = vm_inv s r ps" "built k P (set_proc i f s) r ps M = built k P s r ps M"
  by (simp_all add: set_proc_def pool_def vm_inv_def built_def)

lemma set_proc_kst [simp]:
  "nextpid (set_proc i f s) = nextpid s" "wait_lock (set_proc i f s) = wait_lock s" "kfs (set_proc i f s) = kfs s" "ksym (set_proc i f s) = ksym s"
  "pid_lock (set_proc i f s) = pid_lock s" "proczero (set_proc i f s) = proczero s" "korigin (set_proc i f s) = korigin s" "kst.more (set_proc i f s) = kst.more s"
  "procs (set_proc i f s) = (procs s)(i := f (procs s i))"
  by (simp_all add: set_proc_def)

lemma more_kst:
  fixes s t :: "'a kst_scheme"
  assumes "pst.more t = pst.more s"
  shows "procs t = procs s" "nextpid t = nextpid s" "wait_lock t = wait_lock s" "kfs t = kfs s" "ksym t = ksym s"
    "pid_lock t = pid_lock s" "proczero t = proczero s" "korigin t = korigin s" "kst.more t = kst.more s"
  using assms by (cases s, cases t, simp)+

lemma alloc_scan_quiet:
  assumes "quiet s" and "i \<le> n" "n < i + k" "n < NPROC" and "pstate (procs s n) = UNUSED" "\<And>j. i \<le> j \<Longrightarrow> j < n \<Longrightarrow> pstate (procs s j) \<noteq> UNUSED"
  shows "\<exists>s'. (s' = s \<or> s' = hdone s) \<and> proc_alloc_scan k i s = Inr (Some n, held n s')"
  using assms
proof (induction k arbitrary: i s)
  case (Suc k)
  have i: "i < NPROC" using Suc.prems by simp
  note pl = plock_idle [OF quietD(1) [OF Suc.prems(1) i]]
  show ?case
  proof (cases "i = n")
    case True
    then show ?thesis using pl Suc.prems(5) by (intro exI [of _ s]) simp
  next
    case False
    have "punlock i (held i s) = Inr (hdone s)"
      using punlock_held [OF quietD(1) [OF Suc.prems(1) i] quietD(2) [OF Suc.prems(1)], of id] by (simp add: set_proc_def)
    moreover obtain s' where "s' = hdone s \<or> s' = hdone (hdone s)" "proc_alloc_scan k (Suc i) (hdone s) = Inr (Some n, held n s')"
      using Suc.IH [of "hdone s" "Suc i"] Suc.prems False by (auto simp: quiet_def)
    ultimately show ?thesis using pl Suc.prems(2,6) False by (intro exI [of _ s']) (auto simp: le_less)
  qed
qed simp

definition child_map :: "uint64 \<Rightarrow> uint64 \<Rightarrow> nat \<Rightarrow> uint64" where
  "child_map tr v = region (2 ^ 26 - 2) 1 v (PTE_R OR PTE_W) (region (2 ^ 26 - 1) 1 tr (PTE_R OR PTE_X) (\<lambda>_. 0))"

lemma child_map_low: "q < 2 ^ 26 - 2 \<Longrightarrow> child_map tr v q = 0"
  by (simp add: child_map_def region_def)

lemma top_tables: "ktables (2 ^ 26 - 1) = {[255], [255, 511]}" "ktables (2 ^ 26 - 2) = {[255], [255, 511]}"
  by (simp_all add: ktables_def)

lemma map_single:
  fixes s :: "'a pst_scheme"
  assumes b: "built k P s r ps M" and va: "unat va = f * PGSIZE" and f: "f < 2 ^ 26" "ktables f \<subseteq> P" "M f = 0"
  shows "\<exists>t ps'. vm_mappages r va pa (of_nat PGSIZE) perm s = Inr t \<and> built k P t r ps' (region f 1 pa perm M) \<and> from_pool r s ps t ps'"
proof -
  have "ktables q \<subseteq> P \<and> M q = 0" if "f \<le> q" "q < f + 1" for q
  proof -
    have "q = f" using that by simp
    then show ?thesis using f by simp
  qed
  moreover have "f + 1 \<le> 2 ^ 26" using f(1) by simp
  ultimately show ?thesis using map_region [OF b va, of 1 pa perm] by (simp only: zero_less_one mult_1)
qed

lemma pgtbl_init_built:
  fixes s :: "'a kst_scheme"
  assumes pl: "pool s (r # ps)" and P: "finite P" "P \<subseteq> paths" "card P + j \<le> length ps" "{[255], [255, 511]} \<subseteq> P"
  shows "\<exists>t ps'. proc_pgtbl_init v s = Inr (r, t) \<and> r \<noteq> 0 \<and> built j P t r ps' (child_map (trampoline (ksym s)) v) \<and> set ps' \<subseteq> set ps \<and>
    pt_pages (kmem t) r \<subseteq> insert r (set ps - set ps') \<and> ALLOC_BEGIN t = ALLOC_BEGIN s \<and> pst.more t = pst.more s \<and>
    (\<forall>p x. page_ok (ALLOC_BEGIN s) p \<and> p \<notin> insert r (set ps - set ps') \<and> in_page p x \<longrightarrow> kmem t x = kmem s x)"
proof -
  obtain s0 where s0: "pmem_alloc s = Inr (r, s0)" "r \<noteq> 0"
    "let s' = s0\<lparr>kmem := memset (kmem s0) r 0 (of_nat PGSIZE)\<rparr>
     in vm_inv s' r ps \<and> ALLOC_BEGIN s' = ALLOC_BEGIN s \<and> pst.more s' = pst.more s \<and>
       pt_pages (kmem s') r = {r} \<and> (\<forall>va. leaf (kmem s') r va = 0) \<and> (\<forall>x. \<not> in_page r x \<longrightarrow> kmem s' x = kmem s x)"
    using new_table [OF pl] by blast
  define s1 where "s1 = s0\<lparr>kmem := memset (kmem s0) r 0 (of_nat PGSIZE)\<rparr>"
  have s1: "vm_inv s1 r ps" "ALLOC_BEGIN s1 = ALLOC_BEGIN s" "pst.more s1 = pst.more s" "pt_pages (kmem s1) r = {r}"
    "\<And>va. leaf (kmem s1) r va = 0" "\<And>x. \<not> in_page r x \<Longrightarrow> kmem s1 x = kmem s x"
    using s0(3) by (auto simp: s1_def Let_def)
  have "card {is \<in> P. node (kmem s1) r is = None} \<le> card P" using P(1) by (intro card_mono) auto
  then have b1: "built j P s1 r ps (\<lambda>_. 0)" using s1(1,5) P by (simp add: built_def pt_room_def)
  have u: "unat TRAMPOLINE = (2 ^ 26 - 1) * PGSIZE" "unat TRAPFRAME = (2 ^ 26 - 2) * PGSIZE" by (simp_all add: layout)
  obtain s2 ps2 where 2: "vm_mappages r TRAMPOLINE (trampoline (ksym s)) (of_nat PGSIZE) (PTE_R OR PTE_X) s1 = Inr s2"
    "built j P s2 r ps2 (region (2 ^ 26 - 1) 1 (trampoline (ksym s)) (PTE_R OR PTE_X) (\<lambda>_. 0))" "from_pool r s1 ps s2 ps2"
    using map_single [OF b1 u(1), of "trampoline (ksym s)" "PTE_R OR PTE_X"] P(4) unfolding top_tables by auto
  have z: "region (2 ^ 26 - 1) 1 (trampoline (ksym s)) (PTE_R OR PTE_X) (\<lambda>_. 0) (2 ^ 26 - 2) = 0" by (simp add: region_def)
  obtain t ps' where 3: "vm_mappages r TRAPFRAME v (of_nat PGSIZE) (PTE_R OR PTE_W) s2 = Inr t"
    "built j P t r ps' (child_map (trampoline (ksym s)) v)" "from_pool r s2 ps2 t ps'"
    using map_single [OF 2(2) u(2) _ _ z, of v "PTE_R OR PTE_W"] P(4) unfolding child_map_def top_tables by auto
  have fp: "from_pool r s1 ps t ps'" by (rule from_pool_trans [OF 2(3) 3(3)])
  have k: "ksym s1 = ksym s" using more_kst(5) [OF s1(3)] .
  have "proc_pgtbl_init v s = Inr (r, t)"
    using s0(1,2) 2(1) 3(1) k by (simp add: proc_pgtbl_init_def s1_def)
  moreover have "kmem t x = kmem s x" if x: "page_ok (ALLOC_BEGIN s) p" "p \<notin> insert r (set ps - set ps')" "in_page p x" for p x
  proof -
    have "page_ok (ALLOC_BEGIN s) r" using pl by (simp add: pool_def)
    then have "\<not> in_page r x" using in_page_unique [OF x(1) _ x(3)] x(2) by blast
    moreover have "kmem t x = kmem s1 x" using from_pool_page [OF fp s1(1) _ _ x(3)] x(1,2) s1(2,4) by auto
    ultimately show ?thesis using s1(6) by simp
  qed
  ultimately show ?thesis using 3(2) fp s0(2) s1(2-4) by (intro exI [of _ t] exI [of _ ps']) (auto simp: from_pool_def)
qed

lemma held_pst [simp]:
  "kmem (held n s) = kmem s" "ALLOC_BEGIN (held n s) = ALLOC_BEGIN s" "khart (held n s) = push_off (khart s)"
  "cpu_ok (khart s) \<Longrightarrow> pool s ps \<Longrightarrow> pool (held n s) ps" "pid_lock (held n s) = pid_lock s"
  "nextpid (held n s) = nextpid s" "wait_lock (held n s) = wait_lock s" "kfs (held n s) = kfs s" "ksym (held n s) = ksym s"
  "proczero (held n s) = proczero s" "korigin (held n s) = korigin s" "kst.more (held n s) = kst.more s"
  "procs (held n s) = (procs s)(n := (procs s n)\<lparr>plk := (plk (procs s n))\<lparr>locked := True, cpuid := mycpuid (khart s)\<rparr>\<rparr>)"
  by (simp_all add: held_def set_proc_def pool_def cpu_ok_push_off)

lemma pool_pid [simp]: "pool (s\<lparr>nextpid := x, pid_lock := l\<rparr>) ps = pool s ps"
  by (simp add: pool_def)

lemma allocpid_nested:
  assumes "\<not> locked (pid_lock s)" "nested s" "nextpid s < 2 ^ 31 - 1"
  shows "allocpid s = Inr (nextpid s, s\<lparr>nextpid := nextpid s + 1, pid_lock := unlocked (pid_lock s)\<rparr>)"
  using assms spinlock_release_acquired [of "khart s" "pid_lock s"] section_nested [of "khart s"]
  by (simp add: allocpid_def spinlock_acquire_free nested_def Let_def)

lemma nested_held: "cpu_ok (khart s) \<Longrightarrow> nested (held n s)"
  by (simp add: nested_def cpu_ok_push_off push_off_facts) (simp add: cpu_ok_def)

text \<open>The slot \<open>n\<close> is the first one that is free.\<close>

definition first_free :: "nat \<Rightarrow> 'a kst_scheme \<Rightarrow> bool" where
  "first_free n s \<longleftrightarrow> n < NPROC \<and> pstate (procs s n) = UNUSED \<and> (\<forall>j < n. pstate (procs s j) \<noteq> UNUSED)"

text \<open>A state inside the section of the lock of process \<open>n\<close>, entered from \<open>s\<close> by \<^verbatim>\<open>proc_alloc\<close>.\<close>

definition new_proc :: "int \<Rightarrow> uint64 \<Rightarrow> uint64 \<Rightarrow> uint64 \<Rightarrow> proc \<Rightarrow> proc" where
  "new_proc m v r ra p = p\<lparr>pid := m, priority := PRIORITY_DEFAULT, priority_boost := 0, pstate := RUNNABLE, tf := v, pgtbl := r,
     pctx := zero_ctx\<lparr>ctx_ra := ra, ctx_sp := kstack p + of_nat PGSIZE\<rparr>\<rparr>"

definition inside :: "nat \<Rightarrow> 'a kst_scheme \<Rightarrow> 'a kst_scheme \<Rightarrow> bool" where
  "inside n s t \<longleftrightarrow> (\<exists>h. (h = khart s \<or> h = section_done (khart s)) \<and> khart t = push_off h \<and>
     procs t = (procs s)(n := new_proc (nextpid s) (tf (procs t n)) (pgtbl (procs t n)) (fork_return_addr (ksym s))
       ((procs s n)\<lparr>plk := (plk (procs s n))\<lparr>locked := True, cpuid := mycpuid h\<rparr>\<rparr>))) \<and>
     nextpid t = nextpid s + 1 \<and> pid_lock t = unlocked (pid_lock s) \<and> wait_lock t = wait_lock s \<and> kfs t = kfs s \<and> ksym t = ksym s \<and>
     proczero t = proczero s \<and> korigin t = korigin s \<and> kst.more t = kst.more s"

lemma inside_other: "inside n s t \<Longrightarrow> j \<noteq> n \<Longrightarrow> procs t j = procs s j"
  unfolding inside_def by (metis fun_upd_other)

lemma alloc_ready:
  fixes s :: "'a kst_scheme"
  assumes q: "quiet s" "first_free n s" "\<not> locked (pid_lock s)" "nextpid s < 2 ^ 31 - 1" and pl: "pool s (v # r # ps)"
    and P: "finite P" "P \<subseteq> paths" "card P + j \<le> length ps" "{[255], [255, 511]} \<subseteq> P"
  shows "\<exists>t ps'. proc_alloc s = Inr (Some n, t) \<and> built j P t r ps' (child_map (trampoline (ksym s)) v) \<and> inside n s t \<and>
    tf (procs t n) = v \<and> pgtbl (procs t n) = r \<and> set ps' \<subseteq> set ps \<and> pt_pages (kmem t) r \<subseteq> insert r (set ps - set ps') \<and>
    ALLOC_BEGIN t = ALLOC_BEGIN s \<and>
    (\<forall>p x. page_ok (ALLOC_BEGIN s) p \<and> p \<notin> insert r (set ps - set ps') \<and> in_page p x \<longrightarrow> kmem t x = kmem s x)"
proof -
  let ?new = "\<lambda>p. p\<lparr>pid := nextpid s, priority := PRIORITY_DEFAULT, priority_boost := 0, pstate := RUNNABLE\<rparr>"
  obtain s' where s': "s' = s \<or> s' = hdone s" "proc_alloc_scan NPROC 0 s = Inr (Some n, held n s')"
    using alloc_scan_quiet [OF q(1), of 0 n NPROC] q(2) by (auto simp: first_free_def)
  have c: "cpu_ok (khart s')" "pool s' (v # r # ps)" "\<not> locked (pid_lock s')" "nextpid s' = nextpid s"
    using s'(1) q(1,3) pl by (auto simp: quiet_def pool_def)
  define s1 where "s1 = set_proc n ?new ((held n s')\<lparr>nextpid := nextpid s + 1, pid_lock := unlocked (pid_lock s)\<rparr>)"
  have a: "allocpid (held n s') = Inr (nextpid s, (held n s')\<lparr>nextpid := nextpid s + 1, pid_lock := unlocked (pid_lock s)\<rparr>)"
    using allocpid_nested [OF _ nested_held [OF c(1)], of n] c(3,4) q(4) s'(1) by auto
  have p1: "pool s1 (v # r # ps)" "nested s1" "ksym s1 = ksym s" "kmem s1 = kmem s" "ALLOC_BEGIN s1 = ALLOC_BEGIN s"
    using held_pst(4) [OF c(1,2), of n] nested_held [OF c(1), of n] s'(1) by (auto simp: s1_def nested_def)
  obtain s2 where 2: "pmem_alloc s1 = Inr (v, s2)" "pool s2 (r # ps)" "kmem s2 = kmem s1" "ALLOC_BEGIN s2 = ALLOC_BEGIN s1" "pst.more s2 = pst.more s1"
    using pmem.alloc_ok [OF p1(1)] by blast
  have v: "v \<noteq> 0" using pmem.pool_pages [OF pl] by simp
  define s3 where "s3 = set_proc n (\<lambda>p. p\<lparr>tf := v\<rparr>) s2"
  have p3: "pool s3 (r # ps)" "ksym s3 = ksym s" "kmem s3 = kmem s" "ALLOC_BEGIN s3 = ALLOC_BEGIN s" "nested s3" "khart s3 = khart s1"
    using 2 p1 more_kst [OF 2(5)] pmem_alloc_hart [OF 2(1)] by (simp_all add: s3_def hart_kept_def nested_def)
  obtain s4 ps' where 4: "proc_pgtbl_init v s3 = Inr (r, s4)" "r \<noteq> 0" "built j P s4 r ps' (child_map (trampoline (ksym s)) v)" "set ps' \<subseteq> set ps"
    "pt_pages (kmem s4) r \<subseteq> insert r (set ps - set ps')" "ALLOC_BEGIN s4 = ALLOC_BEGIN s" "pst.more s4 = pst.more s3"
    "\<forall>p x. page_ok (ALLOC_BEGIN s) p \<and> p \<notin> insert r (set ps - set ps') \<and> in_page p x \<longrightarrow> kmem s4 x = kmem s x"
    using pgtbl_init_built [OF p3(1) P, of v] p3(2-4) by auto
  define t where "t = set_proc n (\<lambda>p. p\<lparr>pctx := zero_ctx\<lparr>ctx_ra := fork_return_addr (ksym (set_proc n (\<lambda>p. p\<lparr>pgtbl := r\<rparr>) s4)),
      ctx_sp := kstack p + of_nat PGSIZE\<rparr>\<rparr>) (set_proc n (\<lambda>p. p\<lparr>pgtbl := r\<rparr>) s4)"
  have "proc_alloc s = Inr (Some n, t)"
    using s'(2) a 2(1) v 4(1,2) by (simp add: proc_alloc_def Let_def s1_def [symmetric] s3_def [symmetric] t_def)
  moreover have tn: "tf (procs t n) = v" "pgtbl (procs t n) = r" using more_kst(1) [OF 4(7)] by (simp_all add: t_def s3_def)
  moreover have "inside n s t"
  proof -
    have "khart s4 = khart s1" using proc_pgtbl_init_hart [OF 4(1)] p3(5,6) by (simp add: hart_kept_def)
    moreover have "khart s1 = push_off (khart s')" by (simp add: s1_def)
    moreover have "procs s4 = (procs s1)(n := (procs s1 n)\<lparr>tf := v\<rparr>)" "wait_lock s4 = wait_lock s1" "kfs s4 = kfs s1" "ksym s4 = ksym s1"
      "pid_lock s4 = pid_lock s1" "nextpid s4 = nextpid s1" "proczero s4 = proczero s1" "korigin s4 = korigin s1" "kst.more s4 = kst.more s1"
      using more_kst [OF 4(7)] more_kst [OF 2(5)] by (simp_all add: s3_def)
    moreover have "khart s' = khart s \<or> khart s' = section_done (khart s)" "procs s' = procs s" "wait_lock s' = wait_lock s" "kfs s' = kfs s"
      "ksym s' = ksym s" "proczero s' = proczero s" "korigin s' = korigin s" "kst.more s' = kst.more s" using s'(1) by auto
    ultimately show ?thesis unfolding inside_def tn by (intro conjI exI [of _ "khart s'"]) (simp_all add: t_def s1_def new_proc_def)
  qed
  ultimately show ?thesis using 4 by (intro exI [of _ t] exI [of _ ps']) (auto simp: t_def)
qed

section \<open>The steps of a fork\<close>

text \<open>The table of open files after every file has got a reference for each of the descriptors in \<open>fds\<close> that names it.\<close>

definition referenced :: "(nat \<rightharpoonup> nat) \<Rightarrow> nat list \<Rightarrow> filest \<Rightarrow> filest" where
  "referenced ofs fds fs = fs\<lparr>ftable := (\<lambda>f. (ftable fs f)\<lparr>f_ref := f_ref (ftable fs f) + int (count_list (map ofs fds) (Some f))\<rparr>)\<rparr>"

lemma referenced_Nil [simp]: "referenced ofs [] fs = fs"
  by (simp add: referenced_def)

lemma referenced_Cons: "referenced ofs (fd # fds) fs =
    (case ofs fd of None \<Rightarrow> referenced ofs fds fs | Some f \<Rightarrow> referenced ofs fds (set_file f (\<lambda>x. x\<lparr>f_ref := f_ref x + 1\<rparr>) fs))"
  by (auto simp: referenced_def set_file_def fun_eq_iff split: option.splits)

lemma dup_files_ok:
  assumes "\<forall>fd \<in> set fds. \<forall>f. ofile (procs s i) fd = Some f \<longrightarrow> 1 \<le> f_ref (ftable (kfs s) f)" and "i \<noteq> n"
  shows "dup_files i n fds s = Inr (set_proc n (\<lambda>p. p\<lparr>ofile := merged (ofile (procs s i)) fds (ofile p)\<rparr>)
    (s\<lparr>kfs := referenced (ofile (procs s i)) fds (kfs s)\<rparr>))"
  using assms
proof (induction fds arbitrary: s)
  case Nil
  have "merged a [] b = b" for a b by (rule ext) (simp add: merged_def)
  then show ?case by (simp add: dup_files_def set_proc_def)
next
  case (Cons fd fds)
  show ?case
  proof (cases "ofile (procs s i) fd")
    case None
    have "merged (ofile (procs s i)) (fd # fds) b = merged (ofile (procs s i)) fds b" for b
      using None by (auto simp: merged_def fun_eq_iff)
    then show ?thesis using Cons None by (simp add: dup_files_def referenced_Cons)
  next
    case (Some f)
    let ?fs = "set_file f (\<lambda>x. x\<lparr>f_ref := f_ref x + 1\<rparr>) (kfs s)"
    let ?t = "set_proc n (\<lambda>p. p\<lparr>ofile := (ofile p)(fd := Some f)\<rparr>) (s\<lparr>kfs := ?fs\<rparr>)"
    have "1 \<le> f_ref (ftable (kfs s) f)" using Cons.prems(1) Some by simp
    then have e: "dup_files i n (fd # fds) s = dup_files i n fds ?t"
      using Some by (simp add: dup_files_def lift_fs_def file_dup_def kguard_def)
    have m: "merged (ofile (procs s i)) fds (b(fd := Some f)) = merged (ofile (procs s i)) (fd # fds) b" for b
      using Some by (auto simp: merged_def fun_eq_iff)
    have "dup_files i n fds ?t = Inr (set_proc n (\<lambda>p. p\<lparr>ofile := merged (ofile (procs ?t i)) fds (ofile p)\<rparr>)
        (?t\<lparr>kfs := referenced (ofile (procs ?t i)) fds (kfs ?t)\<rparr>))"
      using Cons.prems by (intro Cons.IH) (auto simp: set_file_def)
    then show ?thesis unfolding e using Cons.prems(2) Some by (simp add: set_proc_def m referenced_Cons)
  qed
qed

lemma unlocked_again: "unlocked (unlocked l) = unlocked l" "unlocked (l\<lparr>locked := b, cpuid := c\<rparr>) = unlocked l"
  by (simp_all add: unlocked_def)

lemma section_done_again: "section_done (section_done h) = section_done h"
  by (simp add: section_done_def)

text \<open>From the release of the child's lock to the end of \<^verbatim>\<open>proc_fork\<close>.\<close>

lemma fork_tail:
  assumes h: "khart s = push_off h" "cpu_ok h" "plk (procs s n) = lk\<lparr>locked := True, cpuid := mycpuid h\<rparr>" "\<not> locked (wait_lock s)"
    and ni: "i \<noteq> n"
  shows "\<exists>s5 s6 s7 s8. punlock n s = Inr s5 \<and> wlock s5 = Inr s6 \<and>
    wunlock (set_proc n (\<lambda>p. p\<lparr>parent := Some i, priority := priority (procs s6 i), priority_boost := priority_boost (procs s6 i)\<rparr>) s6) = Inr s7 \<and>
    plock n s7 = Inr s8 \<and> punlock n (set_proc n (\<lambda>p. p\<lparr>pstate := RUNNABLE\<rparr>) s8) =
      Inr (set_proc n (\<lambda>p. p\<lparr>parent := Some i, priority := priority (procs s i), priority_boost := priority_boost (procs s i),
        pstate := RUNNABLE, plk := unlocked lk\<rparr>) (s\<lparr>wait_lock := unlocked (wait_lock s), khart := section_done h\<rparr>))"
proof -
  have r: "spinlock_release (l\<lparr>locked := True, cpuid := mycpuid k\<rparr>) (push_off k) = Inr (unlocked l, section_done k)" if "cpu_ok k" for l k
    using spinlock_release_acquired [OF that] .
  have ul: "\<not> locked (unlocked l)" for l by (simp add: unlocked_def)
  have r': "spinlock_release (l\<lparr>locked := True, cpuid := mycpuid h\<rparr>) (push_off (section_done h)) = Inr (unlocked l, section_done h)" for l
    using r [of "section_done h" l] h(2) by (simp add: section_done_again)
  show ?thesis
    using h ni by (simp add: punlock_def wlock_def wunlock_def plock_def r [OF h(2)] r' spinlock_acquire_free ul set_proc_def unlocked_again)
qed

lemma load64_moved:
  assumes "unat off + 8 \<le> k" "k < 2 ^ 63"
  shows "load64 (moved m d s k) (d + off) = load64 m (s + off)"
proof -
  have "view (moved m d s k) (d + off) j = view m (s + off) j" if "j < 8" for j
  proof -
    have "unat (off + of_nat j) = unat off + j" using assms that by (intro unat_add_of_nat) simp
    then show ?thesis using assms that by (simp add: view_def moved_def add.assoc)
  qed
  then show ?thesis unfolding load64_def by (intro le_load_cong) simp
qed

text \<open>When process \<open>i\<close> can fork into slot \<open>n\<close>: it runs and no lock is held, there is a pid left, its page table and its \<open>k\<close> pages below the heap top are
  allocated pages and not free, its files are referenced, and there are three free pages for every page to copy and four more.\<close>

definition fork_ready :: "nat \<Rightarrow> nat \<Rightarrow> nat \<Rightarrow> uint64 list \<Rightarrow> 'a kst_scheme \<Rightarrow> bool" where
  "fork_ready i n k ps s \<longleftrightarrow> quiet s \<and> \<not> locked (pid_lock s) \<and> \<not> locked (wait_lock s) \<and> 0 \<le> nextpid s \<and> nextpid s < 2 ^ 31 - 1 \<and>
     cpu_proc (mycpu (khart s)) = Some i \<and> pstate (procs s i) \<noteq> UNUSED \<and> first_free n s \<and>
     pool s ps \<and> 4 + 3 * k \<le> length ps \<and>
     k = (unat (heap_top (procs s i)) + PGSIZE - 1) div PGSIZE \<and> k \<le> 2 ^ 26 - 2 \<and>
     pt_ok (ALLOC_BEGIN s) (kmem s) (pgtbl (procs s i)) \<and> pt_pages (kmem s) (pgtbl (procs s i)) \<inter> set ps = {} \<and>
     (\<forall>q < k. bit (user_pte (kmem s) (pgtbl (procs s i)) q) 0 \<and>
        page_ok (ALLOC_BEGIN s) (PTE2PA (user_pte (kmem s) (pgtbl (procs s i)) q)) \<and> PTE2PA (user_pte (kmem s) (pgtbl (procs s i)) q) \<notin> set ps) \<and>
     page_ok (ALLOC_BEGIN s) (tf (procs s i)) \<and> tf (procs s i) \<notin> set ps \<and>
     (\<forall>fd < NOFILE. \<forall>f. ofile (procs s i) fd = Some f \<longrightarrow> 1 \<le> f_ref (ftable (kfs s) f))"

lemma fork_readyD:
  assumes "fork_ready i n k ps s"
  shows "quiet s" "\<not> locked (pid_lock s)" "\<not> locked (wait_lock s)" "0 \<le> nextpid s" "cpu_proc (mycpu (khart s)) = Some i"
    "pstate (procs s i) \<noteq> UNUSED" "first_free n s" "pool s ps" "4 + 3 * k \<le> length ps"
    "k = (unat (heap_top (procs s i)) + PGSIZE - 1) div PGSIZE" "k \<le> 2 ^ 26 - 2"
    "pt_ok (ALLOC_BEGIN s) (kmem s) (pgtbl (procs s i))" "pt_pages (kmem s) (pgtbl (procs s i)) \<inter> set ps = {}"
    "q < k \<Longrightarrow> bit (user_pte (kmem s) (pgtbl (procs s i)) q) 0 \<and>
        page_ok (ALLOC_BEGIN s) (PTE2PA (user_pte (kmem s) (pgtbl (procs s i)) q)) \<and> PTE2PA (user_pte (kmem s) (pgtbl (procs s i)) q) \<notin> set ps"
    "page_ok (ALLOC_BEGIN s) (tf (procs s i))" "tf (procs s i) \<notin> set ps"
    "fd < NOFILE \<Longrightarrow> ofile (procs s i) fd = Some f \<Longrightarrow> 1 \<le> f_ref (ftable (kfs s) f)" "nextpid s < 2 ^ 31 - 1"
  using assms unfolding fork_ready_def by blast+

lemma hdone_simps [simp]: "pool (hdone s) ps = pool s ps" "quiet (hdone s) = quiet s" "first_free n (hdone s) = first_free n s"
  by (simp_all add: pool_def quiet_def first_free_def)

lemma inside_nested: "inside n s t \<Longrightarrow> quiet s \<Longrightarrow> nested t"
  unfolding inside_def nested_def quiet_def
  by (auto simp: cpu_ok_push_off push_off_facts) (auto simp: cpu_ok_def)

definition fork_tables :: "nat \<Rightarrow> nat list set" where
  "fork_tables k = {[255], [255, 511]} \<union> (\<Union>q < k. ktables q)"

lemma fork_tables_ok: "finite (fork_tables k)" "fork_tables k \<subseteq> paths" "card (fork_tables k) \<le> 2 + 2 * k"
proof -
  have "finite (ktables q)" "card (ktables q) \<le> 2" "ktables q \<subseteq> paths" for q by (simp_all add: ktables_def card_insert_if)
  then show "finite (fork_tables k)" "fork_tables k \<subseteq> paths" by (auto simp: fork_tables_def)
  have "card (\<Union>q < k. ktables q) \<le> 2 * k"
    using card_UN_le [of "{..<k}" ktables] sum_bounded_above [of "{..<k}" "\<lambda>q. card (ktables q)" 2] \<open>\<And>q. card (ktables q) \<le> 2\<close> by force
  then show "card (fork_tables k) \<le> 2 + 2 * k"
    unfolding fork_tables_def by (intro order_trans [OF card_Un_le]) simp
qed

lemma same_pages:
  assumes ok: "pt_ok b (kmem s) r" and eq: "\<And>p x. p \<in> pt_pages (kmem s) r \<Longrightarrow> in_page p x \<Longrightarrow> m x = kmem s x"
  shows "pt_ok b m r" "pt_pages m r = pt_pages (kmem s) r" "user_pte m r q = user_pte (kmem s) r q"
proof -
  note nc = node_cong [OF ok eq]
  show "pt_ok b m r" using ok nc(1) unfolding pt_ok_def by simp
  show "pt_pages m r = pt_pages (kmem s) r" using nc(1) by (auto simp: pt_pages_def)
  show "user_pte m r q = user_pte (kmem s) r q" by (simp add: user_pte_def nc(2))
qed

text \<open>The memory after the copy of the address space.\<close>

definition forked :: "nat \<Rightarrow> nat \<Rightarrow> nat \<Rightarrow> uint64 list \<Rightarrow> 'a kst_scheme \<Rightarrow> 'a kst_scheme \<Rightarrow> (nat \<Rightarrow> uint64) \<Rightarrow> uint64 list \<Rightarrow> bool" where
  "forked i n k ps s t cp qs \<longleftrightarrow>
     (let old = pgtbl (procs s i); new = pgtbl (procs t n); v = tf (procs t n)
      in built 0 (fork_tables k) t new qs (copied_map (kmem s) old cp 0 k (child_map (trampoline (ksym s)) v)) \<and>
         same_contents (kmem s) (kmem t) old cp 0 k \<and> inj_on cp {0..<k} \<and>
         v \<in> set ps \<and> v \<notin> pt_pages (kmem t) new \<union> set qs \<and> (\<forall>q \<in> {0..<k}. cp q \<in> set ps - set qs \<and> cp q \<noteq> v) \<and> set qs \<subseteq> set ps \<and>
         ALLOC_BEGIN t = ALLOC_BEGIN s \<and> (\<forall>p x. page_ok (ALLOC_BEGIN s) p \<and> p \<notin> set ps \<and> in_page p x \<longrightarrow> kmem t x = kmem s x))"

lemma fork_pages:
  fixes s :: "'a kst_scheme"
  assumes rd: "fork_ready i n k ps s"
  shows "\<exists>u t cp qs. proc_alloc (hdone s) = Inr (Some n, u) \<and>
    uvm_copy_pgtbl (pgtbl (procs u i)) (pgtbl (procs u n)) (heap_top (procs u i)) u = Inr t \<and> procs t = procs u \<and>
    inside n s t \<and> forked i n k ps s t cp qs"
proof -
  let ?old = "pgtbl (procs s i)" and ?P = "fork_tables k"
  note f = fork_readyD [OF rd]
  have r: "quiet (hdone s)" "first_free n (hdone s)" "\<not> locked (pid_lock (hdone s))" "pool (hdone s) ps" "4 + 3 * k \<le> length ps" "nextpid (hdone s) < 2 ^ 31 - 1"
    using f(1,2,7-9,18) by simp_all
  obtain v r1 ps1 where ps: "ps = v # r1 # ps1" using r(5) by (cases ps rule: remdups_adj.cases) auto
  have c: "card ?P + k \<le> length ps1" using fork_tables_ok(3) [of k] r(5) ps by simp
  have ni: "n \<noteq> i" using f(6,7) by (auto simp: first_free_def)
  have T: "{[255], [255, 511]} \<subseteq> ?P" by (auto simp: fork_tables_def)
  obtain u ps2 where u0: "proc_alloc (hdone s) = Inr (Some n, u)" "built k ?P u r1 ps2 (child_map (trampoline (ksym (hdone s))) v)" "inside n (hdone s) u"
    "tf (procs u n) = v" "pgtbl (procs u n) = r1" "set ps2 \<subseteq> set ps1" "pt_pages (kmem u) r1 \<subseteq> insert r1 (set ps1 - set ps2)"
    "ALLOC_BEGIN u = ALLOC_BEGIN (hdone s)"
    "\<forall>p x. page_ok (ALLOC_BEGIN (hdone s)) p \<and> p \<notin> insert r1 (set ps1 - set ps2) \<and> in_page p x \<longrightarrow> kmem u x = kmem (hdone s) x"
    using alloc_ready [OF r(1-3,6) r(4) [unfolded ps] fork_tables_ok(1,2) c T] by blast
  have fr: "kmem u x = kmem s x" if "page_ok (ALLOC_BEGIN s) p" "p \<notin> insert r1 (set ps1 - set ps2)" "in_page p x" for p x
    using u0(9) [rule_format, of p x] that by simp
  have u: "built k ?P u r1 ps2 (child_map (trampoline (ksym s)) v)" "ALLOC_BEGIN u = ALLOC_BEGIN s" using u0(2,8) by simp_all
  have iu: "procs u i = procs s i" "nested u" using inside_other [OF u0(3), of i] ni inside_nested [OF u0(3) r(1)] by simp_all
  have eq: "kmem u x = kmem s x" if "p \<in> pt_pages (kmem s) ?old" "in_page p x" for p x
  proof (rule fr [OF _ _ that(2)])
    show "page_ok (ALLOC_BEGIN s) p" using that(1) pt_okD(1) [OF f(12)] by (auto simp: pt_pages_def)
    show "p \<notin> insert r1 (set ps1 - set ps2)" using that(1) f(13) ps by auto
  qed
  have sp: "pt_ok (ALLOC_BEGIN s) (kmem u) ?old" "pt_pages (kmem u) ?old = pt_pages (kmem s) ?old"
    "\<And>q. user_pte (kmem u) ?old q = user_pte (kmem s) ?old q" using same_pages [OF f(12), of "kmem u"] eq by blast+
  have sub: "pt_pages (kmem u) r1 \<union> set ps2 \<subseteq> set ps" using u0(6,7) ps by auto
  have us: "user_space u ?old r1 ps2 0 k"
    unfolding user_space_def sp u(2) using sp(1) f(13,14) sub by blast
  have hk: "k = (unat (heap_top (procs u i)) + PGSIZE - 1) div PGSIZE" "k \<le> 2 ^ 26" using f(10,11) iu(1) by simp_all
  have low: "ktables q \<subseteq> ?P \<and> child_map (trampoline (ksym s)) v q = 0" if "q < k" for q
    using that f(11) child_map_low [of q] by (auto simp: fork_tables_def)
  obtain t qs cp where t: "uvm_copy_pgtbl ?old r1 (heap_top (procs u i)) u = Inr t"
    "built 0 ?P t r1 qs (copied_map (kmem u) ?old cp 0 k (child_map (trampoline (ksym s)) v))" "from_pool r1 u ps2 t qs" "inj_on cp {0..<k}"
    "\<forall>q \<in> {0..<k}. cp q \<in> set ps2 \<and> cp q \<notin> pt_pages (kmem t) r1 \<union> set qs" "same_contents (kmem u) (kmem t) ?old cp 0 k"
    using uvm_copy_ok [OF u(1) low us hk] by blast
  have m: "procs t = procs u" "wait_lock t = wait_lock u" "kfs t = kfs u" "ksym t = ksym u" "khart t = khart u"
    "nextpid t = nextpid u" "pid_lock t = pid_lock u" "proczero t = proczero u" "korigin t = korigin u" "kst.more t = kst.more u"
    using more_kst [OF uvm_copy_pgtbl_more [OF t(1)]] uvm_copy_loop_hart [OF t(1) [unfolded uvm_copy_pgtbl_def]] iu(2) by (auto simp: hart_kept_def)
  have "inside n s t" using u0(3) m unfolding inside_def by simp (rule exI [of _ "section_done (khart s)"], simp)
  moreover have "forked i n k ps s t cp qs"
  proof -
    have d: "v \<notin> set ps1" "v \<noteq> r1" using pmem.pool_pages [OF f(8)] ps by auto
    have pg: "pt_pages (kmem t) r1 \<union> set qs \<subseteq> insert r1 (set ps1)" using t(3) u0(6,7) by (auto simp: from_pool_def)
    have inv: "vm_inv u r1 ps2" using u(1) by (simp add: built_def)
    have fr': "kmem t x = kmem s x" if "page_ok (ALLOC_BEGIN s) p" "p \<notin> set ps" "in_page p x" for p x
      using from_pool_page [OF t(3) inv _ _ that(3)] fr [OF that(1) _ that(3)] that(1,2) u(2) u0(6,7) ps by auto
    have "copied_map (kmem u) ?old cp 0 k M = copied_map (kmem s) ?old cp 0 k M" for M by (rule ext) (simp add: copied_map_def sp(3))
    moreover have "same_contents (kmem s) (kmem t) ?old cp 0 k"
      using t(6) f(14) sp(3) fr [OF _ _ in_page_offset] ps unfolding same_contents_def by auto
    moreover have "\<forall>q \<in> {0..<k}. cp q \<in> set ps - set qs \<and> cp q \<noteq> v" using t(5) u0(6) d(1) ps by auto
    moreover have "set qs \<subseteq> set ps" using pg ps by auto
    moreover have "ALLOC_BEGIN t = ALLOC_BEGIN s" using t(3) u(2) by (simp add: from_pool_def)
    ultimately show ?thesis using t(2,4) d pg fr' ps u0(4,5) m(1) unfolding forked_def Let_def by auto
  qed
  ultimately show ?thesis using u0(1,5) t(1) m(1) iu(1) by (intro exI [of _ u] exI [of _ t] exI [of _ cp] exI [of _ qs]) simp
qed

lemma slot_in_page: "j < 36 \<Longrightarrow> unat (x - (p + slot j)) < 8 \<Longrightarrow> in_page p x"
  using entry_in_page [of j x p] by (simp add: slot_def)

lemma trapframe_copied:
  assumes "unat v + PGSIZE < 2 ^ 64" "unat a + PGSIZE < 2 ^ 64" and "j < 36" "j \<noteq> 14"
  shows "load64 (store64 (memmove m v a (of_nat TF_SIZE)) (v + TF_a0) 0) (v + slot j) = load64 m (a + slot j)"
proof -
  have u: "unat (of_nat TF_SIZE :: uint32) = 288" by (simp add: layout)
  have "memmove m v a (of_nat TF_SIZE) = moved m v a 288"
    using memmove_moved [of a "of_nat TF_SIZE" v m] assms(1,2) unfolding u by (simp add: layout)
  moreover have "load64 (store64 m' (v + slot 14) 0) (v + slot j) = load64 m' (v + slot j)" for m'
    using assms(3,4) by (auto simp: store64_def intro!: load64_cong dest: slot_apart [of j 14])
  moreover have "unat (slot j) = 8 * j" using assms(3) by (simp add: slot_def unat_of_nat_small del: of_nat_mult)
  ultimately show ?thesis using load64_moved [of "slot j" 288 m v a] assms(3) unfolding slots by simp
qed

lemma frame_outside:
  assumes "unat v + PGSIZE < 2 ^ 64" "unat a + PGSIZE < 2 ^ 64" and x: "\<not> in_page v x"
  shows "store64 (memmove m v a (of_nat TF_SIZE)) (v + TF_a0) 0 x = m x"
proof -
  have u: "unat (of_nat TF_SIZE :: uint32) = 288" by (simp add: layout)
  have "memmove m v a (of_nat TF_SIZE) = moved m v a 288"
    using memmove_moved [of a "of_nat TF_SIZE" v m] assms(1,2) unfolding u by (simp add: layout)
  moreover have "\<not> unat (x - (v + TF_a0)) < 8" using x slot_in_page [of 14 x v] by (auto simp: slots)
  ultimately show ?thesis using x by (auto simp: store64_def moved_def in_page_def layout)
qed

text \<open>The state after a fork of process \<open>i\<close> into slot \<open>n\<close>, but for the memory: \<open>r\<close> is the new page table and \<open>v\<close> the new trap frame.\<close>

definition forked_proc :: "nat \<Rightarrow> nat \<Rightarrow> uint64 \<Rightarrow> uint64 \<Rightarrow> 'a kst_scheme \<Rightarrow> proc" where
  "forked_proc i n r v s = (new_proc (nextpid s) v r (fork_return_addr (ksym s)) (procs s n))
     \<lparr>parent := Some i, ustack_pages := ustack_pages (procs s i), ofile := merged (ofile (procs s i)) [0..<NOFILE] (ofile (procs s n)),
      priority := priority (procs s i), priority_boost := priority_boost (procs s i)\<rparr>"

definition fork_effect :: "nat \<Rightarrow> nat \<Rightarrow> uint64 \<Rightarrow> uint64 \<Rightarrow> 'a kst_scheme \<Rightarrow> 'a kst_scheme \<Rightarrow> bool" where
  "fork_effect i n r v s t \<longleftrightarrow> procs t = (procs s)(n := forked_proc i n r v s) \<and>
     kfs t = referenced (ofile (procs s i)) [0..<NOFILE] (kfs s) \<and> nextpid t = nextpid s + 1 \<and> proczero t = proczero s \<and>
     pid_lock t = unlocked (pid_lock s) \<and> wait_lock t = unlocked (wait_lock s) \<and> khart t = section_done (khart s) \<and>
     korigin t = korigin s \<and> ksym t = ksym s \<and> kst.more t = kst.more s"

lemma fork_steps:
  fixes s :: "'a kst_scheme"
  assumes rd: "fork_ready i n k ps s"
    and a: "proc_alloc (hdone s) = Inr (Some n, u)"
      "uvm_copy_pgtbl (pgtbl (procs u i)) (pgtbl (procs u n)) (heap_top (procs u i)) u = Inr s3" "procs s3 = procs u" "inside n s s3"
  shows "\<exists>t. proc_fork s = Inr (nextpid s, t) \<and> fork_effect i n (pgtbl (procs s3 n)) (tf (procs s3 n)) s t \<and>
    kmem t = store64 (memmove (kmem s3) (tf (procs s3 n)) (tf (procs s i)) (of_nat TF_SIZE)) (tf (procs s3 n) + TF_a0) 0 \<and>
    (\<forall>r qs. vm_inv (s3\<lparr>kmem := kmem t\<rparr>) r qs \<longrightarrow> vm_inv t r qs)"
proof -
  note f = fork_readyD [OF rd]
  have ni: "n \<noteq> i" and nN: "n < NPROC" using f(6,7) by (auto simp: first_free_def)
  obtain h where h0: "h = khart s \<or> h = section_done (khart s)" "khart s3 = push_off h"
      "procs s3 = (procs s)(n := new_proc (nextpid s) (tf (procs s3 n)) (pgtbl (procs s3 n)) (fork_return_addr (ksym s))
       ((procs s n)\<lparr>plk := (plk (procs s n))\<lparr>locked := True, cpuid := mycpuid h\<rparr>\<rparr>))"
    using a(4) unfolding inside_def by blast
  let ?v = "tf (procs s3 n)" and ?r = "pgtbl (procs s3 n)"
  let ?p = "(procs s n)\<lparr>plk := (plk (procs s n))\<lparr>locked := True, cpuid := mycpuid h\<rparr>\<rparr>"
  have n: "procs s3 n = new_proc (nextpid s) ?v ?r (fork_return_addr (ksym s)) ?p" using fun_cong [OF h0(3), of n] by (simp only: fun_upd_same)
  have h: "cpu_ok h" "section_done h = section_done (khart s)" "plk (procs s3 n) = plk ?p" "procs s3 i = procs s i"
    using h0(1) f(1) inside_other [OF a(4), of i] ni arg_cong [OF n, of plk] by (auto simp: quiet_def section_done_again new_proc_def)
  have e: "wait_lock s3 = wait_lock s" "kfs s3 = kfs s" "nextpid s3 = nextpid s + 1" "pid_lock s3 = unlocked (pid_lock s)" "ksym s3 = ksym s"
      "proczero s3 = proczero s" "korigin s3 = korigin s" "kst.more s3 = kst.more s" using a(4) by (auto simp: inside_def)
  have ul: "unlocked (plk (procs s n)) = plk (procs s n)" using quietD(1) [OF f(1) nN] by (rule idle_unlocked)
  define s4 where "s4 = tf_set n TF_a0 0 ((set_proc n (\<lambda>p. p\<lparr>ustack_pages := ustack_pages (procs s3 i)\<rparr>) s3)
      \<lparr>kmem := memmove (kmem s3) ?v (tf (procs s i)) (of_nat TF_SIZE)\<rparr>)"
  have s4: "s4 = s3\<lparr>procs := (procs s3)(n := (procs s3 n)\<lparr>ustack_pages := ustack_pages (procs s i)\<rparr>),
      kmem := store64 (memmove (kmem s3) ?v (tf (procs s i)) (of_nat TF_SIZE)) (?v + TF_a0) 0\<rparr>"
    using h(4) ni by (simp add: s4_def tf_set_def set_proc_def)
  let ?of = "ofile (procs s i)"
  define s5 where "s5 = set_proc n (\<lambda>p. p\<lparr>ofile := merged ?of [0..<NOFILE] (ofile p)\<rparr>) (s4\<lparr>kfs := referenced ?of [0..<NOFILE] (kfs s)\<rparr>)"
  have d: "dup_files i n [0..<NOFILE] s4 = Inr s5"
    using dup_files_ok [of "[0..<NOFILE]" s4 i n] f(17) ni h(4) e(2) by (simp add: s4 s5_def)
  have p5: "khart s5 = push_off h" "plk (procs s5 n) = (plk (procs s n))\<lparr>locked := True, cpuid := mycpuid h\<rparr>" "\<not> locked (wait_lock s5)"
      "pid (procs s5 n) = nextpid s" "procs s5 i = procs s i"
    using h0(2) h(3,4) e(1) f(3) ni arg_cong [OF n, of pid] by (simp_all add: s5_def s4 new_proc_def)
  define t where "t = set_proc n (\<lambda>p. p\<lparr>parent := Some i, priority := priority (procs s5 i), priority_boost := priority_boost (procs s5 i),
        pstate := RUNNABLE, plk := unlocked (plk (procs s n))\<rparr>) (s5\<lparr>wait_lock := unlocked (wait_lock s5), khart := section_done h\<rparr>)"
  obtain s6 s7 s8 s9 where l: "punlock n s5 = Inr s6" "wlock s6 = Inr s7"
      "wunlock (set_proc n (\<lambda>p. p\<lparr>parent := Some i, priority := priority (procs s7 i), priority_boost := priority_boost (procs s7 i)\<rparr>) s7) = Inr s8"
      "plock n s8 = Inr s9" "punlock n (set_proc n (\<lambda>p. p\<lparr>pstate := RUNNABLE\<rparr>) s9) = Inr t"
    using fork_tail [OF p5(1) h(1) p5(2,3), of i] ni unfolding t_def by blast
  have c: "cur s = Inr (i, hdone s)" using f(1,5) by (simp add: cur_def myproc_s_quiet quiet_def)
  have "proc_fork s = Inr (nextpid s, t)"
    using c a(1,2) d l h(4) ni p5(4) by (simp add: proc_fork_def Let_def dup_files_def s4_def)
  moreover have "procs t = (procs s)(n := forked_proc i n ?r ?v s)"
  proof
    fix j
    obtain v r where vr: "?v = v" "?r = r" by blast
    note pn = n [unfolded vr]
    show "procs t j = ((procs s)(n := forked_proc i n ?r ?v s)) j"
    proof (cases "j = n")
      case True
      then show ?thesis
        using ul p5(5) ni unfolding vr by (intro proc.equality) (simp_all add: t_def s5_def s4 forked_proc_def pn, simp_all add: new_proc_def)
    next
      case False
      then show ?thesis using inside_other [OF a(4), of j] by (simp add: t_def s5_def s4)
    qed
  qed
  moreover have "kfs t = referenced ?of [0..<NOFILE] (kfs s)" "nextpid t = nextpid s + 1" "proczero t = proczero s" "pid_lock t = unlocked (pid_lock s)"
    "wait_lock t = unlocked (wait_lock s)" "khart t = section_done (khart s)" "korigin t = korigin s" "ksym t = ksym s" "kst.more t = kst.more s"
    using e h(2) by (simp_all add: t_def s5_def s4)
  moreover have "kmem t = store64 (memmove (kmem s3) ?v (tf (procs s i)) (of_nat TF_SIZE)) (?v + TF_a0) 0" by (simp add: t_def s5_def s4)
  moreover have "vm_inv t r qs" if "vm_inv (s3\<lparr>kmem := kmem t\<rparr>) r qs" for r qs
    using that h(1) ni by (simp add: vm_inv_def pool_def t_def s5_def s4 set_proc_def)
  ultimately show ?thesis by (intro exI [of _ t]) (simp add: fork_effect_def)
qed

section \<open>A state that is ready\<close>

lemma space_with_page:
  "\<exists>(s :: kst) r ps d a. pool s ps \<and> 7 \<le> length ps \<and> pt_ok (ALLOC_BEGIN s) (kmem s) r \<and> pt_pages (kmem s) r \<inter> set ps = {} \<and>
    user_pte (kmem s) r 0 = pte_of d (PTE_R OR PTE_W OR PTE_U) \<and> page_ok (ALLOC_BEGIN s) d \<and> d \<notin> set ps \<and> page_ok (ALLOC_BEGIN s) a \<and> a \<notin> set ps"
proof -
  let ?P = "ktables 0" and ?b = "boot_kst (\<lambda>_. proc0)"
  obtain ps0 where ps0: "pool (pmem_init ?b) ps0" "14 \<le> length ps0"
    using pmem_init_room [of ?b 14] by (auto simp: boot_kst_def base_ok_def layout)
  obtain r ps1 where ps: "ps0 = r # ps1" "13 \<le> length ps1" using ps0(2) by (cases ps0) auto
  obtain s1 :: kst where s1: "vm_inv s1 r ps1" "\<And>va. leaf (kmem s1) r va = 0"
    using new_table [OF ps0(1) [unfolded ps(1)]] by (auto simp: Let_def)
  have c2: "finite ?P" "?P \<subseteq> paths" "card ?P = 2" by (simp_all add: ktables_def)
  have "card {is \<in> ?P. node (kmem s1) r is = None} \<le> card ?P" by (intro card_mono c2(1)) blast
  then have b1: "built (Suc (Suc 9)) ?P s1 r ps1 (\<lambda>_. 0)"
    using s1 ps(2) c2 unfolding built_def pt_room_def by simp
  obtain d ps2 and s2 :: kst where 2: "ps1 = d # ps2" "built (Suc 9) ?P s2 r ps2 (\<lambda>_. 0)" "kmem s2 = kmem s1" "d \<notin> set ps2" "ALLOC_BEGIN s2 = ALLOC_BEGIN s1"
    using take_page [OF b1] by blast
  obtain s3 :: kst and ps3 where 3: "built (Suc 9) ?P s3 r ps3 (region 0 1 d (PTE_R OR PTE_W OR PTE_U) (\<lambda>_. 0))" "from_pool r s2 ps2 s3 ps3"
    using map_single [OF 2(2), of 0 0 d "PTE_R OR PTE_W OR PTE_U"] by auto
  obtain a ps4 and s4 :: kst where 4: "ps3 = a # ps4" "built 9 ?P s4 r ps4 (region 0 1 d (PTE_R OR PTE_W OR PTE_U) (\<lambda>_. 0))" "a \<notin> set ps4" "ALLOC_BEGIN s4 = ALLOC_BEGIN s3"
    using take_page [OF 3(1)] by blast
  have inv: "vm_inv s4 r ps4" "9 \<le> length ps4" using 4(2) by (auto simp: built_def pt_room_def)
  have b: "ALLOC_BEGIN s4 = ALLOC_BEGIN s1" using 4(4) 3(2) 2(5) by (simp add: from_pool_def)
  have "vm_inv s3 r ps3" using 3(1) by (simp add: built_def)
  then have "page_ok (ALLOC_BEGIN s4) d" "page_ok (ALLOC_BEGIN s4) a" using vm_invD(4) [OF s1(1), of d] vm_invD(4) [of s3 r ps3 a] 2(1) 4(1,4) b by auto
  moreover have "d \<notin> set ps4" using 2(4) 3(2) 4(1) by (auto simp: from_pool_def)
  moreover have "user_pte (kmem s4) r 0 = pte_of d (PTE_R OR PTE_W OR PTE_U)" using 4(2) by (simp add: built_def user_pte_def region_def layout)
  ultimately show ?thesis using inv 4(3) by (intro exI [of _ s4] exI [of _ r] exI [of _ ps4] exI [of _ d] exI [of _ a]) (auto simp: vm_inv_def)
qed

lemma forkable_state: "\<exists>(s :: kst) ps. fork_ready 2 0 1 ps s \<and> nextpid s = 8 \<and> ofile (procs s 2) = [3 \<mapsto> 4] \<and> f_ref (ftable (kfs s) 4) = 1"
proof -
  obtain s :: kst and r ps d a where s: "pool s ps" "7 \<le> length ps" "pt_ok (ALLOC_BEGIN s) (kmem s) r" "pt_pages (kmem s) r \<inter> set ps = {}"
    "user_pte (kmem s) r 0 = pte_of d (PTE_R OR PTE_W OR PTE_U)" "page_ok (ALLOC_BEGIN s) d" "d \<notin> set ps" "page_ok (ALLOC_BEGIN s) a" "a \<notin> set ps"
    using space_with_page by metis
  let ?f = "PTE_R OR PTE_W OR PTE_U OR PTE_V"
  have fl: "PTE_R = 2 ^ 1" "PTE_W = 2 ^ 2" "PTE_U = 2 ^ 4" "PTE_V = 2 ^ 0" by (simp_all add: layout)
  have "\<not> bit ?f n" if "10 \<le> n" for n unfolding fl using that by (simp only: bit_or_iff bit_exp_iff) auto
  then have "PTE2PA (pte_of d (PTE_R OR PTE_W OR PTE_U)) = d" using PTE2PA_PA2PTE [OF s(6), of ?f] by (simp add: pte_of_def or.assoc)
  moreover have "bit (pte_of d (PTE_R OR PTE_W OR PTE_U)) 0" by (simp add: pte_of_def bit_or_iff PTE_V_def)
  moreover have "PGSIZE = unat (of_nat PGSIZE :: uint64)" by (simp add: layout)
  moreover define t where "t = s\<lparr>khart := hart_u, procs := (\<lambda>_. proc0)(2 := proc0\<lparr>pstate := RUNNING, pid := 7, tf := a, pgtbl := r,
      heap_top := of_nat PGSIZE, ofile := [3 \<mapsto> 4]\<rparr>), nextpid := 8, pid_lock := spinlock_init ''nextpid'', wait_lock := spinlock_init ''wait_lock'',
      kfs := set_file 4 (\<lambda>f. f\<lparr>f_ref := 1\<rparr>) (kfs s)\<rparr>"
  ultimately have "fork_ready 2 0 1 ps t"
    using s by (simp add: fork_ready_def first_free_def quiet_def proc0_def pool_def spinlock_init_def idle_def set_file_def NPROC_def layout)
  moreover have "nextpid t = 8 \<and> ofile (procs t 2) = [3 \<mapsto> 4] \<and> f_ref (ftable (kfs t) 4) = 1"
    by (simp add: t_def set_file_def)
  ultimately show ?thesis by blast
qed

section \<open>Fork\<close>

text \<open>\<^bold>\<open>C11\<close>: \<^verbatim>\<open>proc_fork\<close> succeeds in a state that is ready for it and returns the next pid. The child is the first free slot; it is runnable and has
  the caller as parent, its priority and boost, its size of the user stack and its open files, and returns 0 from the call. Its page table maps
  the trampoline, its own trap frame and, behind every page of the caller below the heap top, a page of its own from the pool of free pages with
  the same contents and flags; the rest of the trap frame is the caller's. \<open>fork_effect\<close> is the rest of the state: every file has one more reference for each
  descriptor that names it and is otherwise as before, \<^verbatim>\<open>nextpid\<close> is one larger, all locks are free and the interrupts as before, and the other processes,
  the fields of the slot that are not mentioned and the rest of the kernel are unchanged. The pages that are left free were free before, and
  nothing changes in the pages that were allocated before: parent and child share no memory.\<close>

theorem fork_correct:
  fixes s :: "'a kst_scheme"
  assumes rd: "fork_ready i n k ps s"
  shows "\<exists>t cp qs r v. proc_fork s = Inr (nextpid s, t) \<and> child_of i n s t \<and> fork_effect i n r v s t \<and>
    vm_inv t r qs \<and> set qs \<subseteq> set ps \<and> v \<in> set ps - set qs \<and> v \<notin> cp ` {0..<k} \<and>
    (\<forall>va < MAXVA. leaf (kmem t) r va =
       copied_map (kmem s) (pgtbl (procs s i)) cp 0 k (child_map (trampoline (ksym s)) v) (unat va div PGSIZE)) \<and>
    same_contents (kmem s) (kmem t) (pgtbl (procs s i)) cp 0 k \<and> inj_on cp {0..<k} \<and> cp ` {0..<k} \<subseteq> set ps - set qs \<and>
    (\<forall>j < 36. j \<noteq> 14 \<longrightarrow> tf_get n (slot j) t = tf_get i (slot j) s) \<and>
    (\<forall>p x. page_ok (ALLOC_BEGIN s) p \<and> p \<notin> set ps \<and> in_page p x \<longrightarrow> kmem t x = kmem s x)"
proof -
  note f = fork_readyD [OF rd]
  obtain u s3 cp qs where a: "proc_alloc (hdone s) = Inr (Some n, u)"
    "uvm_copy_pgtbl (pgtbl (procs u i)) (pgtbl (procs u n)) (heap_top (procs u i)) u = Inr s3" "procs s3 = procs u" "inside n s s3" "forked i n k ps s s3 cp qs"
    using fork_pages [OF rd] by blast
  let ?old = "pgtbl (procs s i)" and ?new = "pgtbl (procs s3 n)" and ?v = "tf (procs s3 n)"
  obtain t where t: "proc_fork s = Inr (nextpid s, t)" "fork_effect i n ?new ?v s t"
    "kmem t = store64 (memmove (kmem s3) ?v (tf (procs s i)) (of_nat TF_SIZE)) (?v + TF_a0) 0"
    "\<And>r qs. vm_inv (s3\<lparr>kmem := kmem t\<rparr>) r qs \<Longrightarrow> vm_inv t r qs"
    using fork_steps [OF rd a(1-4)] by blast
  have g: "built 0 (fork_tables k) s3 ?new qs (copied_map (kmem s) ?old cp 0 k (child_map (trampoline (ksym s)) ?v))"
    "same_contents (kmem s) (kmem s3) ?old cp 0 k" "inj_on cp {0..<k}" "?v \<in> set ps" "?v \<notin> pt_pages (kmem s3) ?new \<union> set qs"
    "\<And>q. q \<in> {0..<k} \<Longrightarrow> cp q \<in> set ps - set qs \<and> cp q \<noteq> ?v" "ALLOC_BEGIN s3 = ALLOC_BEGIN s"
    "\<And>p x. page_ok (ALLOC_BEGIN s) p \<Longrightarrow> p \<notin> set ps \<Longrightarrow> in_page p x \<Longrightarrow> kmem s3 x = kmem s x" "set qs \<subseteq> set ps"
    using a(5) unfolding forked_def Let_def by blast+
  have pp: "page_ok (ALLOC_BEGIN s) p" if "p \<in> set ps" for p using pmem.pool_pages [OF f(8)] that by simp
  have kt: "kmem t x = kmem s3 x" if "page_ok (ALLOC_BEGIN s) p" "p \<noteq> ?v" "in_page p x" for p x
  proof -
    have "\<not> in_page ?v x" using in_page_unique [OF that(1) pp [OF g(4)] that(3)] that(2) by blast
    then show ?thesis unfolding t(3) using frame_outside [OF page_ok_bound [OF pp [OF g(4)]] page_ok_bound [OF f(15)]] by simp
  qed
  have inv: "vm_inv s3 ?new qs" using g(1) by (simp add: built_def)
  have "kmem t x = kmem s3 x" if "p \<in> pt_pages (kmem s3) ?new \<union> set qs" "in_page p x" for p x
    using that g(5,7) vm_invD(4,5) [OF inv, of p] by (intro kt [of p]) auto
  then have b: "built 0 (fork_tables k) (s3\<lparr>kmem := kmem t\<rparr>) ?new qs (copied_map (kmem s) ?old cp 0 k (child_map (trampoline (ksym s)) ?v))"
    using built_write(1) [OF g(1), of "kmem t"] by blast
  then have "vm_inv t ?new qs" using t(4) by (simp add: built_def)
  moreover have "\<forall>va < MAXVA. leaf (kmem t) ?new va = copied_map (kmem s) ?old cp 0 k (child_map (trampoline (ksym s)) ?v) (unat va div PGSIZE)"
    using b by (simp add: built_def)
  moreover have "same_contents (kmem s) (kmem t) ?old cp 0 k"
    using g(2) kt [OF pp _ in_page_offset] g(6) unfolding same_contents_def by simp
  moreover have "tf_get n (slot j) t = tf_get i (slot j) s" if "j < 36" "j \<noteq> 14" for j
  proof -
    have "load64 (kmem s3) (tf (procs s i) + slot j) = load64 (kmem s) (tf (procs s i) + slot j)"
      using g(8) [OF f(15,16)] slot_in_page [OF that(1)] by (intro load64_cong) blast
    moreover have "tf (procs t n) = ?v" using t(2) by (simp add: fork_effect_def forked_proc_def new_proc_def)
    ultimately show ?thesis
      using trapframe_copied [OF page_ok_bound [OF pp [OF g(4)]] page_ok_bound [OF f(15)] that] t(3) by (simp add: tf_get_def)
  qed
  moreover have "\<forall>p x. page_ok (ALLOC_BEGIN s) p \<and> p \<notin> set ps \<and> in_page p x \<longrightarrow> kmem t x = kmem s x"
    using kt g(4,8) by metis
  moreover have nv: "?v \<notin> cp ` {0..<k}" using g(6) by force
  moreover have "child_of i n s t"
    using t(2,3) by (simp add: child_of_def fork_effect_def forked_proc_def new_proc_def tf_get_def)
  ultimately show ?thesis using t(1,2) g(3-6,9) nv
    by - (intro exI [of _ t] exI [of _ cp] exI [of _ qs], rule exI [of _ ?new], rule exI [of _ ?v], auto)
qed

text \<open>The state of \<open>forkable_state\<close>, in which process 2 has the descriptor 3 on the open file 4 and forks into slot 0.\<close>

theorem fork_correct_witness:
  "\<exists>(s :: kst) t r v. f_ref (ftable (kfs s) 4) = 1 \<and> proc_fork s = Inr (8, t) \<and> child_of 2 0 s t \<and> fork_effect 2 0 r v s t \<and>
     nextpid t = 9 \<and> f_ref (ftable (kfs t) 4) = 2"
proof -
  obtain s :: kst and ps where s: "fork_ready 2 0 1 ps s" "nextpid s = 8" "ofile (procs s 2) = [3 \<mapsto> 4]" "f_ref (ftable (kfs s) 4) = 1"
    using forkable_state by blast
  obtain t r v where t: "proc_fork s = Inr (8, t)" "child_of 2 0 s t" "fork_effect 2 0 r v s t"
    using fork_correct [OF s(1)] s(2) by auto
  have "count_list (map [3 \<mapsto> 4] [0..<NOFILE]) (Some (4 :: nat)) = 1" by (simp add: NOFILE_def upt_rec)
  then have "f_ref (ftable (kfs t) 4) = 2" using t(3) s(3,4) by (simp add: fork_effect_def referenced_def)
  moreover have "nextpid t = 9" using t(3) s(2) by (simp add: fork_effect_def)
  ultimately show ?thesis using s(4) t by blast
qed

end
