(* ===== verification/Initcode.thy ===== *)
theory Initcode
  imports User Fork
begin

text \<open>
  \<^verbatim>\<open>user/initcode.c\<close>, the program of the first process: it removes the files that earlier tests may have left, runs a test of
  the priority scheduler with five children, and loops for ever. A program is the tree of its system calls and their
  answers; the kernel is outside. The text it prints is in Chinese, here as the bytes of its UTF-8 encoding.
\<close>

section \<open>User programs\<close>

text \<open>The calls that the program makes: strings are given by their contents, \<^verbatim>\<open>wait\<close> by the value of the variable that it is
  to fill. An answer is the value returned and, for \<^verbatim>\<open>wait\<close>, the value of that variable afterwards.\<close>

datatype ucall = UPrint "uint8 list" | UUnlink "uint8 list" | UGetprior | USetprior int | UFork | UWait int | UYield | UExit int

type_synonym reply = "int \<times> int"

datatype 'a uprog = URet 'a | UCall ucall "reply \<Rightarrow> 'a uprog" | Forever | Fault

primrec ubind :: "'a uprog \<Rightarrow> ('a \<Rightarrow> 'b uprog) \<Rightarrow> 'b uprog" where
  "ubind (URet a) g = g a"
| "ubind (UCall c k) g = UCall c (\<lambda>r. ubind (k r) g)"
| "ubind Forever g = Forever"
| "ubind Fault g = Fault"

definition useq :: "'a uprog \<Rightarrow> 'b uprog \<Rightarrow> 'b uprog" where
  "useq p q = ubind p (\<lambda>_. q)"

definition ucall :: "ucall \<Rightarrow> int uprog" where
  "ucall c = UCall c (\<lambda>r. URet (fst r))"

fun uforeach :: "('b \<Rightarrow> 'a uprog) \<Rightarrow> 'b list \<Rightarrow> unit uprog" where
  "uforeach f [] = URet ()"
| "uforeach f (x # xs) = useq (f x) (uforeach f xs)"

text \<open>A list of calls whose results are ignored.\<close>

definition prints :: "uint8 list list \<Rightarrow> unit uprog" where
  "prints ms = uforeach (\<lambda>m. ucall (UPrint m)) ms"

section \<open>The messages\<close>

named_theorems messages \<open>the texts of the program\<close>

definition m_cleanup :: "uint8 list" where [messages]:
  "m_cleanup = cstr ''\<newline>'' @ [0xE6, 0xB8, 0x85, 0xE7, 0x90, 0x86, 0xE6, 0xB5, 0x8B, 0xE8, 0xAF, 0x95, 0xE7, 0x94, 0x9F, 0xE6, 0x88, 0x90, 0xE7, 0x9A, 0x84, 0xE6, 0x96, 0x87, 0xE4, 0xBB, 0xB6, 0xE5, 0x92, 0x8C, 0xE7, 0x9B, 0xAE, 0xE5, 0xBD, 0x95] @ cstr ''...\<newline>''"

definition m_title :: "uint8 list" where [messages]:
  "m_title = cstr ''=== '' @ [0xE4, 0xBC, 0x98, 0xE5, 0x85, 0x88, 0xE7, 0xBA, 0xA7, 0xE6, 0x97, 0xB6, 0xE9, 0x97, 0xB4, 0xE7, 0x89, 0x87, 0xE8, 0xBD, 0xAE, 0xE8, 0xBD, 0xAC, 0xE6, 0xB5, 0x8B, 0xE8, 0xAF, 0x95] @ cstr '' ===\<newline>\<newline>''"

definition m_initial :: "uint8 list" where [messages]:
  "m_initial = [0xE7, 0x88, 0xB6, 0xE8, 0xBF, 0x9B, 0xE7, 0xA8, 0x8B, 0xE5, 0x88, 0x9D, 0xE5, 0xA7, 0x8B, 0xE4, 0xBC, 0x98, 0xE5, 0x85, 0x88, 0xE7, 0xBA, 0xA7] @ cstr '': ''"

definition m_about :: "uint8 list" where [messages]:
  "m_about = [0xE8, 0xAF, 0xB4, 0xE6, 0x98, 0x8E] @ cstr '': '' @ [0xE5, 0xAD, 0x90, 0xE8, 0xBF, 0x9B, 0xE7, 0xA8, 0x8B] @ cstr '' A/B/C '' @ [0xE5, 0x85, 0xB7, 0xE6, 0x9C, 0x89, 0xE7, 0x9B, 0xB8, 0xE5, 0x90, 0x8C, 0xE4, 0xBC, 0x98, 0xE5, 0x85, 0x88, 0xE7, 0xBA, 0xA7, 0xEF, 0xBC, 0x8C, 0xE7, 0x94, 0xA8, 0xE4, 0xBA, 0x8E, 0xE8, 0xA7, 0x82, 0xE5, 0xAF, 0x9F, 0xE6, 0x97, 0xB6, 0xE9, 0x97, 0xB4, 0xE7, 0x89, 0x87, 0xE8, 0xBD, 0xAE, 0xE8, 0xBD, 0xAC, 0xE6, 0x95, 0x88, 0xE6, 0x9E, 0x9C, 0xEF, 0xBC, 0x9B] @ cstr ''D/E '' @ [0xE5, 0x88, 0x86, 0xE5, 0x88, 0xAB, 0xE5, 0xB1, 0x95, 0xE7, 0xA4, 0xBA, 0xE9, 0xAB, 0x98] @ cstr ''/'' @ [0xE4, 0xBD, 0x8E, 0xE4, 0xBC, 0x98, 0xE5, 0x85, 0x88, 0xE7, 0xBA, 0xA7, 0xE7, 0xA9, 0xBF, 0xE6, 0x8F, 0x92, 0xE3, 0x80, 0x82] @ cstr ''\<newline>\<newline>''"

definition m_prepare :: "uint8 list" where [messages]:
  "m_prepare = [0xE5, 0x87, 0x86, 0xE5, 0xA4, 0x87, 0xE5, 0x88, 0x9B, 0xE5, 0xBB, 0xBA, 0xE5, 0xAD, 0x90, 0xE8, 0xBF, 0x9B, 0xE7, 0xA8, 0x8B] @ cstr '' ''"

definition m_target :: "uint8 list" where [messages]:
  "m_target = cstr '', '' @ [0xE7, 0x9B, 0xAE, 0xE6, 0xA0, 0x87, 0xE4, 0xBC, 0x98, 0xE5, 0x85, 0x88, 0xE7, 0xBA, 0xA7] @ cstr ''=''"

definition m_fork_failed :: "uint8 list" where [messages]:
  "m_fork_failed = cstr ''fork '' @ [0xE5, 0xA4, 0xB1, 0xE8, 0xB4, 0xA5, 0xEF, 0xBC, 0x8C, 0xE7, 0xBB, 0x88, 0xE6, 0xAD, 0xA2, 0xE4, 0xBC, 0x98, 0xE5, 0x85, 0x88, 0xE7, 0xBA, 0xA7, 0xE6, 0xB5, 0x8B, 0xE8, 0xAF, 0x95] @ cstr ''\<newline>''"

definition m_child :: "uint8 list" where [messages]:
  "m_child = [0xE5, 0xAD, 0x90, 0xE8, 0xBF, 0x9B, 0xE7, 0xA8, 0x8B] @ cstr '' ''"

definition m_started :: "uint8 list" where [messages]:
  "m_started = cstr '' '' @ [0xE5, 0x90, 0xAF, 0xE5, 0x8A, 0xA8] @ cstr '', '' @ [0xE4, 0xBC, 0x98, 0xE5, 0x85, 0x88, 0xE7, 0xBA, 0xA7] @ cstr ''=''"

definition m_prio :: "uint8 list" where [messages]:
  "m_prio = cstr '' | '' @ [0xE4, 0xBC, 0x98, 0xE5, 0x85, 0x88, 0xE7, 0xBA, 0xA7] @ cstr ''=''"

definition m_round :: "uint8 list" where [messages]:
  "m_round = cstr ''] '' @ [0xE7, 0xAC, 0xAC] @ cstr '' ''"

definition m_running :: "uint8 list" where [messages]:
  "m_running = cstr '' '' @ [0xE8, 0xBD, 0xAE] @ cstr '' -> '' @ [0xE8, 0xBF, 0x90, 0xE8, 0xA1, 0x8C] @ cstr ''\<newline>''"

definition m_yield :: "uint8 list" where [messages]:
  "m_yield = cstr ''] '' @ [0xE8, 0xAE, 0xA9, 0xE5, 0x87, 0xBA] @ cstr '' CPU\<newline>''"

definition m_done :: "uint8 list" where [messages]:
  "m_done = cstr '' '' @ [0xE5, 0xAE, 0x8C, 0xE6, 0x88, 0x90, 0xE6, 0x89, 0x80, 0xE6, 0x9C, 0x89, 0xE8, 0xBD, 0xAE, 0xE6, 0xAC, 0xA1] @ cstr ''\<newline>''"

definition m_created :: "uint8 list" where [messages]:
  "m_created = [0xE7, 0x88, 0xB6, 0xE8, 0xBF, 0x9B, 0xE7, 0xA8, 0x8B, 0xE5, 0x88, 0x9B, 0xE5, 0xBB, 0xBA, 0xE4, 0xBA, 0x86] @ cstr '' PID=''"

definition m_the_child :: "uint8 list" where [messages]:
  "m_the_child = cstr '' '' @ [0xE7, 0x9A, 0x84, 0xE5, 0xAD, 0x90, 0xE8, 0xBF, 0x9B, 0xE7, 0xA8, 0x8B] @ cstr '' ''"

definition m_waiting :: "uint8 list" where [messages]:
  "m_waiting = cstr ''\<newline>'' @ [0xE7, 0x88, 0xB6, 0xE8, 0xBF, 0x9B, 0xE7, 0xA8, 0x8B, 0xE7, 0xAD, 0x89, 0xE5, 0xBE, 0x85, 0xE6, 0x89, 0x80, 0xE6, 0x9C, 0x89, 0xE5, 0xAD, 0x90, 0xE8, 0xBF, 0x9B, 0xE7, 0xA8, 0x8B, 0xE8, 0xBD, 0xAE, 0xE6, 0xB5, 0x81, 0xE8, 0xBF, 0x90, 0xE8, 0xA1, 0x8C] @ cstr ''...\<newline>''"

definition m_reaped :: "uint8 list" where [messages]:
  "m_reaped = [0xE5, 0x9B, 0x9E, 0xE6, 0x94, 0xB6, 0xE5, 0xAD, 0x90, 0xE8, 0xBF, 0x9B, 0xE7, 0xA8, 0x8B] @ cstr '' PID=''"

definition m_status :: "uint8 list" where [messages]:
  "m_status = cstr '', '' @ [0xE7, 0x8A, 0xB6, 0xE6, 0x80, 0x81] @ cstr ''=''"

definition m_still :: "uint8 list" where [messages]:
  "m_still = [0xE7, 0x88, 0xB6, 0xE8, 0xBF, 0x9B, 0xE7, 0xA8, 0x8B, 0xE4, 0xBC, 0x98, 0xE5, 0x85, 0x88, 0xE7, 0xBA, 0xA7, 0xE4, 0xBB, 0x8D, 0xE4, 0xB8, 0xBA] @ cstr '': ''"

definition m_end :: "uint8 list" where [messages]:
  "m_end = cstr ''=== '' @ [0xE4, 0xBC, 0x98, 0xE5, 0x85, 0x88, 0xE7, 0xBA, 0xA7, 0xE6, 0x97, 0xB6, 0xE9, 0x97, 0xB4, 0xE7, 0x89, 0x87, 0xE8, 0xBD, 0xAE, 0xE8, 0xBD, 0xAC, 0xE6, 0xB5, 0x8B, 0xE8, 0xAF, 0x95, 0xE7, 0xBB, 0x93, 0xE6, 0x9D, 0x9F] @ cstr '' ===\<newline>\<newline>''"

section \<open>Printing a number\<close>

text \<open>The loop \<^verbatim>\<open>while ( n > 0 )\<close> on the buffer of 20 bytes; \<open>None\<close> is a write behind it.\<close>

function digits_loop :: "int \<Rightarrow> uint8 list \<Rightarrow> uint8 list option" where
  "digits_loop n buf =
     (if n > 0 then
        if length buf < 20 then digits_loop (n div 10) (buf @ [word_of_int (48 + n mod 10)]) else None
      else Some buf)"
  by pat_completeness auto
termination
  by (relation "measure (\<lambda>(n, _). nat n)") auto

declare digits_loop.simps [simp del]

definition print_digits :: "int \<Rightarrow> unit uprog" where
  "print_digits n = (case digits_loop n [] of None \<Rightarrow> Fault | Some buf \<Rightarrow> prints (map (\<lambda>c. [c]) (rev buf)))"

text \<open>The negation of the smallest \<^verbatim>\<open>int\<close> is undefined.\<close>

definition print_int :: "int \<Rightarrow> unit uprog" where
  "print_int n =
     (if n = 0 then prints [cstr ''0'']
      else if n < 0 then useq (prints [cstr ''-'']) (if n = - (2 ^ 31) then Fault else print_digits (- n))
      else print_digits n)"

section \<open>Removing files\<close>

text \<open>The name that the loop builds in \<^verbatim>\<open>filename\<close>.\<close>

definition small_name :: "int \<Rightarrow> uint8 list" where
  "small_name i = cstr ''/small_'' @ (if i \<ge> 10 then [word_of_int (48 + i div 10)] else []) @ [word_of_int (48 + i mod 10)]"

definition cleanup_test_artifacts :: "unit uprog" where
  "cleanup_test_artifacts =
     useq (prints [m_cleanup])
     (useq (uforeach (\<lambda>path. ucall (UUnlink (cstr path)))
         [''/test'', ''/testfile'', ''/shared_file'', ''/crash_test'', ''/large_file'',
          ''/testdir/file1'', ''/testdir/file2'', ''/testdir'', ''/dir''])
      (uforeach (\<lambda>i. ucall (UUnlink (small_name (int i)))) [0..<30]))"

section \<open>The test of the scheduler\<close>

definition child_priority :: "int list" where
  "child_priority = [7, 7, 7, 11, 5]"

definition child_tag :: string where
  "child_tag = ''ABCDE''"

abbreviation newline :: "uint8 list" where
  "newline \<equiv> cstr ''\<newline>''"

text \<open>One round of a child. The empty loop that spins has no effect.\<close>

definition child_round :: "uint8 list \<Rightarrow> int \<Rightarrow> int \<Rightarrow> unit uprog" where
  "child_round tag_buf desired round =
     useq (prints [cstr ''  ['', tag_buf, m_prio])
     (useq (print_int desired)
     (useq (prints [m_round])
     (useq (print_int round)
     (useq (prints [m_running, cstr ''  ['', tag_buf, m_yield])
     (useq (ucall UYield) (URet ()))))))"

definition child_body :: "uint8 list \<Rightarrow> int \<Rightarrow> unit uprog" where
  "child_body tag_buf desired =
     useq (prints [m_child, tag_buf, m_started])
     (useq (print_int desired)
     (useq (prints [newline])
     (useq (uforeach (\<lambda>round. child_round tag_buf desired (int round)) [0..<4])
     (useq (prints [m_child, tag_buf, m_done])
     (useq (ucall (UExit 0)) (URet ()))))))"

text \<open>One turn of the loop that creates the children; \<open>False\<close> if the function returns after a fork that failed.\<close>

definition after_fork :: "int \<Rightarrow> uint8 list \<Rightarrow> int \<Rightarrow> int \<Rightarrow> bool uprog" where
  "after_fork base_priority tag_buf desired pid1 =
     (if pid1 < 0 then
        useq (prints [m_fork_failed]) (useq (ucall (USetprior base_priority)) (URet False))
      else
        useq (if pid1 = 0 then child_body tag_buf desired else URet ())
        (useq (ucall (USetprior base_priority))
        (useq (prints [m_created])
        (useq (print_int pid1)
        (useq (prints [m_the_child, tag_buf, newline]) (URet True))))))"

definition create_child :: "int \<Rightarrow> nat \<Rightarrow> bool uprog" where
  "create_child base_priority i =
     (let desired = child_priority ! i; tag_buf = cstr [child_tag ! i]
      in useq (prints [m_prepare, tag_buf, m_target])
         (useq (print_int desired)
         (useq (prints [newline])
         (useq (ucall (USetprior desired))
         (ubind (ucall UFork) (after_fork base_priority tag_buf desired))))))"

fun create_children :: "int \<Rightarrow> nat list \<Rightarrow> bool uprog" where
  "create_children base_priority [] = URet True"
| "create_children base_priority (i # is) =
     ubind (create_child base_priority i) (\<lambda>go. if go then create_children base_priority is else URet False)"

definition reap_child :: "unit uprog" where
  "reap_child =
     UCall (UWait 0) (\<lambda>(waited, status).
       useq (prints [m_reaped])
       (useq (print_int waited)
       (useq (prints [m_status])
       (useq (print_int status) (prints [newline])))))"

text \<open>What follows the creation of the children.\<close>

definition finish_test :: "unit uprog" where
  "finish_test =
     useq (prints [m_waiting])
     (useq (uforeach (\<lambda>_. reap_child) [0..<5])
     (useq (prints [m_still])
     (useq (ubind (ucall UGetprior) print_int) (prints [newline, m_end]))))"

definition run_test :: "int \<Rightarrow> unit uprog" where
  "run_test base_priority =
     useq (prints [m_initial])
     (useq (print_int base_priority)
     (useq (prints [newline, m_about])
     (ubind (create_children base_priority [0..<5]) (\<lambda>go. if go then finish_test else URet ()))))"

definition priority_scheduler_test :: "unit uprog" where
  "priority_scheduler_test = useq (prints [m_title]) (ubind (ucall UGetprior) run_test)"

definition initcode_main :: "unit uprog" where
  "initcode_main =
     useq (prints [cstr ''=== main() ===\<newline>\<newline>''])
     (useq cleanup_test_artifacts (useq priority_scheduler_test Forever))"

section \<open>What a process does\<close>

text \<open>The run of a program on a list of answers: the calls answered, and the program that is left. A call of \<^verbatim>\<open>exit\<close> is never answered.\<close>

fun urun :: "'a uprog \<Rightarrow> reply list \<Rightarrow> (ucall \<times> reply) list \<times> 'a uprog" where
  "urun (UCall (UExit n) k) rs = ([], UCall (UExit n) k)"
| "urun (UCall c k) (r # rs) = (case urun (k r) rs of (tr, q) \<Rightarrow> ((c, r) # tr, q))"
| "urun p rs = ([], p)"

fun observe :: "(ucall \<Rightarrow> reply \<Rightarrow> 's \<Rightarrow> 's option) \<Rightarrow> (ucall \<times> reply) list \<Rightarrow> 's \<Rightarrow> 's option" where
  "observe upd [] s = Some s"
| "observe upd ((c, r) # tr) s = (case upd c r s of None \<Rightarrow> None | Some t \<Rightarrow> observe upd tr t)"

fun calls_ok :: "(ucall \<Rightarrow> 's \<Rightarrow> bool) \<Rightarrow> (ucall \<Rightarrow> reply \<Rightarrow> 's \<Rightarrow> 's option) \<Rightarrow> (ucall \<times> reply) list \<Rightarrow> 's \<Rightarrow> bool" where
  "calls_ok allowed upd [] s = True"
| "calls_ok allowed upd ((c, r) # tr) s = (allowed c s \<and> (case upd c r s of None \<Rightarrow> True | Some t \<Rightarrow> calls_ok allowed upd tr t))"

text \<open>A program that has nothing more to ask.\<close>

fun ended :: "'a uprog \<Rightarrow> bool" where
  "ended (UCall (UExit n) k) = True"
| "ended (UCall c k) = False"
| "ended p = True"

text \<open>What the process has seen and done: its priority, the priorities at the forks that succeeded, whether a fork failed,
  whether it is a child, and how often it has yielded and waited.\<close>

record pview =
  vbase :: "int option"
  vprio :: int
  vforks :: "int list"
  vfailed :: bool
  vchild :: bool
  vyields :: nat
  vwaits :: nat

definition fresh_view :: pview where
  "fresh_view = \<lparr>vbase = None, vprio = 0, vforks = [], vfailed = False, vchild = False, vyields = 0, vwaits = 0\<rparr>"

definition in_prio :: "int \<Rightarrow> bool" where
  "in_prio n \<longleftrightarrow> PRIORITY_MIN \<le> n \<and> n \<le> PRIORITY_MAX"

text \<open>The effect of a call and its answer; \<open>None\<close> for an answer that the kernel does not give: results are \<^verbatim>\<open>int\<close>s other than the
  smallest, \<^verbatim>\<open>setprior\<close> accepts exactly the priorities in range and \<^verbatim>\<open>getprior\<close> returns the one in force.\<close>

fun view_step :: "ucall \<Rightarrow> reply \<Rightarrow> pview \<Rightarrow> pview option" where
  "view_step c (r, x) v =
     (if \<not> (- (2 ^ 31) < r \<and> r < 2 ^ 31 \<and> - (2 ^ 31) < x \<and> x < 2 ^ 31) then None
      else case c of
        UPrint m \<Rightarrow> Some v
      | UUnlink path \<Rightarrow> Some v
      | UGetprior \<Rightarrow>
          (case vbase v of
             None \<Rightarrow> if in_prio r then Some (v\<lparr>vbase := Some r, vprio := r\<rparr>) else None
           | Some b \<Rightarrow> if r = vprio v then Some v else None)
      | USetprior n \<Rightarrow> if (r = 0) = in_prio n then Some (if in_prio n then v\<lparr>vprio := n\<rparr> else v) else None
      | UFork \<Rightarrow> Some (if r < 0 then v\<lparr>vfailed := True\<rparr> else if r = 0 then v\<lparr>vchild := True\<rparr> else v\<lparr>vforks := vforks v @ [vprio v]\<rparr>)
      | UWait n \<Rightarrow> Some (v\<lparr>vwaits := vwaits v + 1\<rparr>)
      | UYield \<Rightarrow> Some (v\<lparr>vyields := vyields v + 1\<rparr>)
      | UExit n \<Rightarrow> None)"

text \<open>Messages that the kernel prints as they are: shorter than the 256 bytes it copies, without NUL and without \<^verbatim>\<open>%\<close>.\<close>

definition plain :: "uint8 list \<Rightarrow> bool" where
  "plain m \<longleftrightarrow> length m < 256 \<and> list_all (\<lambda>c. c \<noteq> 0 \<and> c \<noteq> of_char (CHR ''%'')) m"

text \<open>What is demanded of each call.\<close>

definition view_ok :: "ucall \<Rightarrow> pview \<Rightarrow> bool" where
  "view_ok c v =
     (case c of
        UPrint m \<Rightarrow> plain m
      | UUnlink path \<Rightarrow> plain path \<and> length path < 16
      | UGetprior \<Rightarrow> vbase v = None \<or> \<not> vchild v \<and> vforks v = child_priority
      | USetprior n \<Rightarrow> in_prio n
      | UFork \<Rightarrow> \<not> vchild v \<and> length (vforks v) < 5 \<and> vprio v = child_priority ! length (vforks v)
      | UWait n \<Rightarrow> \<not> vchild v \<and> vforks v = child_priority \<and> vwaits v < 5
      | UYield \<Rightarrow> vchild v
      | UExit n \<Rightarrow> n = 0 \<and> vchild v \<and> vyields v = 4 \<and> vprio v = child_priority ! length (vforks v))"

text \<open>And of the parent at the end.\<close>

definition parent_done :: "pview \<Rightarrow> bool" where
  "parent_done v \<longleftrightarrow> \<not> vchild v \<and> vbase v = Some (vprio v) \<and> (vfailed v \<or> vforks v = child_priority \<and> vwaits v = 5)"

text \<open>Total correctness of a program with an observer: every call is allowed in the state observed, and what is returned or left in
  the endless loop satisfies \<open>Q\<close> and \<open>F\<close>. There is no answer to \<^verbatim>\<open>exit\<close>.\<close>

primrec uwp :: "(ucall \<Rightarrow> 's \<Rightarrow> bool) \<Rightarrow> (ucall \<Rightarrow> reply \<Rightarrow> 's \<Rightarrow> 's option) \<Rightarrow> ('a \<Rightarrow> 's \<Rightarrow> bool) \<Rightarrow> ('s \<Rightarrow> bool) \<Rightarrow>
    'a uprog \<Rightarrow> 's \<Rightarrow> bool" where
  "uwp allowed upd Q F (URet a) s = Q a s"
| "uwp allowed upd Q F (UCall c k) s = (allowed c s \<and> ((\<exists>n. c = UExit n) \<or> (\<forall>r t. upd c r s = Some t \<longrightarrow> uwp allowed upd Q F (k r) t)))"
| "uwp allowed upd Q F Forever s = F s"
| "uwp allowed upd Q F Fault s = False"

section \<open>Rules\<close>

lemma uwp_bind: "uwp allowed upd Q F (ubind p g) s = uwp allowed upd (\<lambda>a. uwp allowed upd Q F (g a)) F p s"
  by (induction p arbitrary: s) auto

lemma uwp_seq: "uwp allowed upd Q F (useq p q) s = uwp allowed upd (\<lambda>_. uwp allowed upd Q F q) F p s"
  by (simp add: useq_def uwp_bind)

lemma uwp_call: "uwp allowed upd Q F (ucall c) s \<longleftrightarrow> allowed c s \<and> ((\<exists>n. c = UExit n) \<or> (\<forall>r t. upd c r s = Some t \<longrightarrow> Q (fst r) t))"
  by (simp add: ucall_def)

lemma messages_plain: "list_all plain [m_cleanup, m_title, m_initial, m_about, m_prepare, m_target, m_fork_failed, m_child, m_started,
    m_prio, m_round, m_running, m_yield, m_done, m_created, m_the_child, m_waiting, m_reaped, m_status, m_still, m_end]"
  by (simp add: plain_def messages cstr_def)

lemma ubind_assoc: "ubind (ubind p f) g = ubind p (\<lambda>a. ubind (f a) g)"
  by (induction p) auto

lemma prints_append: "useq (prints a) (prints b) = prints (a @ b)"
  unfolding prints_def by (induction a) (simp_all add: useq_def ubind_assoc)

lemma digit_char: "0 \<le> n \<Longrightarrow> n < 10 \<Longrightarrow> word_of_int (48 + n) = hexdigits ! nat n"
proof -
  assume "0 \<le> n" "n < 10"
  then have "n = 0 \<or> n = 1 \<or> n = 2 \<or> n = 3 \<or> n = 4 \<or> n = 5 \<or> n = 6 \<or> n = 7 \<or> n = 8 \<or> n = 9" by arith
  then show ?thesis by (elim disjE) (simp_all add: hexdigits_def cstr_def)
qed

lemma digits_loop_value:
  assumes "0 < n" "nat n < 10 ^ k" "length buf + k \<le> 20"
  shows "digits_loop n buf = Some (buf @ rev (num_text 10 (nat n)))"
  using assms
proof (induction k arbitrary: n buf)
  case (Suc k)
  let ?c = "word_of_int (48 + n mod 10) :: uint8"
  have c: "?c = hexdigits ! (nat n mod 10)" using Suc.prems(1) digit_char [of "n mod 10"] by (simp add: nat_mod_distrib)
  have step: "digits_loop n buf = digits_loop (n div 10) (buf @ [?c])"
    using Suc.prems by (subst digits_loop.simps) simp
  show ?case
  proof (cases "n < 10")
    case True
    then have "n div 10 = 0" using Suc.prems(1) by simp
    moreover have "num_text 10 (nat n) = [hexdigits ! nat n]" using True Suc.prems(1) by (subst num_text.simps) (simp add: nat_less_iff)
    moreover have "?c = hexdigits ! nat n" using True Suc.prems(1) c by (simp add: nat_less_iff)
    ultimately show ?thesis unfolding step by (simp only:) (simp add: digits_loop.simps)
  next
    case False
    have d: "nat (n div 10) = nat n div 10" using Suc.prems(1) by (simp add: nat_div_distrib)
    have "digits_loop (n div 10) (buf @ [hexdigits ! (nat n mod 10)]) =
        Some ((buf @ [hexdigits ! (nat n mod 10)]) @ rev (num_text 10 (nat (n div 10))))"
      by (rule Suc.IH) (use False Suc.prems in \<open>auto simp: d less_mult_imp_div_less\<close>)
    moreover have "num_text 10 (nat n) = num_text 10 (nat n div 10) @ [hexdigits ! (nat n mod 10)]"
      using False Suc.prems(1) by (subst num_text.simps) (simp add: nat_less_iff)
    ultimately show ?thesis unfolding step c d by simp
  qed
qed simp

lemma hexdigit_plain: "n < 10 \<Longrightarrow> plain [hexdigits ! n]"
proof -
  assume "n < 10"
  then have "n = 0 \<or> n = 1 \<or> n = 2 \<or> n = 3 \<or> n = 4 \<or> n = 5 \<or> n = 6 \<or> n = 7 \<or> n = 8 \<or> n = 9" by arith
  then show ?thesis by (elim disjE) (simp_all add: plain_def hexdigits_def cstr_def)
qed

lemma num_text_plain: "list_all plain (map (\<lambda>c. [c]) (num_text 10 n))"
proof (induction "10 :: nat" n rule: num_text.induct)
  case (1 n)
  then show ?case by (subst num_text.simps) (auto simp: hexdigit_plain)
qed

lemma print_digits_eq:
  assumes "0 < n" "n < 2 ^ 31"
  shows "print_digits n = prints (map (\<lambda>c. [c]) (num_text 10 (nat n)))"
proof -
  have "digits_loop n [] = Some ([] @ rev (num_text 10 (nat n)))"
    using assms by (intro digits_loop_value [where k = 10]) auto
  then show ?thesis by (simp add: print_digits_def)
qed

lemma print_int_eq:
  assumes "- (2 ^ 31) < n" "n < 2 ^ 31"
  shows "print_int n = prints (map (\<lambda>c. [c]) (int_text n))"
proof -
  consider "n = 0" | "n < 0" | "0 < n" by linarith
  then show ?thesis
  proof cases
    case 1
    then show ?thesis by (simp add: print_int_def int_text_def num_text.simps [of 10 0] hexdigits_def cstr_def)
  next
    case 2
    then show ?thesis using assms print_digits_eq [of "- n"] by (simp add: print_int_def int_text_def prints_append cstr_def)
  next
    case 3
    then show ?thesis using assms print_digits_eq [of n] by (simp add: print_int_def int_text_def)
  qed
qed

text \<open>For the smallest number the program leaves the defined behaviour of C after the sign.\<close>

lemma print_int_min: "print_int (- (2 ^ 31)) = useq (prints [cstr ''-'']) Fault"
  by (simp add: print_int_def)

text \<open>An observer that lets messages pass and takes no notice of them.\<close>

locale observer =
  fixes allowed :: "ucall \<Rightarrow> 's \<Rightarrow> bool" and upd :: "ucall \<Rightarrow> reply \<Rightarrow> 's \<Rightarrow> 's option"
  assumes print_ok: "plain m \<Longrightarrow> allowed (UPrint m) s"
    and print_upd: "upd (UPrint m) r s = Some t \<Longrightarrow> t = s"
begin

lemma wp_prints: "list_all plain ms \<Longrightarrow> Q () s \<Longrightarrow> uwp allowed upd Q F (prints ms) s"
  unfolding prints_def by (induction ms) (auto simp: uwp_seq uwp_call print_ok dest: print_upd)

lemma wp_print_int:
  assumes "- (2 ^ 31) < n" "n < 2 ^ 31" "Q () s"
  shows "uwp allowed upd Q F (print_int n) s"
  unfolding print_int_eq [OF assms(1,2)] int_text_def
  by (rule wp_prints) (simp_all add: assms num_text_plain, simp add: plain_def)

end

section \<open>Runs\<close>

lemma urun_Nil [simp]: "urun p [] = ([], p)"
  by (cases "(p, [] :: reply list)" rule: urun.cases) simp_all

lemma uwp_sound:
  assumes "uwp allowed upd Q F p s" and "urun p rs = (tr, q)" and "observe upd tr s = Some t"
  shows "uwp allowed upd Q F q t \<and> calls_ok allowed upd tr s"
  using assms
proof (induction rs arbitrary: p s tr)
  case Nil
  then show ?case by simp
next
  case (Cons r rs)
  show ?case
  proof (cases "\<exists>c k. p = UCall c k \<and> (\<forall>n. c \<noteq> UExit n)")
    case True
    then obtain c k where p: "p = UCall c k" "\<forall>n. c \<noteq> UExit n" by blast
    obtain tr' where u: "urun (k r) rs = (tr', q)" "tr = (c, r) # tr'"
      using Cons.prems(2) p by (cases c) (auto split: prod.splits)
    then obtain s' where s': "upd c r s = Some s'" "observe upd tr' s' = Some t" using Cons.prems(3) by (auto split: option.splits)
    have "uwp allowed upd Q F (k r) s'" "allowed c s" using Cons.prems(1) p s'(1) by (cases r, auto)+
    then show ?thesis using Cons.IH [OF _ u(1) s'(2)] u(2) s'(1) by simp
  next
    case False
    then have "urun p (r # rs) = ([], p)" by (cases p) auto
    then show ?thesis using Cons.prems by simp
  qed
qed

text \<open>Every run ends, whatever the answers.\<close>

lemma urun_ends: "\<exists>n tr q. urun p (map ans [i..<i + n]) = (tr, q) \<and> ended q"
proof (induction p arbitrary: i)
  case (UCall c k)
  show ?case
  proof (cases "\<exists>n. c = UExit n")
    case False
    obtain n tr q where n: "urun (k (ans i)) (map ans [Suc i..<Suc i + n]) = (tr, q)" "ended q" using UCall.IH [of "k (ans i)" "Suc i"] by auto
    have "[i..<i + Suc n] = i # [Suc i..<Suc i + n]" by (simp add: upt_conv_Cons del: upt_Suc)
    then have "urun (UCall c k) (map ans [i..<i + Suc n]) = ((c, ans i) # tr, q)"
      using False n(1) by (cases c) (simp_all del: upt_Suc)
    then show ?thesis using n(2) by blast
  qed auto
qed auto

section \<open>The children\<close>

interpretation seen: observer view_ok view_step
  by unfold_locales (auto simp: view_ok_def split: if_splits)

lemma wp_call:
  assumes "view_ok c v" and "\<And>n. c \<noteq> UExit n" and "\<And>r t. view_step c r v = Some t \<Longrightarrow> Q (fst r) t"
  shows "uwp view_ok view_step Q F (ucall c) v"
  using assms by (auto simp: uwp_call)

lemma wp_foreach:
  assumes "\<And>x. x \<in> set xs \<Longrightarrow> view_ok (f x) v" and "\<And>x. x \<in> set xs \<Longrightarrow> (\<exists>p. f x = UUnlink p)" and "Q () v"
  shows "uwp view_ok view_step Q F (uforeach (\<lambda>x. ucall (f x)) xs) v"
  using assms
proof (induction xs)
  case (Cons x xs)
  then obtain p where p: "f x = UUnlink p" by auto
  have "view_ok (UUnlink p) v" using Cons.prems(1) [of x] p by simp
  then show ?case using Cons by (auto simp: uwp_seq uwp_call p split: if_splits)
qed simp

lemma small_name_plain: "0 \<le> i \<Longrightarrow> i < 30 \<Longrightarrow> plain (small_name i) \<and> length (small_name i) < 16"
proof -
  assume i: "0 \<le> i" "i < 30"
  have "word_of_int (48 + i mod 10) = hexdigits ! nat (i mod 10)" by (rule digit_char) simp_all
  moreover have "word_of_int (48 + i div 10) = hexdigits ! nat (i div 10)" using i by (intro digit_char) auto
  moreover have "plain [hexdigits ! nat (i mod 10)]" "plain [hexdigits ! nat (i div 10)]"
    using i by (auto intro!: hexdigit_plain)
  ultimately show ?thesis unfolding small_name_def by (simp only:) (simp add: plain_def cstr_def)
qed

lemma cleanup_wp: "Q () v \<Longrightarrow> uwp view_ok view_step Q F cleanup_test_artifacts v"
  unfolding cleanup_test_artifacts_def uwp_seq
  using messages_plain small_name_plain
  by (intro seen.wp_prints wp_foreach) (auto simp: view_ok_def plain_def cstr_def)

abbreviation creating :: "int \<Rightarrow> int list \<Rightarrow> pview" where
  "creating b fs \<equiv> \<lparr>vbase = Some b, vprio = b, vforks = fs, vfailed = False, vchild = False, vyields = 0, vwaits = 0\<rparr>"

lemma plains: "plain m_cleanup" "plain m_title" "plain m_initial" "plain m_about" "plain m_prepare" "plain m_target"
    "plain m_fork_failed" "plain m_child" "plain m_started" "plain m_prio" "plain m_round" "plain m_running" "plain m_yield"
    "plain m_done" "plain m_created" "plain m_the_child" "plain m_waiting" "plain m_reaped" "plain m_status" "plain m_still" "plain m_end"
    "plain newline" "plain (cstr ''  ['')"
  using messages_plain by (simp_all add: plain_def cstr_def)

lemma tag_plain: "i < 5 \<Longrightarrow> plain (cstr [child_tag ! i])"
proof -
  assume "i < 5"
  then have "i = 0 \<or> i = 1 \<or> i = 2 \<or> i = 3 \<or> i = 4" by arith
  then show ?thesis by (elim disjE) (simp_all add: plain_def cstr_def child_tag_def)
qed

lemma child_round_wp:
  assumes "plain tag" "in_prio d" "0 \<le> r" "r < 100" "vchild v" "Q () (v\<lparr>vyields := vyields v + 1\<rparr>)"
  shows "uwp view_ok view_step Q F (child_round tag d r) v"
  unfolding child_round_def uwp_seq
  by (intro seen.wp_prints seen.wp_print_int wp_call)
    (use assms plains in \<open>auto simp: in_prio_def layout view_ok_def split: if_splits\<close>)

lemma rounds_wp:
  assumes "plain tag" "in_prio d" "vchild v" "\<forall>x \<in> set rs. x < 100" "Q () (v\<lparr>vyields := vyields v + length rs\<rparr>)"
  shows "uwp view_ok view_step Q F (uforeach (\<lambda>round. child_round tag d (int round)) rs) v"
  using assms by (induction rs arbitrary: v) (simp_all add: uwp_seq child_round_wp)

text \<open>A child never comes back from its part.\<close>

lemma child_wp:
  assumes "plain tag" "in_prio d" "vchild v" "vyields v = 0" "d = vprio v" "vprio v = child_priority ! length (vforks v)"
  shows "uwp view_ok view_step Q F (child_body tag d) v"
  unfolding child_body_def uwp_seq
  by (intro seen.wp_prints seen.wp_print_int rounds_wp)
    (use assms plains in \<open>auto simp: in_prio_def layout view_ok_def uwp_call intro!: seen.wp_prints\<close>)

lemma child_priority_in: "i < 5 \<Longrightarrow> in_prio (child_priority ! i)"
proof -
  assume "i < 5"
  then have "i = 0 \<or> i = 1 \<or> i = 2 \<or> i = 3 \<or> i = 4" by arith
  then show ?thesis by (elim disjE) (simp_all add: child_priority_def in_prio_def layout)
qed

lemma setprior_step: "in_prio n \<Longrightarrow> view_step (USetprior n) r v = Some t \<Longrightarrow> t = v\<lparr>vprio := n\<rparr>"
  by (cases r) (auto split: if_splits)

lemma wp_seqI: "uwp allowed upd (\<lambda>_. uwp allowed upd Q F q) F p s \<Longrightarrow> uwp allowed upd Q F (useq p q) s"
  by (simp add: uwp_seq)

lemma after_fork_wp:
  assumes b: "in_prio b" and i: "length fs = i" "i < 5"
    and t: "Q True (creating b (fs @ [child_priority ! i]))" and f: "Q False ((creating b fs)\<lparr>vfailed := True\<rparr>)"
    and st: "view_step UFork r ((creating b fs)\<lparr>vprio := child_priority ! i\<rparr>) = Some w"
  shows "uwp view_ok view_step Q F (after_fork b (cstr [child_tag ! i]) (child_priority ! i) (fst r)) w"
proof -
  obtain c x where p: "r = (c, x)" by (cases r)
  then have rg: "- (2 ^ 31) < c" "c < 2 ^ 31" using st by (auto split: if_splits)
  note tag = tag_plain [OF i(2)]
  consider "c < 0" | "c = 0" | "0 < c" by linarith
  then show ?thesis
  proof cases
    case 1
    then have "w = (creating b fs)\<lparr>vprio := child_priority ! i, vfailed := True\<rparr>" using st p by (auto split: if_splits)
    then show ?thesis using p 1 b f plains
      by (auto simp: after_fork_def view_ok_def uwp_seq intro!: wp_call seen.wp_prints dest!: setprior_step [OF b])
  next
    case 2
    then have "w = (creating b fs)\<lparr>vprio := child_priority ! i, vchild := True\<rparr>" using st p by (auto split: if_splits)
    then show ?thesis using p 2 i tag child_priority_in [OF i(2)] by (simp add: after_fork_def uwp_seq) (rule child_wp, simp_all)
  next
    case 3
    then have w: "w = (creating b fs)\<lparr>vprio := child_priority ! i, vforks := fs @ [child_priority ! i]\<rparr>" using st p by (auto split: if_splits)
    then show ?thesis using p 3 b t rg tag plains
      by (auto simp: after_fork_def view_ok_def uwp_seq intro!: wp_call seen.wp_prints seen.wp_print_int dest!: setprior_step [OF b])
  qed
qed

lemma create_child_wp:
  assumes b: "in_prio b" and i: "length fs = i" "i < 5"
    and t: "Q True (creating b (fs @ [child_priority ! i]))" and f: "Q False ((creating b fs)\<lparr>vfailed := True\<rparr>)"
  shows "uwp view_ok view_step Q F (create_child b i) (creating b fs)"
proof -
  let ?d = "child_priority ! i" and ?tag = "cstr [child_tag ! i]"
  note d = child_priority_in [OF i(2)]
  have r: "- (2 ^ 31) < ?d" "?d < 2 ^ 31" using d by (simp_all add: in_prio_def layout)
  have "uwp view_ok view_step (\<lambda>c. uwp view_ok view_step Q F (after_fork b ?tag ?d c)) F (ucall UFork) ((creating b fs)\<lparr>vprio := ?d\<rparr>)"
    by (rule wp_call, use i in \<open>simp add: view_ok_def\<close>, simp, rule after_fork_wp [OF b i t f])
  then have "uwp view_ok view_step (\<lambda>_. uwp view_ok view_step Q F (ubind (ucall UFork) (after_fork b ?tag ?d))) F (ucall (USetprior ?d)) (creating b fs)"
    by (intro wp_call) (use d in \<open>auto simp: uwp_bind view_ok_def dest!: setprior_step [OF d]\<close>)
  then show ?thesis
    unfolding create_child_def Let_def
    by (intro wp_seqI seen.wp_prints seen.wp_print_int r) (use plains tag_plain [OF i(2)] in simp_all)
qed

lemma length_child_priority: "length child_priority = 5"
  by (simp add: child_priority_def)

lemma create_children_wp:
  assumes "in_prio b" "fs = take i child_priority" "is = [i..<5]" "i \<le> 5"
    and "Q True (creating b child_priority)" and "\<And>fs. Q False ((creating b fs)\<lparr>vfailed := True\<rparr>)"
  shows "uwp view_ok view_step Q F (create_children b is) (creating b fs)"
  using assms
proof (induction "is" arbitrary: i fs)
  case Nil
  then have "i = 5" using upt_eq_Nil_conv [of i 5] by auto
  then show ?case using Nil by (simp add: child_priority_def)
next
  case (Cons j js)
  have i: "i < 5" "j = i" "js = [Suc i..<5]" using Cons.prems(3) [symmetric] unfolding upt_eq_Cons_conv by auto
  have l: "length fs = i" "fs @ [child_priority ! i] = take (Suc i) child_priority"
    using Cons.prems(2) i(1) take_Suc_conv_app_nth [of i child_priority] by (simp_all add: length_child_priority)
  have "uwp view_ok view_step Q F (create_children b js) (creating b (fs @ [child_priority ! i]))"
    using Cons.prems(1,5,6) i l by (intro Cons.IH [of _ "Suc i"]) simp_all
  then show ?case using Cons.prems(1,6) i l(1) by (auto simp: uwp_bind intro: create_child_wp)
qed

lemma reap_wp:
  assumes "\<not> vchild v" "vforks v = child_priority" "vwaits v < 5" "Q () (v\<lparr>vwaits := vwaits v + 1\<rparr>)"
  shows "uwp view_ok view_step Q F reap_child v"
  unfolding reap_child_def using assms plains
  by (auto simp: uwp_seq view_ok_def intro!: seen.wp_prints seen.wp_print_int split: if_splits)

lemma reaps_wp:
  assumes "\<not> vchild v" "vforks v = child_priority" "vwaits v + length xs \<le> 5" "Q () (v\<lparr>vwaits := vwaits v + length xs\<rparr>)"
  shows "uwp view_ok view_step Q F (uforeach (\<lambda>_. reap_child) xs) v"
  using assms by (induction xs arbitrary: v) (simp_all add: uwp_seq reap_wp)

lemma finish_wp:
  assumes b: "in_prio b" and Q: "\<And>v. parent_done v \<Longrightarrow> Q () v"
  shows "uwp view_ok view_step Q F finish_test (creating b child_priority)"
proof -
  let ?v = "(creating b child_priority)\<lparr>vwaits := 5\<rparr>"
  have "uwp view_ok view_step Q F (useq (ubind (ucall UGetprior) print_int) (prints [newline, m_end])) ?v"
    using b Q [of ?v] plains
    by (auto simp: uwp_seq uwp_bind view_ok_def parent_done_def in_prio_def layout split: if_splits
        intro!: wp_call seen.wp_prints seen.wp_print_int)
  then show ?thesis
    unfolding finish_test_def uwp_seq [where p = "prints [m_waiting]"] uwp_seq [where p = "uforeach (\<lambda>_. reap_child) [0..<5]"]
      uwp_seq [where p = "prints [m_still]"]
    by (intro seen.wp_prints reaps_wp) (use plains in simp_all)
qed

lemma run_test_wp:
  assumes b: "in_prio b" and Q: "\<And>v. parent_done v \<Longrightarrow> Q () v"
  shows "uwp view_ok view_step Q F (run_test b) (creating b [])"
proof -
  have "uwp view_ok view_step Q F (ubind (create_children b [0..<5]) (\<lambda>go. if go then finish_test else URet ())) (creating b [])"
    unfolding uwp_bind
    by (rule create_children_wp [OF b, of _ 0]) (use finish_wp [OF b, of Q] Q in \<open>simp_all add: parent_done_def\<close>)
  then show ?thesis unfolding run_test_def using b
    by (intro wp_seqI seen.wp_prints seen.wp_print_int) (use plains in \<open>simp_all add: in_prio_def layout\<close>)
qed

lemma test_wp:
  assumes Q: "\<And>v. parent_done v \<Longrightarrow> Q () v"
  shows "uwp view_ok view_step Q F priority_scheduler_test fresh_view"
proof -
  have "uwp view_ok view_step (\<lambda>b. uwp view_ok view_step Q F (run_test b)) F (ucall UGetprior) fresh_view"
  proof (rule wp_call)
    fix r t assume "view_step UGetprior r fresh_view = Some t"
    then have "in_prio (fst r)" "t = creating (fst r) []" by (cases r, auto simp: fresh_view_def split: if_splits)+
    then show "uwp view_ok view_step Q F (run_test (fst r)) t" using run_test_wp [of "fst r" Q F] Q by simp
  qed (simp_all add: view_ok_def fresh_view_def)
  then show ?thesis unfolding priority_scheduler_test_def
    by (intro wp_seqI seen.wp_prints) (use plains in \<open>simp_all add: uwp_bind\<close>)
qed

lemma main_wp: "uwp view_ok view_step (\<lambda>_ _. False) parent_done initcode_main fresh_view"
  unfolding initcode_main_def
  by (intro wp_seqI seen.wp_prints cleanup_wp test_wp) (simp_all add: plain_def cstr_def fresh_view_def)

text \<open>The kernel's side of the contract: \<^verbatim>\<open>setprior\<close> accepts exactly the priorities in range, and a process forked afterwards starts with
  the priority set.\<close>

lemma setprior_contract:
  assumes "cpu_ok (khart s)" "cpu_proc (mycpu (khart s)) = Some i"
  shows "proc_set_priority n s =
    Inr (if in_prio n then (0, set_proc i (\<lambda>p. p\<lparr>priority := n, priority_boost := 0\<rparr>) (hdone s)) else (-1, s))"
  using assms by (simp add: proc_set_priority_def in_prio_def myproc_s_quiet)

lemma child_inherits:
  assumes "cpu_ok (khart s)" "cpu_proc (mycpu (khart s)) = Some i" "pstate (procs s i) \<noteq> UNUSED" "in_prio n"
    and "proc_set_priority n s = Inr (v, s1)" "proc_fork s1 = Inr (r, t)" "r \<noteq> -1"
  shows "\<exists>j < NPROC. pid (procs t j) = r \<and> parent (procs t j) = Some i \<and> priority (procs t j) = n \<and> priority_boost (procs t j) = 0"
proof -
  have s1: "s1 = set_proc i (\<lambda>p. p\<lparr>priority := n, priority_boost := 0\<rparr>) (hdone s)"
    using setprior_contract [OF assms(1,2), of n] assms(4,5) by simp
  then have "cpu_proc (mycpu (khart s1)) = Some i" "pstate (procs s1 i) \<noteq> UNUSED" using assms(2,3) by simp_all
  then obtain j where "j < NPROC" "r = nextpid s1" "child_of i j s1 t" using fork_child [OF assms(6) _ _ assms(7)] by blast
  then show ?thesis using s1 by (intro exI [of _ j]) (simp add: child_of_def)
qed

lemma calls_ok_print: "calls_ok view_ok upd tr s \<Longrightarrow> observe upd tr s = Some t \<Longrightarrow> (UPrint m, r) \<in> set tr \<Longrightarrow> plain m"
  by (induction tr arbitrary: s) (auto simp: view_ok_def split: option.splits)

lemma format_plain: "plain m \<Longrightarrow> format m [] = Some m"
proof -
  have "list_all (\<lambda>c. c \<noteq> of_char (CHR ''%'')) m \<Longrightarrow> format m as = Some m" for as
    by (induction m as rule: format.induct) simp_all
  then show "plain m \<Longrightarrow> format m [] = Some m" by (simp add: plain_def list_all_iff)
qed

lemma kstring_plain:
  assumes "length m < k" "\<forall>c \<in> set m. c \<noteq> 0" "\<forall>j < length m. mem (a + of_nat j) = m ! j" "mem (a + of_nat (length m)) = 0"
  shows "kstring k a mem = Some m"
  using assms
proof (induction m arbitrary: k a)
  case Nil
  then show ?case by (cases k) simp_all
next
  case (Cons c m)
  obtain k' where k: "k = Suc k'" using Cons.prems(1) by (cases k) auto
  have "mem (a + 1 + of_nat j) = m ! j" if "j < length m" for j
    using Cons.prems(3) [rule_format, of "Suc j"] that by (simp add: algebra_simps)
  moreover have "mem (a + 1 + of_nat (length m)) = 0" using Cons.prems(4) by (simp add: algebra_simps)
  ultimately have "kstring k' (a + 1) mem = Some m" using Cons.prems(1,2) k by (intro Cons.IH) auto
  then show ?case using Cons.prems(2) Cons.prems(3) [rule_format, of 0] k by simp
qed

lemma zero_answers:
  assumes "uwp view_ok view_step Q F p v" and "vforks v = []" and "urun p rs = (tr, q)" and "set rs \<subseteq> {(0, 0)}"
  shows "observe view_step tr v \<noteq> None"
  using assms
proof (induction rs arbitrary: p v tr)
  case Nil
  then show ?case by simp
next
  case (Cons r rs)
  show ?case
  proof (cases "\<exists>c k. p = UCall c k \<and> (\<forall>n. c \<noteq> UExit n)")
    case True
    then obtain c k where p: "p = UCall c k" "\<forall>n. c \<noteq> UExit n" by blast
    obtain tr' where u: "urun (k r) rs = (tr', q)" "tr = (c, r) # tr'"
      using Cons.prems(3) p by (cases c) (auto split: prod.splits)
    have r: "r = (0, 0)" using Cons.prems(4) by simp
    have allowed: "view_ok c v" "\<And>t. view_step c (0, 0) v = Some t \<Longrightarrow> uwp view_ok view_step Q F (k r) t"
      using Cons.prems(1) p r by auto
    obtain t where t: "view_step c (0, 0) v = Some t" "vforks t = []"
      using allowed(1) p(2) Cons.prems(2) by (cases c) (auto simp: view_ok_def child_priority_def in_prio_def layout split: option.splits)
    show ?thesis using Cons.IH [OF allowed(2) [OF t(1)] t(2) u(1)] Cons.prems(4) t(1) u(2) r by simp
  next
    case False
    then have "urun p (r # rs) = ([], p)" by (cases p) auto
    then show ?thesis using Cons.prems by simp
  qed
qed

text \<open>\<^bold>\<open>C18\<close>: whatever the kernel answers within its contract, the first process and each of its children come, after finitely many calls, to where
  they belong. The parent reaches the endless loop and never calls \<^verbatim>\<open>exit\<close>; its priority is again the one it started with; either a fork
  failed, or it has made five children at the priorities 7, 7, 7, 11, 5, in this order, and waited for five. A child, which has got 0
  from the fork, runs at the priority meant for it, yields four times, and calls \<^verbatim>\<open>exit(0)\<close>.\<close>

theorem first_process_roles:
  assumes k: "\<And>n. observe view_step (fst (urun initcode_main (map ans [0..<n]))) fresh_view \<noteq> None"
  shows "\<exists>n tr q v. urun initcode_main (map ans [0..<n]) = (tr, q) \<and> observe view_step tr fresh_view = Some v \<and>
    (q = Forever \<and> parent_done v \<or> (\<exists>k. q = UCall (UExit 0) k \<and> vchild v \<and> vyields v = 4 \<and> vprio v = child_priority ! length (vforks v)))"
proof -
  obtain n tr q where n: "urun initcode_main (map ans [0..<n]) = (tr, q)" "ended q"
    using urun_ends [of initcode_main ans 0] by auto
  then obtain v where v: "observe view_step tr fresh_view = Some v" using k [of n] by auto
  have "uwp view_ok view_step (\<lambda>_ _. False) parent_done q v" using uwp_sound [OF main_wp n(1) v] by simp
  then have "q = Forever \<and> parent_done v \<or> (\<exists>k. q = UCall (UExit 0) k \<and> vchild v \<and> vyields v = 4 \<and> vprio v = child_priority ! length (vforks v))"
    using n(2) by (cases q rule: ended.cases) (auto simp: view_ok_def)
  then show ?thesis using n(1) v by blast
qed

theorem first_process_roles_witness:
  "\<exists>n tr q v. urun initcode_main (map (\<lambda>_. (0, 0)) [0..<n]) = (tr, q) \<and> observe view_step tr fresh_view = Some v \<and>
    (q = Forever \<and> parent_done v \<or> (\<exists>k. q = UCall (UExit 0) k \<and> vchild v \<and> vyields v = 4 \<and> vprio v = child_priority ! length (vforks v)))"
proof (rule first_process_roles)
  fix n :: nat
  obtain tr q where u: "urun initcode_main (map (\<lambda>_. (0, 0)) [0..<n]) = (tr, q)" by (cases "urun initcode_main (map (\<lambda>_. (0, 0)) [0..<n])")
  have "observe view_step tr fresh_view \<noteq> None" by (rule zero_answers [OF main_wp _ u]) (auto simp: fresh_view_def)
  then show "observe view_step (fst (urun initcode_main (map (\<lambda>_. (0, 0)) [0..<n]))) fresh_view \<noteq> None" using u by simp
qed

text \<open>\<^bold>\<open>C19\<close>: every message that the first process or a child prints is safe for the kernel. \<^verbatim>\<open>sys_print\<close> copies at most 256 bytes and
  uses them as a format without arguments; each message ends within these bytes and, once it stands in kernel memory, is read back
  in full and is sent to the console byte by byte.\<close>

theorem first_process_prints:
  assumes run: "urun initcode_main rs = (tr, q)" "observe view_step tr fresh_view = Some v" "(UPrint m, r) \<in> set tr"
    and a: "\<forall>j < length m. mem (a + of_nat j) = m ! j" "mem (a + of_nat (length m)) = 0"
    and c: "cpu_ok (chart c)" "\<not> locked (print_lk c)" "length m \<le> tx_room c"
  shows "kstring 256 a mem = Some m \<and> (\<exists>d. printf (Some m) [] c = Inr d \<and> uart_w d = uart_w c @ map (Pair THR) m \<and> \<not> locked (print_lk d))"
proof -
  have "calls_ok view_ok view_step tr fresh_view" using uwp_sound [OF main_wp run(1,2)] by simp
  then have m: "plain m" using calls_ok_print run(2,3) by blast
  have "kstring 256 a mem = Some m" using m a by (intro kstring_plain) (auto simp: plain_def list_all_iff)
  then show ?thesis using printf_state [OF format_plain [OF m] c] by blast
qed

theorem first_process_prints_witness:
  "\<exists>q. urun initcode_main [(0, 0)] = ([(UPrint (cstr ''=== main() ===\<newline>\<newline>''), (0, 0))], q) \<and>
    kstring 256 0 (\<lambda>x. if unat x < 16 then cstr ''=== main() ===\<newline>\<newline>'' ! unat x else 0) = Some (cstr ''=== main() ===\<newline>\<newline>'')"
proof -
  let ?m = "cstr ''=== main() ===\<newline>\<newline>''" and ?r = "(0, 0) :: reply"
  let ?c = "\<lparr>chart = hart0, lsr_reads = replicate 40 0x60, rhr_reads = [], uart_w = [], print_lk = spinlock_init ''pr'', pr_locking = True\<rparr>"
  obtain q where u: "urun initcode_main [?r] = ([(UPrint ?m, ?r)], q)"
    by (simp add: initcode_main_def useq_def prints_def ucall_def)
  have l: "length ?m = 16" by (simp add: cstr_def)
  have "j < 16 \<Longrightarrow> unat (of_nat j :: uint64) = j" for j :: nat by (simp add: unat_of_nat_small)
  then have "kstring 256 0 (\<lambda>x. if unat x < 16 then ?m ! unat x else 0) = Some ?m"
    using first_process_prints [OF u, of fresh_view ?m ?r "\<lambda>x. if unat x < 16 then ?m ! unat x else 0" 0 ?c] l
    by (simp add: spinlock_init_def tx_room_def LSR_TX_IDLE_def)
  then show ?thesis using u by blast
qed

end
