(* ===== verification/Spec2Isabelle.thy ===== *)
theory Spec2Isabelle
  imports Prelude Str Spinlock Console Bio Log Pmem Virtio Vm Kvm Fs Fsblk Fsio Path File Proc Sched Ptable Procinv Syscall Filetab
    Machine Trap Utrap User Fd Boot Uvmcopy Fork Initcode
begin

text \<open>
  Verification of easyxv6, a teaching kernel for RISC-V in C.

  \<^bold>\<open>The program.\<close> The kernel runs on one hart (\<^verbatim>\<open>NCPU\<close> is 1). \<^verbatim>\<open>kernel/boot\<close> enters machine mode, programs the
  timer, drops to supervisor mode and calls \<^verbatim>\<open>main\<close>, which initialises every component and enters the
  scheduler. Physical pages (\<^verbatim>\<open>kernel/mem/pmem.c\<close>) carry the page tables (\<^verbatim>\<open>kvm.c\<close>, \<^verbatim>\<open>uvm.c\<close>), kernel stacks and user
  memory. Processes (\<^verbatim>\<open>kernel/proc\<close>) are scheduled by priority with aging; traps (\<^verbatim>\<open>kernel/trap\<close>) bring timer and
  device interrupts and system calls (\<^verbatim>\<open>kernel/syscall\<close>) into the kernel. The file system (\<^verbatim>\<open>kernel/fs\<close>) is a stack:
  the virtio driver, the block cache, the write-ahead log, bitmap and inodes, directories and paths, open files,
  system calls on descriptors. \<^verbatim>\<open>user/initcode.c\<close> is the program of the first process, a test of the priority scheduler.

  \<^bold>\<open>Conventions.\<close> Fallible code has type \<open>'r kres\<close>, a sum of a fault and a result: \<open>Panic\<close> for \<^verbatim>\<open>panic\<close>, \<open>Spin\<close> for a busy
  loop that the code running cannot end itself (another process may end the one of \<^verbatim>\<open>begin_op\<close>, after a preemption), \<open>Undef\<close> for
  behaviour C leaves undefined. Machine integers are words of
  their width; a C \<open>int\<close> is an integer where the code keeps it in range, with the conversions (\<open>to_int\<close>) written
  out, and \<open>Undef\<close> where a pid or the negation in \<^verbatim>\<open>printint\<close> leaves the range; only the counts of references to inodes and
  files and the nesting depth of \<^verbatim>\<open>push_off\<close> are integers without this test, as \<open>2 ^ 31\<close> of them do not fit in memory. Pointers into the kernel's tables (buffers, inodes, files, processes) are indices; physical memory is a
  function from addresses to bytes, and what the code overlays on it (page tables, the free list, trap frames) is
  read and written by little-endian loads and stores. Component states are records, each extending the one of the
  component below: \<open>bio\<close> (cache and disk), \<open>lst\<close> (log), \<open>fsst\<close> (superblock, inodes), \<open>filest\<close> (open files); and \<open>pst\<close> (hart,
  memory, free pages), \<open>kst\<close> (processes, with a \<open>filest\<close> inside), \<open>sysst\<close> (ticks, console), \<open>trapst\<close> (registers, PLIC).
  Names are those of the C code; a loop has the suffix \<open>_loop\<close>, a wrapper of the user side \<open>_u\<close>. An
  operation that gives up the CPU is split at the context switch: \<open>_out\<close> is the part before, \<open>_in\<close> or \<open>_resume\<close> the part after.
  Addresses that the linker assigns are fields of \<open>ksyms\<close>.

  \<^bold>\<open>Loops and fuel.\<close> Loops over a structure are structural. Where a loop takes fuel, the caller passes a bound derived
  from the state (the number of blocks or pages of a range, the length of a ring) and the theorems about it prove
  that a result is returned, so the bound is enough: \<open>Suc NBUF\<close> steps for the ring of buffers, one step per page of a
  range for mapping and unmapping, \<open>n div BSIZE + 3\<close> blocks for reading and writing, \<open>size div 24 + 2\<close> entries for a
  directory, 128 for a path. \<open>free_chain\<close>, \<open>virtio_disk_process_used\<close>, \<open>digit_loop\<close>, \<open>pmem_init_loop\<close> have termination proofs. Polling loops of
  drivers take the answers of the device from the state or as a parameter.

  \<^bold>\<open>Theories.\<close>
  \<^item> \<open>Prelude\<close>: types, faults, sequencing, loops, loads and stores (\<^verbatim>\<open>include/common.h\<close>). \<open>Str\<close>: \<^verbatim>\<open>kernel/lib/str.c\<close>; overlapping
    \<^verbatim>\<open>memmove\<close>, names stored and compared, terminated copies.
  \<^item> \<open>Spinlock\<close>: \<^verbatim>\<open>kernel/lib/spinlock.c\<close>, \<^verbatim>\<open>kernel/proc/cpu.c\<close>; nesting of interrupt disabling, the contract of a lock.
    \<open>Console\<close>: \<^verbatim>\<open>uart.c\<close>, \<^verbatim>\<open>console.c\<close>, \<^verbatim>\<open>printf.c\<close>; \<^verbatim>\<open>printf\<close> agrees with a reference formatter.
  \<^item> \<open>Bio\<close>: \<^verbatim>\<open>kernel/fs/bio.c\<close>; the ring and its LRU order, the locale \<open>block_cache\<close> that the log relies on. \<open>Virtio\<close>:
    \<^verbatim>\<open>kernel/dev/virtio_disk.c\<close>; with a device that serves requests as the VIRTIO specification says, once it was notified of them, the driver refines
    the \<open>disk_rw\<close> of the cache. \<^verbatim>\<open>bio_init\<close> is split: \<open>bio_init\<close> sets up the ring, \<open>bio_init_disk\<close> adds the call of \<^verbatim>\<open>virtio_disk_init\<close>.
  \<^item> \<open>Log\<close>: \<^verbatim>\<open>kernel/fs/log.c\<close>; transactions are atomic under crashes after any prefix of the disk writes, and so is
    recovery. The steps of several processes on the log (\<open>op_step\<close>) show that at most one transaction is open as long as \<^verbatim>\<open>begin_op\<close> is
    not preempted, and that a preemption between its test and its increment lets two in.
  \<^item> \<open>Fs\<close>: \<^verbatim>\<open>kernel/fs/fs.c\<close>. \<open>Fsblk\<close>: inodes, bitmap and inode cache. \<open>Fsio\<close>: reading and writing files. \<open>Path\<close>: path
    names and directories. \<open>File\<close>, \<open>Filetab\<close>: \<^verbatim>\<open>kernel/fs/file.c\<close>, the typed table of open files.
  \<^item> \<open>Pmem\<close>: \<^verbatim>\<open>kernel/mem/pmem.c\<close>; the locale \<open>page_pool\<close>, pages are free or handed out. \<open>Vm\<close>: \<^verbatim>\<open>kvm.c\<close>, \<^verbatim>\<open>uvm.c\<close>; the tree of
    page-table pages, mapping, unmapping, copying from user space. \<open>Kvm\<close>: the kernel's address space. \<open>Uvmcopy\<close>: \<^verbatim>\<open>uvm_copy_pgtbl\<close>
    copies an address space page by page.
  \<^item> \<open>Proc\<close>: \<^verbatim>\<open>kernel/proc/proc.c\<close>, \<^verbatim>\<open>kernel/lib/sleeplock.c\<close>. \<open>Sched\<close>: the choice of the scheduler, aging, starvation. \<open>Ptable\<close>:
    wakeup and kill. \<open>Procinv\<close>: the invariant of the process table over all operations as a labelled step relation, and the
    state transition that each operation makes, all of them documented. \<open>Fork\<close>: \<^verbatim>\<open>proc_fork\<close> from end to end; parent and child have the same contents and share no memory, every file
    gets its references, and the rest of the kernel is unchanged.
  \<^item> \<open>Syscall\<close>: \<^verbatim>\<open>kernel/syscall\<close>, \<^verbatim>\<open>timer.c\<close>. \<open>Fd\<close>: descriptors. \<open>Machine\<close>: registers of \<^verbatim>\<open>include/riscv.h\<close>, \<^verbatim>\<open>start.c\<close>,
    \<^verbatim>\<open>plic.c\<close>. \<open>Trap\<close>: \<^verbatim>\<open>kernel/trap\<close>, timer interrupts. \<open>Utrap\<close>: system calls from trap to return. \<open>User\<close>: the wrappers of
    \<^verbatim>\<open>user/\<close>, and one call from end to end. \<open>Boot\<close>: \<^verbatim>\<open>main.c\<close>, with the state of the disk driver beside that of the
    kernel, and paging switched on.
  \<^item> \<open>Initcode\<close>: \<^verbatim>\<open>user/initcode.c\<close>. A program is a tree: a system call, and what follows each answer to it. Strings are given by
    their contents, the answers of the kernel are a parameter, a loop that only spins has no effect, and \<open>Fault\<close> is behaviour
    that C leaves undefined. A weakest precondition with an observer of the calls shows where the first process
    and its children end, and that the kernel prints their messages as they are.

  \<^bold>\<open>Interfaces.\<close> The locales state what a client needs and are interpreted on the model of the provider: \<open>block_cache\<close> by the
    operations of \<open>Bio\<close>, \<open>page_pool\<close> by those of \<open>Pmem\<close>, \<open>mutex\<close> by spin locks, \<open>observer\<close> by what a process sees of its calls; \<open>virtio_disk_rw_refines\<close> closes the stack below the cache. Frame
    lemmas (\<open>frame\<close>, \<open>rest\<close>, \<open>csim\<close>) say what an operation leaves alone.

  \<^bold>\<open>Hypotheses.\<close> The disk driver's theorem assumes a device that, when it runs after a write to its notification
  register, completes the request in the available ring and reports it in the used ring. The kernel's address space assumes that the linker aligned \<^verbatim>\<open>etext\<close> to a page. Theorems about
  file contents assume blocks that are allocated and distinct, as the allocator provides them. The theorem about fork assumes a free slot,
  a pid left, enough free pages and mapped pages up to the heap top. A process is scheduled in bounded time under the hypothesis that it keeps the smallest
  pid of the runnable processes. The first process assumes a kernel that accepts the priorities in range, reports the one in
  force and returns no smallest \<^verbatim>\<open>int\<close>; \<open>setprior_contract\<close> and \<open>child_inherits\<close> give the kernel's side of the priorities.

  \<^bold>\<open>Not modelled.\<close> The assembly (\<^verbatim>\<open>entry.S\<close>, \<^verbatim>\<open>swtch.S\<close>, \<^verbatim>\<open>trap.S\<close>, \<^verbatim>\<open>trampoline.S\<close>): its effect appears as contexts and trap
  frames that hold the saved registers. The generated image of the first program. The translation
  cache of the hart, and memory protection by the page table inside the kernel. Interleaving of several harts: there
  is one, and interrupts enter at the points where the handlers are called; a preemption inside an operation is modelled for \<^verbatim>\<open>begin_op\<close> only. The messages that \<^verbatim>\<open>fs_init\<close> prints are printed
  before its disk operations.
\<close>

end
